(* ===== verification/Naxos_Prelude.thy ===== *)
theory Naxos_Prelude
  imports Main "HOL-Library.Word"
begin

text \<open>
  What every theory of the development shares: the integer types of
  \<^verbatim>\<open>internal_types.hpp\<close> (lines 116 to 119) at their width, the faults
  a C++ statement can end in, the two ways the code reads a
  \<^verbatim>\<open>std::vector\<close> slot, and the generic lemmas on words and lists.

  A slot number is a \<open>nat\<close>: the code keeps it in a 64-bit counter that starts
  at 0 and grows by one per proposal, and it walks its vectors with \<^verbatim>\<open>int\<close>
  counters, so the model speaks of runs with fewer than \<open>2 ^ 31\<close> slots. Ballots
  and value ids pack a node id into their low 16 bits and are kept as words.
\<close>

section \<open>Integer types\<close>

type_synonym node_id = "16 word"
type_synonym slot_id = nat
type_synonym ballot_id = "64 word"
type_synonym value_id = "64 word"

text \<open>Facts about the well-formedness of a component's state.\<close>

named_theorems naxos_ok

text \<open>Defining equations of operations that a component proof unfolds.\<close>

named_theorems naxos_op

section \<open>Faults\<close>

text \<open>
  What the model answers where the C++ program has undefined behaviour, crashes or
  throws: a null pointer is dereferenced, a vector is read out of range, the
  front of an empty queue is read, a third-party call throws, an integer is divided by
  zero, or the standard library throws (the argument of a conversion is no number, or a
  length is negative).
\<close>

datatype fault = Null_deref | Out_of_range | Empty_front | Bad_message | Foreign_exception
  | Division_by_zero | Std_exception

type_synonym 'a res = "fault + 'a"

definition res_bind :: "'a res \<Rightarrow> ('a \<Rightarrow> 'b res) \<Rightarrow> 'b res" where
  "res_bind r f = (case r of Inl e \<Rightarrow> Inl e | Inr x \<Rightarrow> f x)"

lemma res_bind_simps [simp]:
  "res_bind (Inl e) f = Inl e"
  "res_bind (Inr x) f = f x"
  by (simp_all add: res_bind_def)

lemma map_sum_Inr_iff: "map_sum id f r = Inr y \<longleftrightarrow> (\<exists>x. r = Inr x \<and> f x = y)"
  by (cases r) auto

lemma map_sum_Inl_iff: "map_sum id f r = Inl e \<longleftrightarrow> r = Inl e"
  by (cases r) auto

lemma res_bind_Inr_iff:
  "res_bind r f = Inr y \<longleftrightarrow> (\<exists>x. r = Inr x \<and> f x = Inr y)"
  by (cases r) simp_all

lemma res_bind_assoc [simp]:
  "res_bind (res_bind r f) g = res_bind r (\<lambda>x. res_bind (f x) g)"
  by (cases r) simp_all

text \<open>\<open>v[i]\<close> on a \<^verbatim>\<open>std::vector\<close>: undefined behaviour out of range.\<close>

definition vec_at :: "'a list \<Rightarrow> nat \<Rightarrow> 'a res" where
  "vec_at xs i = (if i < length xs then Inr (xs ! i) else Inl Out_of_range)"

lemma vec_at_Inr [simp]: "i < length xs \<Longrightarrow> vec_at xs i = Inr (xs ! i)"
  by (simp add: vec_at_def)

lemma vec_at_Inr_iff: "vec_at xs i = Inr x \<longleftrightarrow> i < length xs \<and> x = xs ! i"
  by (auto simp: vec_at_def)

text \<open>\<open>p->m\<close> on a pointer: undefined behaviour on null.\<close>

definition deref :: "'a option \<Rightarrow> 'a res" where
  "deref p = (case p of None \<Rightarrow> Inl Null_deref | Some x \<Rightarrow> Inr x)"

lemma deref_simps [simp]:
  "deref None = Inl Null_deref"
  "deref (Some x) = Inr x"
  by (simp_all add: deref_def)

lemma deref_Inr_iff: "deref p = Inr x \<longleftrightarrow> p = Some x"
  by (cases p) simp_all

section \<open>Words that pack a node id\<close>

lemma unat_ucast_16_64 [simp]: "unat (ucast (n :: 16 word) :: 64 word) = unat n"
proof -
  have "unat n < 2 ^ 16" using unsigned_less [of n] by simp
  then have "unat n < 2 ^ 64" by simp
  then show ?thesis by (simp add: unsigned_ucast_eq take_bit_nat_eq_self)
qed

lemma ucast_16_32_16 [simp]: "ucast (ucast (n :: 16 word) :: 32 word) = n"
  by (simp add: ucast_down_ucast_id is_down)

lemma ucast_16_64_16 [simp]: "ucast (ucast (n :: 16 word) :: 64 word) = n"
  by (simp add: ucast_down_ucast_id is_down)

lemma unat_ucast_64_16: "unat (ucast (b :: 64 word) :: 16 word) = unat b mod 2 ^ 16"
  by (simp add: unsigned_ucast_eq take_bit_eq_mod)

lemma ucast_add_64_16:
  "ucast ((a :: 64 word) + b) = (ucast a + ucast b :: 16 word)"
proof -
  have "unat (ucast (a + b) :: 16 word) = unat (ucast a + ucast b :: 16 word)"
    by (simp add: unat_ucast_64_16 unat_word_ariths mod_mod_cancel mod_simps)
  then show ?thesis by (rule unsigned_word_eqI)
qed

lemma ucast_shift_16 [simp]: "ucast (65536 :: 64 word) = (0 :: 16 word)"
  by simp

lemma block_eq_iff:
  assumes "x < m" and "y < m"
  shows "m * j + x = m * k + y \<longleftrightarrow> j = k \<and> x = (y :: nat)"
proof
  assume eq: "m * j + x = m * k + y"
  have "(m * j + x) div m = j" "(m * k + y) div m = k"
    using assms by simp_all
  then have "j = k" using eq by simp
  then show "j = k \<and> x = y" using eq by simp
qed simp

section \<open>Lists\<close>

lemma length_filter_card:
  assumes "distinct (map fst xs)"
  shows "length (filter (\<lambda>p. P (snd p)) xs) = card {k. \<exists>v. (k, v) \<in> set xs \<and> P v}"
proof -
  have "distinct (map fst (filter (\<lambda>p. P (snd p)) xs))"
    using assms by (simp add: distinct_map_filter)
  then have "length (filter (\<lambda>p. P (snd p)) xs)
      = card (set (map fst (filter (\<lambda>p. P (snd p)) xs)))"
    by (metis distinct_card length_map)
  also have "set (map fst (filter (\<lambda>p. P (snd p)) xs)) = {k. \<exists>v. (k, v) \<in> set xs \<and> P v}"
    by force
  finally show ?thesis .
qed

section \<open>Decimal numerals, as std::to_string prints them\<close>

fun decimal :: "nat \<Rightarrow> string" where
  "decimal n = (if n < 10 then [char_of (48 + n)]
     else decimal (n div 10) @ [char_of (48 + n mod 10)])"

declare decimal.simps [simp del]

text \<open>Reading the digits back.\<close>

definition digit_value :: "char \<Rightarrow> nat" where
  "digit_value c = of_char c - 48"

definition undecimal :: "string \<Rightarrow> nat" where
  "undecimal s = foldl (\<lambda>n c. 10 * n + digit_value c) 0 s"

lemma digit_value_char_of: "d < 10 \<Longrightarrow> digit_value (char_of (48 + d)) = d"
  by (simp add: digit_value_def of_char_of)

lemma undecimal_decimal: "undecimal (decimal n) = n"
proof (induction n rule: decimal.induct)
  case (1 n)
  show ?case
  proof (cases "n < 10")
    case True
    then show ?thesis
      by (subst decimal.simps) (simp add: undecimal_def digit_value_char_of)
  next
    case False
    then have "undecimal (decimal (n div 10)) = n div 10"
      using "1.IH" by simp
    with False show ?thesis
      by (subst decimal.simps) (simp add: undecimal_def digit_value_char_of)
  qed
qed

lemma decimal_inj: "decimal m = decimal n \<longleftrightarrow> m = n"
  by (metis undecimal_decimal)

end
