(* ===== verification/Std_Containers.thy ===== *)
theory Std_Containers
  imports Naxos_Prelude
begin

text \<open>
  The containers of the C++ standard library the program keeps its state in, with
  their documented behaviour: \<^verbatim>\<open>std::map\<close> and \<^verbatim>\<open>std::set\<close> iterate in
  ascending key order, so they are lists sorted strictly by key; \<^verbatim>\<open>std::queue\<close> and
  \<^verbatim>\<open>std::deque\<close> are lists. Each interface is a locale that states what its clients
  rely on, proves the consequences once, and is interpreted on the representation.
\<close>

section \<open>std::map as a list sorted by key\<close>

fun map_put :: "'k::linorder \<Rightarrow> 'v \<Rightarrow> ('k \<times> 'v) list \<Rightarrow> ('k \<times> 'v) list" where
  "map_put k v [] = [(k, v)]"
| "map_put k v ((k', v') # xs) =
     (if k < k' then (k, v) # (k', v') # xs
      else if k = k' then (k, v) # xs
      else (k', v') # map_put k v xs)"

definition map_find :: "('k \<times> 'v) list \<Rightarrow> 'k \<rightharpoonup> 'v" where
  "map_find xs = map_of xs"

definition map_erase :: "'k \<Rightarrow> ('k \<times> 'v) list \<Rightarrow> ('k \<times> 'v) list" where
  "map_erase k xs = filter (\<lambda>p. fst p \<noteq> k) xs"

definition map_ok :: "('k::linorder \<times> 'v) list \<Rightarrow> bool" where
  "map_ok xs \<longleftrightarrow> sorted_wrt (<) (map fst xs)"

lemma map_ok_simps [simp]:
  "map_ok []"
  "map_ok ((k, v) # xs) \<longleftrightarrow> (\<forall>k' \<in> fst ` set xs. k < k') \<and> map_ok xs"
  by (auto simp: map_ok_def)

lemma map_ok_distinct: "map_ok xs \<Longrightarrow> distinct (map fst xs)"
  unfolding map_ok_def by (simp add: strict_sorted_iff)

lemma fst_set_map_put: "fst ` set (map_put k v xs) = insert k (fst ` set xs)"
  by (induction k v xs rule: map_put.induct) auto

lemma map_ok_put: "map_ok xs \<Longrightarrow> map_ok (map_put k v xs)"
  by (induction k v xs rule: map_put.induct) (auto simp: fst_set_map_put)

lemma map_ok_erase: "map_ok xs \<Longrightarrow> map_ok (map_erase k xs)"
  by (induction xs) (auto simp: map_erase_def)

lemma map_find_put: "map_ok xs \<Longrightarrow> map_find (map_put k v xs) = (map_find xs)(k \<mapsto> v)"
  unfolding map_find_def by (induction k v xs rule: map_put.induct) (auto simp: fun_eq_iff)

lemma map_find_erase: "map_find (map_erase k xs) = (map_find xs)(k := None)"
  unfolding map_find_def map_erase_def by (induction xs) (auto simp: fun_eq_iff)

lemma length_map_find: "map_ok xs \<Longrightarrow> length xs = card (dom (map_find xs))"
  unfolding map_find_def dom_map_of_conv_image_fst
  by (metis length_map map_ok_distinct distinct_card set_map)

locale std_map =
  fixes mempty :: "'m"
    and mput :: "'k \<Rightarrow> 'v \<Rightarrow> 'm \<Rightarrow> 'm"
    and merase :: "'k \<Rightarrow> 'm \<Rightarrow> 'm"
    and mfind :: "'m \<Rightarrow> 'k \<rightharpoonup> 'v"
    and msize :: "'m \<Rightarrow> nat"
    and mok :: "'m \<Rightarrow> bool"
  assumes find_empty: "mfind mempty = Map.empty"
    and find_put: "mok m \<Longrightarrow> mfind (mput k v m) = (mfind m)(k \<mapsto> v)"
    and find_erase: "mok m \<Longrightarrow> mfind (merase k m) = (mfind m)(k := None)"
    and size_dom: "mok m \<Longrightarrow> msize m = card (dom (mfind m))"
    and finite_dom: "mok m \<Longrightarrow> finite (dom (mfind m))"
    and ok_empty: "mok mempty"
    and ok_put: "mok m \<Longrightarrow> mok (mput k v m)"
    and ok_erase: "mok m \<Longrightarrow> mok (merase k m)"
begin

lemma size_empty: "msize mempty = 0"
  by (simp add: size_dom ok_empty find_empty)

lemma size_put:
  "mok m \<Longrightarrow> msize (mput k v m) = (if mfind m k = None then Suc (msize m) else msize m)"
  by (auto simp: size_dom ok_put find_put finite_dom insert_absorb domIff)

lemma size_erase:
  "mok m \<Longrightarrow> msize (merase k m) = (if mfind m k = None then msize m else msize m - 1)"
  by (auto simp: size_dom ok_erase find_erase card_Diff_singleton_if domIff)

lemma size_erase_put_new:
  assumes "mok m" and "mfind m k = Some v" and "mfind m k' = None"
  shows "msize (mput k' v' (merase k m)) = msize m"
proof -
  have "0 < msize m"
    using assms by (auto simp: size_dom finite_dom card_gt_0_iff)
  moreover have "mfind (merase k m) k' = None"
    using assms by (auto simp: find_erase)
  ultimately show ?thesis
    using assms by (simp add: size_put ok_erase size_erase)
qed

lemma size_le_universe:
  assumes "mok m" and "finite U" and "dom (mfind m) \<subseteq> U"
  shows "msize m \<le> card U"
  using assms by (simp add: size_dom card_mono)

end

interpretation amap: std_map "[]" map_put map_erase map_find length map_ok
proof unfold_locales
  fix m :: "('a::linorder \<times> 'b) list"
  show "finite (dom (map_find m))"
    by (simp add: map_find_def finite_dom_map_of)
qed (simp_all add: map_find_put map_find_erase length_map_find map_ok_put map_ok_erase,
     simp add: map_find_def)

declare amap.find_put [simp] amap.find_erase [simp] amap.ok_put [simp] amap.ok_erase [simp]
declare amap.find_empty [simp]

lemma map_erase_put: "map_ok xs \<Longrightarrow> map_erase k (map_put k v xs) = map_erase k xs"
proof (induction k v xs rule: map_put.induct)
  case (2 k v k' v' xs)
  have "filter (\<lambda>p. fst p \<noteq> k) xs = xs" if "k < k'"
    using 2 that by (intro filter_True) force
  then show ?case
    using 2 by (auto simp: map_erase_def)
qed (simp add: map_erase_def)

lemma map_find_in_set: "map_ok xs \<Longrightarrow> map_find xs k = Some v \<longleftrightarrow> (k, v) \<in> set xs"
  unfolding map_find_def by (simp add: map_ok_distinct)

section \<open>std::set as a strictly sorted list\<close>

definition set_ok :: "'a::linorder list \<Rightarrow> bool" where
  "set_ok xs \<longleftrightarrow> sorted xs \<and> distinct xs"

definition set_find :: "'a \<Rightarrow> 'a list \<Rightarrow> bool" where
  "set_find x xs \<longleftrightarrow> x \<in> set xs"

definition set_emplace :: "'a::linorder \<Rightarrow> 'a list \<Rightarrow> 'a list" where
  "set_emplace x xs = (if x \<in> set xs then xs else insort x xs)"

definition set_erase :: "'a \<Rightarrow> 'a list \<Rightarrow> 'a list" where
  "set_erase x xs = remove1 x xs"

locale std_set =
  fixes sempty :: "'s"
    and semplace :: "'a \<Rightarrow> 's \<Rightarrow> 's"
    and serase :: "'a \<Rightarrow> 's \<Rightarrow> 's"
    and sfind :: "'a \<Rightarrow> 's \<Rightarrow> bool"
    and elems :: "'s \<Rightarrow> 'a list"
    and sok :: "'s \<Rightarrow> bool"
  assumes elems_empty: "elems sempty = []"
    and set_elems_emplace: "sok s \<Longrightarrow> set (elems (semplace x s)) = insert x (set (elems s))"
    and set_elems_erase: "sok s \<Longrightarrow> set (elems (serase x s)) = set (elems s) - {x}"
    and find_elems: "sok s \<Longrightarrow> sfind x s \<longleftrightarrow> x \<in> set (elems s)"
    and distinct_elems: "sok s \<Longrightarrow> distinct (elems s)"
    and sok_empty: "sok sempty"
    and sok_emplace: "sok s \<Longrightarrow> sok (semplace x s)"
    and sok_erase: "sok s \<Longrightarrow> sok (serase x s)"
begin

lemma size_emplace:
  assumes "sok s"
  shows "length (elems (semplace x s))
    = (if sfind x s then length (elems s) else Suc (length (elems s)))"
proof -
  have "length (elems (semplace x s)) = card (insert x (set (elems s)))"
    using assms by (metis distinct_card distinct_elems set_elems_emplace sok_emplace)
  then show ?thesis
    using assms by (simp add: find_elems distinct_elems distinct_card insert_absorb)
qed

lemma size_erase:
  assumes "sok s"
  shows "length (elems (serase x s))
    = (if sfind x s then length (elems s) - 1 else length (elems s))"
proof -
  have "length (elems (serase x s)) = card (set (elems s) - {x})"
    using assms by (metis distinct_card distinct_elems set_elems_erase sok_erase)
  then show ?thesis
    using assms by (simp add: find_elems distinct_elems distinct_card card_Diff_singleton_if)
qed

text \<open>Replacing a member by a non-member keeps the size: the quorum changes rely on it.\<close>

lemma size_swap:
  assumes "sok s" and "sfind x s" and "\<not> sfind y s" and "x \<noteq> y"
  shows "length (elems (semplace y (serase x s))) = length (elems s)"
proof -
  have "0 < length (elems s)"
    using assms by (auto simp: find_elems length_pos_if_in_set)
  moreover have "\<not> sfind y (serase x s)"
    using assms by (auto simp: find_elems set_elems_erase sok_erase)
  ultimately show ?thesis
    using assms by (simp add: size_emplace sok_erase size_erase)
qed

end

interpretation aset: std_set "[]" set_emplace set_erase set_find "\<lambda>xs. xs" set_ok
  by unfold_locales
     (auto simp: set_ok_def set_emplace_def set_erase_def set_find_def set_insort_key
        sorted_insort distinct_insort sorted_remove1)

section \<open>std::queue as a list\<close>

definition queue_push :: "'a \<Rightarrow> 'a list \<Rightarrow> 'a list" where
  "queue_push x q = q @ [x]"

definition queue_front :: "'a list \<Rightarrow> 'a res" where
  "queue_front q = (case q of [] \<Rightarrow> Inl Empty_front | x # _ \<Rightarrow> Inr x)"

definition queue_pop :: "'a list \<Rightarrow> 'a list" where
  "queue_pop q = tl q"

lemma queue_simps [simp]:
  "queue_front [] = Inl Empty_front"
  "queue_front (x # q) = Inr x"
  "queue_pop (x # q) = q"
  "queue_push x [] = [x]"
  "queue_push x (y # q) = y # queue_push x q"
  "length (queue_push x q) = Suc (length q)"
  "queue_push x q \<noteq> []"
  by (simp_all add: queue_front_def queue_pop_def queue_push_def)

locale fifo =
  fixes qempty :: "'q"
    and qpush :: "'a \<Rightarrow> 'q \<Rightarrow> 'q"
    and qfront :: "'q \<Rightarrow> 'a res"
    and qpop :: "'q \<Rightarrow> 'q"
    and qlist :: "'q \<Rightarrow> 'a list"
  assumes qlist_empty: "qlist qempty = []"
    and qlist_push: "qlist (qpush x q) = qlist q @ [x]"
    and qlist_pop: "qlist q \<noteq> [] \<Longrightarrow> qlist (qpop q) = tl (qlist q)"
    and qfront_list: "qfront q = (if qlist q = [] then Inl Empty_front else Inr (hd (qlist q)))"
begin

text \<open>The element pushed after \<open>xs\<close> comes out after exactly the elements of \<open>xs\<close>.\<close>

lemma qlist_push_all: "qlist (fold qpush xs q) = qlist q @ xs"
  by (induction xs arbitrary: q) (simp_all add: qlist_push)

lemma qlist_pop_n: "n \<le> length (qlist q) \<Longrightarrow> qlist ((qpop ^^ n) q) = drop n (qlist q)"
proof (induction n)
  case (Suc n)
  then have "qlist ((qpop ^^ n) q) = drop n (qlist q)" and "drop n (qlist q) \<noteq> []"
    by auto
  then show ?case by (simp add: qlist_pop drop_Suc tl_drop)
qed simp

lemma fifo_order:
  assumes "n < length (qlist q @ xs)"
  shows "qfront ((qpop ^^ n) (fold qpush xs q)) = Inr ((qlist q @ xs) ! n)"
proof -
  let ?q = "fold qpush xs q"
  have list: "qlist ((qpop ^^ n) ?q) = drop n (qlist q @ xs)"
    using assms qlist_pop_n [of n ?q] by (simp add: qlist_push_all)
  moreover have "drop n (qlist q @ xs) \<noteq> []"
    using assms by (metis drop_eq_Nil not_le)
  ultimately show ?thesis
    using assms by (simp only: qfront_list hd_drop_conv_nth if_False)
qed

end

interpretation lqueue: fifo "[]" queue_push queue_front queue_pop "\<lambda>q. q"
  by unfold_locales (auto simp: queue_push_def queue_pop_def queue_front_def split: list.splits)

end
