(* ===== verification/Messages.thy ===== *)
theory Messages
  imports Std_Containers
begin

text \<open>
  The data that travels between the nodes: the enumerations and messages of
  \<^verbatim>\<open>ndnpaxos.proto\<close> and the enumerations of \<^verbatim>\<open>internal_types.hpp\<close>. A
  required field is a field of the record, an optional field an \<open>option\<close>. The
  node id of a header is a protobuf \<^verbatim>\<open>uint32\<close> and a \<open>node_id\<close> only after the
  code's cast, so it keeps its 32 bits here.
\<close>

section \<open>Enumerations\<close>

datatype msg_type =
  PREPARE | PROMISE | ACCEPT | ACCEPTED | DECIDE | LEARN | TEACH | COMMIT | COMMAND

datatype cmd_type = SET_MASTER | REPLY_DECIDE | REPLY_TEACH | SET_QUORUM

datatype ack_type = DROP | NOT_ENOUGH | CONTINUE | RESTART | CHOOSE

datatype proposer_status = INIT | PHASEI | PHASEII | CHOSEN | DONE | DIE | EMPTY

fun msg_type_code :: "msg_type \<Rightarrow> nat" where
  "msg_type_code PREPARE = 0"
| "msg_type_code PROMISE = 1"
| "msg_type_code ACCEPT = 2"
| "msg_type_code ACCEPTED = 3"
| "msg_type_code DECIDE = 4"
| "msg_type_code LEARN = 5"
| "msg_type_code TEACH = 6"
| "msg_type_code COMMIT = 7"
| "msg_type_code COMMAND = 8"

text \<open>
  The inverse, as the \<^verbatim>\<open>switch\<close> of \<^verbatim>\<open>Commo::deal_msg\<close> reads a type number:
  a number that no \<^verbatim>\<open>case\<close> names leaves the message pointer null.
\<close>

definition msg_type_of_code :: "int \<Rightarrow> msg_type option" where
  "msg_type_of_code n =
     (if n = 0 then Some PREPARE else if n = 1 then Some PROMISE
      else if n = 2 then Some ACCEPT else if n = 3 then Some ACCEPTED
      else if n = 4 then Some DECIDE else if n = 5 then Some LEARN
      else if n = 6 then Some TEACH else if n = 7 then Some COMMIT
      else if n = 8 then Some COMMAND else None)"

lemma msg_type_of_code_code [simp]: "msg_type_of_code (int (msg_type_code t)) = Some t"
  by (cases t) (simp_all add: msg_type_of_code_def)

lemma msg_type_of_code_Some_iff:
  "msg_type_of_code n = Some t \<longleftrightarrow> n = int (msg_type_code t)"
  by (cases t) (auto simp: msg_type_of_code_def)

lemma msg_type_code_inj: "msg_type_code s = msg_type_code t \<longleftrightarrow> s = t"
  by (cases s; cases t) simp_all

lemma msg_type_code_bound: "msg_type_code t < 9"
  by (cases t) simp_all

text \<open>A C++ enumeration is ordered by its values.\<close>

instantiation msg_type :: linorder
begin

definition less_eq_msg_type :: "msg_type \<Rightarrow> msg_type \<Rightarrow> bool" where
  "less_eq_msg_type s t \<longleftrightarrow> msg_type_code s \<le> msg_type_code t"

definition less_msg_type :: "msg_type \<Rightarrow> msg_type \<Rightarrow> bool" where
  "less_msg_type s t \<longleftrightarrow> msg_type_code s < msg_type_code t"

instance
  by standard (auto simp: less_eq_msg_type_def less_msg_type_def msg_type_code_inj)

end

section \<open>Messages\<close>

record msg_header =
  hdr_type :: msg_type
  hdr_node :: "32 word"
  hdr_slot :: slot_id

record prop_value =
  pv_id :: value_id
  pv_data :: string
  pv_cmd :: "cmd_type option"
  pv_integrity :: "bool option"

text \<open>What protobuf answers for a message field that is not set.\<close>

definition default_prop_value :: prop_value where
  "default_prop_value = \<lparr>pv_id = 0, pv_data = [], pv_cmd = None, pv_integrity = None\<rparr>"

record msg_prepare =
  pre_header :: msg_header
  pre_ballot :: ballot_id

record msg_ack_prepare =
  ackp_header :: msg_header
  ackp_ballot :: ballot_id
  ackp_reply :: bool
  ackp_max_ballot :: ballot_id
  ackp_max_value :: "prop_value option"

record msg_accept =
  acc_header :: msg_header
  acc_ballot :: ballot_id
  acc_value :: prop_value
  acc_last_slot :: "slot_id option"
  acc_last_value :: "value_id option"

record msg_ack_accept =
  acka_header :: msg_header
  acka_ballot :: ballot_id
  acka_reply :: bool

record msg_decide =
  dec_header :: msg_header
  dec_value :: value_id

record msg_learn =
  lea_header :: msg_header

record msg_teach =
  tea_header :: msg_header
  tea_value :: prop_value

record msg_commit =
  com_header :: msg_header
  com_value :: prop_value

record msg_command =
  cmd_header :: msg_header
  cmd_cmd :: cmd_type

datatype msg =
    Prepare msg_prepare
  | Ack_prepare msg_ack_prepare
  | Accept msg_accept
  | Ack_accept msg_ack_accept
  | Decide msg_decide
  | Learn msg_learn
  | Teach msg_teach
  | Commit msg_commit
  | Command msg_command

text \<open>The \<^verbatim>\<open>MsgType\<close> that the code passes next to the message.\<close>

fun type_of_msg :: "msg \<Rightarrow> msg_type" where
  "type_of_msg (Prepare _) = PREPARE"
| "type_of_msg (Ack_prepare _) = PROMISE"
| "type_of_msg (Accept _) = ACCEPT"
| "type_of_msg (Ack_accept _) = ACCEPTED"
| "type_of_msg (Decide _) = DECIDE"
| "type_of_msg (Learn _) = LEARN"
| "type_of_msg (Teach _) = TEACH"
| "type_of_msg (Commit _) = COMMIT"
| "type_of_msg (Command _) = COMMAND"

fun header_of_msg :: "msg \<Rightarrow> msg_header" where
  "header_of_msg (Prepare m) = pre_header m"
| "header_of_msg (Ack_prepare m) = ackp_header m"
| "header_of_msg (Accept m) = acc_header m"
| "header_of_msg (Ack_accept m) = acka_header m"
| "header_of_msg (Decide m) = dec_header m"
| "header_of_msg (Learn m) = lea_header m"
| "header_of_msg (Teach m) = tea_header m"
| "header_of_msg (Commit m) = com_header m"
| "header_of_msg (Command m) = cmd_header m"

text \<open>\<^verbatim>\<open>Captain::set_msg_header\<close>, and the same lines inside proposer and acceptor.\<close>

definition set_msg_header :: "node_id \<Rightarrow> msg_type \<Rightarrow> slot_id \<Rightarrow> msg_header" where
  "set_msg_header me t s = \<lparr>hdr_type = t, hdr_node = ucast me, hdr_slot = s\<rparr>"

lemma set_msg_header_sel [simp]:
  "hdr_type (set_msg_header me t s) = t"
  "hdr_node (set_msg_header me t s) = ucast me"
  "hdr_slot (set_msg_header me t s) = s"
  by (simp_all add: set_msg_header_def)

text \<open>\<^verbatim>\<open>(uint16_t)msg->msg_header().node_id()\<close>.\<close>

definition sender :: "msg_header \<Rightarrow> node_id" where
  "sender h = ucast (hdr_node h)"

lemma sender_set_msg_header [simp]: "sender (set_msg_header me t s) = me"
  by (simp add: sender_def)

end
