(* ===== verification/View.thy ===== *)
theory View
  imports Messages
begin

text \<open>
  \<^verbatim>\<open>view.hpp\<close> and \<^verbatim>\<open>view.cpp\<close>: the node's picture of the cluster. The
  constructor reads a YAML file with a third-party parser; the parsed
  configuration is the parameter \<open>config\<close>, the loader the parameter \<open>load\<close>,
  and \<^verbatim>\<open>boost::filesystem\<close>'s path append the parameter \<open>append_path\<close>. The shell
  commands the constructor runs are the list of command strings it returns. A
  cluster has fewer than \<open>2 ^ 16 - 1\<close> hosts (a \<open>node_id\<close> names one).
\<close>

record host_info =
  host_name :: string
  host_addr :: string

record lease_config =
  lease_master_id :: int
  lease_period :: int
  lease_length :: int

record config =
  cfg_prefix :: string
  cfg_host :: "host_info list"
  cfg_lease :: "lease_config option"
  cfg_db :: "(string \<times> string) option"

record view =
  prefix :: string
  node_id :: node_id
  quorums :: "node_id list"
  n_quorums :: "node_id list"
  host_nodes :: "host_info list"
  host_count :: nat
  master_id :: node_id
  period :: "32 word"
  lease_len :: "32 word"
  q_size :: node_id
  db_name :: string

text \<open>The build mode that \<^verbatim>\<open>MODE_TYPE\<close> selects; only \<^verbatim>\<open>MODE_TYPE == 1\<close> differs here.\<close>

datatype mode = Mode_default | Mode_recover | Mode_single

section \<open>Constructor\<close>

text \<open>\<^verbatim>\<open>ceil((host_count + 1) / 2.0)\<close>, exact in double precision below \<open>2 ^ 53\<close>.\<close>

definition quorum_of_size :: "nat \<Rightarrow> nat" where
  "quorum_of_size n = (n + 1 + 1) div 2"

definition nfdc_register :: "string \<Rightarrow> string \<Rightarrow> string \<Rightarrow> string" where
  "nfdc_register pre name addr =
     ''nfdc register '' @ pre @ ''/'' @ name @ '' tcp://'' @ addr"

text \<open>The commands one iteration of the host loop runs.\<close>

definition host_commands :: "mode \<Rightarrow> string \<Rightarrow> node_id \<Rightarrow> nat \<Rightarrow> nat \<Rightarrow> nat \<Rightarrow> host_info \<Rightarrow> string list" where
  "host_commands mode pre me q n i h =
     (if host_addr h \<noteq> ''localhost'' then
        (if mode = Mode_recover
         then (if unat me < q \<and> unat me < i
               then [nfdc_register pre (host_name h) (host_addr h)] else [])
         else (if me = 0 \<and> 0 < i \<and> i < q
               then [nfdc_register pre (host_name h) (host_addr h)] else []))
        @ (if q \<le> unat me \<and> (of_nat i :: 64 word) = of_nat n - ucast me
           then [nfdc_register pre ''log'' (host_addr h)] else [])
      else [])"

text \<open>The host loop, from index \<open>i\<close> on: hosts, quorum members, the others, commands.\<close>

fun load_hosts :: "mode \<Rightarrow> nat \<Rightarrow> nat \<Rightarrow> host_info list \<Rightarrow> view \<times> string list \<Rightarrow> view \<times> string list" where
  "load_hosts mode n i [] (v, cmds) = (v, cmds)"
| "load_hosts mode n i (h # hs) (v, cmds) =
     load_hosts mode n (Suc i) hs
       ((if i < unat (q_size v)
         then v\<lparr>host_nodes := host_nodes v @ [h], quorums := set_emplace (of_nat i) (quorums v)\<rparr>
         else v\<lparr>host_nodes := host_nodes v @ [h], n_quorums := set_emplace (of_nat i) (n_quorums v)\<rparr>),
        cmds @ host_commands mode (prefix v) (node_id v) (unat (q_size v)) n i h)"

definition load_lease :: "lease_config option \<Rightarrow> view \<Rightarrow> view" where
  "load_lease l v = (case l of None \<Rightarrow> v
     | Some c \<Rightarrow> v\<lparr>master_id := of_int (lease_master_id c), period := of_int (lease_period c),
                   lease_len := of_int (lease_length c)\<rparr>)"

text \<open>The database branch reads \<open>host_nodes_[node_id_]\<close> before the range check below it.\<close>

definition load_db :: "(string \<Rightarrow> string \<Rightarrow> string) \<Rightarrow> (string \<times> string) option \<Rightarrow> view \<Rightarrow> view res" where
  "load_db append_path db v = (case db of None \<Rightarrow> Inr v
     | Some (path, name) \<Rightarrow>
         res_bind (vec_at (host_nodes v) (unat (node_id v))) (\<lambda>h.
           Inr (v\<lparr>db_name := append_path (append_path path (host_name h)) name\<rparr>)))"

text \<open>The member initialisers and the fields set before the host loop.\<close>

definition fresh_view :: "config \<Rightarrow> node_id \<Rightarrow> view" where
  "fresh_view config me =
     \<lparr>prefix = cfg_prefix config, node_id = me, quorums = [], n_quorums = [], host_nodes = [],
      host_count = length (cfg_host config), master_id = 0, period = 500, lease_len = 100000,
      q_size = of_nat (quorum_of_size (length (cfg_host config))), db_name = ''Lijing.db''\<rparr>"

definition View_init :: "mode \<Rightarrow> (string \<Rightarrow> config) \<Rightarrow> (string \<Rightarrow> string \<Rightarrow> string) \<Rightarrow>
    node_id \<Rightarrow> string \<Rightarrow> (view \<times> string list) res" where
  "View_init mode load append_path nid cf =
     (let me = (if cf = [] then 0 else nid);
          config = (if cf = [] then load ''config/localhost-1.yaml'' else load cf);
          n = length (cfg_host config);
          (v1, cmds) = load_hosts mode n 0 (cfg_host config)
            (fresh_view config me, [''nfd-stop; nfd-start'']);
          v2 = load_lease (cfg_lease config) v1
      in res_bind (load_db append_path (cfg_db config) v2) (\<lambda>v3.
           Inr ((if n \<le> unat (node_id v3) then v3\<lparr>node_id := 0\<rparr> else v3), cmds)))"

section \<open>Accessors and updates\<close>

definition whoami :: "view \<Rightarrow> node_id" where
  "whoami v = node_id v"

definition if_master :: "view \<Rightarrow> bool" where
  "if_master v \<longleftrightarrow> node_id v = master_id v"

definition if_quorum :: "view \<Rightarrow> bool" where
  "if_quorum v \<longleftrightarrow> set_find (node_id v) (quorums v)"

definition set_master :: "node_id \<Rightarrow> view \<Rightarrow> view" where
  "set_master n v = v\<lparr>master_id := n\<rparr>"

definition hostname :: "view \<Rightarrow> node_id \<Rightarrow> string res" where
  "hostname v n = res_bind (vec_at (host_nodes v) (unat n)) (\<lambda>h. Inr (host_name h))"

definition address :: "view \<Rightarrow> node_id \<Rightarrow> string res" where
  "address v n = res_bind (vec_at (host_nodes v) (unat n)) (\<lambda>h. Inr (host_addr h))"

definition my_hostname :: "view \<Rightarrow> string res" where
  "my_hostname v = hostname v (node_id v)"

definition my_address :: "view \<Rightarrow> string res" where
  "my_address v = address v (node_id v)"

definition nodes_size :: "view \<Rightarrow> nat" where
  "nodes_size v = host_count v"

definition quorum_size :: "view \<Rightarrow> node_id" where
  "quorum_size v = q_size v"

definition add_quorums :: "node_id \<Rightarrow> view \<Rightarrow> view" where
  "add_quorums n v =
     (if \<not> set_find n (quorums v) then v\<lparr>quorums := set_emplace n (quorums v)\<rparr> else v)"

definition remove_quorums :: "node_id \<Rightarrow> view \<Rightarrow> view" where
  "remove_quorums n v =
     (if set_find n (quorums v) then v\<lparr>quorums := set_erase n (quorums v)\<rparr> else v)"

definition add_n_quorums :: "node_id \<Rightarrow> view \<Rightarrow> view" where
  "add_n_quorums n v =
     (if \<not> set_find n (n_quorums v) then v\<lparr>n_quorums := set_emplace n (n_quorums v)\<rparr> else v)"

definition remove_n_quorums :: "node_id \<Rightarrow> view \<Rightarrow> view" where
  "remove_n_quorums n v =
     (if set_find n (n_quorums v) then v\<lparr>n_quorums := set_erase n (n_quorums v)\<rparr> else v)"

section \<open>What the constructor establishes\<close>

definition nodes_upto :: "nat \<Rightarrow> nat \<Rightarrow> node_id list" where
  "nodes_upto i j = map of_nat [i..<j]"

lemma unat_of_nat_node [simp]: "j < 65536 \<Longrightarrow> unat (of_nat j :: node_id) = j"
  by (simp add: unat_of_nat)

lemma set_nodes_upto:
  assumes "j \<le> 65536"
  shows "x \<in> set (nodes_upto i j) \<longleftrightarrow> i \<le> unat x \<and> unat x < j"
proof
  assume "x \<in> set (nodes_upto i j)"
  then show "i \<le> unat x \<and> unat x < j"
    using assms by (auto simp: nodes_upto_def)
next
  assume "i \<le> unat x \<and> unat x < j"
  then have "unat x \<in> {i..<j}" by simp
  then have "of_nat (unat x) \<in> (of_nat :: nat \<Rightarrow> node_id) ` {i..<j}" by (rule imageI)
  then show "x \<in> set (nodes_upto i j)"
    by (simp add: nodes_upto_def)
qed

lemma length_nodes_upto [simp]: "length (nodes_upto i j) = j - i"
  by (simp add: nodes_upto_def)

lemma set_ok_nodes_upto: "j \<le> 65536 \<Longrightarrow> set_ok (nodes_upto i j)"
proof (induction j)
  case 0
  then show ?case by (simp add: nodes_upto_def set_ok_def)
next
  case (Suc j)
  then have "set_ok (nodes_upto i j)" by simp
  moreover have "\<forall>x \<in> set (nodes_upto i j). x < of_nat j"
    using Suc.prems by (auto simp: set_nodes_upto word_less_nat_alt)
  ultimately show ?case
    using Suc.prems
    by (cases "i \<le> j") (auto simp: nodes_upto_def set_ok_def sorted_append less_imp_le)
qed

lemma emplace_nodes_upto:
  assumes "i \<le> j" and "j < 65536"
  shows "set_emplace (of_nat j) (nodes_upto i j) = nodes_upto i (Suc j)"
proof -
  have less: "x < of_nat j" if "x \<in> set (nodes_upto i j)" for x
    using that assms by (simp add: set_nodes_upto word_less_nat_alt)
  then have "of_nat j \<notin> set (nodes_upto i j)" by blast
  moreover have "insort (of_nat j) (nodes_upto i j) = nodes_upto i j @ [of_nat j]"
    using less set_ok_nodes_upto [of j i] assms
    by (intro sorted_insort_is_snoc) (auto simp: set_ok_def less_imp_le)
  ultimately show ?thesis
    using assms by (simp add: set_emplace_def nodes_upto_def)
qed

lemma load_hosts_view:
  assumes "i + length hs \<le> 65536"
    and "quorums v = nodes_upto 0 (min i (unat (q_size v)))"
    and "n_quorums v = nodes_upto (unat (q_size v)) i"
  shows "fst (load_hosts mode n i hs (v, cmds)) = v\<lparr>host_nodes := host_nodes v @ hs,
      quorums := nodes_upto 0 (min (i + length hs) (unat (q_size v))),
      n_quorums := nodes_upto (unat (q_size v)) (i + length hs)\<rparr>"
  using assms
proof (induction hs arbitrary: i v cmds)
  case Nil
  then show ?case by simp
next
  case (Cons h hs)
  let ?q = "unat (q_size v)"
  show ?case
  proof (cases "i < ?q")
    case True
    with Cons.prems have "set_emplace (of_nat i) (quorums v) = nodes_upto 0 (min (Suc i) ?q)"
      by (simp add: emplace_nodes_upto min_def)
    moreover have "nodes_upto ?q i = nodes_upto ?q (Suc i)"
      using True by (simp add: nodes_upto_def)
    ultimately show ?thesis
      using True Cons.prems by (simp add: Cons.IH)
  next
    case False
    with Cons.prems have "set_emplace (of_nat i) (n_quorums v) = nodes_upto ?q (Suc i)"
      by (simp add: emplace_nodes_upto)
    moreover have "min i ?q = min (Suc i) ?q"
      using False by simp
    ultimately show ?thesis
      using False Cons.prems by (simp add: Cons.IH)
  qed
qed

lemma unat_quorum_word [simp]:
  "n < 65536 \<Longrightarrow> unat (of_nat (quorum_of_size n) :: node_id) = quorum_of_size n"
  by (rule unat_of_nat_node) (simp add: quorum_of_size_def)

lemma load_hosts_fresh:
  assumes "n = length (cfg_host config)" and "n < 65536"
  shows "fst (load_hosts mode n 0 (cfg_host config) (fresh_view config me, cmds))
    = (fresh_view config me)\<lparr>host_nodes := cfg_host config,
        quorums := nodes_upto 0 (min n (quorum_of_size n)),
        n_quorums := nodes_upto (quorum_of_size n) n\<rparr>"
  using assms by (subst load_hosts_view) (simp_all add: fresh_view_def nodes_upto_def)

lemma load_hosts_commands:
  "snd (load_hosts mode n i hs (v, cmds)) = cmds @ concat (map (\<lambda>(j, h).
      host_commands mode (prefix v) (node_id v) (unat (q_size v)) n j h) (enumerate i hs))"
  by (induction hs arbitrary: i v cmds) simp_all

lemma load_lease_sel [simp]:
  "host_nodes (load_lease l v) = host_nodes v"
  "quorums (load_lease l v) = quorums v"
  "n_quorums (load_lease l v) = n_quorums v"
  "host_count (load_lease l v) = host_count v"
  "q_size (load_lease l v) = q_size v"
  "node_id (load_lease l v) = node_id v"
  "prefix (load_lease l v) = prefix v"
  by (simp_all add: load_lease_def split: option.splits)

lemma quorum_of_size_bounds:
  "n < 2 * quorum_of_size n"
  "0 < n \<Longrightarrow> quorum_of_size n \<le> n"
  by (simp_all add: quorum_of_size_def)

text \<open>
  A view that fits its cluster: the two sets are disjoint sets of hosts, the quorum set has
  at least the \<open>q_size\<close> members that make a majority, and the node is one of the hosts.
\<close>

definition view_ok :: "view \<Rightarrow> bool" where
  "view_ok v \<longleftrightarrow> set_ok (quorums v) \<and> set_ok (n_quorums v)
     \<and> set (quorums v) \<inter> set (n_quorums v) = {}
     \<and> set (quorums v) \<union> set (n_quorums v) \<subseteq> {x. unat x < host_count v}
     \<and> unat (q_size v) \<le> length (quorums v)
     \<and> unat (q_size v) = quorum_of_size (host_count v)
     \<and> length (host_nodes v) = host_count v
     \<and> unat (node_id v) < host_count v"

lemma view_ok_quorum_member: "view_ok v \<Longrightarrow> x \<in> set (quorums v) \<Longrightarrow> unat x < host_count v"
  unfolding view_ok_def by blast

lemma load_db_sel:
  assumes "load_db ap db v = Inr v'"
  shows "\<exists>d. v' = v\<lparr>db_name := d\<rparr>"
  using assms
  by (cases v) (auto simp: load_db_def res_bind_Inr_iff split: option.splits prod.splits)

lemma view_ok_constructed:
  assumes "quorums v = nodes_upto 0 (quorum_of_size n)"
    and "n_quorums v = nodes_upto (quorum_of_size n) n"
    and "q_size v = of_nat (quorum_of_size n)" and "host_count v = n"
    and "length (host_nodes v) = n" and "unat (node_id v) < n" and "n < 65536"
  shows "view_ok v"
proof -
  have "quorum_of_size n \<le> n"
    using assms by (intro quorum_of_size_bounds) simp
  then show ?thesis
    using assms unfolding view_ok_def
    by (auto simp: set_nodes_upto set_ok_nodes_upto)
qed

lemma View_init_cases:
  assumes "View_init mode load ap nid cf = Inr (v, cmds)"
    and "config = (if cf = [] then load ''config/localhost-1.yaml'' else load cf)"
    and "n = length (cfg_host config)" and "n < 65536"
  obtains "quorums v = nodes_upto 0 (min n (quorum_of_size n))"
    and "n_quorums v = nodes_upto (quorum_of_size n) n"
    and "q_size v = of_nat (quorum_of_size n)" and "host_count v = n"
    and "host_nodes v = cfg_host config" and "prefix v = cfg_prefix config"
    and "node_id v = (if cf = [] \<or> n \<le> unat nid then 0 else nid)"
    and "master_id v = (case cfg_lease config of None \<Rightarrow> 0 | Some l \<Rightarrow> of_int (lease_master_id l))"
proof -
  let ?me = "if cf = [] then 0 else nid"
  let ?v1 = "fst (load_hosts mode n 0 (cfg_host config)
    (fresh_view config ?me, [''nfd-stop; nfd-start'']))"
  note v1 = load_hosts_fresh [OF assms(3,4), of mode ?me "[''nfd-stop; nfd-start'']"]
  obtain v3 where v3: "load_db ap (cfg_db config) (load_lease (cfg_lease config) ?v1) = Inr v3"
    and v: "v = (if n \<le> unat (node_id v3) then v3\<lparr>node_id := 0\<rparr> else v3)"
    using assms(1) unfolding View_init_def assms(2)[symmetric] assms(3)[symmetric]
    by (force simp: Let_def res_bind_Inr_iff assms(3)[symmetric] split: prod.splits)
  obtain d where v3_sel: "v3 = (load_lease (cfg_lease config) ?v1)\<lparr>db_name := d\<rparr>"
    using load_db_sel [OF v3] by blast
  moreover have "master_id ?v1 = 0"
    unfolding v1 by (simp add: fresh_view_def)
  then have "master_id (load_lease l ?v1) = (case l of None \<Rightarrow> 0 | Some l \<Rightarrow> of_int (lease_master_id l))" for l
    by (cases l) (simp_all add: load_lease_def del: if_split)
  ultimately have "master_id v = (case cfg_lease config of None \<Rightarrow> 0 | Some l \<Rightarrow> of_int (lease_master_id l))"
    using v by simp
  then show thesis
    using v3_sel v v1 assms(3) by (intro that) (auto simp: fresh_view_def)
qed

section \<open>Quorum changes\<close>

text \<open>
  What recovery does when member \<open>old\<close> stops answering: it leaves the quorum and the
  first of the others joins (\<^verbatim>\<open>Commo::onNack\<close>, \<^verbatim>\<open>Captain::commit\<close>).
\<close>

definition replace_member :: "node_id \<Rightarrow> view \<Rightarrow> (view \<times> node_id) res" where
  "replace_member old v =
     (let v1 = remove_quorums old v in
      case n_quorums v1 of
        [] \<Rightarrow> Inl Out_of_range
      | nq # _ \<Rightarrow> Inr (remove_n_quorums nq (add_quorums nq v1), nq))"

text \<open>
  C32. The constructor, given a configuration of \<open>n\<close> hosts, establishes the view invariant:
  the quorum is exactly the first \<open>quorum_of_size n\<close> hosts, the other set the remaining
  ones, and the node id is the given one when it names a host and 0 otherwise.
\<close>

theorem View_init_ok:
  assumes "View_init mode load ap nid cf = Inr (v, cmds)"
    and "cf \<noteq> []" and "n = length (cfg_host (load cf))" and "0 < n" and "n < 65536"
  shows "view_ok v \<and> quorums v = nodes_upto 0 (quorum_of_size n)
    \<and> n_quorums v = nodes_upto (quorum_of_size n) n
    \<and> node_id v = (if unat nid < n then nid else 0)"
proof -
  have q: "quorum_of_size n \<le> n"
    using assms(4) by (rule quorum_of_size_bounds)
  show ?thesis
    using assms(1) _ assms(3,5)
  proof (rule View_init_cases)
    show "load cf = (if cf = [] then load ''config/localhost-1.yaml'' else load cf)"
      using assms(2) by simp
  next
    assume "quorums v = nodes_upto 0 (min n (quorum_of_size n))"
      and "n_quorums v = nodes_upto (quorum_of_size n) n"
      and "q_size v = of_nat (quorum_of_size n)" and "host_count v = n"
      and "host_nodes v = cfg_host (load cf)" and "prefix v = cfg_prefix (load cf)"
      and "node_id v = (if cf = [] \<or> n \<le> unat nid then 0 else nid)"
    then show ?thesis
      using q assms view_ok_constructed [of v n] by (auto simp: min_absorb2)
  qed
qed

text \<open>A three-node configuration as in \<^verbatim>\<open>config/localhost-3.yaml\<close>.\<close>

definition localhost_3 :: config where
  "localhost_3 = \<lparr>cfg_prefix = ''/ndn/thu/naxos'',
     cfg_host = [\<lparr>host_name = ''node0'', host_addr = ''localhost''\<rparr>,
                 \<lparr>host_name = ''node1'', host_addr = ''localhost''\<rparr>,
                 \<lparr>host_name = ''node2'', host_addr = ''localhost''\<rparr>],
     cfg_lease = Some \<lparr>lease_master_id = 0, lease_period = 1000, lease_length = 100000\<rparr>,
     cfg_db = Some (''ndndb'', ''gintama.db'')\<rparr>"

definition slash_append :: "string \<Rightarrow> string \<Rightarrow> string" where
  "slash_append p q = p @ ''/'' @ q"

theorem View_init_ok_witness:
  "\<exists>v cmds. View_init Mode_default (\<lambda>_. localhost_3) slash_append 1 ''c'' = Inr (v, cmds)
     \<and> view_ok v \<and> quorums v = nodes_upto 0 2"
proof -
  obtain v cmds where run: "View_init Mode_default (\<lambda>_. localhost_3) slash_append 1 ''c'' = Inr (v, cmds)"
    by (simp add: View_init_def localhost_3_def fresh_view_def load_lease_def load_db_def
        quorum_of_size_def host_commands_def)
  then have "view_ok v \<and> quorums v = nodes_upto 0 (quorum_of_size 3)"
    using View_init_ok [OF run, of 3] by (simp add: localhost_3_def)
  with run show ?thesis
    by (simp add: quorum_of_size_def)
qed

text \<open>
  With a database section in the configuration, a node id that names no host makes the
  constructor read \<open>host_nodes_\<close> out of range: the check that would reset the id to 0
  comes after that read.
\<close>

theorem View_init_db_out_of_range:
  assumes "cf \<noteq> []" and "cfg_db (load cf) \<noteq> None"
    and "length (cfg_host (load cf)) \<le> unat nid" and "length (cfg_host (load cf)) < 65536"
  shows "View_init mode load ap nid cf = Inl Out_of_range"
proof (cases "View_init mode load ap nid cf")
  case (Inl e)
  then show ?thesis
    by (auto simp: View_init_def Let_def res_bind_def load_db_def vec_at_def
        split: sum.splits option.splits prod.splits if_splits)
next
  case (Inr r)
  note loaded = load_hosts_fresh [OF refl assms(4), of mode nid "[''nfd-stop; nfd-start'']"]
  show ?thesis
    using Inr assms loaded
    by (auto simp: View_init_def Let_def load_db_def vec_at_def res_bind_Inr_iff fresh_view_def
        split: option.splits prod.splits if_splits)
qed

theorem View_init_db_out_of_range_witness:
  "View_init Mode_default (\<lambda>_. localhost_3) slash_append 7 ''c'' = Inl Out_of_range"
  by (rule View_init_db_out_of_range) (simp_all add: localhost_3_def)

lemma add_quorums_sel [simp]:
  "n_quorums (add_quorums x v) = n_quorums v" "host_count (add_quorums x v) = host_count v"
  "q_size (add_quorums x v) = q_size v" "host_nodes (add_quorums x v) = host_nodes v"
  "node_id (add_quorums x v) = node_id v" "master_id (add_quorums x v) = master_id v"
  by (simp_all add: add_quorums_def)

lemma remove_quorums_sel [simp]:
  "n_quorums (remove_quorums x v) = n_quorums v" "host_count (remove_quorums x v) = host_count v"
  "q_size (remove_quorums x v) = q_size v" "host_nodes (remove_quorums x v) = host_nodes v"
  "node_id (remove_quorums x v) = node_id v" "master_id (remove_quorums x v) = master_id v"
  by (simp_all add: remove_quorums_def)

lemma remove_n_quorums_sel [simp]:
  "quorums (remove_n_quorums x v) = quorums v"
  "host_count (remove_n_quorums x v) = host_count v"
  "q_size (remove_n_quorums x v) = q_size v" "host_nodes (remove_n_quorums x v) = host_nodes v"
  "node_id (remove_n_quorums x v) = node_id v" "master_id (remove_n_quorums x v) = master_id v"
  by (simp_all add: remove_n_quorums_def)

lemma quorums_add:
  "set_ok (quorums v) \<Longrightarrow> quorums (add_quorums x v) = set_emplace x (quorums v)"
  by (auto simp: add_quorums_def set_emplace_def set_find_def)

lemma quorums_remove: "quorums (remove_quorums x v) = set_erase x (quorums v)"
  by (auto simp: remove_quorums_def set_erase_def set_find_def remove1_idem)

lemma n_quorums_remove: "n_quorums (remove_n_quorums x v) = set_erase x (n_quorums v)"
  by (auto simp: remove_n_quorums_def set_erase_def set_find_def remove1_idem)

lemma replace_member_result:
  assumes "view_ok v" and "set_find old (quorums v)" and "n_quorums v = nq # rest"
  shows "\<exists>v'. replace_member old v = Inr (v', nq) \<and> view_ok v'
    \<and> length (quorums v') = length (quorums v)
    \<and> set (quorums v') = insert nq (set (quorums v) - {old}) \<and> n_quorums v' = rest"
proof -
  let ?v' = "remove_n_quorums nq (add_quorums nq (remove_quorums old v))"
  have ok: "set_ok (quorums v)" "set_ok (n_quorums v)"
    and disj: "set (quorums v) \<inter> set (n_quorums v) = {}"
    using assms(1) by (auto simp: view_ok_def)
  have nq: "\<not> set_find nq (quorums v)" "old \<noteq> nq"
    using disj assms(2,3) by (auto simp: set_find_def)
  have q': "quorums ?v' = set_emplace nq (set_erase old (quorums v))"
    using ok by (simp add: quorums_add quorums_remove aset.sok_erase)
  have set': "set (quorums ?v') = insert nq (set (quorums v) - {old})"
    using ok by (simp only: q' aset.set_elems_emplace aset.sok_erase aset.set_elems_erase)
  have len': "length (quorums ?v') = length (quorums v)"
    unfolding q' by (rule aset.size_swap [OF ok(1) assms(2) nq])
  have n': "n_quorums ?v' = rest"
    using assms(3) by (simp add: n_quorums_remove set_erase_def)
  have "set_ok (quorums ?v')"
    unfolding q' using ok by (intro aset.sok_emplace aset.sok_erase)
  moreover have "set_ok rest"
    using ok(2) assms(3) by (simp add: set_ok_def)
  moreover have "set (quorums ?v') \<inter> set rest = {}"
    unfolding set' using ok(2) disj assms(3) by (auto simp: set_ok_def)
  moreover have "set (quorums ?v') \<union> set rest \<subseteq> {x. unat x < host_count v}"
    unfolding set' using assms(1,3) by (auto simp: view_ok_def)
  ultimately have "view_ok ?v'"
    using assms(1) len' n' by (simp add: view_ok_def)
  moreover have "replace_member old v = Inr (?v', nq)"
    using assms(3) by (simp add: replace_member_def Let_def)
  ultimately show ?thesis
    using set' len' n' by blast
qed

text \<open>
  Replacing a quorum member that stopped answering keeps the view invariant, so the
  quorum stays a majority: the old member is out, the first non-member is in, and the size
  of the quorum is unchanged.
\<close>

theorem replace_member_ok:
  assumes "view_ok v" and "set_find old (quorums v)" and "n_quorums v = nq # rest"
  shows "\<exists>v'. replace_member old v = Inr (v', nq) \<and> view_ok v'
    \<and> length (quorums v') = length (quorums v)
    \<and> set (quorums v') = insert nq (set (quorums v) - {old}) \<and> n_quorums v' = rest"
  by (rule replace_member_result [OF assms])

definition view_3 :: "node_id \<Rightarrow> view" where
  "view_3 me = \<lparr>prefix = ''/ndn/thu/naxos'', node_id = me, quorums = [0, 1], n_quorums = [2],
     host_nodes = cfg_host localhost_3, host_count = 3, master_id = 0, period = 1000,
     lease_len = 2, q_size = 2, db_name = ''Lijing.db''\<rparr>"

lemma view_ok_view_3: "unat me < 3 \<Longrightarrow> view_ok (view_3 me)"
  by (auto simp: view_ok_def view_3_def set_ok_def quorum_of_size_def localhost_3_def)

theorem replace_member_ok_witness:
  "\<exists>v'. replace_member 1 (view_3 0) = Inr (v', 2) \<and> view_ok v' \<and> set (quorums v') = {0, 2}"
proof -
  have "\<exists>v'. replace_member 1 (view_3 0) = Inr (v', 2) \<and> view_ok v'
      \<and> length (quorums v') = length (quorums (view_3 0))
      \<and> set (quorums v') = insert 2 (set (quorums (view_3 0)) - {1}) \<and> n_quorums v' = []"
    by (rule replace_member_ok) (simp_all add: view_ok_view_3, simp_all add: view_3_def set_find_def)
  moreover have "insert 2 (set (quorums (view_3 0)) - {1}) = {0, 2}"
    by (auto simp: view_3_def)
  ultimately show ?thesis by auto
qed

end
