(* ===== verification/Acceptor.thy ===== *)
theory Acceptor
  imports View
begin

text \<open>
  \<^verbatim>\<open>acceptor.hpp\<close> and \<^verbatim>\<open>acceptor.cpp\<close>: the acceptor of one slot. Its state is the
  ballot it has promised (\<open>max_proposed_ballot\<close>), the ballot it last accepted
  (\<open>max_accepted_ballot\<close>) and the value it accepted (\<open>max_value\<close>, null at first).
  The view is only asked for the node's own id, the parameter \<open>me\<close>.
\<close>

section \<open>State and operations\<close>

record acceptor =
  max_proposed_ballot :: ballot_id
  max_accepted_ballot :: ballot_id
  max_value :: "prop_value option"

definition new_acceptor :: acceptor where
  "new_acceptor = \<lparr>max_proposed_ballot = 0, max_accepted_ballot = 0, max_value = None\<rparr>"

definition handle_msg_prepare :: "node_id \<Rightarrow> msg_prepare \<Rightarrow> acceptor \<Rightarrow> acceptor \<times> msg_ack_prepare" where
  "handle_msg_prepare me m a =
     (let ballot = pre_ballot m;
          ack = \<lparr>ackp_header = set_msg_header me PROMISE (hdr_slot (pre_header m)),
                 ackp_ballot = ballot, ackp_reply = False,
                 ackp_max_ballot = max_accepted_ballot a, ackp_max_value = None\<rparr>
      in if max_proposed_ballot a < ballot
         then (a\<lparr>max_proposed_ballot := ballot\<rparr>,
               ack\<lparr>ackp_reply := True, ackp_max_value := max_value a\<rparr>)
         else (a, ack))"

definition handle_msg_accept :: "node_id \<Rightarrow> msg_accept \<Rightarrow> acceptor \<Rightarrow> acceptor \<times> msg_ack_accept" where
  "handle_msg_accept me m a =
     (let ballot = acc_ballot m;
          ack = \<lparr>acka_header = set_msg_header me ACCEPTED (hdr_slot (acc_header m)),
                 acka_ballot = ballot, acka_reply = False\<rparr>
      in if max_proposed_ballot a \<le> ballot
         then (a\<lparr>max_proposed_ballot := ballot, max_accepted_ballot := ballot,
                 max_value :=
                   (case max_value a of
                      None \<Rightarrow> Some (acc_value m)
                    | Some v \<Rightarrow> if pv_id v \<noteq> pv_id (acc_value m) then Some (acc_value m)
                                else Some v)\<rparr>,
               ack\<lparr>acka_reply := True\<rparr>)
         else (a, ack))"

definition update_max_proposed :: "ballot_id \<Rightarrow> acceptor \<Rightarrow> acceptor" where
  "update_max_proposed b a = a\<lparr>max_proposed_ballot := b\<rparr>"

section \<open>The contract of an acceptor\<close>

text \<open>
  What the protocol relies on: which requests are granted, what a granted request does to
  the promise and to the vote, and that a refused request changes nothing. A value counts
  by its id, since the code keeps its own copy when the ids agree.
\<close>

locale acceptor_contract =
  fixes promised :: "'a \<Rightarrow> ballot_id"
    and voted :: "'a \<Rightarrow> ballot_id"
    and vote :: "'a \<Rightarrow> value_id option"
    and prep :: "ballot_id \<Rightarrow> 'a \<Rightarrow> 'a"
    and prep_ok :: "ballot_id \<Rightarrow> 'a \<Rightarrow> bool"
    and acc :: "ballot_id \<Rightarrow> prop_value \<Rightarrow> 'a \<Rightarrow> 'a"
    and acc_ok :: "ballot_id \<Rightarrow> 'a \<Rightarrow> bool"
  assumes prep_ok_iff: "prep_ok b a \<longleftrightarrow> promised a < b"
    and prep_granted: "promised a < b \<Longrightarrow> promised (prep b a) = b"
    and prep_refused: "\<not> promised a < b \<Longrightarrow> prep b a = a"
    and prep_vote: "voted (prep b a) = voted a" "vote (prep b a) = vote a"
    and acc_ok_iff: "acc_ok b a \<longleftrightarrow> promised a \<le> b"
    and acc_granted: "promised a \<le> b \<Longrightarrow>
      promised (acc b v a) = b \<and> voted (acc b v a) = b \<and> vote (acc b v a) = Some (pv_id v)"
    and acc_refused: "\<not> promised a \<le> b \<Longrightarrow> acc b v a = a"
begin

text \<open>The requests an acceptor may see, and what it does with a sequence of them.\<close>

fun step :: "ballot_id + ballot_id \<times> prop_value \<Rightarrow> 'a \<Rightarrow> 'a" where
  "step (Inl b) a = prep b a"
| "step (Inr (b, v)) a = acc b v a"

definition run :: "(ballot_id + ballot_id \<times> prop_value) list \<Rightarrow> 'a \<Rightarrow> 'a" where
  "run es a = fold step es a"

lemma step_promised_mono: "promised a \<le> promised (step e a)"
proof (cases e)
  case (Inl b)
  then show ?thesis
    by (cases "promised a < b") (simp_all add: prep_granted prep_refused)
next
  case (Inr p)
  then show ?thesis
    by (cases p; cases "promised a \<le> fst p") (simp_all add: acc_granted acc_refused)
qed

lemma run_promised_mono: "promised a \<le> promised (run es a)"
  unfolding run_def
proof (induction es arbitrary: a)
  case (Cons e es)
  have "promised a \<le> promised (step e a)" by (rule step_promised_mono)
  also have "promised (step e a) \<le> promised (fold step es (step e a))" by (rule Cons.IH)
  finally show ?case by simp
qed simp

text \<open>A vote never passes the promise, whatever is received.\<close>

lemma step_voted_le: "voted a \<le> promised a \<Longrightarrow> voted (step e a) \<le> promised (step e a)"
proof (cases e)
  case (Inl b)
  assume "voted a \<le> promised a"
  then show ?thesis
    using Inl by (cases "promised a < b") (simp_all add: prep_granted prep_refused prep_vote)
next
  case (Inr p)
  assume "voted a \<le> promised a"
  then show ?thesis
    using Inr by (cases p; cases "promised a \<le> fst p") (simp_all add: acc_granted acc_refused)
qed

lemma run_voted_le: "voted a \<le> promised a \<Longrightarrow> voted (run es a) \<le> promised (run es a)"
  unfolding run_def
  by (induction es arbitrary: a) (auto intro: step_voted_le)

text \<open>
  The promise: once \<open>b\<close> is promised, a vote that changes is a vote at \<open>b\<close> or above. So what
  a granted prepare reported about ballots below \<open>b\<close> stays true for ever.
\<close>

lemma step_vote_change:
  assumes "b \<le> promised a"
  shows "(voted (step e a) = voted a \<and> vote (step e a) = vote a) \<or> b \<le> voted (step e a)"
proof (cases e)
  case (Inl c)
  then show ?thesis by (simp add: prep_vote)
next
  case (Inr p)
  then show ?thesis
    using assms
    by (cases p; cases "promised a \<le> fst p") (auto simp: acc_granted acc_refused)
qed

lemma run_promise_kept:
  assumes "b \<le> promised a"
  shows "(voted (run es a) = voted a \<and> vote (run es a) = vote a) \<or> b \<le> voted (run es a)"
  using assms
proof (induction es rule: rev_induct)
  case Nil
  then show ?case by (simp add: run_def)
next
  case (snoc e es)
  have "b \<le> promised (run es a)"
    using snoc.prems run_promised_mono by (rule order_trans)
  then have step: "(voted (step e (run es a)) = voted (run es a) \<and>
      vote (step e (run es a)) = vote (run es a)) \<or> b \<le> voted (step e (run es a))"
    by (rule step_vote_change)
  have "run (es @ [e]) a = step e (run es a)"
    by (simp add: run_def)
  then show ?case
    using step snoc by auto
qed

end

section \<open>The code keeps the contract\<close>

abbreviation prepare_of :: "ballot_id \<Rightarrow> msg_prepare" where
  "prepare_of b \<equiv> \<lparr>pre_header = set_msg_header 0 PREPARE 0, pre_ballot = b\<rparr>"

abbreviation accept_of :: "ballot_id \<Rightarrow> prop_value \<Rightarrow> msg_accept" where
  "accept_of b v \<equiv> \<lparr>acc_header = set_msg_header 0 ACCEPT 0, acc_ballot = b, acc_value = v,
     acc_last_slot = None, acc_last_value = None\<rparr>"

lemma handle_msg_prepare_granted:
  "max_proposed_ballot a < pre_ballot m \<Longrightarrow> handle_msg_prepare me m a =
     (a\<lparr>max_proposed_ballot := pre_ballot m\<rparr>,
      \<lparr>ackp_header = set_msg_header me PROMISE (hdr_slot (pre_header m)),
       ackp_ballot = pre_ballot m, ackp_reply = True,
       ackp_max_ballot = max_accepted_ballot a, ackp_max_value = max_value a\<rparr>)"
  by (simp add: handle_msg_prepare_def Let_def)

lemma handle_msg_prepare_refused:
  "\<not> max_proposed_ballot a < pre_ballot m \<Longrightarrow> handle_msg_prepare me m a =
     (a, \<lparr>ackp_header = set_msg_header me PROMISE (hdr_slot (pre_header m)),
       ackp_ballot = pre_ballot m, ackp_reply = False,
       ackp_max_ballot = max_accepted_ballot a, ackp_max_value = None\<rparr>)"
  by (simp add: handle_msg_prepare_def Let_def)

lemma handle_msg_accept_refused:
  "\<not> max_proposed_ballot a \<le> acc_ballot m \<Longrightarrow> handle_msg_accept me m a =
     (a, \<lparr>acka_header = set_msg_header me ACCEPTED (hdr_slot (acc_header m)),
       acka_ballot = acc_ballot m, acka_reply = False\<rparr>)"
  by (simp add: handle_msg_accept_def Let_def)

lemma handle_msg_accept_granted:
  assumes "max_proposed_ballot a \<le> acc_ballot m"
  shows "\<exists>v. pv_id v = pv_id (acc_value m) \<and> (v = acc_value m \<or> max_value a = Some v)
    \<and> handle_msg_accept me m a =
      (\<lparr>max_proposed_ballot = acc_ballot m, max_accepted_ballot = acc_ballot m, max_value = Some v\<rparr>,
       \<lparr>acka_header = set_msg_header me ACCEPTED (hdr_slot (acc_header m)),
        acka_ballot = acc_ballot m, acka_reply = True\<rparr>)"
  using assms
  by (cases a; cases "max_value a") (auto simp: handle_msg_accept_def Let_def)

text \<open>The state after a handler depends only on the ballot and the value it carries.\<close>

lemma handle_state_prepare:
  "fst (handle_msg_prepare me m a) = fst (handle_msg_prepare 0 (prepare_of (pre_ballot m)) a)"
  by (simp add: handle_msg_prepare_def Let_def)

lemma handle_state_accept:
  "fst (handle_msg_accept me m a)
     = fst (handle_msg_accept 0 (accept_of (acc_ballot m) (acc_value m)) a)"
  by (simp add: handle_msg_accept_def Let_def split: option.split)

interpretation acpt: acceptor_contract max_proposed_ballot max_accepted_ballot
    "\<lambda>a. map_option pv_id (max_value a)"
    "\<lambda>b a. fst (handle_msg_prepare 0 (prepare_of b) a)"
    "\<lambda>b a. ackp_reply (snd (handle_msg_prepare 0 (prepare_of b) a))"
    "\<lambda>b v a. fst (handle_msg_accept 0 (accept_of b v) a)"
    "\<lambda>b a. \<forall>v. acka_reply (snd (handle_msg_accept 0 (accept_of b v) a))"
  by unfold_locales (auto simp: handle_msg_prepare_def handle_msg_accept_def Let_def
      split: option.splits)

section \<open>Runs of one acceptor\<close>

datatype acceptor_event = Got_prepare msg_prepare | Got_accept msg_accept

fun acceptor_step :: "node_id \<Rightarrow> acceptor_event \<Rightarrow> acceptor \<Rightarrow> acceptor" where
  "acceptor_step me (Got_prepare m) a = fst (handle_msg_prepare me m a)"
| "acceptor_step me (Got_accept m) a = fst (handle_msg_accept me m a)"

definition acceptor_run :: "node_id \<Rightarrow> acceptor_event list \<Rightarrow> acceptor \<Rightarrow> acceptor" where
  "acceptor_run me es a = fold (acceptor_step me) es a"

fun event_request :: "acceptor_event \<Rightarrow> ballot_id + ballot_id \<times> prop_value" where
  "event_request (Got_prepare m) = Inl (pre_ballot m)"
| "event_request (Got_accept m) = Inr (acc_ballot m, acc_value m)"

lemma acceptor_step_contract: "acceptor_step me e a = acpt.step (event_request e) a"
  by (cases e) (simp_all only: acceptor_step.simps event_request.simps acpt.step.simps
      handle_state_prepare [of me] handle_state_accept [of me])

lemma acceptor_run_contract: "acceptor_run me es a = acpt.run (map event_request es) a"
  unfolding acceptor_run_def acpt.run_def
  by (induction es arbitrary: a) (simp_all add: acceptor_step_contract)

text \<open>The well-formedness of an acceptor: a vote never passes the promise.\<close>

definition acceptor_ok :: "acceptor \<Rightarrow> bool" where
  "acceptor_ok a \<longleftrightarrow> max_accepted_ballot a \<le> max_proposed_ballot a
     \<and> (max_accepted_ballot a \<noteq> 0 \<longrightarrow> max_value a \<noteq> None)"

lemma acceptor_ok_init: "acceptor_ok (update_max_proposed b new_acceptor)" "acceptor_ok new_acceptor"
  by (simp_all add: acceptor_ok_def update_max_proposed_def new_acceptor_def)

lemma acceptor_ok_prepare [naxos_ok]:
  "acceptor_ok a \<Longrightarrow> acceptor_ok (fst (handle_msg_prepare me m a))"
  by (auto simp: acceptor_ok_def handle_msg_prepare_def Let_def)

lemma acceptor_ok_accept [naxos_ok]:
  "acceptor_ok a \<Longrightarrow> acceptor_ok (fst (handle_msg_accept me m a))"
  by (auto simp: acceptor_ok_def handle_msg_accept_def Let_def split: option.splits)

lemma acceptor_ok_run: "acceptor_ok a \<Longrightarrow> acceptor_ok (acceptor_run me es a)"
  unfolding acceptor_run_def
proof (induction es arbitrary: a)
  case (Cons e es)
  then show ?case by (cases e) (simp_all add: acceptor_ok_prepare acceptor_ok_accept)
qed simp

text \<open>
  C16. The promise is kept: once an acceptor has granted a prepare request for ballot \<open>b\<close>,
  every later sequence of messages leaves its vote as the promise reported it or moves it to
  a ballot of at least \<open>b\<close>; it never votes for a ballot below \<open>b\<close> again.
\<close>

theorem acceptor_promise_kept:
  assumes "handle_msg_prepare me m a = (a', ack)" and "ackp_reply ack"
  shows "(max_accepted_ballot (acceptor_run me es a') = ackp_max_ballot ack
      \<and> map_option pv_id (max_value (acceptor_run me es a')) = map_option pv_id (ackp_max_value ack))
    \<or> pre_ballot m \<le> max_accepted_ballot (acceptor_run me es a')"
proof -
  have granted: "max_proposed_ballot a < pre_ballot m"
    using assms by (auto simp: handle_msg_prepare_def Let_def split: if_splits)
  then have a': "a' = a\<lparr>max_proposed_ballot := pre_ballot m\<rparr>"
    and ack: "ackp_max_ballot ack = max_accepted_ballot a" "ackp_max_value ack = max_value a"
    using assms(1) by (auto simp: handle_msg_prepare_granted)
  have "pre_ballot m \<le> max_proposed_ballot a'"
    by (simp add: a')
  from acpt.run_promise_kept [OF this, of "map event_request es"] show ?thesis
    by (simp add: acceptor_run_contract ack a')
qed

definition value_1 :: prop_value where
  "value_1 = \<lparr>pv_id = 65536, pv_data = ''x'', pv_cmd = None, pv_integrity = None\<rparr>"

theorem acceptor_promise_kept_witness:
  "65536 \<le> max_accepted_ballot (acceptor_run 1 [Got_accept (accept_of 65537 value_1)]
      (fst (handle_msg_prepare 1 (prepare_of 65536) new_acceptor)))"
proof -
  let ?r = "handle_msg_prepare 1 (prepare_of 65536) new_acceptor"
  have r: "?r = (fst ?r, snd ?r)" and yes: "ackp_reply (snd ?r)"
    by (simp_all add: handle_msg_prepare_def Let_def new_acceptor_def)
  show ?thesis
    using acceptor_promise_kept [OF r yes, of "[Got_accept (accept_of 65537 value_1)]"]
    by (simp add: acceptor_run_def handle_msg_prepare_def handle_msg_accept_def Let_def
        new_acceptor_def)
qed

fun granted_accepts :: "node_id \<Rightarrow> acceptor_event list \<Rightarrow> acceptor \<Rightarrow> msg_accept list" where
  "granted_accepts me [] a = []"
| "granted_accepts me (e # es) a =
     (case e of
        Got_prepare _ \<Rightarrow> []
      | Got_accept m \<Rightarrow> if acka_reply (snd (handle_msg_accept me m a)) then [m] else [])
     @ granted_accepts me es (acceptor_step me e a)"

lemma granted_accepts_sorted:
  "sorted (map acc_ballot (granted_accepts me es a))
    \<and> (\<forall>m \<in> set (granted_accepts me es a). max_proposed_ballot a \<le> acc_ballot m)"
proof (induction es arbitrary: a)
  case (Cons e es)
  let ?a = "acceptor_step me e a"
  have le: "max_proposed_ballot a \<le> max_proposed_ballot ?a"
    unfolding acceptor_step_contract by (rule acpt.step_promised_mono)
  show ?case
  proof (cases "\<exists>m. e = Got_accept m \<and> acka_reply (snd (handle_msg_accept me m a))")
    case True
    then obtain m where m: "e = Got_accept m" "max_proposed_ballot a \<le> acc_ballot m"
      by (auto simp: handle_msg_accept_def Let_def split: if_splits)
    then have "max_proposed_ballot ?a = acc_ballot m"
      by (simp add: handle_msg_accept_def Let_def)
    with m True show ?thesis
      using Cons.IH [of ?a] by auto
  next
    case False
    then have "granted_accepts me (e # es) a = granted_accepts me es ?a"
      by (auto split: acceptor_event.splits)
    then show ?thesis
      using Cons.IH [of ?a] le by (auto intro: order_trans)
  qed
qed simp

lemma granted_accepts_last:
  "(case granted_accepts me es a of
      [] \<Rightarrow> max_accepted_ballot (acceptor_run me es a) = max_accepted_ballot a
            \<and> map_option pv_id (max_value (acceptor_run me es a)) = map_option pv_id (max_value a)
    | gs \<Rightarrow> max_accepted_ballot (acceptor_run me es a) = acc_ballot (last gs)
            \<and> map_option pv_id (max_value (acceptor_run me es a)) = Some (pv_id (acc_value (last gs))))"
proof (induction es arbitrary: a)
  case Nil
  then show ?case by (simp add: acceptor_run_def)
next
  case (Cons e es)
  let ?a = "acceptor_step me e a"
  have run: "acceptor_run me (e # es) a = acceptor_run me es ?a"
    by (simp add: acceptor_run_def)
  show ?case
  proof (cases "\<exists>m. e = Got_accept m \<and> acka_reply (snd (handle_msg_accept me m a))")
    case True
    then obtain m where m: "e = Got_accept m" "max_proposed_ballot a \<le> acc_ballot m"
      by (auto simp: handle_msg_accept_def Let_def split: if_splits)
    then have "max_accepted_ballot ?a = acc_ballot m"
      and "map_option pv_id (max_value ?a) = Some (pv_id (acc_value m))"
      using handle_msg_accept_granted [OF m(2), of me] by auto
    with m True show ?thesis
      using Cons.IH [of ?a] unfolding run by (auto split: list.splits)
  next
    case False
    then have "granted_accepts me (e # es) a = granted_accepts me es ?a"
      by (auto split: acceptor_event.splits)
    moreover have "max_accepted_ballot ?a = max_accepted_ballot a"
      and "max_value ?a = max_value a"
      using False by (cases e; auto simp: handle_msg_prepare_def handle_msg_accept_def Let_def)+
    ultimately show ?thesis
      using Cons.IH [of ?a] unfolding run by (simp only:)
  qed
qed

text \<open>
  The state of an acceptor is its history: after any sequence of messages, its vote is the
  last accept request it granted, and that request has the largest ballot of all it granted.
\<close>

theorem acceptor_state_is_history:
  "(granted_accepts me es a \<noteq> [] \<longrightarrow>
      max_accepted_ballot (acceptor_run me es a)
        = Max (acc_ballot ` set (granted_accepts me es a))
      \<and> map_option pv_id (max_value (acceptor_run me es a))
        = Some (pv_id (acc_value (last (granted_accepts me es a)))))
    \<and> (granted_accepts me es a = [] \<longrightarrow>
      max_accepted_ballot (acceptor_run me es a) = max_accepted_ballot a
      \<and> map_option pv_id (max_value (acceptor_run me es a)) = map_option pv_id (max_value a))"
proof (cases "granted_accepts me es a = []")
  case True
  then show ?thesis
    using granted_accepts_last [of me es a] by simp
next
  case False
  let ?gs = "granted_accepts me es a"
  obtain hs g where gs: "?gs = hs @ [g]"
    using False by (metis rev_exhaust)
  have "sorted (map acc_ballot ?gs)"
    using granted_accepts_sorted by blast
  then have "\<forall>m \<in> set ?gs. acc_ballot m \<le> acc_ballot (last ?gs)"
    unfolding gs by (auto simp: sorted_append)
  then have "Max (acc_ballot ` set ?gs) = acc_ballot (last ?gs)"
    using False by (intro Max_eqI) auto
  then show ?thesis
    using False granted_accepts_last [of me es a] by (auto split: list.splits)
qed

theorem acceptor_state_is_history_witness:
  "max_accepted_ballot (acceptor_run 1
      [Got_accept (accept_of 65536 value_1), Got_prepare (prepare_of 131072),
       Got_accept (accept_of 65537 value_1)] new_acceptor) = 65536"
  using acceptor_state_is_history [of 1
      "[Got_accept (accept_of 65536 value_1), Got_prepare (prepare_of 131072),
        Got_accept (accept_of 65537 value_1)]" new_acceptor]
  by (simp add: handle_msg_accept_def handle_msg_prepare_def Let_def new_acceptor_def)

end
