(* ===== verification/Proposer.thy ===== *)
theory Proposer
  imports Acceptor
begin

text \<open>
  \<^verbatim>\<open>proposer.hpp\<close> and \<^verbatim>\<open>proposer.cpp\<close>: the proposer of one slot. It owns a ballot
  (\<open>curr_ballot\<close>), the value it was asked to commit (\<open>init_value\<close>), the value it is
  proposing (\<open>curr_value\<close>, null in phase I), the highest vote it has been told of
  (\<open>max_ballot\<close>, \<open>max_prop\<close>) and the replies to the current ballot, one per node. The
  pointers of the source are never written through after they are stored, so a pointer is
  an \<open>option\<close> of the value it points to.
\<close>

section \<open>State and operations\<close>

record proposer =
  init_value :: prop_value
  curr_ballot :: ballot_id
  curr_value :: "prop_value option"
  max_ballot :: ballot_id
  max_prop :: "prop_value option"
  ack_prepares :: "(node_id \<times> msg_ack_prepare) list"
  ack_accepts :: "(node_id \<times> msg_ack_accept) list"
  qr :: node_id
  qw :: node_id

definition new_proposer :: "view \<Rightarrow> prop_value \<Rightarrow> proposer" where
  "new_proposer v value =
     \<lparr>init_value = value, curr_ballot = 0, curr_value = None, max_ballot = 0, max_prop = None,
      ack_prepares = [], ack_accepts = [], qr = quorum_size v, qw = quorum_size v\<rparr>"

definition gen_next_ballot :: "node_id \<Rightarrow> proposer \<Rightarrow> proposer" where
  "gen_next_ballot me p =
     (if curr_ballot p = 0 then p\<lparr>curr_ballot := curr_ballot p + 65536 + ucast me\<rparr>
      else p\<lparr>curr_ballot := curr_ballot p + 65536\<rparr>)"

definition msg_prepare :: "node_id \<Rightarrow> proposer \<Rightarrow> proposer \<times> msg_prepare" where
  "msg_prepare me p =
     (let p' = gen_next_ballot me p
      in (p', \<lparr>pre_header = set_msg_header me PREPARE 0, pre_ballot = curr_ballot p'\<rparr>))"

definition restart_msg_prepare :: "node_id \<Rightarrow> proposer \<Rightarrow> proposer \<times> msg_prepare" where
  "restart_msg_prepare me p =
     msg_prepare me (p\<lparr>curr_value := None, ack_prepares := [], ack_accepts := []\<rparr>)"

text \<open>A null \<open>curr_value_\<close> would leave the field unset, which reads as the default value.\<close>

definition msg_accept :: "node_id \<Rightarrow> proposer \<Rightarrow> msg_accept" where
  "msg_accept me p =
     \<lparr>acc_header = set_msg_header me ACCEPT 0, acc_ballot = curr_ballot p,
      acc_value = (case curr_value p of None \<Rightarrow> default_prop_value | Some v \<Rightarrow> v),
      acc_last_slot = None, acc_last_value = None\<rparr>"

text \<open>\<^verbatim>\<open>mutable_max_prop_value()\<close> creates a default value where none was sent.\<close>

definition reported_value :: "msg_ack_prepare \<Rightarrow> prop_value" where
  "reported_value ack = (case ackp_max_value ack of None \<Rightarrow> default_prop_value | Some v \<Rightarrow> v)"

text \<open>The loop over the stored promises: highest report so far, and the count of yes.\<close>

fun promise_loop :: "(node_id \<times> msg_ack_prepare) list \<Rightarrow>
    ballot_id \<times> prop_value option \<times> nat \<Rightarrow> ballot_id \<times> prop_value option \<times> nat" where
  "promise_loop [] (mb, mv, n) = (mb, mv, n)"
| "promise_loop ((_, ack) # xs) (mb, mv, n) =
     (if ackp_reply ack
      then if mb < ackp_max_ballot ack
           then promise_loop xs (ackp_max_ballot ack, Some (reported_value ack), Suc n)
           else promise_loop xs (mb, mv, Suc n)
      else promise_loop xs (mb, mv, n))"

definition handle_msg_promise :: "msg_ack_prepare \<Rightarrow> proposer \<Rightarrow> proposer \<times> ack_type" where
  "handle_msg_promise ack p =
     (if ackp_ballot ack < curr_ballot p \<or> curr_value p \<noteq> None then (p, DROP)
      else let p1 = p\<lparr>ack_prepares := map_put (sender (ackp_header ack)) ack (ack_prepares p)\<rparr>
           in if length (ack_prepares p1) < unat (qr p1) then (p1, NOT_ENOUGH)
              else let (mb, mv, yes) = promise_loop (ack_prepares p1) (max_ballot p1, max_prop p1, 0);
                       p2 = p1\<lparr>max_ballot := mb, max_prop := mv\<rparr>
                   in if unat (qr p2) \<le> yes
                      then (p2\<lparr>curr_value := (case mv of Some v \<Rightarrow> Some v
                                                      | None \<Rightarrow> Some (init_value p2))\<rparr>, CONTINUE)
                      else (p2, RESTART))"

fun accepted_loop :: "(node_id \<times> msg_ack_accept) list \<Rightarrow> nat \<Rightarrow> nat" where
  "accepted_loop [] n = n"
| "accepted_loop ((_, ack) # xs) n = accepted_loop xs (if acka_reply ack then Suc n else n)"

definition handle_msg_accepted :: "msg_ack_accept \<Rightarrow> proposer \<Rightarrow> proposer \<times> ack_type" where
  "handle_msg_accepted ack p =
     (if acka_ballot ack < curr_ballot p \<or> curr_value p = None then (p, DROP)
      else let p1 = p\<lparr>ack_accepts := map_put (sender (acka_header ack)) ack (ack_accepts p)\<rparr>
           in if length (ack_accepts p1) < unat (qw p1) then (p1, NOT_ENOUGH)
              else if unat (qw p1) \<le> accepted_loop (ack_accepts p1) 0 then (p1, CHOOSE)
              else (p1, RESTART))"

definition die_clean :: "proposer \<Rightarrow> proposer" where
  "die_clean p = p\<lparr>curr_value := None, curr_ballot := 0, ack_prepares := [], ack_accepts := []\<rparr>"

definition get_chosen_value :: "proposer \<Rightarrow> prop_value option" where
  "get_chosen_value p = curr_value p"

definition get_init_value :: "proposer \<Rightarrow> prop_value" where
  "get_init_value p = init_value p"

definition init_curr_value :: "proposer \<Rightarrow> proposer" where
  "init_curr_value p = p\<lparr>curr_value := Some (init_value p)\<rparr>"

lemmas proposer_ops [naxos_op] =
  new_proposer_def gen_next_ballot_def msg_prepare_def restart_msg_prepare_def msg_accept_def
  init_curr_value_def get_chosen_value_def get_init_value_def

section \<open>Ballots\<close>

text \<open>
  The contract of a ballot generator: from a fresh proposer the ballots of one node grow
  strictly and carry the node, as long as the counter in the high 48 bits does not wrap.
\<close>

locale ballot_source =
  fixes next_ballot :: "'n \<Rightarrow> ballot_id \<Rightarrow> ballot_id"
    and owner :: "ballot_id \<Rightarrow> 'n"
    and no_wrap :: "ballot_id \<Rightarrow> bool"
  assumes owner_first: "owner (next_ballot n 0) = n"
    and owner_next: "owner b = n \<Longrightarrow> owner (next_ballot n b) = n"
    and next_greater: "no_wrap b \<Longrightarrow> b < next_ballot n b"
begin

lemma owner_iterate: "owner ((next_ballot n ^^ Suc k) 0) = n"
  by (induction k) (simp_all add: owner_first owner_next)

lemma ballots_of_nodes_differ:
  "m \<noteq> n \<Longrightarrow> (next_ballot m ^^ Suc i) 0 \<noteq> (next_ballot n ^^ Suc j) 0"
  by (metis owner_iterate)

lemma iterate_increasing:
  assumes "i < j" and "\<And>k. k < j \<Longrightarrow> no_wrap ((next_ballot n ^^ k) 0)"
  shows "(next_ballot n ^^ i) 0 < (next_ballot n ^^ j) 0"
  using assms
proof (induction j)
  case (Suc j)
  have step: "(next_ballot n ^^ j) 0 < (next_ballot n ^^ Suc j) 0"
    using Suc.prems(2) [of j] by (simp add: next_greater)
  show ?case
  proof (cases "i = j")
    case False
    then have "(next_ballot n ^^ i) 0 < (next_ballot n ^^ j) 0"
      using Suc by simp
    then show ?thesis using step by (rule less_trans)
  qed (use step in simp)
qed simp

end

definition ballot_after :: "node_id \<Rightarrow> ballot_id \<Rightarrow> ballot_id" where
  "ballot_after me b = (if b = 0 then b + 65536 + ucast me else b + 65536)"

definition ballot_owner :: "ballot_id \<Rightarrow> node_id" where
  "ballot_owner b = ucast b"

definition no_ballot_wrap :: "ballot_id \<Rightarrow> bool" where
  "no_ballot_wrap b \<longleftrightarrow> unat b + 65536 < 2 ^ 64"

lemma no_ballot_wrap_code [code]: "no_ballot_wrap b \<longleftrightarrow> b < b + 65536"
proof -
  have "unat b < 2 ^ 64"
    using unsigned_less [of b] by simp
  then show ?thesis
    by (cases "unat b + 65536 < 2 ^ 64")
       (auto simp: no_ballot_wrap_def word_less_nat_alt unat_word_ariths mod_if le_mod_geq)
qed

lemma curr_ballot_gen_next:
  "gen_next_ballot me p = p\<lparr>curr_ballot := ballot_after me (curr_ballot p)\<rparr>"
  by (simp add: gen_next_ballot_def ballot_after_def)

lemma unat_ballot_after:
  assumes "no_ballot_wrap b"
  shows "unat (ballot_after me b) = (if b = 0 then 65536 + unat me else unat b + 65536)"
proof (cases "b = 0")
  case True
  have "unat me < 65536"
    using unsigned_less [of me] by simp
  then show ?thesis
    using True by (simp add: ballot_after_def unat_word_ariths)
next
  case False
  then show ?thesis
    using assms by (simp add: ballot_after_def no_ballot_wrap_def unat_word_ariths)
qed

interpretation ballots: ballot_source ballot_after ballot_owner no_ballot_wrap
proof unfold_locales
  fix n :: node_id and b :: ballot_id
  show "ballot_owner (ballot_after n 0) = n"
    by (simp add: ballot_owner_def ballot_after_def ucast_add_64_16)
  show "ballot_owner (ballot_after n b) = n" if "ballot_owner b = n"
    using that by (simp add: ballot_owner_def ballot_after_def ucast_add_64_16)
  show "b < ballot_after n b" if "no_ballot_wrap b"
    using that by (simp add: word_less_nat_alt unat_ballot_after)
qed

definition gen_ballots :: "nat \<Rightarrow> node_id \<Rightarrow> proposer \<Rightarrow> proposer" where
  "gen_ballots k me p = (gen_next_ballot me ^^ k) p"

lemma curr_ballot_gen_ballots:
  "curr_ballot (gen_ballots k me p) = (ballot_after me ^^ k) (curr_ballot p)"
  unfolding gen_ballots_def by (induction k) (simp_all add: curr_ballot_gen_next)

lemma unat_ballot_iterate:
  assumes "k < 2 ^ 48 - 1"
  shows "unat ((ballot_after me ^^ Suc k) 0) = 65536 * Suc k + unat me"
  using assms
proof (induction k)
  case 0
  then show ?case by (simp add: unat_ballot_after no_ballot_wrap_def)
next
  case (Suc k)
  let ?b = "(ballot_after me ^^ Suc k) 0"
  have b: "unat ?b = 65536 * Suc k + unat me"
    using Suc by simp
  have "unat me < 65536"
    using unsigned_less [of me] by simp
  then have "no_ballot_wrap ?b"
    using Suc.prems unfolding no_ballot_wrap_def b by simp
  moreover have "?b \<noteq> 0"
  proof
    assume "?b = 0"
    then show False using b by simp
  qed
  ultimately have "unat (ballot_after me ?b) = unat ?b + 65536"
    by (simp only: unat_ballot_after if_False)
  then show ?case
    using b by simp
qed

text \<open>
  C27. The \<open>k\<close>-th ballot of node \<open>me\<close> is \<open>k\<close> in the high 48 bits and the node id in the low
  16, exactly as the comment of \<^verbatim>\<open>gen_next_ballot\<close> says, for the first \<open>2 ^ 48 - 1\<close> calls; so
  two nodes never use the same ballot and a node's ballots grow strictly.
\<close>

theorem gen_next_ballot_layout:
  assumes "curr_ballot p = 0" and "0 < k" and "k < 2 ^ 48"
  shows "unat (curr_ballot (gen_ballots k me p)) = 65536 * k + unat me
    \<and> ballot_owner (curr_ballot (gen_ballots k me p)) = me
    \<and> (\<forall>j < k. curr_ballot (gen_ballots j me p) < curr_ballot (gen_ballots k me p))"
proof -
  obtain j where k: "k = Suc j"
    using assms(2) by (cases k) auto
  have wrap: "no_ballot_wrap ((ballot_after me ^^ i) 0)" if "i < k" for i
  proof (cases i)
    case 0
    then show ?thesis by (simp add: no_ballot_wrap_def)
  next
    case (Suc i')
    then have "unat ((ballot_after me ^^ i) 0) = 65536 * i + unat me"
      using unat_ballot_iterate [of i' me] that assms(3) by simp
    moreover have "unat me < 65536"
      using unsigned_less [of me] by simp
    ultimately show ?thesis
      using that assms(3) unfolding no_ballot_wrap_def by simp
  qed
  have "unat ((ballot_after me ^^ k) 0) = 65536 * k + unat me"
    unfolding k using unat_ballot_iterate [of j me] assms(3) k by simp
  moreover have "ballot_owner ((ballot_after me ^^ k) 0) = me"
    unfolding k by (rule ballots.owner_iterate)
  moreover have "(ballot_after me ^^ i) 0 < (ballot_after me ^^ k) 0" if "i < k" for i
    using ballots.iterate_increasing [OF that, of me] wrap by blast
  ultimately show ?thesis
    by (simp add: curr_ballot_gen_ballots assms(1))
qed

theorem gen_next_ballot_layout_witness:
  "unat (curr_ballot (gen_ballots 3 2 (new_proposer (view_3 2) value_1))) = 196610"
  using gen_next_ballot_layout [of "new_proposer (view_3 2) value_1" 3 2]
  by (simp add: new_proposer_def)

section \<open>Phase I\<close>

definition proposer_ok :: "proposer \<Rightarrow> bool" where
  "proposer_ok p \<longleftrightarrow> map_ok (ack_prepares p) \<and> map_ok (ack_accepts p)
     \<and> (max_ballot p = 0 \<longrightarrow> max_prop p = None) \<and> (max_ballot p \<noteq> 0 \<longrightarrow> max_prop p \<noteq> None)"

lemma promise_loop_result:
  assumes "promise_loop xs (mb, mv, n) = (mb', mv', n')"
  shows "n' = n + length (filter (\<lambda>e. ackp_reply (snd e)) xs) \<and> mb \<le> mb'
    \<and> (\<forall>e \<in> set xs. ackp_reply (snd e) \<longrightarrow> ackp_max_ballot (snd e) \<le> mb')
    \<and> (mb' = mb \<and> mv' = mv \<or> (\<exists>e \<in> set xs. ackp_reply (snd e) \<and> mb < mb'
          \<and> mb' = ackp_max_ballot (snd e) \<and> mv' = Some (reported_value (snd e))))"
  using assms
proof (induction xs "(mb, mv, n)" arbitrary: mb mv n rule: promise_loop.induct)
  case (2 k ack xs mb mv n)
  consider "\<not> ackp_reply ack" | "ackp_reply ack" "mb < ackp_max_ballot ack"
    | "ackp_reply ack" "\<not> mb < ackp_max_ballot ack" by blast
  then show ?case
  proof cases
    case 1
    with 2 show ?thesis by (auto simp: fun_eq_iff)
  next
    case 2
    then have "promise_loop xs (ackp_max_ballot ack, Some (reported_value ack), Suc n) = (mb', mv', n')"
      using "2.prems" by simp
    from "2.hyps"(1) [OF 2 this] 2 show ?thesis
      by (auto intro: order_trans less_imp_le less_le_trans)
  next
    case 3
    then have "promise_loop xs (mb, mv, Suc n) = (mb', mv', n')"
      using "2.prems" by simp
    from "2.hyps"(2) [OF 3 this] 3 show ?thesis
      by (auto intro: order_trans simp: not_less)
  qed
qed simp

text \<open>The nodes whose stored reply is a yes.\<close>

definition promise_voters :: "(node_id \<times> msg_ack_prepare) list \<Rightarrow> node_id set" where
  "promise_voters acks = {n. \<exists>a. map_find acks n = Some a \<and> ackp_reply a}"

definition accept_voters :: "(node_id \<times> msg_ack_accept) list \<Rightarrow> node_id set" where
  "accept_voters acks = {n. \<exists>a. map_find acks n = Some a \<and> acka_reply a}"

lemma promise_voters_dom: "promise_voters acks \<subseteq> dom (map_find acks)"
  by (auto simp: promise_voters_def)

lemma accept_voters_dom: "accept_voters acks \<subseteq> dom (map_find acks)"
  by (auto simp: accept_voters_def)

lemma card_promise_voters:
  "map_ok acks \<Longrightarrow> length (filter (\<lambda>e. ackp_reply (snd e)) acks) = card (promise_voters acks)"
  unfolding promise_voters_def
  by (simp add: length_filter_card map_ok_distinct map_find_in_set)

lemma promise_loop_find:
  assumes "map_ok acks" and "promise_loop acks (mb, mv, 0) = (mb', mv', yes)"
  shows "yes = card (promise_voters acks)"
    and "\<And>j a. map_find acks j = Some a \<Longrightarrow> ackp_reply a \<Longrightarrow> ackp_max_ballot a \<le> mb'"
    and "mb' = mb \<and> mv' = mv \<or> (\<exists>j a. map_find acks j = Some a \<and> ackp_reply a \<and> mb < mb'
      \<and> mb' = ackp_max_ballot a \<and> mv' = Some (reported_value a))"
proof -
  note res = promise_loop_result [OF assms(2)]
  show "yes = card (promise_voters acks)"
    using res card_promise_voters [OF assms(1)] by simp
  show "ackp_max_ballot a \<le> mb'" if "map_find acks j = Some a" "ackp_reply a" for j a
    using res that map_find_in_set [OF assms(1)] by fastforce
  have "\<exists>j a. map_find acks j = Some a \<and> ackp_reply a \<and> mb < mb'
      \<and> mb' = ackp_max_ballot a \<and> mv' = Some (reported_value a)" if "\<not> (mb' = mb \<and> mv' = mv)"
  proof -
    obtain e where "e \<in> set acks" "ackp_reply (snd e)" "mb < mb'" "mb' = ackp_max_ballot (snd e)"
      "mv' = Some (reported_value (snd e))"
      using res \<open>\<not> (mb' = mb \<and> mv' = mv)\<close> by blast
    moreover have "map_find acks (fst e) = Some (snd e)"
      using calculation(1) map_find_in_set [OF assms(1)] by simp
    ultimately show ?thesis by blast
  qed
  then show "mb' = mb \<and> mv' = mv \<or> (\<exists>j a. map_find acks j = Some a \<and> ackp_reply a \<and> mb < mb'
      \<and> mb' = ackp_max_ballot a \<and> mv' = Some (reported_value a))" by blast
qed

lemma accepted_loop_filter:
  "accepted_loop acks n = n + length (filter (\<lambda>e. acka_reply (snd e)) acks)"
  by (induction acks n rule: accepted_loop.induct) auto

lemma accepted_loop_voters: "map_ok acks \<Longrightarrow> accepted_loop acks 0 = card (accept_voters acks)"
  unfolding accepted_loop_filter accept_voters_def
  by (simp add: length_filter_card map_ok_distinct map_find_in_set)

lemma card_voters_le:
  "map_ok acks \<Longrightarrow> card (promise_voters acks) \<le> length acks"
  "map_ok acks' \<Longrightarrow> card (accept_voters acks') \<le> length acks'"
  unfolding amap.size_dom
  by (auto intro!: card_mono amap.finite_dom promise_voters_dom accept_voters_dom)

lemma handle_msg_promise_drop:
  "ackp_ballot ack < curr_ballot p \<or> curr_value p \<noteq> None \<Longrightarrow> handle_msg_promise ack p = (p, DROP)"
  by (simp add: handle_msg_promise_def)

text \<open>The state a promise that is not dropped leads to, before phase II is entered.\<close>

definition store_promise :: "msg_ack_prepare \<Rightarrow> proposer \<Rightarrow> proposer" where
  "store_promise ack p =
     p\<lparr>ack_prepares := map_put (sender (ackp_header ack)) ack (ack_prepares p)\<rparr>"

lemma store_promise_sel [simp]:
  "init_value (store_promise ack p) = init_value p"
  "curr_ballot (store_promise ack p) = curr_ballot p"
  "curr_value (store_promise ack p) = curr_value p"
  "max_ballot (store_promise ack p) = max_ballot p"
  "max_prop (store_promise ack p) = max_prop p"
  "ack_accepts (store_promise ack p) = ack_accepts p"
  "qr (store_promise ack p) = qr p" "qw (store_promise ack p) = qw p"
  "ack_prepares (store_promise ack p) = map_put (sender (ackp_header ack)) ack (ack_prepares p)"
  by (simp_all add: store_promise_def)

lemma handle_msg_promise_loop:
  assumes "\<not> (ackp_ballot ack < curr_ballot p \<or> curr_value p \<noteq> None)"
    and "promise_loop (ack_prepares (store_promise ack p)) (max_ballot p, max_prop p, 0) = (mb, mv, yes)"
  shows "handle_msg_promise ack p =
     (if length (ack_prepares (store_promise ack p)) < unat (qr p) then (store_promise ack p, NOT_ENOUGH)
      else if unat (qr p) \<le> yes
      then ((store_promise ack p)\<lparr>max_ballot := mb, max_prop := mv,
              curr_value := Some (case mv of Some v \<Rightarrow> v | None \<Rightarrow> init_value p)\<rparr>, CONTINUE)
      else ((store_promise ack p)\<lparr>max_ballot := mb, max_prop := mv\<rparr>, RESTART))"
  using assms by (auto simp: handle_msg_promise_def Let_def store_promise_def split: option.splits)

text \<open>
  C25. What a reply to a prepare request leads to, unless it is stale or phase II has begun:
  the proposer waits while fewer than \<open>qr\<close> nodes have replied, enters phase II when \<open>qr\<close> of
  them said yes, and otherwise starts over.
\<close>

theorem promise_decision:
  assumes "proposer_ok p" and "curr_ballot p \<le> ackp_ballot ack" and "curr_value p = None"
    and "acks = ack_prepares (store_promise ack p)"
  shows "snd (handle_msg_promise ack p) =
     (if card (dom (map_find acks)) < unat (qr p) then NOT_ENOUGH
      else if unat (qr p) \<le> card (promise_voters acks) then CONTINUE else RESTART)"
proof -
  obtain mb mv yes where loop: "promise_loop acks (max_ballot p, max_prop p, 0) = (mb, mv, yes)"
    by (metis prod_cases3)
  have ok: "map_ok acks"
    using assms(1,4) by (simp add: proposer_ok_def)
  have "yes = card (promise_voters acks)"
    using promise_loop_result [OF loop] card_promise_voters [OF ok] by simp
  moreover have "length acks = card (dom (map_find acks))"
    by (rule amap.size_dom [OF ok])
  moreover have "\<not> (ackp_ballot ack < curr_ballot p \<or> curr_value p \<noteq> None)"
    using assms(2,3) by auto
  note handle_msg_promise_loop [OF this loop [unfolded assms(4)], folded assms(4)]
  ultimately show ?thesis by simp
qed

definition yes_promise :: "node_id \<Rightarrow> ballot_id \<Rightarrow> msg_ack_prepare" where
  "yes_promise n b = \<lparr>ackp_header = set_msg_header n PROMISE 1, ackp_ballot = b, ackp_reply = True,
     ackp_max_ballot = 0, ackp_max_value = None\<rparr>"

lemma yes_promise_sel [simp]:
  "sender (ackp_header (yes_promise n b)) = n" "ackp_ballot (yes_promise n b) = b"
  "ackp_reply (yes_promise n b)" "ackp_max_ballot (yes_promise n b) = 0"
  "ackp_max_value (yes_promise n b) = None"
  by (simp_all add: yes_promise_def)

definition proposer_1 :: proposer where
  "proposer_1 = fst (msg_prepare 1 (new_proposer (view_3 1) value_1))"

lemma proposer_1_eq: "proposer_1 = \<lparr>init_value = value_1, curr_ballot = 65537, curr_value = None,
    max_ballot = 0, max_prop = None, ack_prepares = [], ack_accepts = [], qr = 2, qw = 2\<rparr>"
  by (simp add: proposer_1_def proposer_ops quorum_size_def view_3_def)

theorem promise_decision_witness:
  "snd (handle_msg_promise (yes_promise 0 65537)
      (fst (handle_msg_promise (yes_promise 1 65537) proposer_1))) = CONTINUE"
proof -
  let ?p = "fst (handle_msg_promise (yes_promise 1 65537) proposer_1)"
  have p: "?p = proposer_1\<lparr>ack_prepares := [(1, yes_promise 1 65537)]\<rparr>"
    by (simp add: handle_msg_promise_def proposer_1_eq)
  let ?acks = "[(0 :: node_id, yes_promise 0 65537), (1, yes_promise 1 65537)]"
  have acks: "ack_prepares (store_promise (yes_promise 0 65537) ?p) = ?acks"
    unfolding p by (simp add: proposer_1_eq)
  have "promise_voters ?acks = {0, 1}" and "dom (map_find ?acks) = {0, 1}"
    by (auto simp: promise_voters_def map_find_def split: if_splits)
  then show ?thesis
    using promise_decision [of ?p "yes_promise 0 65537", OF _ _ _ refl] unfolding acks
    unfolding p by (simp add: proposer_1_eq proposer_ok_def)
qed

lemma promise_value_facts:
  assumes "proposer_ok p" and "handle_msg_promise ack p = (p', CONTINUE)"
  shows "(\<forall>n \<in> promise_voters (ack_prepares p').
        \<exists>a. map_find (ack_prepares p') n = Some a \<and> ackp_max_ballot a \<le> max_ballot p')
    \<and> unat (qr p) \<le> card (promise_voters (ack_prepares p'))
    \<and> curr_value p' = Some (case max_prop p' of None \<Rightarrow> init_value p | Some v \<Rightarrow> v)
    \<and> (max_ballot p' = max_ballot p \<and> max_prop p' = max_prop p
       \<or> (\<exists>n \<in> promise_voters (ack_prepares p'). \<exists>a. map_find (ack_prepares p') n = Some a
            \<and> max_ballot p < max_ballot p' \<and> max_ballot p' = ackp_max_ballot a
            \<and> max_prop p' = Some (reported_value a)))"
proof -
  let ?acks = "ack_prepares (store_promise ack p)"
  obtain mb mv yes where loop: "promise_loop ?acks (max_ballot p, max_prop p, 0) = (mb, mv, yes)"
    by (metis prod_cases3)
  have live: "\<not> (ackp_ballot ack < curr_ballot p \<or> curr_value p \<noteq> None)"
    using assms(2) handle_msg_promise_drop [of ack p] by fastforce
  note run = handle_msg_promise_loop [OF live loop]
  have p': "p' = (store_promise ack p)\<lparr>max_ballot := mb, max_prop := mv,
      curr_value := Some (case mv of Some v \<Rightarrow> v | None \<Rightarrow> init_value p)\<rparr>"
    and enough: "unat (qr p) \<le> yes"
    using assms(2) run by (auto split: if_splits)
  have ok: "map_ok ?acks"
    using assms(1) by (simp add: proposer_ok_def)
  note res = promise_loop_find [OF ok loop]
  have "unat (qr p) \<le> card (promise_voters ?acks)"
    using res(1) enough by simp
  moreover have "\<forall>n \<in> promise_voters ?acks. \<exists>a. map_find ?acks n = Some a \<and> ackp_max_ballot a \<le> mb"
    using res(2) unfolding promise_voters_def by blast
  moreover have "mb = max_ballot p \<and> mv = max_prop p
      \<or> (\<exists>n \<in> promise_voters ?acks. \<exists>a. map_find ?acks n = Some a
            \<and> max_ballot p < mb \<and> mb = ackp_max_ballot a \<and> mv = Some (reported_value a))"
    using res(3) unfolding promise_voters_def by blast
  ultimately show ?thesis
    unfolding p' by (auto split: option.splits)
qed

text \<open>
  C17. Entering phase II, the proposer takes the value reported with the highest ballot: no
  yes it counted reports a higher one, and the value is the one of a reply with that ballot,
  or the one kept from earlier replies, or its own when nothing was ever reported.
\<close>

theorem promise_value:
  assumes "proposer_ok p" and "handle_msg_promise ack p = (p', CONTINUE)"
  shows "(\<forall>n \<in> promise_voters (ack_prepares p').
        \<exists>a. map_find (ack_prepares p') n = Some a \<and> ackp_max_ballot a \<le> max_ballot p')
    \<and> unat (qr p) \<le> card (promise_voters (ack_prepares p'))
    \<and> curr_value p' = Some (case max_prop p' of None \<Rightarrow> init_value p | Some v \<Rightarrow> v)
    \<and> (max_ballot p' = max_ballot p \<and> max_prop p' = max_prop p
       \<or> (\<exists>n \<in> promise_voters (ack_prepares p'). \<exists>a. map_find (ack_prepares p') n = Some a
            \<and> max_ballot p < max_ballot p' \<and> max_ballot p' = ackp_max_ballot a
            \<and> max_prop p' = Some (reported_value a)))"
  by (rule promise_value_facts [OF assms])

definition value_0 :: prop_value where
  "value_0 = \<lparr>pv_id = 131072, pv_data = ''y'', pv_cmd = None, pv_integrity = None\<rparr>"

definition voted_promise :: "node_id \<Rightarrow> ballot_id \<Rightarrow> ballot_id \<Rightarrow> prop_value \<Rightarrow> msg_ack_prepare" where
  "voted_promise n b mb v = (yes_promise n b)\<lparr>ackp_max_ballot := mb, ackp_max_value := Some v\<rparr>"

lemma voted_promise_sel [simp]:
  "sender (ackp_header (voted_promise n b mb v)) = n" "ackp_ballot (voted_promise n b mb v) = b"
  "ackp_reply (voted_promise n b mb v)" "ackp_max_ballot (voted_promise n b mb v) = mb"
  "ackp_max_value (voted_promise n b mb v) = Some v"
  by (simp_all add: voted_promise_def)

theorem promise_value_witness:
  "\<exists>p'. handle_msg_promise (voted_promise 0 65537 65536 value_0)
      (proposer_1\<lparr>ack_prepares := [(1, yes_promise 1 65537)]\<rparr>) = (p', CONTINUE)
    \<and> 2 \<le> card (promise_voters (ack_prepares p')) \<and> curr_value p' = Some value_0"
proof -
  let ?p = "proposer_1\<lparr>ack_prepares := [(1, yes_promise 1 65537)]\<rparr>"
  let ?p' = "?p\<lparr>ack_prepares := [(0, voted_promise 0 65537 65536 value_0), (1, yes_promise 1 65537)],
    max_ballot := 65536, max_prop := Some value_0, curr_value := Some value_0\<rparr>"
  have run: "handle_msg_promise (voted_promise 0 65537 65536 value_0) ?p = (?p', CONTINUE)"
    by (simp add: handle_msg_promise_def Let_def proposer_1_eq reported_value_def)
  have "proposer_ok ?p"
    by (simp add: proposer_ok_def proposer_1_eq)
  from promise_value [OF this run] run show ?thesis
    by (simp add: proposer_1_eq)
qed

section \<open>Phase II\<close>

lemma handle_msg_accepted_drop:
  "acka_ballot ack < curr_ballot p \<or> curr_value p = None \<Longrightarrow> handle_msg_accepted ack p = (p, DROP)"
  by (simp add: handle_msg_accepted_def)

definition store_accepted :: "msg_ack_accept \<Rightarrow> proposer \<Rightarrow> proposer" where
  "store_accepted ack p =
     p\<lparr>ack_accepts := map_put (sender (acka_header ack)) ack (ack_accepts p)\<rparr>"

lemma store_accepted_sel [simp]:
  "init_value (store_accepted ack p) = init_value p"
  "curr_ballot (store_accepted ack p) = curr_ballot p"
  "curr_value (store_accepted ack p) = curr_value p"
  "max_ballot (store_accepted ack p) = max_ballot p"
  "max_prop (store_accepted ack p) = max_prop p"
  "ack_prepares (store_accepted ack p) = ack_prepares p"
  "qr (store_accepted ack p) = qr p" "qw (store_accepted ack p) = qw p"
  "ack_accepts (store_accepted ack p) = map_put (sender (acka_header ack)) ack (ack_accepts p)"
  by (simp_all add: store_accepted_def)

lemma handle_msg_accepted_live:
  assumes "\<not> (acka_ballot ack < curr_ballot p \<or> curr_value p = None)" and "map_ok (ack_accepts p)"
    and "acks = ack_accepts (store_accepted ack p)"
  shows "handle_msg_accepted ack p = (store_accepted ack p,
     if length acks < unat (qw p) then NOT_ENOUGH
     else if unat (qw p) \<le> card (accept_voters acks) then CHOOSE else RESTART)"
  using assms by (simp add: handle_msg_accepted_def Let_def accepted_loop_voters store_accepted_def)

text \<open>
  C26. What a reply to an accept request leads to, unless it is stale or there is no value: the
  proposer waits while fewer than \<open>qw\<close> nodes have replied, takes the value as chosen when
  \<open>qw\<close> nodes accepted it, and otherwise starts over; only its map of replies changes.
\<close>

theorem accepted_decision:
  assumes "proposer_ok p" and "curr_ballot p \<le> acka_ballot ack" and "curr_value p \<noteq> None"
    and "acks = ack_accepts (store_accepted ack p)"
  shows "handle_msg_accepted ack p = (store_accepted ack p,
     if card (dom (map_find acks)) < unat (qw p) then NOT_ENOUGH
     else if unat (qw p) \<le> card (accept_voters acks) then CHOOSE else RESTART)"
proof -
  have "map_ok acks" and "map_ok (ack_accepts p)"
    using assms(1,4) by (simp_all add: proposer_ok_def)
  moreover have "\<not> (acka_ballot ack < curr_ballot p \<or> curr_value p = None)"
    using assms(2,3) by auto
  ultimately show ?thesis
    using handle_msg_accepted_live [OF _ _ assms(4)] by (simp add: amap.size_dom)
qed

definition yes_accepted :: "node_id \<Rightarrow> ballot_id \<Rightarrow> msg_ack_accept" where
  "yes_accepted n b = \<lparr>acka_header = set_msg_header n ACCEPTED 1, acka_ballot = b, acka_reply = True\<rparr>"

lemma yes_accepted_sel [simp]:
  "sender (acka_header (yes_accepted n b)) = n" "acka_ballot (yes_accepted n b) = b"
  "acka_reply (yes_accepted n b)"
  by (simp_all add: yes_accepted_def)

theorem accepted_decision_witness:
  "snd (handle_msg_accepted (yes_accepted 2 65537)
      (proposer_1\<lparr>curr_value := Some value_1, ack_accepts := [(1, yes_accepted 1 65537)]\<rparr>)) = CHOOSE"
proof -
  let ?p = "proposer_1\<lparr>curr_value := Some value_1, ack_accepts := [(1, yes_accepted 1 65537)]\<rparr>"
  let ?acks = "[(1 :: node_id, yes_accepted 1 65537), (2, yes_accepted 2 65537)]"
  have acks: "ack_accepts (store_accepted (yes_accepted 2 65537) ?p) = ?acks"
    by simp
  have "accept_voters ?acks = {1, 2}" and "dom (map_find ?acks) = {1, 2}"
    by (auto simp: accept_voters_def map_find_def split: if_splits)
  then show ?thesis
    using accepted_decision [of ?p "yes_accepted 2 65537", OF _ _ _ refl] unfolding acks
    by (simp add: proposer_1_eq proposer_ok_def)
qed

section \<open>The proposer's invariant\<close>

lemma proposer_ok_new [naxos_ok]: "proposer_ok (new_proposer v value)"
  by (simp add: proposer_ok_def new_proposer_def)

lemma proposer_ok_gen_next_ballot [naxos_ok]: "proposer_ok p \<Longrightarrow> proposer_ok (gen_next_ballot me p)"
  by (simp add: proposer_ok_def gen_next_ballot_def)

lemma proposer_ok_restart [naxos_ok]: "proposer_ok p \<Longrightarrow> proposer_ok (fst (restart_msg_prepare me p))"
  by (simp add: proposer_ok_def restart_msg_prepare_def msg_prepare_def gen_next_ballot_def Let_def)

lemma proposer_ok_init_curr_value [naxos_ok]: "proposer_ok p \<Longrightarrow> proposer_ok (init_curr_value p)"
  by (simp add: proposer_ok_def init_curr_value_def)

lemma promise_loop_ok:
  assumes "promise_loop xs (mb, mv, n) = (mb', mv', n')"
    and "mb = 0 \<longrightarrow> mv = None" and "mb \<noteq> 0 \<longrightarrow> mv \<noteq> None"
  shows "(mb' = 0 \<longrightarrow> mv' = None) \<and> (mb' \<noteq> 0 \<longrightarrow> mv' \<noteq> None)"
  using promise_loop_result [OF assms(1)] assms(2,3) by (auto simp: word_gt_0)

lemma proposer_ok_promise [naxos_ok]:
  assumes "proposer_ok p"
  shows "proposer_ok (fst (handle_msg_promise ack p))"
proof (cases "ackp_ballot ack < curr_ballot p \<or> curr_value p \<noteq> None")
  case True
  then show ?thesis using assms by (simp add: handle_msg_promise_drop)
next
  case False
  obtain mb mv yes where loop:
      "promise_loop (ack_prepares (store_promise ack p)) (max_ballot p, max_prop p, 0) = (mb, mv, yes)"
    by (metis prod_cases3)
  have "(mb = 0 \<longrightarrow> mv = None) \<and> (mb \<noteq> 0 \<longrightarrow> mv \<noteq> None)"
    using promise_loop_ok [OF loop] assms by (simp add: proposer_ok_def)
  then show ?thesis
    using assms by (simp add: handle_msg_promise_loop [OF False loop] proposer_ok_def)
qed

lemma proposer_ok_accepted [naxos_ok]:
  "proposer_ok p \<Longrightarrow> proposer_ok (fst (handle_msg_accepted ack p))"
  by (auto simp: handle_msg_accepted_def proposer_ok_def Let_def)

end
