(* ===== verification/Captain.thy ===== *)
theory Captain
  imports Proposer
begin

text \<open>
  \<^verbatim>\<open>captain.hpp\<close> and \<^verbatim>\<open>captain.cpp\<close>: the module of a node that finds the proposer and
  the acceptor of a slot, keeps the log of chosen values and the queue of values waiting for
  a free proposer, and drives both phases of the protocol.

  A handler returns the new state and the calls it makes on the communication module and on
  the installed callbacks, in the order it makes them; every call that can come back to the
  captain is the last thing its handler does, so the caller of a handler runs them after it
  (theory \<open>Commo\<close>). A handler is one step here: in a node of several the thread of the face runs
  all of them. (It takes and releases several mutexes on its way, and reads \<^verbatim>\<open>proposers_\<close>
  without them in two places, which matters when a node is alone and a worker of the thread pool
  runs handlers beside the thread that commits; see \<open>Benchmark\<close>.)
  \<open>'n\<close> is the type of NDN names, which the captain only stores and passes on. The two
  vectors are lists whose entry 0 is the null pointer the constructor pushes.
\<close>

section \<open>State\<close>

record 'n proposer_info =
  try_time :: int
  client_name :: 'n
  curr_proposer :: proposer
  pi_status :: proposer_status

record 'n captain =
  cap_view :: view
  acceptors :: "acceptor option list"
  proposers :: "(slot_id \<times> 'n proposer_info) list"
  chosen_values :: "prop_value option list"
  tocommit_values :: "prop_value list"
  tocommit_clients :: "'n list"
  max_chosen :: slot_id
  max_chosen_without_hole :: slot_id
  max_slot :: slot_id
  last_slot :: slot_id
  value_id :: value_id
  window_size :: nat
  has_callback :: bool
  has_callback_full :: bool
  has_callback_latency :: bool
  work :: bool
  commit_ok :: bool
  dumName :: 'n

text \<open>The calls a handler makes, on \<^verbatim>\<open>commo_\<close> or on a callback.\<close>

datatype 'n call =
    Send_self msg
  | Send_to msg node_id
  | Reply_to msg node_id 'n
  | Broadcast msg
  | Produce_log slot_id prop_value
  | Inform_client slot_id int 'n
  | Run_callback slot_id string
  | Run_callback_full slot_id prop_value node_id
  | Run_callback_latency slot_id prop_value int
  | Wait_commit_ok

abbreviation me_of :: "'n captain \<Rightarrow> node_id" where
  "me_of c \<equiv> whoami (cap_view c)"

text \<open>
  The constructor that is used; \<^verbatim>\<open>window_size_\<close> is converted from a signed integer. The
  initial promise is the first ballot of the lease's master.
\<close>

definition first_ballot :: "node_id \<Rightarrow> ballot_id" where
  "first_ballot n = 65536 + ucast n"

definition new_captain :: "view \<Rightarrow> int \<Rightarrow> 'n \<Rightarrow> 'n captain" where
  "new_captain v win dum =
     \<lparr>cap_view = v,
      acceptors = None # replicate (unat (lease_len v))
        (Some (update_max_proposed (first_ballot (master_id v)) new_acceptor)),
      proposers = [], chosen_values = [None], tocommit_values = [], tocommit_clients = [],
      max_chosen = 0, max_chosen_without_hole = 0, max_slot = 0, last_slot = 0,
      value_id = ucast (whoami v), window_size = unat (of_int win :: 64 word),
      has_callback = False, has_callback_full = False, has_callback_latency = False,
      work = True, commit_ok = False, dumName = dum\<rparr>"

text \<open>
  The other constructor, with a callback and a window of one; and the setters of the three
  callbacks, of which only the presence is state.
\<close>

definition new_captain_callback :: "view \<Rightarrow> 'n \<Rightarrow> 'n captain" where
  "new_captain_callback v dum = (new_captain v 1 dum)\<lparr>has_callback := True\<rparr>"

definition set_callback :: "'n captain \<Rightarrow> 'n captain" where
  "set_callback c = c\<lparr>has_callback := True\<rparr>"

definition set_callback_full :: "'n captain \<Rightarrow> 'n captain" where
  "set_callback_full c = c\<lparr>has_callback_full := True\<rparr>"

definition set_callback_latency :: "'n captain \<Rightarrow> 'n captain" where
  "set_callback_latency c = c\<lparr>has_callback_latency := True\<rparr>"

lemmas set_callback_defs [simp] = set_callback_def set_callback_full_def set_callback_latency_def

section \<open>Messages the captain builds\<close>

definition msg_decide :: "node_id \<Rightarrow> slot_id \<Rightarrow> value_id \<Rightarrow> msg_decide" where
  "msg_decide me s v = \<lparr>dec_header = set_msg_header me DECIDE s, dec_value = v\<rparr>"

definition msg_learn :: "node_id \<Rightarrow> slot_id \<Rightarrow> msg_learn" where
  "msg_learn me s = \<lparr>lea_header = set_msg_header me LEARN s\<rparr>"

definition msg_teach :: "node_id \<Rightarrow> slot_id \<Rightarrow> prop_value \<Rightarrow> msg_teach" where
  "msg_teach me s v = \<lparr>tea_header = set_msg_header me TEACH s, tea_value = v\<rparr>"

definition msg_commit :: "node_id \<Rightarrow> prop_value \<Rightarrow> msg_commit" where
  "msg_commit me v = \<lparr>com_header = set_msg_header me COMMIT 0, com_value = v\<rparr>"

definition msg_command :: "node_id \<Rightarrow> cmd_type \<Rightarrow> msg_command" where
  "msg_command me cmd = \<lparr>cmd_header = set_msg_header me COMMAND 0, cmd_cmd = cmd\<rparr>"

text \<open>\<^verbatim>\<open>Captain::msg_decide(slot_id)\<close>: the id of a chosen value, read through the pointer.\<close>

definition msg_decide_chosen :: "slot_id \<Rightarrow> 'n captain \<Rightarrow> msg_decide res" where
  "msg_decide_chosen s c =
     res_bind (vec_at (chosen_values c) s) (\<lambda>p. res_bind (deref p) (\<lambda>v.
       Inr (msg_decide (me_of c) s (pv_id v))))"

section \<open>The log of chosen values\<close>

text \<open>A SET_MASTER command takes effect when it is passed on the way up the log.\<close>

definition apply_command :: "prop_value \<Rightarrow> 'n captain \<Rightarrow> 'n captain" where
  "apply_command v c =
     (case pv_cmd v of
        Some SET_MASTER \<Rightarrow>
          (let n = ucast (pv_id v);
               c1 = c\<lparr>cap_view := set_master n (cap_view c)\<rparr>
           in if n = me_of c1 then c1\<lparr>commit_ok := True\<rparr> else c1)
      | _ \<Rightarrow> c)"

definition value_callbacks :: "slot_id \<Rightarrow> prop_value \<Rightarrow> 'n captain \<Rightarrow> 'n call list" where
  "value_callbacks s v c =
     (if has_callback_full c then [Run_callback_full s v (ucast (pv_id v))] else [])
     @ (if has_callback c then [Run_callback s (pv_data v)] else [])"

lemma apply_command_sel [simp]:
  "max_chosen (apply_command v c) = max_chosen c"
  "max_chosen_without_hole (apply_command v c) = max_chosen_without_hole c"
  "chosen_values (apply_command v c) = chosen_values c"
  "acceptors (apply_command v c) = acceptors c"
  "proposers (apply_command v c) = proposers c"
  "tocommit_values (apply_command v c) = tocommit_values c"
  "tocommit_clients (apply_command v c) = tocommit_clients c"
  "max_slot (apply_command v c) = max_slot c"
  "last_slot (apply_command v c) = last_slot c"
  "window_size (apply_command v c) = window_size c"
  "value_id (apply_command v c) = value_id c"
  "has_callback (apply_command v c) = has_callback c"
  "has_callback_full (apply_command v c) = has_callback_full c"
  "has_callback_latency (apply_command v c) = has_callback_latency c"
  "work (apply_command v c) = work c"
  "dumName (apply_command v c) = dumName c"
  "me_of (apply_command v c) = me_of c"
  by (simp_all add: apply_command_def Let_def whoami_def set_master_def
      split: option.splits cmd_type.splits)

text \<open>
  The \<^verbatim>\<open>while\<close> loop of \<^verbatim>\<open>add_callback\<close>: pass over the chosen values that follow the last
  one passed, up to the first hole.
\<close>

function add_callback :: "'n captain \<Rightarrow> ('n captain \<times> 'n call list) res" where
  "add_callback c =
     (if max_chosen_without_hole c < max_chosen c
      then res_bind (vec_at (chosen_values c) (Suc (max_chosen_without_hole c))) (\<lambda>p.
        case p of
          None \<Rightarrow> Inr (c, [])
        | Some v \<Rightarrow>
            (let s = Suc (max_chosen_without_hole c);
                 c1 = apply_command v (c\<lparr>max_chosen_without_hole := s\<rparr>)
             in res_bind (add_callback c1) (\<lambda>(c2, calls).
                  Inr (c2, value_callbacks s v c1 @ calls))))
      else Inr (c, []))"
  by pat_completeness auto
termination
  by (relation "measure (\<lambda>c. max_chosen c - max_chosen_without_hole c)") auto

declare add_callback.simps [simp del]

text \<open>\<^verbatim>\<open>for (int i = max_chosen_ + 1; i < slot_id; i++) chosen_values_.push_back(NULL);\<close>\<close>

function push_nulls :: "nat \<Rightarrow> slot_id \<Rightarrow> 'a option list \<Rightarrow> 'a option list" where
  "push_nulls i s xs = (if i < s then push_nulls (Suc i) s (xs @ [None]) else xs)"
  by pat_completeness auto
termination
  by (relation "measure (\<lambda>(i, s, _). s - i)") auto

declare push_nulls.simps [simp del]

lemma push_nulls_eq: "push_nulls i s xs = xs @ replicate (s - i) None"
proof (induction i s xs rule: push_nulls.induct)
  case (1 i s xs)
  show ?case
  proof (cases "i < s")
    case True
    then have "s - i = Suc (s - Suc i)" by simp
    with True "1.IH" show ?thesis
      by (subst push_nulls.simps) simp
  qed (subst push_nulls.simps, simp)
qed

definition add_chosen_value :: "slot_id \<Rightarrow> prop_value \<Rightarrow> 'n captain \<Rightarrow> ('n captain \<times> 'n call list) res" where
  "add_chosen_value s v c =
     (if s \<le> max_chosen c
      then res_bind (vec_at (chosen_values c) s) (\<lambda>p.
        add_callback (if p = None then c\<lparr>chosen_values := (chosen_values c)[s := Some v]\<rparr> else c))
      else add_callback
        (c\<lparr>chosen_values := push_nulls (Suc (max_chosen c)) s (chosen_values c) @ [Some v],
           max_chosen := s\<rparr>))"

definition add_learn_value :: "slot_id \<Rightarrow> prop_value \<Rightarrow> node_id \<Rightarrow> 'n captain \<Rightarrow>
    ('n captain \<times> 'n call list) res" where
  "add_learn_value s v n c = add_chosen_value s v c"

definition get_chosen_value_at :: "slot_id \<Rightarrow> 'n captain \<Rightarrow> prop_value option res" where
  "get_chosen_value_at s c = (if s \<le> max_chosen c then vec_at (chosen_values c) s else Inr None)"

text \<open>\<^verbatim>\<open>max_chosen_ >= slot && chosen_values_[slot]\<close>.\<close>

definition already_chosen :: "slot_id \<Rightarrow> 'n captain \<Rightarrow> bool res" where
  "already_chosen s c =
     (if s \<le> max_chosen c
      then res_bind (vec_at (chosen_values c) s) (\<lambda>p. Inr (p \<noteq> None)) else Inr False)"

text \<open>
  The value of slot \<open>s\<close> that the own acceptor holds, if its id is the decided one.
\<close>

definition accepted_here :: "slot_id \<Rightarrow> value_id \<Rightarrow> 'n captain \<Rightarrow> prop_value option res" where
  "accepted_here s vid c =
     (if s < length (acceptors c)
      then res_bind (deref (acceptors c ! s)) (\<lambda>a.
        Inr (case max_value a of
               None \<Rightarrow> None
             | Some v \<Rightarrow> if pv_id v = vid then Some v else None))
      else Inr None)"

section \<open>Committing a value\<close>

text \<open>
  The piggyback: the next decided slot, in order, travels with an accept request.
\<close>

definition piggyback :: "msg_accept \<Rightarrow> 'n captain \<Rightarrow> ('n captain \<times> msg_accept) res" where
  "piggyback m c =
     (if last_slot c < max_chosen c
      then res_bind (vec_at (chosen_values c) (Suc (last_slot c))) (\<lambda>p.
        case p of
          None \<Rightarrow> Inr (c, m)
        | Some v \<Rightarrow> Inr (c\<lparr>last_slot := Suc (last_slot c)\<rparr>,
            m\<lparr>acc_last_slot := Some (Suc (last_slot c)), acc_last_value := Some (pv_id v)\<rparr>))
      else Inr (c, m))"

text \<open>
  The fast path: a proposer for the next slot that goes straight to phase II with its first
  ballot (the same lines in \<^verbatim>\<open>commit\<close> and after a slot is chosen).
\<close>

definition fast_info :: "view \<Rightarrow> prop_value \<Rightarrow> 'n \<Rightarrow> 'n proposer_info" where
  "fast_info v value name =
     \<lparr>try_time = 1, client_name = name,
      curr_proposer = init_curr_value (gen_next_ballot (whoami v) (new_proposer v value)),
      pi_status = PHASEII\<rparr>"

definition accept_request :: "node_id \<Rightarrow> slot_id \<Rightarrow> 'n proposer_info \<Rightarrow> msg_accept" where
  "accept_request me s info =
     (let m = msg_accept me (curr_proposer info)
      in m\<lparr>acc_header := (acc_header m)\<lparr>hdr_slot := s\<rparr>\<rparr>)"

definition prepare_request :: "slot_id \<Rightarrow> msg_prepare \<Rightarrow> msg_prepare" where
  "prepare_request s m = m\<lparr>pre_header := (pre_header m)\<lparr>hdr_slot := s\<rparr>\<rparr>"

definition propose_fast :: "prop_value \<Rightarrow> 'n \<Rightarrow> 'n captain \<Rightarrow> ('n captain \<times> 'n call list) res" where
  "propose_fast value name c =
     (let s = Suc (max_slot c);
          info = fast_info (cap_view c) value name;
          c1 = c\<lparr>max_slot := s, proposers := map_put s info (proposers c)\<rparr>
      in res_bind (piggyback (accept_request (me_of c) s info) c1) (\<lambda>(c2, m).
           Inr (c2, [Broadcast (Accept m)])))"

text \<open>
  \<^verbatim>\<open>commit(PropValue*, Name&)\<close>. The name is a reference: when an older value goes first,
  its client's name is written into the caller's variable, so it is returned.
\<close>

definition commit_value :: "prop_value \<Rightarrow> 'n \<Rightarrow> 'n captain \<Rightarrow> ('n captain \<times> 'n call list \<times> 'n) res" where
  "commit_value value name c =
     (if window_size c < length (proposers c) then Inr (c, [], name)
      else if length (proposers c) = window_size c
      then Inr (c\<lparr>tocommit_values := queue_push value (tocommit_values c),
                  tocommit_clients := queue_push name (tocommit_clients c)\<rparr>, [], name)
      else if 0 < length (tocommit_values c)
      then (let vs = queue_push value (tocommit_values c);
                ns = queue_push name (tocommit_clients c)
            in res_bind (queue_front vs) (\<lambda>value'. res_bind (queue_front ns) (\<lambda>name'.
                 res_bind (propose_fast value' name'
                     (c\<lparr>tocommit_values := queue_pop vs, tocommit_clients := queue_pop ns\<rparr>))
                   (\<lambda>(c', calls). Inr (c', calls, name')))))
      else res_bind (propose_fast value name c) (\<lambda>(c', calls). Inr (c', calls, name)))"

text \<open>The same with the default argument, the static \<^verbatim>\<open>dumName_\<close>.\<close>

definition commit_value_dum :: "prop_value \<Rightarrow> 'n captain \<Rightarrow> ('n captain \<times> 'n call list) res" where
  "commit_value_dum value c =
     res_bind (commit_value value (dumName c) c) (\<lambda>(c', calls, name).
       Inr (c'\<lparr>dumName := name\<rparr>, calls))"

definition next_value_id :: "'n captain \<Rightarrow> 'n captain" where
  "next_value_id c = c\<lparr>value_id := value_id c + 65536\<rparr>"

text \<open>
  \<^verbatim>\<open>commit(std::string&, Name&)\<close>. A node that is not the master takes over in recovery
  mode; otherwise it forwards the value and waits for the master's reply.
\<close>

definition commit :: "mode \<Rightarrow> string \<Rightarrow> 'n \<Rightarrow> 'n captain \<Rightarrow> ('n captain \<times> 'n call list) res" where
  "commit mode data name c =
     (let c0 = next_value_id c;
          value = \<lparr>pv_id = value_id c0, pv_data = data, pv_cmd = None, pv_integrity = None\<rparr>;
          v = cap_view c0
      in if if_master v
         then res_bind (commit_value value name c0) (\<lambda>(c', calls, _). Inr (c', calls))
         else if mode = Mode_recover
         then res_bind (replace_member (master_id v) (set_master (whoami v) v)) (\<lambda>(v', nq).
                res_bind (commit_value value name (c0\<lparr>cap_view := v'\<rparr>)) (\<lambda>(c', calls, _).
                  Inr (c', Send_to (Command (msg_command (whoami v) SET_QUORUM)) nq # calls)))
         else Inr (c0, [Send_to (Commit (msg_commit (whoami v) value)) (master_id v), Wait_commit_ok]))"

text \<open>
  What \<open>Wait_commit_ok\<close> stands for: under its mutex the flag is cleared, and the caller is
  blocked until it is set.
\<close>

definition begin_wait :: "'n captain \<Rightarrow> 'n captain" where
  "begin_wait c = c\<lparr>commit_ok := False\<rparr>"

definition wait_over :: "'n captain \<Rightarrow> bool" where
  "wait_over c = commit_ok c"

text \<open>
  \<^verbatim>\<open>master_change\<close>: the SET_MASTER command goes into the queue of values only, so the two
  queues no longer correspond.
\<close>

definition master_change :: "prop_value \<Rightarrow> 'n captain \<Rightarrow> ('n captain \<times> 'n call list) res" where
  "master_change value c =
     (if if_master (cap_view c) then commit_value_dum value c
      else let c0 = next_value_id c
           in res_bind (my_hostname (cap_view c0)) (\<lambda>host.
                commit_value_dum value (c0\<lparr>tocommit_values := queue_push
                  \<lparr>pv_id = value_id c0,
                   pv_data = ''set_master Time_'' @ decimal (unat (drop_bit 16 (value_id c0)))
                     @ '' from '' @ host,
                   pv_cmd = Some SET_MASTER, pv_integrity = None\<rparr> (tocommit_values c0)\<rparr>)))"

end
