(* ===== verification/Captain_Handlers.thy ===== *)
theory Captain_Handlers
  imports Captain
begin

text \<open>
  \<^verbatim>\<open>Captain::handle_msg\<close>: one definition per \<^verbatim>\<open>case\<close> of its \<^verbatim>\<open>switch\<close>, and the
  dispatcher. The part of a case that works on one proposer is a definition of its own
  (\<open>promise_info\<close>, \<open>accepted_info\<close>), so that the protocol proof and the captain proof are
  about the same code.
\<close>

section \<open>Acceptor side\<close>

text \<open>\<^verbatim>\<open>for (int i = acceptors_.size(); i <= acc_slot; i++) acceptors_.emplace_back(...)\<close>.\<close>

function grow_acceptors :: "nat \<Rightarrow> slot_id \<Rightarrow> acceptor option list \<Rightarrow> acceptor option list" where
  "grow_acceptors i s xs =
     (if i \<le> s then grow_acceptors (Suc i) s (xs @ [Some new_acceptor]) else xs)"
  by pat_completeness auto
termination
  by (relation "measure (\<lambda>(i, s, _). Suc s - i)") auto

declare grow_acceptors.simps [simp del]

lemma grow_acceptors_eq: "grow_acceptors i s xs = xs @ replicate (Suc s - i) (Some new_acceptor)"
proof (induction i s xs rule: grow_acceptors.induct)
  case (1 i s xs)
  show ?case
  proof (cases "i \<le> s")
    case True
    then have "Suc s - i = Suc (Suc s - Suc i)" by simp
    with True "1.IH" show ?thesis
      by (subst grow_acceptors.simps) simp
  qed (subst grow_acceptors.simps, simp)
qed

definition from_myself :: "msg_header \<Rightarrow> 'n captain \<Rightarrow> bool" where
  "from_myself h c \<longleftrightarrow> hdr_node h = ucast (me_of c)"

definition handle_prepare :: "msg_prepare \<Rightarrow> 'n \<Rightarrow> 'n captain \<Rightarrow> ('n captain \<times> 'n call list) res" where
  "handle_prepare m name c =
     (let s = hdr_slot (pre_header m);
          accs = grow_acceptors (length (acceptors c)) s (acceptors c)
      in res_bind (vec_at accs s) (\<lambda>p. res_bind (deref p) (\<lambda>a.
           let (a', ack) = handle_msg_prepare (me_of c) m a;
               c' = c\<lparr>acceptors := accs[s := Some a']\<rparr>
           in Inr (c', if from_myself (pre_header m) c then [Send_self (Ack_prepare ack)]
                       else [Reply_to (Ack_prepare ack) (sender (pre_header m)) name]))))"

text \<open>
  The decision an accept request carries: learn it if the own acceptor has the value.
  \<open>None\<close> is the early return, after which no reply is sent.
\<close>

definition learn_piggyback :: "slot_id \<Rightarrow> value_id \<Rightarrow> node_id \<Rightarrow> 'n captain \<Rightarrow>
    ('n captain \<times> 'n call list) option res" where
  "learn_piggyback s vid n c =
     res_bind (already_chosen s c) (\<lambda>done.
       if done then Inr None
       else res_bind (accepted_here s vid c) (\<lambda>ov.
         case ov of
           None \<Rightarrow> Inr (Some (c, []))
         | Some v \<Rightarrow>
             res_bind (add_learn_value s v n c) (\<lambda>(c', calls).
             res_bind (vec_at (chosen_values c') s) (\<lambda>p. res_bind (deref p) (\<lambda>w.
               Inr (Some (c', calls @ [Produce_log s w])))))))"

definition handle_accept :: "msg_accept \<Rightarrow> 'n \<Rightarrow> 'n captain \<Rightarrow> ('n captain \<times> 'n call list) res" where
  "handle_accept m name c =
     (let s = hdr_slot (acc_header m);
          accs = grow_acceptors (length (acceptors c)) s (acceptors c)
      in res_bind (vec_at accs s) (\<lambda>p. res_bind (deref p) (\<lambda>a.
           let (a', ack) = handle_msg_accept (me_of c) m a;
               c' = c\<lparr>acceptors := accs[s := Some a']\<rparr>;
               reply = Reply_to (Ack_accept ack) (sender (acc_header m)) name
           in if from_myself (acc_header m) c then Inr (c', [Send_self (Ack_accept ack)])
              else case acc_last_slot m of
                None \<Rightarrow> Inr (c', [reply])
              | Some ds \<Rightarrow>
                  res_bind (learn_piggyback ds
                      (case acc_last_value m of None \<Rightarrow> 0 | Some vid \<Rightarrow> vid)
                      (sender (acc_header m)) c') (\<lambda>r.
                    case r of
                      None \<Rightarrow> Inr (c', [])
                    | Some (c2, calls) \<Rightarrow> Inr (c2, calls @ [reply])))))"

section \<open>Proposer side\<close>

text \<open>Start over in phase I: a higher ballot, cleared replies, status INIT.\<close>

definition restart_info :: "node_id \<Rightarrow> slot_id \<Rightarrow> 'n proposer_info \<Rightarrow> 'n proposer_info \<times> msg_prepare" where
  "restart_info me s info =
     (let (p, m) = restart_msg_prepare me (curr_proposer info)
      in (info\<lparr>curr_proposer := p, pi_status := INIT\<rparr>, prepare_request s m))"

text \<open>The PROMISE case on the proposer of the slot, and the message it broadcasts.\<close>

definition promise_info :: "node_id \<Rightarrow> slot_id \<Rightarrow> msg_ack_prepare \<Rightarrow> 'n proposer_info \<Rightarrow>
    'n proposer_info \<times> msg option" where
  "promise_info me s ack info =
     (if pi_status info \<noteq> INIT \<and> pi_status info \<noteq> PHASEI then (info, None)
      else let info0 = info\<lparr>pi_status := PHASEI\<rparr>;
               (p, t) = handle_msg_promise ack (curr_proposer info0);
               info1 = info0\<lparr>curr_proposer := p\<rparr>
           in case t of
                CONTINUE \<Rightarrow> (info1\<lparr>pi_status := PHASEII\<rparr>, Some (Accept (accept_request me s info1)))
              | RESTART \<Rightarrow> (case restart_info me s info1 of (info2, m) \<Rightarrow> (info2, Some (Prepare m)))
              | _ \<Rightarrow> (info1, None))"

definition handle_promise :: "msg_ack_prepare \<Rightarrow> 'n captain \<Rightarrow> 'n captain \<times> 'n call list" where
  "handle_promise ack c =
     (let s = hdr_slot (ackp_header ack)
      in case map_find (proposers c) s of
           None \<Rightarrow> (c, [])
         | Some info \<Rightarrow>
             (let (info', om) = promise_info (me_of c) s ack info
              in (c\<lparr>proposers := map_put s info' (proposers c)\<rparr>,
                  case om of None \<Rightarrow> [] | Some m \<Rightarrow> [Broadcast m])))"

text \<open>
  The ACCEPTED case on the proposer of the slot: still running, chosen, or started over.
\<close>

datatype 'n accepted_result =
    Still "'n proposer_info"
  | Chosen "'n proposer_info"
  | Restarted "'n proposer_info" msg_prepare

definition accepted_info :: "node_id \<Rightarrow> slot_id \<Rightarrow> msg_ack_accept \<Rightarrow> 'n proposer_info \<Rightarrow>
    'n accepted_result" where
  "accepted_info me s ack info =
     (if pi_status info \<noteq> PHASEII then Still info
      else let (p, t) = handle_msg_accepted ack (curr_proposer info);
               info1 = info\<lparr>curr_proposer := p\<rparr>
           in case t of
                DROP \<Rightarrow> Still info1
              | NOT_ENOUGH \<Rightarrow> Still info1
              | CHOOSE \<Rightarrow> Chosen (info1\<lparr>pi_status := CHOSEN\<rparr>)
              | _ \<Rightarrow> (case restart_info me s info1 of (info2, m) \<Rightarrow> Restarted info2 m))"

text \<open>
  A proposer for the next slot that starts in phase I with a value that lost its slot. The
  client's name is the name the last reply came under.
\<close>

definition recommit_info :: "view \<Rightarrow> int \<Rightarrow> prop_value \<Rightarrow> 'n \<Rightarrow> 'n proposer_info \<times> msg_prepare" where
  "recommit_info v tries value name =
     (let (p, m) = msg_prepare (whoami v) (new_proposer v value)
      in (\<lparr>try_time = tries, client_name = name, curr_proposer = p, pi_status = INIT\<rparr>, m))"

definition recommit :: "int \<Rightarrow> prop_value \<Rightarrow> 'n \<Rightarrow> 'n captain \<Rightarrow> 'n captain \<times> 'n call list" where
  "recommit tries value name c =
     (let s = Suc (max_slot c);
          (info, m) = recommit_info (cap_view c) tries value name
      in (c\<lparr>max_slot := s, proposers := map_put s info (proposers c)\<rparr>,
          [Broadcast (Prepare (prepare_request s m))]))"

text \<open>The next value of the queue, after a proposer of an own value has finished.\<close>

definition commit_from_queue :: "'n captain \<Rightarrow> ('n captain \<times> 'n call list) res" where
  "commit_from_queue c =
     (if tocommit_values c = [] then Inr (c, [])
      else res_bind (queue_front (tocommit_values c)) (\<lambda>value.
           res_bind (queue_front (tocommit_clients c)) (\<lambda>name.
             propose_fast value name
               (c\<lparr>tocommit_values := queue_pop (tocommit_values c),
                  tocommit_clients := queue_pop (tocommit_clients c)\<rparr>))))"

text \<open>
  The CHOOSE branch: the client of an own value is told; the value goes into the log; the
  proposer is gone, and in its place the next value of the queue is proposed, or the own value
  again if another one won.
\<close>

definition tell_client :: "slot_id \<Rightarrow> 'n proposer_info \<Rightarrow> prop_value \<Rightarrow> 'n captain \<Rightarrow> 'n call list" where
  "tell_client s info chosen c =
     (if pv_id chosen = pv_id (get_init_value (curr_proposer info))
      then [Inform_client s (try_time info) (client_name info)]
        @ (if has_callback_latency c then [Run_callback_latency s chosen (try_time info)] else [])
      else [])"

definition next_work :: "'n proposer_info \<Rightarrow> prop_value \<Rightarrow> 'n \<Rightarrow> 'n captain \<Rightarrow> ('n captain \<times> 'n call list) res" where
  "next_work info chosen name c =
     (if pv_id chosen = pv_id (get_init_value (curr_proposer info)) then commit_from_queue c
      else Inr (recommit (try_time info + 1) (get_init_value (curr_proposer info)) name c))"

definition finish_slot :: "slot_id \<Rightarrow> 'n proposer_info \<Rightarrow> 'n \<Rightarrow> 'n captain \<Rightarrow>
    ('n captain \<times> 'n call list) res" where
  "finish_slot s info name c =
     res_bind (deref (get_chosen_value (curr_proposer info))) (\<lambda>chosen.
       let c1 = c\<lparr>proposers := map_put s info (proposers c)\<rparr>
       in res_bind (add_chosen_value s chosen c1) (\<lambda>(c2, calls).
            res_bind (next_work info chosen name (c2\<lparr>proposers := map_erase s (proposers c2)\<rparr>)) (\<lambda>(c3, calls').
              Inr (c3, tell_client s info chosen c1 @ calls @ calls'))))"

lemma tell_client_put [simp]: "tell_client s info chosen (c\<lparr>proposers := ps\<rparr>) = tell_client s info chosen c"
  by (simp add: tell_client_def)

lemma finish_slot_InrE:
  assumes "finish_slot s info name c = Inr (c', calls)"
  obtains chosen c2 calls2 calls4 where "get_chosen_value (curr_proposer info) = Some chosen"
    "add_chosen_value s chosen (c\<lparr>proposers := map_put s info (proposers c)\<rparr>) = Inr (c2, calls2)"
    "next_work info chosen name (c2\<lparr>proposers := map_erase s (proposers c2)\<rparr>) = Inr (c', calls4)"
    "calls = tell_client s info chosen c @ calls2 @ calls4"
  using assms by (auto simp: finish_slot_def Let_def res_bind_Inr_iff deref_Inr_iff)

text \<open>The \<open>RESTART\<close> branch.\<close>

definition restart_slot :: "slot_id \<Rightarrow> 'n proposer_info \<Rightarrow> msg_prepare \<Rightarrow> 'n captain \<Rightarrow> 'n captain \<times> 'n call list" where
  "restart_slot s info m c = (c\<lparr>proposers := map_put s info (proposers c)\<rparr>, [Broadcast (Prepare m)])"

declare restart_slot_def [simp]

definition handle_accepted :: "msg_ack_accept \<Rightarrow> 'n \<Rightarrow> 'n captain \<Rightarrow> ('n captain \<times> 'n call list) res" where
  "handle_accepted ack name c =
     (let s = hdr_slot (acka_header ack)
      in case map_find (proposers c) s of
           None \<Rightarrow> Inr (c, [])
         | Some info \<Rightarrow>
             (case accepted_info (me_of c) s ack info of
                Still info' \<Rightarrow> Inr (c\<lparr>proposers := map_put s info' (proposers c)\<rparr>, [])
              | Chosen info' \<Rightarrow> finish_slot s info' name c
              | Restarted info' m \<Rightarrow> Inr (restart_slot s info' m c)))"

section \<open>Decisions, forwarding, commands\<close>

definition handle_decide :: "msg_decide \<Rightarrow> 'n \<Rightarrow> 'n captain \<Rightarrow> ('n captain \<times> 'n call list) res" where
  "handle_decide m name c =
     (let s = hdr_slot (dec_header m)
      in res_bind (already_chosen s c) (\<lambda>done.
           if done then Inr (c, [])
           else res_bind (accepted_here s (dec_value m) c) (\<lambda>ov.
             case ov of
               Some v \<Rightarrow> add_learn_value s v (sender (dec_header m)) c
             | None \<Rightarrow> Inr (c, [Reply_to (Learn (msg_learn (me_of c) s)) (sender (dec_header m)) name]))))"

definition handle_learn :: "msg_learn \<Rightarrow> 'n captain \<Rightarrow> ('n captain \<times> 'n call list) res" where
  "handle_learn m c =
     (let s = hdr_slot (lea_header m)
      in if max_chosen c < s then Inr (c, [])
         else res_bind (vec_at (chosen_values c) s) (\<lambda>p.
           case p of
             None \<Rightarrow> Inr (c, [])
           | Some v \<Rightarrow> Inr (c, [Send_to (Teach (msg_teach (me_of c) s v)) (sender (lea_header m))])))"

definition handle_teach :: "msg_teach \<Rightarrow> 'n \<Rightarrow> 'n captain \<Rightarrow> ('n captain \<times> 'n call list) res" where
  "handle_teach m name c =
     (let s = hdr_slot (tea_header m);
          reply = Reply_to (Command (msg_command (me_of c) REPLY_TEACH)) (sender (tea_header m)) name
      in res_bind (already_chosen s c) (\<lambda>done.
           if done then Inr (c, [reply])
           else res_bind (add_learn_value s (tea_value m) (sender (tea_header m)) c)
                  (\<lambda>(c', calls). Inr (c', reply # calls))))"

definition handle_commit :: "msg_commit \<Rightarrow> 'n \<Rightarrow> 'n captain \<Rightarrow> ('n captain \<times> 'n call list) res" where
  "handle_commit m name c =
     (if if_master (cap_view c)
      then res_bind (commit_value_dum (com_value m) c) (\<lambda>(c', calls).
             Inr (c', Reply_to (Commit m) (sender (com_header m)) name # calls))
      else Inr (c\<lparr>commit_ok := True\<rparr>, []))"

definition handle_command :: "msg_command \<Rightarrow> 'n captain \<Rightarrow> 'n captain" where
  "handle_command m c =
     (case cmd_cmd m of
        SET_QUORUM \<Rightarrow>
          (let v = set_master 1 (cap_view c)
           in c\<lparr>cap_view := remove_n_quorums (whoami v) (add_quorums (whoami v) v)\<rparr>)
      | _ \<Rightarrow> c)"

section \<open>The dispatcher\<close>

definition handle_msg :: "msg \<Rightarrow> 'n \<Rightarrow> 'n captain \<Rightarrow> ('n captain \<times> 'n call list) res" where
  "handle_msg msg name c =
     (if \<not> work c then Inr (c, [])
      else case msg of
        Prepare m \<Rightarrow> handle_prepare m name c
      | Ack_prepare m \<Rightarrow> Inr (handle_promise m c)
      | Accept m \<Rightarrow> handle_accept m name c
      | Ack_accept m \<Rightarrow> handle_accepted m name c
      | Decide m \<Rightarrow> handle_decide m name c
      | Learn m \<Rightarrow> handle_learn m c
      | Teach m \<Rightarrow> handle_teach m name c
      | Commit m \<Rightarrow> handle_commit m name c
      | Command m \<Rightarrow> Inr (handle_command m c, []))"

definition crash :: "'n captain \<Rightarrow> 'n captain" where
  "crash c = c\<lparr>work := False\<rparr>"

end
