(* ===== verification/Captain_Log.thy ===== *)
theory Captain_Log
  imports Captain_Handlers
begin

text \<open>
  The log of chosen values: its invariant, what \<open>add_callback\<close> and \<open>add_chosen_value\<close> do to
  it, and the order in which chosen values reach the callbacks.
\<close>

section \<open>Invariant\<close>

text \<open>
  The vector ends with the highest chosen slot, and every slot up to
  \<open>max_chosen_without_hole\<close> and up to the last piggybacked one is filled.
\<close>

definition log_ok :: "'n captain \<Rightarrow> bool" where
  "log_ok c \<longleftrightarrow> length (chosen_values c) = Suc (max_chosen c)
     \<and> max_chosen_without_hole c \<le> max_chosen c \<and> last_slot c \<le> max_chosen c
     \<and> (\<forall>s. 0 < s \<longrightarrow> s \<le> max_chosen_without_hole c \<longrightarrow> chosen_values c ! s \<noteq> None)
     \<and> (\<forall>s. 0 < s \<longrightarrow> s \<le> last_slot c \<longrightarrow> chosen_values c ! s \<noteq> None)"

text \<open>The value chosen for a slot, as the node knows it.\<close>

definition chosen_at :: "'n captain \<Rightarrow> slot_id \<Rightarrow> prop_value option" where
  "chosen_at c s = (if s < length (chosen_values c) then chosen_values c ! s else None)"

lemma log_ok_length: "log_ok c \<Longrightarrow> length (chosen_values c) = Suc (max_chosen c)"
  by (simp add: log_ok_def)

lemma log_ok_new [naxos_ok]: "log_ok (new_captain v win dum)"
  by (simp add: log_ok_def new_captain_def)

text \<open>The log, the flags and the queues do not depend on the fields a handler updates elsewhere.\<close>

lemma log_ok_update [simp]:
  "log_ok (c\<lparr>proposers := ps\<rparr>) = log_ok c" "log_ok (c\<lparr>acceptors := as\<rparr>) = log_ok c"
  "log_ok (c\<lparr>cap_view := v\<rparr>) = log_ok c" "log_ok (c\<lparr>commit_ok := b\<rparr>) = log_ok c"
  "log_ok (c\<lparr>max_slot := s\<rparr>) = log_ok c" "log_ok (c\<lparr>value_id := i\<rparr>) = log_ok c"
  "log_ok (c\<lparr>tocommit_values := vs\<rparr>) = log_ok c" "log_ok (c\<lparr>tocommit_clients := ns\<rparr>) = log_ok c"
  "log_ok (c\<lparr>dumName := d\<rparr>) = log_ok c"
  by (simp_all add: log_ok_def)

lemma chosen_at_update [simp]:
  "chosen_at (c\<lparr>proposers := ps\<rparr>) = chosen_at c" "chosen_at (c\<lparr>acceptors := as\<rparr>) = chosen_at c"
  "chosen_at (c\<lparr>cap_view := v\<rparr>) = chosen_at c" "chosen_at (c\<lparr>commit_ok := b\<rparr>) = chosen_at c"
  "chosen_at (c\<lparr>max_slot := s\<rparr>) = chosen_at c" "chosen_at (c\<lparr>value_id := i\<rparr>) = chosen_at c"
  "chosen_at (c\<lparr>tocommit_values := vs\<rparr>) = chosen_at c"
  "chosen_at (c\<lparr>tocommit_clients := ns\<rparr>) = chosen_at c"
  "chosen_at (c\<lparr>dumName := d\<rparr>) = chosen_at c"
  "chosen_at (c\<lparr>max_chosen_without_hole := s\<rparr>) = chosen_at c"
  "chosen_at (c\<lparr>last_slot := s\<rparr>) = chosen_at c"
  by (simp_all add: chosen_at_def fun_eq_iff)

section \<open>The loop\<close>

text \<open>What \<open>add_callback\<close> may change besides the position in the log.\<close>

definition passed_to :: "slot_id \<Rightarrow> 'n captain \<Rightarrow> 'n captain \<Rightarrow> bool" where
  "passed_to s c c' \<longleftrightarrow> (\<exists>m b. c' = c\<lparr>max_chosen_without_hole := s,
     cap_view := (cap_view c)\<lparr>master_id := m\<rparr>, commit_ok := b\<rparr>)"

lemma passed_to_refl: "passed_to (max_chosen_without_hole c) c c"
proof -
  have "c = c\<lparr>max_chosen_without_hole := max_chosen_without_hole c,
      cap_view := (cap_view c)\<lparr>master_id := master_id (cap_view c)\<rparr>, commit_ok := commit_ok c\<rparr>"
    by simp
  then show ?thesis unfolding passed_to_def by blast
qed

lemma passed_to_command: "passed_to s c (apply_command v (c\<lparr>max_chosen_without_hole := s\<rparr>))"
proof -
  have same: "passed_to s c (c\<lparr>max_chosen_without_hole := s\<rparr>)"
    unfolding passed_to_def
    by (rule exI [of _ "master_id (cap_view c)"], rule exI [of _ "commit_ok c"]) simp
  show ?thesis
  proof (cases "pv_cmd v = Some SET_MASTER")
    case True
    let ?n = "ucast (pv_id v) :: node_id"
    show ?thesis
      unfolding passed_to_def apply_command_def
      by (rule exI [of _ ?n], rule exI [of _ "?n = me_of c \<or> commit_ok c"])
         (auto simp: True Let_def set_master_def whoami_def)
  next
    case False
    then have "apply_command v (c\<lparr>max_chosen_without_hole := s\<rparr>) = c\<lparr>max_chosen_without_hole := s\<rparr>"
      by (auto simp: apply_command_def split: option.splits cmd_type.splits)
    then show ?thesis using same by simp
  qed
qed

lemma passed_to_trans:
  assumes "passed_to s c c1" and "passed_to t c1 c2"
  shows "passed_to t c c2"
proof -
  from assms(1) obtain m b where c1: "c1 = c\<lparr>max_chosen_without_hole := s,
      cap_view := (cap_view c)\<lparr>master_id := m\<rparr>, commit_ok := b\<rparr>"
    by (auto simp: passed_to_def)
  from assms(2) obtain m' b' where c2: "c2 = c1\<lparr>max_chosen_without_hole := t,
      cap_view := (cap_view c1)\<lparr>master_id := m'\<rparr>, commit_ok := b'\<rparr>"
    by (auto simp: passed_to_def)
  have "c2 = c\<lparr>max_chosen_without_hole := t,
      cap_view := (cap_view c)\<lparr>master_id := m'\<rparr>, commit_ok := b'\<rparr>"
    unfolding c2 c1 by simp
  then show ?thesis
    unfolding passed_to_def by blast
qed

lemma passed_to_sel:
  assumes "passed_to s c c'"
  shows "max_chosen_without_hole c' = s" "chosen_values c' = chosen_values c"
    "max_chosen c' = max_chosen c" "proposers c' = proposers c" "acceptors c' = acceptors c"
    "tocommit_values c' = tocommit_values c" "tocommit_clients c' = tocommit_clients c"
    "max_slot c' = max_slot c" "last_slot c' = last_slot c" "window_size c' = window_size c"
    "value_id c' = value_id c" "work c' = work c" "dumName c' = dumName c"
    "has_callback c' = has_callback c" "has_callback_full c' = has_callback_full c"
    "has_callback_latency c' = has_callback_latency c" "me_of c' = me_of c"
    "quorums (cap_view c') = quorums (cap_view c)" "view_ok (cap_view c') = view_ok (cap_view c)"
    "q_size (cap_view c') = q_size (cap_view c)"
    "host_count (cap_view c') = host_count (cap_view c)"
    "chosen_at c' = chosen_at c"
  using assms by (auto simp: passed_to_def whoami_def view_ok_def chosen_at_def)

definition log_callbacks :: "'n captain \<Rightarrow> slot_id \<Rightarrow> slot_id \<Rightarrow> 'n call list" where
  "log_callbacks c i j =
     concat (map (\<lambda>s. value_callbacks s (the (chosen_values c ! s)) c) [Suc i..<Suc j])"

lemma add_callback_result:
  assumes "log_ok c"
  shows "\<exists>c' calls s. add_callback c = Inr (c', calls) \<and> passed_to s c c' \<and> log_ok c'
    \<and> max_chosen_without_hole c \<le> s \<and> (s = max_chosen c \<or> chosen_values c ! Suc s = None)
    \<and> calls = log_callbacks c (max_chosen_without_hole c) s"
  using assms
proof (induction c rule: add_callback.induct)
  case (1 c)
  let ?i = "max_chosen_without_hole c"
  show ?case
  proof (cases "?i < max_chosen c")
    case False
    then have "?i = max_chosen c"
      using "1.prems" by (simp add: log_ok_def)
    with False show ?thesis
      using "1.prems" passed_to_refl [of c]
      by (intro exI [of _ c] exI [of _ "[]"] exI [of _ ?i])
         (simp add: add_callback.simps [of c] log_callbacks_def)
  next
    case True
    then have at: "vec_at (chosen_values c) (Suc ?i) = Inr (chosen_values c ! Suc ?i)"
      using "1.prems" by (simp add: log_ok_def)
    show ?thesis
    proof (cases "chosen_values c ! Suc ?i")
      case None
      with True at show ?thesis
        using "1.prems" passed_to_refl [of c]
        by (intro exI [of _ c] exI [of _ "[]"] exI [of _ ?i])
           (simp add: add_callback.simps [of c] log_callbacks_def)
    next
      case (Some v)
      let ?c1 = "apply_command v (c\<lparr>max_chosen_without_hole := Suc ?i\<rparr>)"
      have p1: "passed_to (Suc ?i) c ?c1" by (rule passed_to_command)
      have "log_ok ?c1"
        using "1.prems" True Some by (auto simp: log_ok_def le_Suc_eq)
      from "1.IH" [OF True refl refl this] obtain c2 calls s where
        IH: "add_callback ?c1 = Inr (c2, calls)" "passed_to s ?c1 c2" "log_ok c2" "Suc ?i \<le> s"
          "s = max_chosen c \<or> chosen_values c ! Suc s = None"
          "calls = log_callbacks ?c1 (Suc ?i) s"
        by auto
      have "[Suc ?i..<Suc s] = Suc ?i # [Suc (Suc ?i)..<Suc s]"
        using IH(4) by (simp add: upt_rec)
      then have "value_callbacks (Suc ?i) v ?c1 @ calls = log_callbacks c ?i s"
        unfolding log_callbacks_def IH(6) by (simp add: Some value_callbacks_def)
      then show ?thesis
        using True at Some IH passed_to_trans [OF p1 IH(2)]
        by (intro exI [of _ c2] exI [of _ "value_callbacks (Suc ?i) v ?c1 @ calls"] exI [of _ s])
           (simp add: add_callback.simps [of c] Let_def)
    qed
  qed
qed

section \<open>Adding a value\<close>

text \<open>The log with the value stored, before the loop runs.\<close>

definition store_chosen :: "slot_id \<Rightarrow> prop_value \<Rightarrow> 'n captain \<Rightarrow> 'n captain" where
  "store_chosen s v c =
     (if s \<le> max_chosen c
      then (if chosen_values c ! s = None
            then c\<lparr>chosen_values := (chosen_values c)[s := Some v]\<rparr> else c)
      else c\<lparr>chosen_values := chosen_values c @ replicate (s - Suc (max_chosen c)) None @ [Some v],
             max_chosen := s\<rparr>)"

lemma add_chosen_value_store:
  "log_ok c \<Longrightarrow> add_chosen_value s v c = add_callback (store_chosen s v c)"
  by (auto simp: add_chosen_value_def store_chosen_def push_nulls_eq log_ok_def)

lemma chosen_at_store:
  assumes "log_ok c"
  shows "chosen_at (store_chosen s v c)
    = (if chosen_at c s = None then (chosen_at c)(s := Some v) else chosen_at c)"
  using assms
  by (auto simp: store_chosen_def chosen_at_def log_ok_def fun_eq_iff nth_append nth_list_update
      not_le less_Suc_eq_le)

lemma log_ok_store:
  assumes "log_ok c"
  shows "log_ok (store_chosen s v c)"
  using assms
  by (auto simp: store_chosen_def log_ok_def nth_append nth_list_update)

lemma store_chosen_sel [simp]:
  "max_chosen_without_hole (store_chosen s v c) = max_chosen_without_hole c"
  "last_slot (store_chosen s v c) = last_slot c"
  "proposers (store_chosen s v c) = proposers c" "acceptors (store_chosen s v c) = acceptors c"
  "tocommit_values (store_chosen s v c) = tocommit_values c"
  "tocommit_clients (store_chosen s v c) = tocommit_clients c"
  "max_slot (store_chosen s v c) = max_slot c" "window_size (store_chosen s v c) = window_size c"
  "cap_view (store_chosen s v c) = cap_view c" "value_id (store_chosen s v c) = value_id c"
  "work (store_chosen s v c) = work c" "dumName (store_chosen s v c) = dumName c"
  "has_callback (store_chosen s v c) = has_callback c"
  "has_callback_full (store_chosen s v c) = has_callback_full c"
  "has_callback_latency (store_chosen s v c) = has_callback_latency c"
  by (simp_all add: store_chosen_def)

text \<open>
  The summary the handlers use: adding a value never faults, fills the slot only if it was
  empty, and then passes over the filled prefix.
\<close>

lemma add_chosen_value_result:
  assumes "log_ok c"
  obtains c' t where
    "add_chosen_value s v c = Inr (c', log_callbacks (store_chosen s v c) (max_chosen_without_hole c) t)"
    "passed_to t (store_chosen s v c) c'" "log_ok c'" "max_chosen_without_hole c \<le> t"
    "t = max_chosen (store_chosen s v c) \<or> chosen_values (store_chosen s v c) ! Suc t = None"
proof -
  from add_callback_result [OF log_ok_store [OF assms, of s v]] show thesis
    using that add_chosen_value_store [OF assms, of s v] by auto
qed

lemma chosen_at_stored_passed:
  "log_ok c \<Longrightarrow> passed_to t (store_chosen s v c) c' \<Longrightarrow>
     chosen_at c' = (if chosen_at c s = None then (chosen_at c)(s := Some v) else chosen_at c)"
  by (simp only: passed_to_sel(22) chosen_at_store)

lemma chosen_at_nth: "log_ok c \<Longrightarrow> s \<le> max_chosen c \<Longrightarrow> chosen_at c s = chosen_values c ! s"
  by (simp add: chosen_at_def log_ok_def)

text \<open>
  C19. Adding a chosen value never faults and keeps the log well-formed. It fills the slot if
  it was empty and never overwrites a chosen value; and it moves
  \<open>max_chosen_without_hole\<close> exactly to the end of the filled prefix of the log.
\<close>

theorem add_chosen_value_log:
  assumes "log_ok c"
  shows "\<exists>c' calls. add_chosen_value s v c = Inr (c', calls) \<and> log_ok c'
    \<and> chosen_at c' = (if chosen_at c s = None then (chosen_at c)(s := Some v) else chosen_at c)
    \<and> (\<forall>t. 0 < t \<and> t \<le> max_chosen_without_hole c' \<longrightarrow> chosen_at c' t \<noteq> None)
    \<and> chosen_at c' (Suc (max_chosen_without_hole c')) = None"
proof -
  from add_chosen_value_result [OF assms, of s v] obtain c' t where
    r: "add_chosen_value s v c = Inr (c', log_callbacks (store_chosen s v c) (max_chosen_without_hole c) t)"
    "passed_to t (store_chosen s v c) c'" "log_ok c'"
    "t = max_chosen (store_chosen s v c) \<or> chosen_values (store_chosen s v c) ! Suc t = None"
    by blast
  have t: "max_chosen_without_hole c' = t" "max_chosen c' = max_chosen (store_chosen s v c)"
    "chosen_values c' = chosen_values (store_chosen s v c)"
    using passed_to_sel [OF r(2)] by simp_all
  have "\<forall>u. 0 < u \<and> u \<le> t \<longrightarrow> chosen_at c' u \<noteq> None"
    using r(3) t(1) by (auto simp: log_ok_def chosen_at_def)
  moreover have "chosen_at c' (Suc t) = None"
    using r(3,4) t by (auto simp: log_ok_def chosen_at_def)
  ultimately show ?thesis
    using r(1,3) t(1) chosen_at_stored_passed [OF assms r(2)] by auto
qed

definition captain_3 :: "node_id \<Rightarrow> int \<Rightarrow> string captain" where
  "captain_3 me win = new_captain (view_3 me) win []"

theorem add_chosen_value_log_witness:
  "\<exists>c' calls. add_chosen_value 2 value_1 (captain_3 1 1) = Inr (c', calls)
    \<and> chosen_at c' 2 = Some value_1 \<and> chosen_at c' (Suc (max_chosen_without_hole c')) = None"
proof -
  have "log_ok (captain_3 1 1)"
    by (simp add: captain_3_def log_ok_new)
  moreover have "chosen_at (captain_3 1 1) 2 = None"
    by (simp add: chosen_at_def captain_3_def new_captain_def)
  ultimately show ?thesis
    using add_chosen_value_log [of "captain_3 1 1" 2 value_1] by auto
qed

section \<open>The order of the callbacks\<close>

text \<open>Values may become known in any order and more than once.\<close>

fun add_all :: "(slot_id \<times> prop_value) list \<Rightarrow> 'n captain \<Rightarrow> ('n captain \<times> 'n call list) res" where
  "add_all [] c = Inr (c, [])"
| "add_all ((s, v) # xs) c =
     res_bind (add_chosen_value s v c) (\<lambda>(c1, calls1).
       res_bind (add_all xs c1) (\<lambda>(c2, calls2). Inr (c2, calls1 @ calls2)))"

text \<open>The callbacks for the slots after \<open>i\<close> up to \<open>j\<close>, read off the log of \<open>c\<close>.\<close>

definition callbacks_between :: "'n captain \<Rightarrow> slot_id \<Rightarrow> slot_id \<Rightarrow> 'n call list" where
  "callbacks_between c i j =
     concat (map (\<lambda>s. value_callbacks s (the (chosen_at c s)) c) [Suc i..<Suc j])"

lemma callbacks_between_append:
  assumes "i \<le> j" and "j \<le> k"
  shows "callbacks_between c i k = callbacks_between c i j @ callbacks_between c j k"
proof -
  have "[Suc i..<Suc k] = [Suc i..<Suc j] @ [Suc j..<Suc k]"
    using assms by (metis Suc_le_mono le_add_diff_inverse upt_add_eq_append)
  then show ?thesis
    by (simp only: callbacks_between_def map_append concat_append)
qed

text \<open>Filled slots keep their value, and the flags stay, so callbacks can be read off later.\<close>

definition extends :: "'n captain \<Rightarrow> 'n captain \<Rightarrow> bool" where
  "extends c c' \<longleftrightarrow> (\<forall>s v. chosen_at c s = Some v \<longrightarrow> chosen_at c' s = Some v)
     \<and> max_chosen_without_hole c \<le> max_chosen_without_hole c'
     \<and> has_callback c' = has_callback c \<and> has_callback_full c' = has_callback_full c"

lemma callbacks_between_extends:
  assumes "extends c c'" and "\<forall>t. i < t \<and> t \<le> j \<longrightarrow> chosen_at c t \<noteq> None"
  shows "callbacks_between c i j = callbacks_between c' i j"
proof -
  have "value_callbacks s (the (chosen_at c s)) c = value_callbacks s (the (chosen_at c' s)) c'"
    if "s \<in> set [Suc i..<Suc j]" for s
  proof -
    have "chosen_at c s \<noteq> None"
      using assms(2) that by auto
    then have "chosen_at c' s = chosen_at c s"
      using assms(1) unfolding extends_def by (metis not_None_eq)
    then show ?thesis
      using assms(1) by (simp add: extends_def value_callbacks_def)
  qed
  then show ?thesis
    unfolding callbacks_between_def by (intro arg_cong [where f = concat] map_cong refl)
qed

lemma add_chosen_value_extends:
  assumes "log_ok c"
  obtains c' where
    "add_chosen_value s v c = Inr (c', callbacks_between c' (max_chosen_without_hole c) (max_chosen_without_hole c'))"
    "log_ok c'" "extends c c'"
proof -
  from add_chosen_value_result [OF assms, of s v] obtain c' t where
    r: "add_chosen_value s v c = Inr (c', log_callbacks (store_chosen s v c) (max_chosen_without_hole c) t)"
    "passed_to t (store_chosen s v c) c'" "log_ok c'" "max_chosen_without_hole c \<le> t"
    by blast
  note sel = passed_to_sel [OF r(2)]
  have ext: "extends c c'"
    using chosen_at_stored_passed [OF assms r(2)] r(4) sel
    by (auto simp: extends_def)
  have "t \<le> max_chosen c'"
    using r(3) sel(1) by (simp add: log_ok_def)
  have "value_callbacks u (the (chosen_values (store_chosen s v c) ! u)) (store_chosen s v c)
      = value_callbacks u (the (chosen_at c' u)) c'"
    if "u \<in> set [Suc (max_chosen_without_hole c)..<Suc t]" for u
  proof -
    have "chosen_at c' u = chosen_values (store_chosen s v c) ! u"
      using that \<open>t \<le> max_chosen c'\<close> chosen_at_nth [OF r(3), of u] sel(2) by auto
    then show ?thesis
      using sel by (simp add: value_callbacks_def)
  qed
  then have "log_callbacks (store_chosen s v c) (max_chosen_without_hole c) t
      = callbacks_between c' (max_chosen_without_hole c) t"
    unfolding log_callbacks_def callbacks_between_def
    by (intro arg_cong [where f = concat] map_cong refl)
  then show thesis
    using that [of c'] r(1,3) ext sel(1) by simp
qed

lemma log_ok_filled: "log_ok c \<Longrightarrow> 0 < t \<Longrightarrow> t \<le> max_chosen_without_hole c \<Longrightarrow> chosen_at c t \<noteq> None"
  by (simp add: log_ok_def chosen_at_def)

lemma extends_trans: "extends a b \<Longrightarrow> extends b c \<Longrightarrow> extends a c"
  by (auto simp: extends_def)

text \<open>
  C18. Whatever the order in which values become known, repeats included, the callbacks run
  for consecutive slots in ascending order, each slot once, with the value the log holds:
  the calls made are exactly those for the slots the filled prefix grew by.
\<close>

theorem callbacks_in_slot_order:
  assumes "log_ok c"
  shows "\<exists>c'. add_all xs c
      = Inr (c', callbacks_between c' (max_chosen_without_hole c) (max_chosen_without_hole c'))
    \<and> log_ok c' \<and> extends c c'"
  using assms
proof (induction xs arbitrary: c)
  case Nil
  then show ?case by (simp add: callbacks_between_def extends_def)
next
  case (Cons x xs)
  obtain s v where x: "x = (s, v)" by (cases x)
  let ?i = max_chosen_without_hole
  from add_chosen_value_extends [OF Cons.prems, of s v] obtain c1 where
    c1: "add_chosen_value s v c = Inr (c1, callbacks_between c1 (?i c) (?i c1))" "log_ok c1" "extends c c1"
    by blast
  from Cons.IH [OF c1(2)] obtain c2 where
    c2: "add_all xs c1 = Inr (c2, callbacks_between c2 (?i c1) (?i c2))" "log_ok c2" "extends c1 c2"
    by blast
  have "callbacks_between c1 (?i c) (?i c1) = callbacks_between c2 (?i c) (?i c1)"
    using log_ok_filled [OF c1(2)] by (intro callbacks_between_extends [OF c2(3)]) auto
  then have "callbacks_between c1 (?i c) (?i c1) @ callbacks_between c2 (?i c1) (?i c2)
      = callbacks_between c2 (?i c) (?i c2)"
    using callbacks_between_append [of "?i c" "?i c1" "?i c2" c2] c1(3) c2(3)
    by (simp add: extends_def)
  then show ?case
    using c1 c2 extends_trans x by auto
qed

theorem callbacks_in_slot_order_witness:
  "\<exists>c'. add_all [(2, value_1), (1, value_0), (2, value_0)] ((captain_3 1 1)\<lparr>has_callback := True\<rparr>)
     = Inr (c', [Run_callback 1 ''y'', Run_callback 2 ''x''])"
proof -
  let ?c = "(captain_3 1 1)\<lparr>has_callback := True\<rparr>"
  have ok: "log_ok ?c"
    by (simp add: captain_3_def new_captain_def log_ok_def)
  obtain c' where run: "add_all [(2, value_1), (1, value_0), (2, value_0)] ?c
      = Inr (c', callbacks_between c' (max_chosen_without_hole ?c) (max_chosen_without_hole c'))"
    using callbacks_in_slot_order [OF ok] by blast
  have "map_sum id snd (add_all [(2, value_1), (1, value_0), (2, value_0)] ?c)
      = Inr [Run_callback 1 ''y'', Run_callback 2 ''x'']"
    by code_simp
  then show ?thesis
    using run by auto
qed

end
