(* ===== verification/Captain_Inv.thy ===== *)
theory Captain_Inv
  imports Captain_Log
begin

text \<open>
  The invariant of a captain, and that every message handler keeps it, never faults and
  sends only well-formed messages. The invariant speaks of the five parts of the state: the
  view, the log (theory \<open>Captain_Log\<close>), the acceptors, the active proposers and the queue of
  waiting values.
\<close>

section \<open>The invariant\<close>

text \<open>Entry 0 of the acceptors is the null pointer of the constructor; the rest is allocated.\<close>

definition acceptors_ok :: "acceptor option list \<Rightarrow> bool" where
  "acceptors_ok as \<longleftrightarrow> as \<noteq> [] \<and> as ! 0 = None
     \<and> (\<forall>i. 0 < i \<longrightarrow> i < length as \<longrightarrow> (\<exists>a. as ! i = Some a \<and> acceptor_ok a))"

text \<open>
  An active proposer is in phase I with no value, or in phase II with one; its replies to
  accept requests belong to the phase II it is in.
\<close>

definition info_ok :: "node_id \<Rightarrow> 'n proposer_info \<Rightarrow> bool" where
  "info_ok q info \<longleftrightarrow> proposer_ok (curr_proposer info)
     \<and> qr (curr_proposer info) = q \<and> qw (curr_proposer info) = q
     \<and> pi_status info \<in> {INIT, PHASEI, PHASEII}
     \<and> (pi_status info = PHASEII \<longleftrightarrow> curr_value (curr_proposer info) \<noteq> None)
     \<and> (pi_status info \<noteq> PHASEII \<longrightarrow> ack_accepts (curr_proposer info) = [])"

definition proposers_ok :: "node_id \<Rightarrow> slot_id \<Rightarrow> (slot_id \<times> 'n proposer_info) list \<Rightarrow> bool" where
  "proposers_ok q hi ps \<longleftrightarrow> map_ok ps
     \<and> (\<forall>s info. map_find ps s = Some info \<longrightarrow> 0 < s \<and> s \<le> hi \<and> info_ok q info)"

text \<open>
  The window: at most \<open>window_size\<close> proposers run, a value waits only while all of them are
  busy, and every waiting value has its client.
\<close>

definition queue_ok :: "'n captain \<Rightarrow> bool" where
  "queue_ok c \<longleftrightarrow> length (tocommit_values c) = length (tocommit_clients c)
     \<and> length (proposers c) \<le> window_size c
     \<and> (tocommit_values c \<noteq> [] \<longrightarrow> length (proposers c) = window_size c)"

definition captain_ok :: "'n captain \<Rightarrow> bool" where
  "captain_ok c \<longleftrightarrow> view_ok (cap_view c) \<and> log_ok c \<and> acceptors_ok (acceptors c)
     \<and> proposers_ok (q_size (cap_view c)) (max_slot c) (proposers c) \<and> queue_ok c"

text \<open>A message from one of \<open>n\<close> hosts about a slot that exists.\<close>

definition msg_ok :: "nat \<Rightarrow> msg \<Rightarrow> bool" where
  "msg_ok n m \<longleftrightarrow> unat (hdr_node (header_of_msg m)) < n
     \<and> (case m of
          Prepare p \<Rightarrow> 0 < hdr_slot (pre_header p)
        | Accept a \<Rightarrow> 0 < hdr_slot (acc_header a) \<and> acc_last_slot a \<noteq> Some 0
        | Decide d \<Rightarrow> 0 < hdr_slot (dec_header d)
        | _ \<Rightarrow> True)"

definition call_ok :: "nat \<Rightarrow> 'n call \<Rightarrow> bool" where
  "call_ok n call = (case call of
       Send_self m \<Rightarrow> msg_ok n m
     | Send_to m d \<Rightarrow> msg_ok n m \<and> unat d < n
     | Reply_to m d _ \<Rightarrow> msg_ok n m \<and> unat d < n
     | Broadcast m \<Rightarrow> msg_ok n m
     | _ \<Rightarrow> True)"

text \<open>What every operation of a captain guarantees.\<close>

definition keeps :: "'n captain \<Rightarrow> ('n captain \<times> 'n call list) res \<Rightarrow> bool" where
  "keeps c r \<longleftrightarrow> (\<exists>c' calls. r = Inr (c', calls) \<and> captain_ok c' \<and> extends c c'
     \<and> (\<forall>call \<in> set calls. call_ok (host_count (cap_view c)) call)
     \<and> host_count (cap_view c') = host_count (cap_view c) \<and> me_of c' = me_of c
     \<and> window_size c' = window_size c)"

lemma keeps_Inr:
  "captain_ok c' \<Longrightarrow> extends c c' \<Longrightarrow> \<forall>call \<in> set calls. call_ok (host_count (cap_view c)) call \<Longrightarrow>
     host_count (cap_view c') = host_count (cap_view c) \<Longrightarrow> me_of c' = me_of c \<Longrightarrow>
     window_size c' = window_size c \<Longrightarrow> keeps c (Inr (c', calls))"
  by (simp add: keeps_def)

lemma extends_refl: "extends c c"
  by (simp add: extends_def)

text \<open>Operations in sequence, their calls appended.\<close>

lemma keeps_bind:
  assumes "keeps c r"
    and "\<And>c' calls. r = Inr (c', calls) \<Longrightarrow> keeps c (Inr (c', calls)) \<Longrightarrow> keeps c (f (c', calls))"
  shows "keeps c (res_bind r f)"
proof -
  from assms(1) obtain c' calls where r: "r = Inr (c', calls)"
    by (auto simp: keeps_def)
  show ?thesis
    using assms(2) [OF r] assms(1) unfolding r by simp
qed

section \<open>Acceptors\<close>

lemma acceptors_ok_grow:
  assumes "acceptors_ok as"
  shows "acceptors_ok (grow_acceptors (length as) s as)" and "s < length (grow_acceptors (length as) s as)"
  using assms
  by (auto simp: acceptors_ok_def grow_acceptors_eq nth_append acceptor_ok_init)

lemma acceptors_ok_at:
  assumes "acceptors_ok as" and "0 < s" and "s < length as"
  obtains a where "as ! s = Some a" "acceptor_ok a"
  using assms by (auto simp: acceptors_ok_def)

lemma acceptors_ok_update:
  "acceptors_ok as \<Longrightarrow> 0 < s \<Longrightarrow> acceptor_ok a \<Longrightarrow> acceptors_ok (as[s := Some a])"
  unfolding acceptors_ok_def
  by (metis length_list_update list_update_nonempty nth_list_update_eq nth_list_update_neq
      order_less_irrefl)

lemma acceptors_ok_new [naxos_ok]: "acceptors_ok (acceptors (new_captain v win dum))"
  by (auto simp: acceptors_ok_def new_captain_def nth_Cons' acceptor_ok_init)

section \<open>Proposers\<close>

lemma info_ok_restart:
  assumes "proposer_ok (curr_proposer info)" and "qr (curr_proposer info) = q"
    and "qw (curr_proposer info) = q" and "restart_info me s info = (info', m)"
  shows "info_ok q info' \<and> hdr_slot (pre_header m) = s \<and> hdr_node (pre_header m) = ucast me
    \<and> ack_prepares (curr_proposer info') = []"
  using assms
  by (auto simp: info_ok_def restart_info_def proposer_ok_def prepare_request_def
      restart_msg_prepare_def Proposer.msg_prepare_def curr_ballot_gen_next Let_def split: prod.splits)

lemma handle_msg_promise_frame:
  assumes "handle_msg_promise ack p = (p', t)"
  shows "qr p' = qr p" "qw p' = qw p" "ack_accepts p' = ack_accepts p" "init_value p' = init_value p"
    "curr_ballot p' = curr_ballot p" "t \<noteq> CHOOSE"
    "curr_value p = None \<Longrightarrow> (t = CONTINUE) = (curr_value p' \<noteq> None)"
  using assms
  by (auto simp: handle_msg_promise_def Let_def split: if_splits prod.splits option.splits)

lemma handle_msg_accepted_frame:
  assumes "handle_msg_accepted ack p = (p', t)"
  shows "qr p' = qr p" "qw p' = qw p" "curr_value p' = curr_value p" "init_value p' = init_value p"
    "curr_ballot p' = curr_ballot p" "t \<noteq> CONTINUE"
  using assms
  by (auto simp: handle_msg_accepted_def Let_def split: if_splits)

lemma proposer_ok_promise':
  "proposer_ok p \<Longrightarrow> handle_msg_promise ack p = (p', t) \<Longrightarrow> proposer_ok p'"
  using proposer_ok_promise [of p ack] by simp

lemma proposer_ok_accepted':
  "proposer_ok p \<Longrightarrow> handle_msg_accepted ack p = (p', t) \<Longrightarrow> proposer_ok p'"
  using proposer_ok_accepted [of p ack] by simp

text \<open>The first message of a phase of the proposer of slot \<open>s\<close>, before any reply to it.\<close>

definition opening_msg :: "node_id \<Rightarrow> slot_id \<Rightarrow> 'n proposer_info \<Rightarrow> msg \<Rightarrow> bool" where
  "opening_msg me s info m \<longleftrightarrow>
     (\<exists>p. m = Prepare p \<and> hdr_slot (pre_header p) = s \<and> hdr_node (pre_header p) = ucast me
        \<and> ack_prepares (curr_proposer info) = [])
     \<or> (\<exists>a. m = Accept a \<and> hdr_slot (acc_header a) = s \<and> hdr_node (acc_header a) = ucast me
        \<and> acc_last_slot a = None \<and> ack_accepts (curr_proposer info) = [])"

lemma promise_info_ok:
  assumes "info_ok q info" and "promise_info me s ack info = (info', om)"
  shows "info_ok q info'"
    and "\<And>m. om = Some m \<Longrightarrow> opening_msg me s info' m"
proof -
  let ?in_phase_i = "pi_status info = INIT \<or> pi_status info = PHASEI"
  obtain p t where run: "handle_msg_promise ack (curr_proposer info) = (p, t)"
    by (cases "handle_msg_promise ack (curr_proposer info)")
  let ?info1 = "info\<lparr>pi_status := PHASEI, curr_proposer := p\<rparr>"
  note frame = handle_msg_promise_frame [OF run]
  have p: "proposer_ok p" "qr p = q" "qw p = q"
    using assms(1) proposer_ok_promise' [OF _ run] frame by (simp_all add: info_ok_def)
  have ack: "?in_phase_i \<Longrightarrow> ack_accepts p = []"
    and cont: "?in_phase_i \<Longrightarrow> (t = CONTINUE) = (curr_value p \<noteq> None)"
    using assms(1) frame by (auto simp: info_ok_def)
  have "info_ok q info' \<and> (\<forall>m. om = Some m \<longrightarrow> opening_msg me s info' m)"
  proof (cases ?in_phase_i)
    case False
    then show ?thesis
      using assms by (simp add: promise_info_def)
  next
    case True
    show ?thesis
    proof (cases "t = RESTART")
      case True
      obtain info2 m where re: "restart_info me s ?info1 = (info2, m)"
        by (cases "restart_info me s ?info1")
      then show ?thesis
        using assms(2) \<open>?in_phase_i\<close> True run info_ok_restart [OF _ _ _ re, of q] p
        by (auto simp: promise_info_def opening_msg_def)
    next
      case False
      then show ?thesis
        using assms(2) \<open>?in_phase_i\<close> run p ack cont frame(6)
        by (cases t) (auto simp: promise_info_def info_ok_def accept_request_def
            Proposer.msg_accept_def Let_def opening_msg_def)
    qed
  qed
  then show "info_ok q info'"
    and "\<And>m. om = Some m \<Longrightarrow> opening_msg me s info' m"
    by blast+
qed

lemma accepted_info_ok:
  assumes "info_ok q info"
  shows "case accepted_info me s ack info of
      Still info' \<Rightarrow> info_ok q info'
    | Chosen info' \<Rightarrow> curr_value (curr_proposer info') \<noteq> None
        \<and> curr_value (curr_proposer info') = curr_value (curr_proposer info)
        \<and> try_time info' = try_time info \<and> client_name info' = client_name info
        \<and> init_value (curr_proposer info') = init_value (curr_proposer info)
    | Restarted info' m \<Rightarrow> info_ok q info' \<and> hdr_slot (pre_header m) = s
        \<and> hdr_node (pre_header m) = ucast me \<and> ack_prepares (curr_proposer info') = []"
proof -
  obtain p t where run: "handle_msg_accepted ack (curr_proposer info) = (p, t)"
    by (cases "handle_msg_accepted ack (curr_proposer info)")
  let ?info1 = "info\<lparr>curr_proposer := p\<rparr>"
  note frame = handle_msg_accepted_frame [OF run]
  have p: "proposer_ok p" "qr p = q" "qw p = q"
    using assms proposer_ok_accepted' [OF _ run] frame by (simp_all add: info_ok_def)
  obtain info2 m where re: "restart_info me s ?info1 = (info2, m)"
    by (cases "restart_info me s ?info1")
  show ?thesis
    using assms run p frame info_ok_restart [OF _ _ _ re, of q] re
    by (cases t) (auto simp: accepted_info_def info_ok_def)
qed

lemma info_ok_fast: "info_ok (q_size v) (fast_info v value name)"
  by (simp add: info_ok_def fast_info_def proposer_ok_init_curr_value proposer_ok_gen_next_ballot
      proposer_ok_new, simp add: proposer_ops quorum_size_def)

lemma info_ok_recommit:
  "recommit_info v tries value name = (info, m) \<Longrightarrow> info_ok (q_size v) info
     \<and> hdr_node (pre_header m) = ucast (whoami v)"
  by (auto simp: recommit_info_def info_ok_def Proposer.msg_prepare_def Let_def
      proposer_ok_gen_next_ballot proposer_ok_new)
     (simp_all add: proposer_ops quorum_size_def)

lemma proposers_ok_put:
  "proposers_ok q hi ps \<Longrightarrow> 0 < s \<Longrightarrow> s \<le> hi \<Longrightarrow> info_ok q info \<Longrightarrow>
     proposers_ok q hi (map_put s info ps)"
  by (auto simp: proposers_ok_def)

lemma proposers_ok_erase: "proposers_ok q hi ps \<Longrightarrow> proposers_ok q hi (map_erase s ps)"
  by (auto simp: proposers_ok_def split: if_splits)

lemma proposers_ok_erase_put:
  "proposers_ok q hi ps \<Longrightarrow> proposers_ok q hi (map_erase s (map_put s info ps))"
  by (auto simp: proposers_ok_def split: if_splits)

lemma proposers_ok_raise: "proposers_ok q hi ps \<Longrightarrow> hi \<le> hi' \<Longrightarrow> proposers_ok q hi' ps"
  by (fastforce simp: proposers_ok_def)

lemma proposers_ok_fresh: "proposers_ok q hi ps \<Longrightarrow> map_find ps (Suc hi) = None"
  by (cases "map_find ps (Suc hi)") (fastforce simp: proposers_ok_def)+

lemma proposers_ok_at:
  "proposers_ok q hi ps \<Longrightarrow> map_find ps s = Some info \<Longrightarrow> 0 < s \<and> s \<le> hi \<and> info_ok q info"
  by (simp add: proposers_ok_def)

lemma proposers_ok_map: "proposers_ok q hi ps \<Longrightarrow> map_ok ps"
  by (simp add: proposers_ok_def)

section \<open>Committing\<close>

lemma piggyback_result:
  assumes "log_ok c"
  obtains "piggyback m c = Inr (c, m)"
  | v where "chosen_at c (Suc (last_slot c)) = Some v" "log_ok (c\<lparr>last_slot := Suc (last_slot c)\<rparr>)"
      "piggyback m c = Inr (c\<lparr>last_slot := Suc (last_slot c)\<rparr>,
         m\<lparr>acc_last_slot := Some (Suc (last_slot c)), acc_last_value := Some (pv_id v)\<rparr>)"
proof (cases "last_slot c < max_chosen c")
  case True
  then have at: "vec_at (chosen_values c) (Suc (last_slot c)) = Inr (chosen_at c (Suc (last_slot c)))"
    using assms by (simp add: log_ok_def chosen_at_def)
  show thesis
  proof (cases "chosen_at c (Suc (last_slot c))")
    case None
    then show thesis
      using True at that(1) by (simp add: piggyback_def)
  next
    case (Some v)
    have "log_ok (c\<lparr>last_slot := Suc (last_slot c)\<rparr>)"
      using assms True Some chosen_at_nth [OF assms, of "Suc (last_slot c)"]
      by (auto simp: log_ok_def le_Suc_eq)
    then show thesis
      using True at Some that(2) [OF Some] by (simp add: piggyback_def)
  qed
next
  case False
  then show thesis
    using that(1) by (simp add: piggyback_def)
qed

text \<open>The invariant without the queue: what holds between taking a value and proposing it.\<close>

definition core_ok :: "'n captain \<Rightarrow> bool" where
  "core_ok c \<longleftrightarrow> view_ok (cap_view c) \<and> log_ok c \<and> acceptors_ok (acceptors c)
     \<and> proposers_ok (q_size (cap_view c)) (max_slot c) (proposers c)"

lemma captain_ok_core: "captain_ok c \<longleftrightarrow> core_ok c \<and> queue_ok c"
  by (simp add: captain_ok_def core_ok_def)

lemma core_ok_queues [simp]:
  "core_ok (c\<lparr>tocommit_values := vs\<rparr>) = core_ok c" "core_ok (c\<lparr>tocommit_clients := ns\<rparr>) = core_ok c"
  "core_ok (c\<lparr>dumName := d\<rparr>) = core_ok c" "core_ok (c\<lparr>commit_ok := b\<rparr>) = core_ok c"
  "core_ok (c\<lparr>value_id := i\<rparr>) = core_ok c"
  by (simp_all add: core_ok_def)

lemma view_ok_me: "view_ok v \<Longrightarrow> unat (ucast (whoami v) :: 32 word) < host_count v"
proof -
  assume "view_ok v"
  then have "unat (whoami v) < host_count v"
    by (simp add: view_ok_def whoami_def)
  moreover have "unat (ucast (whoami v) :: 32 word) \<le> unat (whoami v)"
    by (simp add: unsigned_ucast_eq take_bit_eq_mod)
  ultimately show ?thesis by simp
qed

lemma core_ok_me: "core_ok c \<Longrightarrow> unat (ucast (me_of c) :: 32 word) < host_count (cap_view c)"
  by (simp add: core_ok_def view_ok_me)

lemma propose_fast_result:
  assumes "core_ok c"
  shows "\<exists>c' m. propose_fast pv name c = Inr (c', [Broadcast (Accept m)])
    \<and> core_ok c' \<and> msg_ok (host_count (cap_view c)) (Accept m) \<and> extends c c'
    \<and> hdr_slot (acc_header m) = Suc (max_slot c) \<and> hdr_node (acc_header m) = ucast (me_of c)
    \<and> acc_value m = pv
    \<and> acc_ballot m = first_ballot (me_of c) \<and> max_slot c' = Suc (max_slot c)
    \<and> proposers c' = map_put (Suc (max_slot c)) (fast_info (cap_view c) pv name) (proposers c)
    \<and> length (proposers c') = Suc (length (proposers c))
    \<and> tocommit_values c' = tocommit_values c \<and> tocommit_clients c' = tocommit_clients c
    \<and> window_size c' = window_size c \<and> cap_view c' = cap_view c \<and> acceptors c' = acceptors c
    \<and> chosen_values c' = chosen_values c \<and> dumName c' = dumName c"
proof -
  let ?s = "Suc (max_slot c)"
  let ?info = "fast_info (cap_view c) pv name"
  let ?m = "accept_request (me_of c) ?s ?info"
  let ?c1 = "c\<lparr>max_slot := ?s, proposers := map_put ?s ?info (proposers c)\<rparr>"
  have ps: "proposers_ok (q_size (cap_view c)) (max_slot c) (proposers c)" and log: "log_ok ?c1"
    using assms by (simp_all add: core_ok_def)
  have "proposers_ok (q_size (cap_view c)) ?s (map_put ?s ?info (proposers c))"
    using proposers_ok_raise [OF ps, of ?s] by (simp add: proposers_ok_put info_ok_fast)
  then have core: "core_ok ?c1"
    using assms by (simp add: core_ok_def)
  have len: "length (map_put ?s ?info (proposers c)) = Suc (length (proposers c))"
    using proposers_ok_fresh [OF ps] proposers_ok_map [OF ps] by (simp add: amap.size_put)
  have m: "hdr_slot (acc_header ?m) = ?s" "hdr_node (acc_header ?m) = ucast (me_of c)"
    "acc_value ?m = pv" "acc_ballot ?m = first_ballot (me_of c)" "acc_last_slot ?m = None"
    by (simp_all add: accept_request_def fast_info_def proposer_ops Let_def first_ballot_def
        add.commute)
  have ext: "extends c (?c1\<lparr>last_slot := l\<rparr>)" "extends c ?c1" for l
    by (simp_all add: extends_def)
  have sent: "msg_ok (host_count (cap_view c)) (Accept ?m)"
    "\<And>l vid. msg_ok (host_count (cap_view c))
       (Accept (?m\<lparr>acc_last_slot := Some (Suc l), acc_last_value := vid\<rparr>))"
    using m core_ok_me [OF assms] by (simp_all add: msg_ok_def)
  from log show ?thesis
  proof (cases rule: piggyback_result [where m = ?m])
    case 1
    then show ?thesis
      using core len m sent(1) ext(2)
      by (intro exI [of _ ?c1] exI [of _ ?m]) (simp add: propose_fast_def Let_def)
  next
    case (2 v)
    let ?c2 = "?c1\<lparr>last_slot := Suc (last_slot ?c1)\<rparr>"
    have "core_ok ?c2"
      using core 2(2) by (simp add: core_ok_def)
    then show ?thesis
      using 2(3) len m sent(2) ext(1)
      by (intro exI [of _ ?c2] exI [of _ "?m\<lparr>acc_last_slot := Some (Suc (last_slot c)),
          acc_last_value := Some (pv_id v)\<rparr>"]) (simp add: propose_fast_def Let_def)
  qed
qed

text \<open>
  \<open>commit_value\<close> under the invariant: the value waits when the window is full and is
  proposed otherwise; the branch that puts it behind older values is never taken.
\<close>

lemma commit_value_full:
  "queue_ok c \<Longrightarrow> length (proposers c) = window_size c \<Longrightarrow>
     commit_value pv name c = Inr (c\<lparr>tocommit_values := tocommit_values c @ [pv],
       tocommit_clients := tocommit_clients c @ [name]\<rparr>, [], name)"
  by (simp add: commit_value_def queue_push_def)

lemma commit_value_free:
  "queue_ok c \<Longrightarrow> length (proposers c) < window_size c \<Longrightarrow>
     commit_value pv name c = res_bind (propose_fast pv name c) (\<lambda>(c', calls). Inr (c', calls, name))"
  by (auto simp: commit_value_def queue_ok_def)

lemma queue_ok_cases: "queue_ok c \<Longrightarrow>
    length (proposers c) = window_size c \<or> length (proposers c) < window_size c"
  by (auto simp: queue_ok_def)

lemma call_ok_simps [simp]:
  "call_ok n (Send_self m) = msg_ok n m" "call_ok n (Send_to m d) = (msg_ok n m \<and> unat d < n)"
  "call_ok n (Reply_to m d name) = (msg_ok n m \<and> unat d < n)" "call_ok n (Broadcast m) = msg_ok n m"
  "call_ok n (Produce_log s v)" "call_ok n (Inform_client s t name)" "call_ok n (Run_callback s dat)"
  "call_ok n (Run_callback_full s v nd)" "call_ok n (Run_callback_latency s v t)"
  "call_ok n Wait_commit_ok"
  by (simp_all add: call_ok_def)

lemma commit_value_keeps:
  assumes "captain_ok c"
  shows "\<exists>c' calls. commit_value pv name c = Inr (c', calls, name)
    \<and> captain_ok c' \<and> extends c c' \<and> (\<forall>call \<in> set calls. call_ok (host_count (cap_view c)) call)
    \<and> cap_view c' = cap_view c \<and> window_size c' = window_size c \<and> dumName c' = dumName c"
proof -
  have ok: "core_ok c" "queue_ok c"
    using assms by (simp_all add: captain_ok_core)
  from queue_ok_cases [OF ok(2)] show ?thesis
  proof
    assume full: "length (proposers c) = window_size c"
    then show ?thesis
      using ok by (simp add: commit_value_full captain_ok_core queue_ok_def extends_def)
  next
    assume free: "length (proposers c) < window_size c"
    then have "tocommit_values c = []" "tocommit_clients c = []"
      using ok(2) by (auto simp: queue_ok_def)
    with free ok propose_fast_result [OF ok(1), of pv name] show ?thesis
      by (auto simp: commit_value_free captain_ok_core queue_ok_def)
  qed
qed

lemma commit_value_dum_keeps:
  assumes "captain_ok c"
  shows "keeps c (commit_value_dum pv c)"
  using commit_value_keeps [OF assms, of pv "dumName c"]
  by (auto simp: commit_value_dum_def keeps_def captain_ok_core queue_ok_def extends_def)

lemma commit_from_queue_keeps:
  assumes "core_ok c" and "length (tocommit_values c) = length (tocommit_clients c)"
    and "length (proposers c) \<le> window_size c"
    and "tocommit_values c \<noteq> [] \<longrightarrow> Suc (length (proposers c)) = window_size c"
  shows "keeps c (commit_from_queue c)"
proof (cases "tocommit_values c")
  case Nil
  then show ?thesis
    using assms by (simp add: commit_from_queue_def keeps_def captain_ok_core queue_ok_def extends_refl)
next
  case (Cons pv vs)
  then obtain name ns where ns: "tocommit_clients c = name # ns"
    using assms(2) by (cases "tocommit_clients c") auto
  let ?c = "c\<lparr>tocommit_values := vs, tocommit_clients := ns\<rparr>"
  have "core_ok ?c" using assms(1) by simp
  from propose_fast_result [OF this, of pv name] show ?thesis
    using Cons ns assms(2-4)
    by (auto simp: commit_from_queue_def keeps_def captain_ok_core queue_ok_def extends_def)
qed

section \<open>Learning a value\<close>

lemma value_callbacks_ok: "\<forall>call \<in> set (value_callbacks s v c). call_ok n call"
  by (auto simp: value_callbacks_def)

lemma log_callbacks_ok: "\<forall>call \<in> set (log_callbacks c i j). call_ok n call"
  using value_callbacks_ok by (fastforce simp: log_callbacks_def)

text \<open>The parts of the state that learning a value leaves alone.\<close>

definition same_rest :: "'n captain \<Rightarrow> 'n captain \<Rightarrow> bool" where
  "same_rest c c' \<longleftrightarrow> proposers c' = proposers c \<and> acceptors c' = acceptors c
     \<and> tocommit_values c' = tocommit_values c \<and> tocommit_clients c' = tocommit_clients c
     \<and> max_slot c' = max_slot c \<and> window_size c' = window_size c \<and> me_of c' = me_of c
     \<and> host_count (cap_view c') = host_count (cap_view c) \<and> q_size (cap_view c') = q_size (cap_view c)
     \<and> view_ok (cap_view c') = view_ok (cap_view c)"

lemma add_chosen_value_rest:
  assumes "log_ok c"
  obtains c' calls where "add_chosen_value s v c = Inr (c', calls)" "log_ok c'" "extends c c'"
    "\<forall>call \<in> set calls. call_ok n call" "same_rest c c'"
    "chosen_at c' = (if chosen_at c s = None then (chosen_at c)(s := Some v) else chosen_at c)"
proof -
  from add_chosen_value_result [OF assms, of s v] obtain c' t where
    r: "add_chosen_value s v c = Inr (c', log_callbacks (store_chosen s v c) (max_chosen_without_hole c) t)"
    and p: "passed_to t (store_chosen s v c) c'" "log_ok c'" "max_chosen_without_hole c \<le> t"
    by blast
  note sel = passed_to_sel [OF p(1)]
  have chosen: "chosen_at c' = (if chosen_at c s = None then (chosen_at c)(s := Some v) else chosen_at c)"
    by (rule chosen_at_stored_passed [OF assms p(1)])
  moreover have "extends c c'"
    unfolding extends_def chosen using sel p(3) by auto
  moreover have "same_rest c c'"
    using sel by (simp add: same_rest_def)
  ultimately show thesis
    using that [OF r] log_callbacks_ok p(2) by blast
qed

lemma add_chosen_value_quorum:
  assumes "log_ok c" and "add_chosen_value s v c = Inr (c', calls)"
  shows "if_quorum (cap_view c') = if_quorum (cap_view c)"
proof -
  from add_chosen_value_result [OF assms(1), of s v] obtain c1 t where
    "add_chosen_value s v c = Inr (c1, log_callbacks (store_chosen s v c) (max_chosen_without_hole c) t)"
    "passed_to t (store_chosen s v c) c1"
    by blast
  then show ?thesis
    using assms(2) by (auto simp: passed_to_def if_quorum_def)
qed

lemma add_chosen_value_core:
  assumes "core_ok c"
  obtains c' calls where "add_chosen_value s v c = Inr (c', calls)" "core_ok c'" "extends c c'"
    "\<forall>call \<in> set calls. call_ok n call" "same_rest c c'"
    "chosen_at c' = (if chosen_at c s = None then (chosen_at c)(s := Some v) else chosen_at c)"
proof -
  have log: "log_ok c"
    using assms by (simp add: core_ok_def)
  obtain c' calls where r: "add_chosen_value s v c = Inr (c', calls)" "log_ok c'" "extends c c'"
    "\<forall>call \<in> set calls. call_ok n call" "same_rest c c'"
    "chosen_at c' = (if chosen_at c s = None then (chosen_at c)(s := Some v) else chosen_at c)"
    by (rule add_chosen_value_rest [OF log])
  have "core_ok c'"
    using assms r(2,5) by (simp add: core_ok_def same_rest_def)
  then show thesis
    using that r by blast
qed

lemma keeps_same_rest:
  "core_ok c' \<Longrightarrow> extends c c' \<Longrightarrow> \<forall>call \<in> set calls. call_ok (host_count (cap_view c)) call \<Longrightarrow>
     same_rest c c' \<Longrightarrow> queue_ok c \<Longrightarrow> keeps c (Inr (c', calls))"
  by (simp add: keeps_def captain_ok_core same_rest_def queue_ok_def)

lemma add_chosen_value_keeps:
  assumes "captain_ok c"
  shows "keeps c (add_chosen_value s v c)"
proof -
  have ok: "core_ok c" "queue_ok c"
    using assms by (simp_all add: captain_ok_core)
  obtain c' calls where
    "add_chosen_value s v c = Inr (c', calls)" "core_ok c'" "extends c c'"
    "\<forall>call \<in> set calls. call_ok (host_count (cap_view c)) call" "same_rest c c'"
    "chosen_at c' = (if chosen_at c s = None then (chosen_at c)(s := Some v) else chosen_at c)"
    by (rule add_chosen_value_core [OF ok(1)])
  then show ?thesis
    using ok(2) by (simp add: keeps_same_rest)
qed

lemma add_learn_value_keeps: "captain_ok c \<Longrightarrow> keeps c (add_learn_value s v n c)"
  by (simp add: add_learn_value_def add_chosen_value_keeps)

text \<open>The two tests that read the log and an acceptor never fault on a slot that exists.\<close>

lemma already_chosen_result:
  "log_ok c \<Longrightarrow> already_chosen s c = Inr (chosen_at c s \<noteq> None)"
  by (simp add: already_chosen_def chosen_at_def log_ok_def)

definition acceptor_at :: "'n captain \<Rightarrow> slot_id \<Rightarrow> acceptor option" where
  "acceptor_at c s = (if s < length (acceptors c) then acceptors c ! s else None)"

lemma accepted_here_result:
  assumes "acceptors_ok (acceptors c)" and "0 < s"
  shows "accepted_here s vid c = Inr (case acceptor_at c s of None \<Rightarrow> None
    | Some a \<Rightarrow> (case max_value a of None \<Rightarrow> None | Some v \<Rightarrow> if pv_id v = vid then Some v else None))"
proof (cases "s < length (acceptors c)")
  case True
  then obtain a where "acceptors c ! s = Some a"
    using acceptors_ok_at [OF assms] by blast
  then show ?thesis
    using True by (simp add: accepted_here_def acceptor_at_def)
qed (simp add: accepted_here_def acceptor_at_def)

section \<open>The handlers\<close>

lemma unat_sender_le: "unat (sender h) \<le> unat (hdr_node h)"
  by (simp add: sender_def unsigned_ucast_eq take_bit_eq_mod)

lemma sender_less: "unat (hdr_node h) < n \<Longrightarrow> unat (sender h) < n"
  using unat_sender_le by (rule le_less_trans)

lemma handle_msg_prepare_header:
  "ackp_header (snd (handle_msg_prepare me m a)) = set_msg_header me PROMISE (hdr_slot (pre_header m))"
  by (simp add: handle_msg_prepare_def Let_def)

lemma handle_msg_accept_header:
  "acka_header (snd (handle_msg_accept me m a)) = set_msg_header me ACCEPTED (hdr_slot (acc_header m))"
  by (simp add: handle_msg_accept_def Let_def)

lemma captain_ok_acceptors:
  "captain_ok c \<Longrightarrow> acceptors_ok as \<Longrightarrow> captain_ok (c\<lparr>acceptors := as\<rparr>)"
  by (simp add: captain_ok_def queue_ok_def)

lemma extends_acceptors [simp]: "extends c (c\<lparr>acceptors := as\<rparr>)"
  "extends c (c\<lparr>proposers := ps\<rparr>)" "extends c (c\<lparr>commit_ok := b\<rparr>)" "extends c (c\<lparr>cap_view := v\<rparr>)"
  by (simp_all add: extends_def)

lemma captain_ok_me: "captain_ok c \<Longrightarrow> unat (ucast (me_of c) :: 32 word) < host_count (cap_view c)"
  by (simp add: captain_ok_core core_ok_me)

lemma handle_prepare_keeps:
  assumes "captain_ok c" and "msg_ok (host_count (cap_view c)) (Prepare m)"
  shows "keeps c (handle_prepare m name c)"
proof -
  let ?s = "hdr_slot (pre_header m)"
  let ?as = "grow_acceptors (length (acceptors c)) ?s (acceptors c)"
  have as: "acceptors_ok ?as" "?s < length ?as" and s: "0 < ?s"
    using acceptors_ok_grow [of "acceptors c" ?s] assms by (simp_all add: captain_ok_def msg_ok_def)
  obtain a where a: "?as ! ?s = Some a" "acceptor_ok a"
    using acceptors_ok_at [OF as(1) s as(2)] by blast
  obtain a' ack where run: "handle_msg_prepare (me_of c) m a = (a', ack)"
    by (cases "handle_msg_prepare (me_of c) m a")
  have "acceptor_ok a'"
    using acceptor_ok_prepare [OF a(2), of "me_of c" m] run by simp
  moreover have "ackp_header ack = set_msg_header (me_of c) PROMISE ?s"
    using handle_msg_prepare_header [of "me_of c" m a] run by simp
  moreover note captain_ok_acceptors [OF assms(1) acceptors_ok_update [OF as(1) s]]
  ultimately show ?thesis
    using as(2) a(1) run assms(2) captain_ok_me [OF assms(1)]
    by (simp add: handle_prepare_def Let_def keeps_def msg_ok_def sender_less)
qed

lemma learn_piggyback_result:
  assumes "captain_ok c" and "0 < s"
  obtains "learn_piggyback s vid n c = Inr None"
  | c' calls where "learn_piggyback s vid n c = Inr (Some (c', calls))" "keeps c (Inr (c', calls))"
proof (cases "chosen_at c s = None")
  case False
  have "log_ok c"
    using assms(1) by (simp add: captain_ok_def)
  then have "learn_piggyback s vid n c = Inr None"
    using False by (simp add: learn_piggyback_def already_chosen_result)
  then show thesis
    by (rule that(1))
next
  case True
  have ok: "log_ok c" "acceptors_ok (acceptors c)" "core_ok c" "queue_ok c"
    using assms(1) by (simp_all add: captain_ok_core core_ok_def)
  obtain ov where here: "accepted_here s vid c = Inr ov"
    using accepted_here_result [OF ok(2) assms(2)] by blast
  show thesis
  proof (cases ov)
    case None
    then have "learn_piggyback s vid n c = Inr (Some (c, []))"
      using here True ok(1) by (simp add: learn_piggyback_def already_chosen_result)
    moreover have "keeps c (Inr (c, []))"
      using assms(1) by (simp add: keeps_def extends_refl)
    ultimately show thesis
      by (rule that(2))
  next
    case (Some v)
    obtain c' calls where
      r: "add_chosen_value s v c = Inr (c', calls)" "core_ok c'" "extends c c'"
      "\<forall>call \<in> set calls. call_ok (host_count (cap_view c)) call" "same_rest c c'"
      "chosen_at c' = (if chosen_at c s = None then (chosen_at c)(s := Some v) else chosen_at c)"
      by (rule add_chosen_value_core [OF ok(3)])
    have w: "chosen_at c' s = Some v"
      using r(6) True by simp
    then have "vec_at (chosen_values c') s = Inr (Some v)"
      by (simp add: chosen_at_def split: if_splits)
    then have "learn_piggyback s vid n c = Inr (Some (c', calls @ [Produce_log s v]))"
      using True here Some r(1) ok(1)
      by (simp add: learn_piggyback_def already_chosen_result add_learn_value_def)
    moreover have "keeps c (Inr (c', calls @ [Produce_log s v]))"
      using r ok(4) by (intro keeps_same_rest) auto
    ultimately show thesis
      by (rule that(2))
  qed
qed

lemma handle_accept_keeps:
  assumes "captain_ok c" and "msg_ok (host_count (cap_view c)) (Accept m)"
  shows "keeps c (handle_accept m name c)"
proof -
  let ?s = "hdr_slot (acc_header m)"
  let ?as = "grow_acceptors (length (acceptors c)) ?s (acceptors c)"
  have as: "acceptors_ok ?as" "?s < length ?as" and s: "0 < ?s"
    using acceptors_ok_grow [of "acceptors c" ?s] assms by (simp_all add: captain_ok_def msg_ok_def)
  obtain a where a: "?as ! ?s = Some a" "acceptor_ok a"
    using acceptors_ok_at [OF as(1) s as(2)] by blast
  obtain a' ack where run: "handle_msg_accept (me_of c) m a = (a', ack)"
    by (cases "handle_msg_accept (me_of c) m a")
  let ?c' = "c\<lparr>acceptors := ?as[?s := Some a']\<rparr>"
  have "acceptor_ok a'"
    using acceptor_ok_accept [OF a(2), of "me_of c" m] run by simp
  then have ok: "captain_ok ?c'"
    using captain_ok_acceptors [OF assms(1) acceptors_ok_update [OF as(1) s]] by simp
  have hdr: "acka_header ack = set_msg_header (me_of c) ACCEPTED ?s"
    using handle_msg_accept_header [of "me_of c" m a] run by simp
  note facts = as(2) a(1) run assms(2) captain_ok_me [OF assms(1)] hdr ok
  show ?thesis
  proof (cases "from_myself (acc_header m) c \<or> acc_last_slot m = None")
    case True
    then show ?thesis
      using facts by (auto simp: handle_accept_def Let_def keeps_def msg_ok_def sender_less)
  next
    case False
    then obtain ds where ds: "acc_last_slot m = Some ds" "\<not> from_myself (acc_header m) c" "0 < ds"
      using assms(2) by (auto simp: msg_ok_def)
    let ?vid = "case acc_last_value m of None \<Rightarrow> 0 | Some vid \<Rightarrow> vid"
    from ok ds(3) show ?thesis
    proof (cases rule: learn_piggyback_result [where vid = ?vid and n = "sender (acc_header m)"])
      case 1
      then show ?thesis
        using facts ds by (simp add: handle_accept_def Let_def keeps_def)
    next
      case (2 c' calls)
      then show ?thesis
        using facts ds
        by (auto simp: handle_accept_def Let_def keeps_def msg_ok_def sender_less extends_def)
    qed
  qed
qed

lemma captain_ok_put:
  assumes "captain_ok c" and "map_find (proposers c) s = Some info" and "info_ok (q_size (cap_view c)) info'"
  shows "captain_ok (c\<lparr>proposers := map_put s info' (proposers c)\<rparr>)"
proof -
  have ps: "proposers_ok (q_size (cap_view c)) (max_slot c) (proposers c)"
    using assms(1) by (simp add: captain_ok_def)
  have "length (map_put s info' (proposers c)) = length (proposers c)"
    using assms(2) proposers_ok_map [OF ps] by (simp add: amap.size_put)
  then show ?thesis
    using assms(1,3) proposers_ok_put [OF ps] proposers_ok_at [OF ps assms(2)]
    by (simp add: captain_ok_def queue_ok_def)
qed

lemma handle_promise_keeps:
  assumes "captain_ok c"
  shows "keeps c (Inr (handle_promise ack c))"
proof (cases "map_find (proposers c) (hdr_slot (ackp_header ack))")
  case None
  then show ?thesis
    using assms by (simp add: handle_promise_def Let_def keeps_def extends_refl)
next
  case (Some info)
  let ?s = "hdr_slot (ackp_header ack)"
  obtain info' om where run: "promise_info (me_of c) ?s ack info = (info', om)"
    by (cases "promise_info (me_of c) ?s ack info")
  have at: "0 < ?s" "info_ok (q_size (cap_view c)) info"
    using proposers_ok_at [OF _ Some] assms by (auto simp: captain_ok_def)
  have "msg_ok (host_count (cap_view c)) m" if "om = Some m" for m
    using promise_info_ok(2) [OF at(2) run that] captain_ok_me [OF assms] at(1)
    by (auto simp: msg_ok_def opening_msg_def)
  then show ?thesis
    using captain_ok_put [OF assms Some promise_info_ok(1) [OF at(2) run]] Some run
    by (auto simp: handle_promise_def Let_def keeps_def split: option.splits)
qed

lemma recommit_core:
  assumes "core_ok c"
  obtains c' m where "recommit tries pv name c = (c', [Broadcast (Prepare m)])" "core_ok c'"
    "extends c c'" "msg_ok (host_count (cap_view c)) (Prepare m)"
    "c' = c\<lparr>max_slot := Suc (max_slot c), proposers :=
       map_put (Suc (max_slot c)) (fst (recommit_info (cap_view c) tries pv name)) (proposers c)\<rparr>"
    "length (proposers c') = Suc (length (proposers c))"
proof -
  obtain info m where re: "recommit_info (cap_view c) tries pv name = (info, m)"
    by (cases "recommit_info (cap_view c) tries pv name")
  let ?c' = "c\<lparr>max_slot := Suc (max_slot c), proposers := map_put (Suc (max_slot c)) info (proposers c)\<rparr>"
  let ?m = "prepare_request (Suc (max_slot c)) m"
  have ps: "proposers_ok (q_size (cap_view c)) (max_slot c) (proposers c)"
    using assms by (simp add: core_ok_def)
  have info: "info_ok (q_size (cap_view c)) info" "hdr_node (pre_header m) = ucast (me_of c)"
    using info_ok_recommit [OF re] by simp_all
  have "proposers_ok (q_size (cap_view c)) (Suc (max_slot c))
      (map_put (Suc (max_slot c)) info (proposers c))"
    using proposers_ok_put [OF proposers_ok_raise [OF ps]] info(1) by simp
  then have core: "core_ok ?c'"
    using assms by (simp add: core_ok_def)
  have ext: "extends c ?c'"
    by (simp add: extends_def)
  have sent: "msg_ok (host_count (cap_view c)) (Prepare ?m)"
    using info(2) core_ok_me [OF assms] by (simp add: msg_ok_def prepare_request_def)
  have len: "length (proposers ?c') = Suc (length (proposers c))"
    using proposers_ok_fresh [OF ps] proposers_ok_map [OF ps] by (simp add: amap.size_put)
  show thesis
    by (rule that [of ?c' ?m]) (use re core ext sent len in \<open>simp_all add: recommit_def Let_def\<close>)
qed

lemma extends_eq_log:
  "chosen_at c' = chosen_at c \<Longrightarrow> max_chosen_without_hole c' = max_chosen_without_hole c \<Longrightarrow>
     has_callback c' = has_callback c \<Longrightarrow> has_callback_full c' = has_callback_full c \<Longrightarrow> extends c c'"
  by (simp add: extends_def)

text \<open>
  A slot that is chosen: the value gets into the log, the proposer goes, and all else is as it
  was when the next piece of work begins.
\<close>

lemma finish_slot_parts:
  assumes "captain_ok c" and "map_find (proposers c) s = Some info"
    and "curr_value (curr_proposer info') = Some chosen"
  obtains c2 calls2 c3 where "add_chosen_value s chosen (c\<lparr>proposers := map_put s info' (proposers c)\<rparr>) = Inr (c2, calls2)"
    "c3 = c2\<lparr>proposers := map_erase s (proposers c2)\<rparr>" "proposers c3 = map_erase s (proposers c)"
    "core_ok c3" "same_rest (c\<lparr>proposers := proposers c3\<rparr>) c3" "extends c c3"
    "\<forall>call \<in> set (tell_client s info' chosen c @ calls2). call_ok n call"
    "chosen_at c3 = (if chosen_at c s = None then (chosen_at c)(s := Some chosen) else chosen_at c)"
    "finish_slot s info' name c = res_bind (next_work info' chosen name c3) (\<lambda>(c4, calls4).
       Inr (c4, tell_client s info' chosen c @ calls2 @ calls4))"
proof -
  let ?c1 = "c\<lparr>proposers := map_put s info' (proposers c)\<rparr>"
  have ps: "proposers_ok (q_size (cap_view c)) (max_slot c) (proposers c)" and log: "log_ok ?c1"
    using assms(1) by (simp_all add: captain_ok_def)
  obtain c2 calls2 where r: "add_chosen_value s chosen ?c1 = Inr (c2, calls2)" "log_ok c2" "extends ?c1 c2"
    "\<forall>call \<in> set calls2. call_ok n call" "same_rest ?c1 c2"
    "chosen_at c2 = (if chosen_at ?c1 s = None then (chosen_at ?c1)(s := Some chosen) else chosen_at ?c1)"
    by (rule add_chosen_value_rest [OF log])
  define c3 where "c3 = c2\<lparr>proposers := map_erase s (proposers c2)\<rparr>"
  note rest = r(5) [unfolded same_rest_def, simplified]
  have erased: "proposers c3 = map_erase s (proposers c)"
    using rest by (simp add: c3_def map_erase_put [OF proposers_ok_map [OF ps]])
  have "core_ok c3"
    using rest r(2) assms(1) proposers_ok_erase [OF ps] erased by (simp add: core_ok_def captain_ok_def c3_def)
  moreover have "same_rest (c\<lparr>proposers := proposers c3\<rparr>) c3"
    using rest by (simp add: same_rest_def c3_def)
  moreover have "\<forall>call \<in> set (tell_client s info' chosen c @ calls2). call_ok n call"
    using r(4) by (auto simp: tell_client_def)
  ultimately show thesis
    using that [OF r(1) c3_def erased] r(1,3,6) assms(3)
    by (simp add: c3_def extends_def finish_slot_def get_chosen_value_def Let_def)
qed

lemma next_work_keeps:
  assumes "core_ok c" and "length (tocommit_values c) = length (tocommit_clients c)"
    and "Suc (length (proposers c)) \<le> window_size c"
    and "tocommit_values c \<noteq> [] \<longrightarrow> Suc (length (proposers c)) = window_size c"
  shows "keeps c (next_work info chosen name c)"
proof (cases "pv_id chosen = pv_id (get_init_value (curr_proposer info))")
  case True
  then show ?thesis
    using commit_from_queue_keeps [OF assms(1,2)] assms(3,4) by (simp add: next_work_def)
next
  case False
  let ?init = "get_init_value (curr_proposer info)"
  obtain c' m where "recommit (try_time info + 1) ?init name c = (c', [Broadcast (Prepare m)])" "core_ok c'"
    "extends c c'" "msg_ok (host_count (cap_view c)) (Prepare m)"
    "c' = c\<lparr>max_slot := Suc (max_slot c), proposers := map_put (Suc (max_slot c))
       (fst (recommit_info (cap_view c) (try_time info + 1) ?init name)) (proposers c)\<rparr>"
    "length (proposers c') = Suc (length (proposers c))"
    by (rule recommit_core [OF assms(1)])
  then show ?thesis
    using False assms by (auto simp: next_work_def keeps_def captain_ok_core queue_ok_def)
qed

lemma finish_slot_keeps:
  assumes "captain_ok c" and "map_find (proposers c) s = Some info"
    and "curr_value (curr_proposer info') = Some chosen"
  shows "keeps c (finish_slot s info' name c)"
proof (rule finish_slot_parts [OF assms, where name = name and n = "host_count (cap_view c)"])
  fix c2 calls2 c3
  assume c3: "core_ok c3" "same_rest (c\<lparr>proposers := proposers c3\<rparr>) c3" "extends c c3"
    "proposers c3 = map_erase s (proposers c)"
    and calls: "\<forall>call \<in> set (tell_client s info' chosen c @ calls2). call_ok (host_count (cap_view c)) call"
    and run: "finish_slot s info' name c = res_bind (next_work info' chosen name c3) (\<lambda>(c4, calls4).
       Inr (c4, tell_client s info' chosen c @ calls2 @ calls4))"
  have "map_ok (proposers c)" "0 < length (proposers c)" "queue_ok c"
    using assms(1,2) by (auto simp: captain_ok_def map_find_def proposers_ok_def)
  then have "Suc (length (proposers c3)) = length (proposers c)" "queue_ok c"
    using assms(2) by (simp_all add: c3(4) amap.size_erase)
  then have "keeps c3 (next_work info' chosen name c3)"
    using c3(2) by (intro next_work_keeps [OF c3(1)]) (auto simp: queue_ok_def same_rest_def)
  then obtain c4 calls4 where "next_work info' chosen name c3 = Inr (c4, calls4)" "keeps c3 (Inr (c4, calls4))"
    by (auto simp: keeps_def)
  then show ?thesis
    unfolding run using calls c3(2) by (auto simp: keeps_def same_rest_def intro: extends_trans [OF c3(3)])
qed

lemma handle_accepted_keeps:
  assumes "captain_ok c"
  shows "keeps c (handle_accepted ack name c)"
proof (cases "map_find (proposers c) (hdr_slot (acka_header ack))")
  case None
  then show ?thesis
    using assms by (simp add: handle_accepted_def Let_def keeps_def extends_refl)
next
  case (Some info)
  let ?s = "hdr_slot (acka_header ack)"
  have at: "0 < ?s" "info_ok (q_size (cap_view c)) info"
    using proposers_ok_at [OF _ Some] assms by (auto simp: captain_ok_def)
  note put = captain_ok_put [OF assms Some]
  show ?thesis
  proof (cases "accepted_info (me_of c) ?s ack info")
    case (Still info')
    then show ?thesis
      using put accepted_info_ok [OF at(2), where me = "me_of c" and s = ?s and ack = ack] Some
      by (simp add: handle_accepted_def Let_def keeps_def)
  next
    case (Chosen info')
    then obtain chosen where "curr_value (curr_proposer info') = Some chosen"
      using accepted_info_ok [OF at(2), where me = "me_of c" and s = ?s and ack = ack] by auto
    then show ?thesis
      using finish_slot_keeps [OF assms Some] Some Chosen by (simp add: handle_accepted_def Let_def)
  next
    case (Restarted info' m)
    then show ?thesis
      using put accepted_info_ok [OF at(2), where me = "me_of c" and s = ?s and ack = ack] Some captain_ok_me [OF assms] at(1)
      by (simp add: handle_accepted_def Let_def keeps_def msg_ok_def)
  qed
qed

lemma handle_decide_keeps:
  assumes "captain_ok c" and "msg_ok (host_count (cap_view c)) (Decide m)"
  shows "keeps c (handle_decide m name c)"
proof -
  let ?s = "hdr_slot (dec_header m)"
  have ok: "log_ok c" "acceptors_ok (acceptors c)" "0 < ?s"
    using assms by (simp_all add: captain_ok_def msg_ok_def)
  obtain ov where here: "accepted_here ?s (dec_value m) c = Inr ov"
    using accepted_here_result [OF ok(2,3)] by blast
  show ?thesis
  proof (cases "chosen_at c ?s = None")
    case False
    then show ?thesis
      using assms(1) ok(1) by (simp add: handle_decide_def Let_def already_chosen_result keeps_def extends_refl)
  next
    case True
    then show ?thesis
      using assms ok(1) here captain_ok_me [OF assms(1)] add_learn_value_keeps [OF assms(1)]
      by (cases ov) (auto simp: handle_decide_def Let_def already_chosen_result keeps_def extends_refl
          msg_ok_def Captain.msg_learn_def sender_less)
  qed
qed

lemma handle_learn_keeps:
  assumes "captain_ok c" and "msg_ok (host_count (cap_view c)) (Learn m)"
  shows "keeps c (handle_learn m c)"
  using assms captain_ok_me [OF assms(1)]
  by (auto simp: handle_learn_def Let_def keeps_def extends_refl captain_ok_def log_ok_def msg_ok_def
      Captain.msg_teach_def sender_less split: option.split)

lemma handle_teach_keeps:
  assumes "captain_ok c" and "msg_ok (host_count (cap_view c)) (Teach m)"
  shows "keeps c (handle_teach m name c)"
proof -
  have ok: "log_ok c"
    using assms(1) by (simp add: captain_ok_def)
  have reply: "call_ok (host_count (cap_view c)) (Reply_to (Command (Captain.msg_command (me_of c) REPLY_TEACH))
      (sender (tea_header m)) name)"
    using assms captain_ok_me [OF assms(1)] by (simp add: msg_ok_def Captain.msg_command_def sender_less)
  have "keeps c (add_learn_value (hdr_slot (tea_header m)) (tea_value m) (sender (tea_header m)) c)"
    by (rule add_learn_value_keeps [OF assms(1)])
  then show ?thesis
    using assms(1) reply
    by (auto simp: handle_teach_def Let_def already_chosen_result [OF ok] keeps_def extends_refl)
qed

lemma handle_commit_keeps:
  assumes "captain_ok c" and "msg_ok (host_count (cap_view c)) (Commit m)"
  shows "keeps c (handle_commit m name c)"
proof (cases "if_master (cap_view c)")
  case True
  then show ?thesis
    using commit_value_dum_keeps [OF assms(1), of "com_value m"] assms(2)
    by (auto simp: handle_commit_def keeps_def msg_ok_def sender_less)
next
  case False
  then show ?thesis
    using assms(1) by (simp add: handle_commit_def keeps_def captain_ok_def queue_ok_def)
qed

text \<open>A SET_QUORUM command makes the node a quorum member.\<close>

lemma view_ok_join:
  assumes "view_ok v"
  shows "view_ok (remove_n_quorums (whoami v) (add_quorums (whoami v) v))"
proof -
  let ?me = "whoami v" and ?v = "remove_n_quorums (whoami v) (add_quorums (whoami v) v)"
  have ok: "set_ok (quorums v)" "set_ok (n_quorums v)"
    using assms by (simp_all add: view_ok_def)
  have q: "quorums ?v = set_emplace ?me (quorums v)" "n_quorums ?v = set_erase ?me (n_quorums v)"
    using ok by (simp_all add: quorums_add n_quorums_remove)
  have s: "set (quorums ?v) = insert ?me (set (quorums v))" "set (n_quorums ?v) = set (n_quorums v) - {?me}"
    unfolding q using ok by (simp_all only: aset.set_elems_emplace aset.set_elems_erase)
  have "length (quorums v) \<le> length (quorums ?v)"
    unfolding q using ok by (simp add: aset.size_emplace)
  moreover have "set_ok (quorums ?v)" "set_ok (n_quorums ?v)"
    unfolding q using ok by (simp_all add: aset.sok_emplace aset.sok_erase)
  ultimately show ?thesis
    using assms s unfolding view_ok_def by (auto simp: whoami_def)
qed

lemma handle_command_keeps:
  assumes "captain_ok c"
  shows "keeps c (Inr (handle_command m c, []))"
proof -
  let ?v = "set_master 1 (cap_view c)"
  have "view_ok ?v"
    using assms by (simp add: captain_ok_def view_ok_def set_master_def)
  then show ?thesis
    using view_ok_join [of ?v] assms
    by (cases "cmd_cmd m") (simp_all add: handle_command_def keeps_def captain_ok_def queue_ok_def
        extends_refl Let_def whoami_def set_master_def)
qed

section \<open>The theorem\<close>

lemma handle_msg_keeps_rel:
  assumes "captain_ok c" and "msg_ok (host_count (cap_view c)) m"
  shows "keeps c (handle_msg m name c)"
proof (cases "work c")
  case False
  then show ?thesis
    using assms(1) by (simp add: handle_msg_def keeps_def extends_refl)
next
  case True
  then show ?thesis
    using assms by (cases m) (simp_all add: handle_msg_def handle_prepare_keeps handle_promise_keeps
      handle_accept_keeps handle_accepted_keeps handle_decide_keeps handle_learn_keeps
      handle_teach_keeps handle_commit_keeps handle_command_keeps)
qed

text \<open>
  C13. Every message a host of the cluster may send is handled without a fault: no null
  pointer, no vector out of range, no empty queue. The invariant is kept, chosen values stay,
  and whatever the node sends in turn is again such a message to a host of the cluster.
\<close>

theorem handle_msg_keeps:
  assumes "captain_ok c" and "msg_ok (host_count (cap_view c)) m"
  shows "\<exists>c' calls. handle_msg m name c = Inr (c', calls) \<and> captain_ok c'
    \<and> (\<forall>s v. chosen_at c s = Some v \<longrightarrow> chosen_at c' s = Some v)
    \<and> (\<forall>call \<in> set calls. call_ok (host_count (cap_view c)) call)
    \<and> host_count (cap_view c') = host_count (cap_view c)"
  using handle_msg_keeps_rel [OF assms, of name] by (auto simp: keeps_def extends_def)

text \<open>The constructor establishes the invariant.\<close>

lemma captain_ok_new [naxos_ok]: "view_ok v \<Longrightarrow> captain_ok (new_captain v win dum)"
  using acceptors_ok_new [of v win dum] log_ok_new [of v win dum]
  by (simp add: captain_ok_def queue_ok_def proposers_ok_def) (simp add: new_captain_def)

theorem handle_msg_keeps_witness:
  "\<exists>c' calls. handle_msg (Accept ((accept_of 65536 value_1)\<lparr>acc_header := set_msg_header 0 ACCEPT 7\<rparr>))
      [] (captain_3 1 1) = Inr (c', calls) \<and> captain_ok c'"
proof -
  have view: "cap_view (captain_3 1 1) = view_3 1"
    by (simp add: captain_3_def new_captain_def)
  have "captain_ok (captain_3 1 1)"
    by (simp add: captain_3_def captain_ok_new view_ok_view_3)
  then have "\<exists>c' calls. handle_msg (Accept ((accept_of 65536 value_1)\<lparr>acc_header := set_msg_header 0 ACCEPT 7\<rparr>))
      [] (captain_3 1 1) = Inr (c', calls) \<and> captain_ok c'
    \<and> (\<forall>s v. chosen_at (captain_3 1 1) s = Some v \<longrightarrow> chosen_at c' s = Some v)
    \<and> (\<forall>call \<in> set calls. call_ok (host_count (cap_view (captain_3 1 1))) call)
    \<and> host_count (cap_view c') = host_count (cap_view (captain_3 1 1))"
    by (rule handle_msg_keeps) (simp add: view, simp add: msg_ok_def view_3_def)
  then show ?thesis by blast
qed

end
