(* ===== verification/Captain_Props.thy ===== *)
theory Captain_Props
  imports Captain_Inv
begin

text \<open>
  What the operations of a captain do, beyond keeping its invariant: the branches of
  \<open>commit\<close>, the value ids, the order in which waiting values are proposed, what happens when
  a slot is chosen, and the places where the code does not do what it is meant to.
\<close>

section \<open>Commit on the master\<close>

definition new_value :: "'n captain \<Rightarrow> string \<Rightarrow> prop_value" where
  "new_value c data =
     \<lparr>pv_id = value_id c + 65536, pv_data = data, pv_cmd = None, pv_integrity = None\<rparr>"

lemma next_value_id_sel [simp]:
  "value_id (next_value_id c) = value_id c + 65536" "cap_view (next_value_id c) = cap_view c"
  "proposers (next_value_id c) = proposers c" "window_size (next_value_id c) = window_size c"
  "tocommit_values (next_value_id c) = tocommit_values c" "max_slot (next_value_id c) = max_slot c"
  "tocommit_clients (next_value_id c) = tocommit_clients c" "dumName (next_value_id c) = dumName c"
  "acceptors (next_value_id c) = acceptors c" "chosen_values (next_value_id c) = chosen_values c"
  "captain_ok (next_value_id c) = captain_ok c" "core_ok (next_value_id c) = core_ok c"
  "queue_ok (next_value_id c) = queue_ok c" "commit_ok (next_value_id c) = commit_ok c"
  by (simp_all add: next_value_id_def captain_ok_def queue_ok_def)

lemma commit_master_eq:
  "if_master (cap_view c) \<Longrightarrow> commit mode data name c =
     res_bind (commit_value (new_value c data) name (next_value_id c)) (\<lambda>(c', calls, _). Inr (c', calls))"
  by (simp add: commit_def Let_def new_value_def)

text \<open>
  A commit on the master gives the value the next id of the node. With a free place in the
  window it is proposed at once: one accept request, for the next slot, with the node's first
  ballot, recorded under the client's name. With a full window it waits behind the others and
  nothing is sent.
\<close>

theorem commit_on_master:
  assumes "captain_ok c" and "if_master (cap_view c)"
  shows "\<exists>c' calls. commit mode data name c = Inr (c', calls) \<and> captain_ok c'
    \<and> (if length (proposers c) = window_size c
       then calls = [] \<and> tocommit_values c' = tocommit_values c @ [new_value c data]
         \<and> tocommit_clients c' = tocommit_clients c @ [name] \<and> proposers c' = proposers c
       else \<exists>m. calls = [Broadcast (Accept m)] \<and> acc_value m = new_value c data
         \<and> hdr_slot (acc_header m) = Suc (max_slot c) \<and> acc_ballot m = first_ballot (me_of c)
         \<and> proposers c' = map_put (Suc (max_slot c)) (fast_info (cap_view c) (new_value c data) name) (proposers c)
         \<and> tocommit_values c' = tocommit_values c)"
proof -
  let ?c = "next_value_id c" and ?v = "new_value c data"
  have ok: "core_ok ?c" "queue_ok ?c"
    using assms(1) by (simp_all add: captain_ok_core)
  obtain c' calls where r: "commit_value ?v name ?c = Inr (c', calls, name)" "captain_ok c'"
    using commit_value_keeps [of ?c ?v name] assms(1) by auto
  then have run: "commit mode data name c = Inr (c', calls)"
    by (simp add: commit_master_eq [OF assms(2)])
  from queue_ok_cases [OF ok(2)] show ?thesis
  proof
    assume full: "length (proposers ?c) = window_size ?c"
    then show ?thesis
      using run r commit_value_full [OF ok(2) full, of ?v name] by (auto simp: next_value_id_def)
  next
    assume free: "length (proposers ?c) < window_size ?c"
    then show ?thesis
      using run r commit_value_free [OF ok(2) free, of ?v name] propose_fast_result [OF ok(1), of ?v name]
      by auto
  qed
qed

theorem commit_on_master_witness:
  "\<exists>c' m. commit Mode_default ''x'' ''client'' (captain_3 0 1) = Inr (c', [Broadcast (Accept m)])
    \<and> acc_value m = value_1 \<and> acc_ballot m = 65536"
proof -
  have c: "cap_view (captain_3 0 1) = view_3 0" "proposers (captain_3 0 1) = []"
    "window_size (captain_3 0 1) = 1" "value_id (captain_3 0 1) = 0"
    by (simp_all add: captain_3_def new_captain_def whoami_def view_3_def)
  have "captain_ok (captain_3 0 1)"
    by (simp add: captain_3_def captain_ok_new view_ok_view_3)
  moreover have "if_master (cap_view (captain_3 0 1))"
    by (simp add: c if_master_def) (simp add: view_3_def)
  ultimately have "\<exists>c' calls. commit Mode_default ''x'' ''client'' (captain_3 0 1) = Inr (c', calls)
    \<and> captain_ok c' \<and> (if length (proposers (captain_3 0 1)) = window_size (captain_3 0 1)
       then calls = [] \<and> tocommit_values c' = tocommit_values (captain_3 0 1) @ [new_value (captain_3 0 1) ''x'']
         \<and> tocommit_clients c' = tocommit_clients (captain_3 0 1) @ [''client''] \<and> proposers c' = proposers (captain_3 0 1)
       else \<exists>m. calls = [Broadcast (Accept m)] \<and> acc_value m = new_value (captain_3 0 1) ''x''
         \<and> hdr_slot (acc_header m) = Suc (max_slot (captain_3 0 1)) \<and> acc_ballot m = first_ballot (me_of (captain_3 0 1))
         \<and> proposers c' = map_put (Suc (max_slot (captain_3 0 1)))
             (fast_info (cap_view (captain_3 0 1)) (new_value (captain_3 0 1) ''x'') ''client'') (proposers (captain_3 0 1))
         \<and> tocommit_values c' = tocommit_values (captain_3 0 1))"
    by (rule commit_on_master)
  moreover have "new_value (captain_3 0 1) ''x'' = value_1" and "first_ballot (me_of (captain_3 0 1)) = 65536"
    by (simp_all add: new_value_def value_1_def c whoami_def first_ballot_def view_3_def)
  ultimately show ?thesis
    by (auto simp: c)
qed

section \<open>Value ids\<close>

text \<open>
  The ids a node gives to its values carry the node in the low 16 bits and count its
  commits above: the \<open>k\<close>-th id is \<open>65536 * k + node\<close> for the first \<open>2 ^ 48 - 1\<close> commits. So no two
  values committed by nodes of the cluster have the same id.
\<close>

lemma value_id_iterate:
  "k < 2 ^ 48 \<Longrightarrow> unat (value_id ((next_value_id ^^ k) (new_captain v win dum))) = 65536 * k + unat (whoami v)"
proof (induction k)
  case 0
  then show ?case by (simp add: new_captain_def)
next
  case (Suc k)
  have "unat (whoami v) < 65536"
    using unsigned_less [of "whoami v"] by simp
  then have "65536 * Suc k + unat (whoami v) < 2 ^ 64"
    using Suc.prems by simp
  moreover have "unat (value_id ((next_value_id ^^ k) (new_captain v win dum))) = 65536 * k + unat (whoami v)"
    using Suc by simp
  ultimately show ?case
    by (simp add: unat_word_ariths)
qed

theorem value_ids_distinct:
  assumes "j < 2 ^ 48" and "k < 2 ^ 48"
  shows "unat (value_id ((next_value_id ^^ k) (new_captain v win dum))) = 65536 * k + unat (whoami v)
    \<and> (value_id ((next_value_id ^^ j) (new_captain v' win' dum'))
         = value_id ((next_value_id ^^ k) (new_captain v win dum))
       \<longleftrightarrow> j = k \<and> whoami v' = whoami v)"
proof -
  let ?a = "value_id ((next_value_id ^^ j) (new_captain v' win' dum'))"
  let ?b = "value_id ((next_value_id ^^ k) (new_captain v win dum))"
  have a: "unat ?a = 65536 * j + unat (whoami v')" and b: "unat ?b = 65536 * k + unat (whoami v)"
    using assms by (simp_all add: value_id_iterate)
  have "unat (whoami v') < 65536" "unat (whoami v) < 65536"
    using unsigned_less [of "whoami v"] unsigned_less [of "whoami v'"] by simp_all
  then have "65536 * j + unat (whoami v') = 65536 * k + unat (whoami v) \<longleftrightarrow> j = k \<and> unat (whoami v') = unat (whoami v)"
    by (rule block_eq_iff)
  then have "?a = ?b \<longleftrightarrow> j = k \<and> unat (whoami v') = unat (whoami v)"
    using a b by (metis unsigned_word_eqI)
  then show ?thesis
    using b by (auto intro: unsigned_word_eqI)
qed

theorem value_ids_distinct_witness:
  "value_id ((next_value_id ^^ 3) (new_captain (view_3 1) 1 ([] :: string)))
     \<noteq> value_id ((next_value_id ^^ 3) (new_captain (view_3 2) 1 ([] :: string)))"
proof -
  have "(3 :: nat) < 2 ^ 48" by simp
  note distinct = value_ids_distinct [OF this this, of "view_3 2" 1 "[] :: string" "view_3 1" 1 "[] :: string"]
  have "whoami (view_3 1) \<noteq> whoami (view_3 2)"
    by (simp add: whoami_def view_3_def)
  then show ?thesis
    using distinct by blast
qed

section \<open>The order in which waiting values are proposed\<close>

text \<open>The calls of the log are callbacks only.\<close>

definition is_callback :: "'n call \<Rightarrow> bool" where
  "is_callback call = (case call of Run_callback _ _ \<Rightarrow> True | Run_callback_full _ _ _ \<Rightarrow> True | _ \<Rightarrow> False)"

lemma log_callbacks_callback: "call \<in> set (log_callbacks c i j) \<Longrightarrow> is_callback call"
  by (auto simp: log_callbacks_def value_callbacks_def is_callback_def split: if_splits)

lemma add_chosen_value_callback:
  assumes "log_ok c" and "add_chosen_value s v c = Inr (c', calls)" and "call \<in> set calls"
  shows "is_callback call"
proof -
  obtain c1 t where "add_chosen_value s v c
      = Inr (c1, log_callbacks (store_chosen s v c) (max_chosen_without_hole c) t)"
    using add_chosen_value_result [OF assms(1), of s v] by blast
  then show ?thesis
    using assms(2,3) log_callbacks_callback by auto
qed

text \<open>
  The values proposed by the calls of one step: those of the accept requests for slots beyond
  the highest slot in use before the step. A value that is proposed again, after it lost its slot, goes
  out in a prepare request and is not among them.
\<close>

fun started_values :: "slot_id \<Rightarrow> 'n call list \<Rightarrow> prop_value list" where
  "started_values hi [] = []"
| "started_values hi (call # calls) =
     (case call of
        Broadcast (Accept m) \<Rightarrow> if hi < hdr_slot (acc_header m) then [acc_value m] else []
      | _ \<Rightarrow> []) @ started_values hi calls"

lemma started_values_append [simp]:
  "started_values hi (xs @ ys) = started_values hi xs @ started_values hi ys"
  by (induction xs) simp_all

lemma started_values_none:
  "(\<And>m. Broadcast (Accept m) \<in> set calls \<Longrightarrow> hdr_slot (acc_header m) \<le> hi) \<Longrightarrow> started_values hi calls = []"
proof (induction calls)
  case (Cons call calls)
  then have "started_values hi calls = []" by simp
  moreover have "hdr_slot (acc_header m) \<le> hi" if "call = Broadcast (Accept m)" for m
    using Cons.prems [of m] that by simp
  ultimately show ?case
    by (fastforce split: call.splits msg.splits)
qed simp

lemma started_values_callbacks:
  "(\<And>call. call \<in> set calls \<Longrightarrow> is_callback call) \<Longrightarrow> started_values hi calls = []"
  by (rule started_values_none) (fastforce simp: is_callback_def)

text \<open>What a captain is asked to do from outside.\<close>

datatype 'n captain_event = Commit_string string 'n | Got_msg msg 'n

fun captain_step :: "mode \<Rightarrow> 'n captain_event \<Rightarrow> 'n captain \<Rightarrow> ('n captain \<times> 'n call list) res" where
  "captain_step mode (Commit_string data name) c = commit mode data name c"
| "captain_step mode (Got_msg m name) c = handle_msg m name c"

fun event_ok :: "nat \<Rightarrow> 'n captain_event \<Rightarrow> bool" where
  "event_ok n (Commit_string data name) = True"
| "event_ok n (Got_msg m name) = msg_ok n m"

text \<open>The value an event hands to the master for committing.\<close>

fun handed_in :: "'n captain \<Rightarrow> 'n captain_event \<Rightarrow> prop_value list" where
  "handed_in c (Commit_string data name) = (if if_master (cap_view c) then [new_value c data] else [])"
| "handed_in c (Got_msg m name) =
     (case m of Commit m \<Rightarrow> if work c \<and> if_master (cap_view c) then [com_value m] else [] | _ \<Rightarrow> [])"

text \<open>Steps that neither take a value nor propose a waiting one.\<close>

definition queue_idle :: "'n captain \<Rightarrow> ('n captain \<times> 'n call list) res \<Rightarrow> bool" where
  "queue_idle c r \<longleftrightarrow> (\<forall>c' calls. r = Inr (c', calls) \<longrightarrow>
     tocommit_values c' = tocommit_values c \<and> started_values (max_slot c) calls = [])"

lemma learn_idle:
  assumes "log_ok c" and "add_learn_value s v n c = Inr (c', calls)"
  shows "tocommit_values c' = tocommit_values c" "max_slot c' = max_slot c"
    "started_values hi calls = []" "log_ok c'"
proof -
  have add: "add_chosen_value s v c = Inr (c', calls)"
    using assms(2) by (simp add: add_learn_value_def)
  obtain c1 calls1 where r: "add_chosen_value s v c = Inr (c1, calls1)" "log_ok c1" "extends c c1"
    "\<forall>call \<in> set calls1. call_ok 0 call" "same_rest c c1"
    "chosen_at c1 = (if chosen_at c s = None then (chosen_at c)(s := Some v) else chosen_at c)"
    by (rule add_chosen_value_rest [OF assms(1)])
  then show "tocommit_values c' = tocommit_values c" "max_slot c' = max_slot c" "log_ok c'"
    using add by (simp_all add: same_rest_def)
  show "started_values hi calls = []"
    using add_chosen_value_callback [OF assms(1) add] by (rule started_values_callbacks)
qed

lemma handle_prepare_idle: "queue_idle c (handle_prepare m name c)"
  by (auto simp: queue_idle_def handle_prepare_def Let_def res_bind_Inr_iff split: prod.split_asm if_splits)

lemma learn_piggyback_idle:
  assumes "log_ok c" and "learn_piggyback s vid n c = Inr (Some (c', calls))"
  shows "tocommit_values c' = tocommit_values c" "started_values hi calls = []"
  using assms learn_idle [OF assms(1)]
  by (auto simp: learn_piggyback_def res_bind_Inr_iff split: if_splits option.splits)

lemma handle_accept_idle:
  assumes "log_ok c"
  shows "queue_idle c (handle_accept m name c)"
  unfolding queue_idle_def
proof (intro allI impI)
  fix c' calls
  let ?as = "grow_acceptors (length (acceptors c)) (hdr_slot (acc_header m)) (acceptors c)"
  assume run: "handle_accept m name c = Inr (c', calls)"
  obtain a where a: "vec_at ?as (hdr_slot (acc_header m)) = Inr (Some a)"
    using run by (auto simp: handle_accept_def Let_def res_bind_Inr_iff deref_Inr_iff)
  obtain a' ack where h: "handle_msg_accept (me_of c) m a = (a', ack)"
    by (cases "handle_msg_accept (me_of c) m a")
  let ?c = "c\<lparr>acceptors := ?as[hdr_slot (acc_header m) := Some a']\<rparr>"
  have log: "log_ok ?c" using assms by simp
  show "tocommit_values c' = tocommit_values c \<and> started_values (max_slot c) calls = []"
    using run a h learn_piggyback_idle [OF log]
    by (auto simp: handle_accept_def Let_def res_bind_Inr_iff split: if_splits option.splits)
qed

lemma handle_promise_idle:
  assumes "captain_ok c"
  shows "queue_idle c (Inr (handle_promise ack c))"
proof (cases "map_find (proposers c) (hdr_slot (ackp_header ack))")
  case None
  then show ?thesis by (simp add: handle_promise_def Let_def queue_idle_def)
next
  case (Some info)
  let ?s = "hdr_slot (ackp_header ack)"
  obtain info' om where run: "promise_info (me_of c) ?s ack info = (info', om)"
    by (cases "promise_info (me_of c) ?s ack info")
  have at: "?s \<le> max_slot c" "info_ok (q_size (cap_view c)) info"
    using proposers_ok_at [OF _ Some] assms by (auto simp: captain_ok_def)
  have "hdr_slot (acc_header m) \<le> max_slot c" if "om = Some (Accept m)" for m
    using promise_info_ok(2) [OF at(2) run that] at(1) by (auto simp: opening_msg_def)
  then have "started_values (max_slot c) (snd (handle_promise ack c)) = []"
    using Some run by (intro started_values_none) (auto simp: handle_promise_def Let_def split: option.splits)
  then show ?thesis
    using Some run by (auto simp: queue_idle_def handle_promise_def Let_def)
qed

lemma learn_queue_idle: "log_ok c \<Longrightarrow> queue_idle c (add_learn_value s v n c)"
  unfolding queue_idle_def using learn_idle by blast

lemma handle_decide_idle:
  assumes "log_ok c"
  shows "queue_idle c (handle_decide m name c)"
proof (cases "chosen_at c (hdr_slot (dec_header m)) = None")
  case False
  then show ?thesis
    using assms by (simp add: handle_decide_def Let_def already_chosen_result queue_idle_def)
next
  case True
  show ?thesis
  proof (cases "accepted_here (hdr_slot (dec_header m)) (dec_value m) c")
    case (Inl e)
    then show ?thesis
      using True assms by (simp add: handle_decide_def Let_def already_chosen_result queue_idle_def)
  next
    case (Inr ov)
    then show ?thesis
      using True assms learn_queue_idle [OF assms]
      by (cases ov) (simp_all add: handle_decide_def Let_def already_chosen_result queue_idle_def)
  qed
qed

lemma handle_learn_idle: "queue_idle c (handle_learn m c)"
  by (auto simp: queue_idle_def handle_learn_def Let_def res_bind_Inr_iff split: if_splits option.splits)

lemma handle_teach_idle:
  assumes "log_ok c"
  shows "queue_idle c (handle_teach m name c)"
proof (cases "chosen_at c (hdr_slot (tea_header m)) = None")
  case False
  then show ?thesis
    using assms by (simp add: handle_teach_def Let_def already_chosen_result queue_idle_def)
next
  case True
  let ?r = "add_learn_value (hdr_slot (tea_header m)) (tea_value m) (sender (tea_header m)) c"
  have idle: "queue_idle c ?r"
    by (rule learn_queue_idle [OF assms])
  show ?thesis
  proof (cases ?r)
    case (Inl e)
    then show ?thesis
      using True assms by (simp add: handle_teach_def Let_def already_chosen_result queue_idle_def)
  next
    case (Inr r)
    then show ?thesis
      using True assms idle
      by (cases r) (simp add: handle_teach_def Let_def already_chosen_result queue_idle_def)
  qed
qed

lemma handle_command_idle: "queue_idle c (Inr (handle_command m c, []))"
  by (cases "cmd_cmd m") (simp_all add: queue_idle_def handle_command_def Let_def)

text \<open>Committing a value appends it; a free place takes the head.\<close>

lemma commit_value_order:
  assumes "captain_ok c" and "commit_value v name c = Inr (c', calls, name')"
  shows "tocommit_values c @ [v] = started_values (max_slot c) calls @ tocommit_values c'"
proof -
  have ok: "core_ok c" "queue_ok c"
    using assms(1) by (simp_all add: captain_ok_core)
  from queue_ok_cases [OF ok(2)] show ?thesis
  proof
    assume "length (proposers c) = window_size c"
    then show ?thesis
      using commit_value_full [OF ok(2)] assms(2) by auto
  next
    assume free: "length (proposers c) < window_size c"
    then have "tocommit_values c = []"
      using ok(2) by (auto simp: queue_ok_def)
    then show ?thesis
      using commit_value_free [OF ok(2) free, of v name] propose_fast_result [OF ok(1), of v name] assms(2)
      by auto
  qed
qed

lemma commit_from_queue_order:
  assumes "core_ok c" and "commit_from_queue c = Inr (c', calls)"
  shows "tocommit_values c = started_values (max_slot c) calls @ tocommit_values c'"
proof (cases "tocommit_values c")
  case Nil
  then show ?thesis
    using assms(2) by (simp add: commit_from_queue_def)
next
  case (Cons v vs)
  then obtain n ns where ns: "tocommit_clients c = n # ns"
    using assms(2) by (cases "tocommit_clients c") (auto simp: commit_from_queue_def)
  have "core_ok (c\<lparr>tocommit_values := vs, tocommit_clients := ns\<rparr>)"
    using assms(1) by simp
  from propose_fast_result [OF this, of v n] show ?thesis
    using assms(2) Cons ns by (auto simp: commit_from_queue_def)
qed

lemma recommit_idle: "recommit tries v name c = (c', calls) \<Longrightarrow>
    tocommit_values c' = tocommit_values c \<and> started_values hi calls = []"
  by (auto simp: recommit_def Let_def split: prod.split_asm)

lemma tell_client_idle: "started_values hi (tell_client s info chosen c) = []"
  by (simp add: tell_client_def)

lemma next_work_order:
  assumes "core_ok c" and "next_work info chosen name c = Inr (c', calls)"
  shows "tocommit_values c = started_values (max_slot c) calls @ tocommit_values c'"
  using assms commit_from_queue_order [OF assms(1)] recommit_idle
  by (fastforce simp: next_work_def split: if_splits)

lemma finish_slot_order:
  assumes "captain_ok c" and "map_find (proposers c) s = Some info"
    and "curr_value (curr_proposer info') = Some chosen" and "finish_slot s info' name c = Inr (c', calls)"
  shows "tocommit_values c = started_values (max_slot c) calls @ tocommit_values c'"
proof (rule finish_slot_parts [OF assms(1-3), where name = name and n = 0])
  fix c2 calls2 c3
  assume add: "add_chosen_value s chosen (c\<lparr>proposers := map_put s info' (proposers c)\<rparr>) = Inr (c2, calls2)"
    and c3: "core_ok c3" "same_rest (c\<lparr>proposers := proposers c3\<rparr>) c3"
    and run: "finish_slot s info' name c = res_bind (next_work info' chosen name c3) (\<lambda>(c4, calls4).
       Inr (c4, tell_client s info' chosen c @ calls2 @ calls4))"
  have "log_ok (c\<lparr>proposers := map_put s info' (proposers c)\<rparr>)"
    using assms(1) by (simp add: captain_ok_def)
  then have "started_values hi calls2 = []" for hi
    using add_chosen_value_callback add by (blast intro: started_values_callbacks)
  moreover obtain calls4 where "next_work info' chosen name c3 = Inr (c', calls4)"
    "calls = tell_client s info' chosen c @ calls2 @ calls4"
    using assms(4) unfolding run by (auto simp: res_bind_Inr_iff)
  moreover have "max_slot c3 = max_slot c" "tocommit_values c3 = tocommit_values c"
    using c3(2) by (simp_all add: same_rest_def)
  ultimately show ?thesis
    using next_work_order [OF c3(1)] by (simp add: tell_client_idle)
qed

lemma handle_accepted_order:
  assumes "captain_ok c" and "handle_accepted ack name c = Inr (c', calls)"
  shows "tocommit_values c = started_values (max_slot c) calls @ tocommit_values c'"
proof (cases "map_find (proposers c) (hdr_slot (acka_header ack))")
  case None
  then show ?thesis
    using assms(2) by (simp add: handle_accepted_def Let_def)
next
  case (Some info)
  let ?s = "hdr_slot (acka_header ack)"
  have at: "info_ok (q_size (cap_view c)) info"
    using proposers_ok_at [OF _ Some] assms(1) by (auto simp: captain_ok_def)
  show ?thesis
  proof (cases "accepted_info (me_of c) ?s ack info")
    case (Still info')
    then show ?thesis
      using assms(2) Some by (auto simp: handle_accepted_def Let_def)
  next
    case (Chosen info')
    then obtain chosen where "curr_value (curr_proposer info') = Some chosen"
      using accepted_info_ok [OF at, where me = "me_of c" and s = ?s and ack = ack] by auto
    then show ?thesis
      using finish_slot_order [OF assms(1) Some] Some Chosen assms(2) by (simp add: handle_accepted_def Let_def)
  next
    case (Restarted info' m)
    then show ?thesis
      using assms(2) Some by (auto simp: handle_accepted_def Let_def)
  qed
qed

lemma handle_commit_order:
  assumes "captain_ok c" and "handle_commit m name c = Inr (c', calls)"
  shows "tocommit_values c @ (if if_master (cap_view c) then [com_value m] else [])
    = started_values (max_slot c) calls @ tocommit_values c'"
proof (cases "if_master (cap_view c)")
  case True
  then obtain c1 calls1 name1 where "commit_value (com_value m) (dumName c) c = Inr (c1, calls1, name1)"
    "c' = c1\<lparr>dumName := name1\<rparr>" "calls = Reply_to (Commit m) (sender (com_header m)) name # calls1"
    using assms(2) by (auto simp: handle_commit_def commit_value_dum_def res_bind_Inr_iff)
  then show ?thesis
    using True commit_value_order [OF assms(1)] by simp
next
  case False
  then show ?thesis
    using assms(2) by (auto simp: handle_commit_def)
qed

lemma queue_idle_order:
  "queue_idle c r \<Longrightarrow> r = Inr (c', calls) \<Longrightarrow> tocommit_values c = started_values (max_slot c) calls @ tocommit_values c'"
  by (simp add: queue_idle_def)

lemma captain_step_order:
  assumes "captain_ok c" and "mode \<noteq> Mode_recover" and "captain_step mode e c = Inr (c', calls)"
  shows "tocommit_values c @ handed_in c e = started_values (max_slot c) calls @ tocommit_values c'"
proof (cases e)
  case (Commit_string data name)
  show ?thesis
  proof (cases "if_master (cap_view c)")
    case True
    then show ?thesis
      using commit_value_order [of "next_value_id c" "new_value c data" name] assms Commit_string
      by (auto simp: commit_master_eq res_bind_Inr_iff)
  next
    case False
    then show ?thesis
      using assms Commit_string by (auto simp: commit_def Let_def)
  qed
next
  case (Got_msg m name)
  have log: "log_ok c"
    using assms(1) by (simp add: captain_ok_def)
  show ?thesis
  proof (cases "work c")
    case False
    then show ?thesis
      using Got_msg assms(3) by (auto simp: handle_msg_def split: msg.splits)
  next
    case True
    then show ?thesis
      using Got_msg assms(3) queue_idle_order [OF handle_prepare_idle]
        queue_idle_order [OF handle_promise_idle [OF assms(1)]]
        queue_idle_order [OF handle_accept_idle [OF log]] handle_accepted_order [OF assms(1)]
        queue_idle_order [OF handle_decide_idle [OF log]] queue_idle_order [OF handle_learn_idle]
        queue_idle_order [OF handle_teach_idle [OF log]] handle_commit_order [OF assms(1)]
        queue_idle_order [OF handle_command_idle]
      by (cases m) (simp_all add: handle_msg_def, fastforce+)
  qed
qed

text \<open>A captain run on a sequence of events, the values handed in and the values proposed.\<close>

fun captain_run :: "mode \<Rightarrow> 'n captain_event list \<Rightarrow> 'n captain \<Rightarrow>
    ('n captain \<times> prop_value list \<times> prop_value list) res" where
  "captain_run mode [] c = Inr (c, [], [])"
| "captain_run mode (e # es) c =
     res_bind (captain_step mode e c) (\<lambda>(c1, calls).
       res_bind (captain_run mode es c1) (\<lambda>(c2, ins, outs).
         Inr (c2, handed_in c e @ ins, started_values (max_slot c) calls @ outs)))"

lemma captain_step_keeps:
  assumes "captain_ok c" and "mode \<noteq> Mode_recover" and "event_ok (host_count (cap_view c)) e"
  shows "\<exists>c' calls. captain_step mode e c = Inr (c', calls) \<and> captain_ok c'
    \<and> host_count (cap_view c') = host_count (cap_view c)"
proof (cases e)
  case (Got_msg m name)
  have "keeps c (handle_msg m name c)"
    using Got_msg assms by (intro handle_msg_keeps_rel) simp_all
  then show ?thesis
    using Got_msg by (auto simp: keeps_def)
next
  case (Commit_string data name)
  show ?thesis
  proof (cases "if_master (cap_view c)")
    case True
    then show ?thesis
      using commit_value_keeps [of "next_value_id c" "new_value c data" name] assms(1) Commit_string
      by (auto simp: commit_master_eq)
  next
    case False
    then show ?thesis
      using assms Commit_string by (simp add: commit_def Let_def)
  qed
qed

text \<open>
  C15. Values are proposed in the order in which they are handed to the master, each once:
  whatever messages arrive in between, what has been proposed followed by what still waits is
  what waited at first followed by what was handed in. No run of such events faults. Counted are
  the first proposals; a value that lost its slot to another one is proposed again, with a prepare
  request for a later slot.
\<close>

theorem commits_in_order:
  assumes "captain_ok c" and "mode \<noteq> Mode_recover"
    and "\<forall>e \<in> set es. event_ok (host_count (cap_view c)) e"
  shows "\<exists>c' ins outs. captain_run mode es c = Inr (c', ins, outs) \<and> captain_ok c'
    \<and> tocommit_values c @ ins = outs @ tocommit_values c'"
  using assms
proof (induction es arbitrary: c)
  case Nil
  then show ?case by simp
next
  case (Cons e es)
  obtain c1 calls where step: "captain_step mode e c = Inr (c1, calls)" "captain_ok c1"
    "host_count (cap_view c1) = host_count (cap_view c)"
    using captain_step_keeps [OF Cons.prems(1,2), of e] Cons.prems(3) by auto
  obtain c2 ins outs where run: "captain_run mode es c1 = Inr (c2, ins, outs)" "captain_ok c2"
    "tocommit_values c1 @ ins = outs @ tocommit_values c2"
    using Cons.IH [OF step(2) Cons.prems(2)] Cons.prems(3) step(3) by auto
  have "tocommit_values c @ handed_in c e @ ins
      = started_values (max_slot c) calls @ outs @ tocommit_values c2"
    using captain_step_order [OF Cons.prems(1,2) step(1)] run(3) by (metis append.assoc)
  then show ?case
    using step(1) run(1,2) by simp
qed

theorem commits_in_order_witness:
  "\<exists>c' outs. captain_run Mode_default [Commit_string ''x'' ''a'', Commit_string ''y'' ''b'',
      Got_msg (Ack_accept (yes_accepted 0 65536)) [], Got_msg (Ack_accept (yes_accepted 1 65536)) []]
      (captain_3 0 1) = Inr (c', [new_value (captain_3 0 1) ''x'', new_value (next_value_id (captain_3 0 1)) ''y''], outs)
    \<and> outs @ tocommit_values c' = [new_value (captain_3 0 1) ''x'', new_value (next_value_id (captain_3 0 1)) ''y'']"
proof -
  let ?es = "[Commit_string ''x'' ''a'', Commit_string ''y'' ''b'',
      Got_msg (Ack_accept (yes_accepted 0 65536)) [], Got_msg (Ack_accept (yes_accepted 1 65536)) []]"
  have "captain_ok (captain_3 0 1)"
    by (simp add: captain_3_def captain_ok_new view_ok_view_3)
  moreover have "host_count (cap_view (captain_3 0 1)) = 3"
    by (simp add: captain_3_def new_captain_def view_3_def)
  then have "\<forall>e \<in> set ?es. event_ok (host_count (cap_view (captain_3 0 1))) e"
    by (simp add: msg_ok_def yes_accepted_def)
  ultimately obtain c' ins outs where run: "captain_run Mode_default ?es (captain_3 0 1) = Inr (c', ins, outs)"
    "tocommit_values (captain_3 0 1) @ ins = outs @ tocommit_values c'"
    using commits_in_order [of "captain_3 0 1" Mode_default ?es] by auto
  have ins: "map_sum id (\<lambda>(c, ins, outs). ins) (captain_run Mode_default ?es (captain_3 0 1))
      = Inr [new_value (captain_3 0 1) ''x'', new_value (next_value_id (captain_3 0 1)) ''y'']"
    by code_simp
  have "tocommit_values (captain_3 0 1) = []"
    by (simp add: captain_3_def new_captain_def)
  then show ?thesis
    using run ins by auto
qed

section \<open>Replies of the acceptor side\<close>

text \<open>The replies among the calls of a step.\<close>

definition replies_of :: "'n call list \<Rightarrow> 'n call list" where
  "replies_of calls = filter (\<lambda>call. case call of Reply_to _ _ _ \<Rightarrow> True | _ \<Rightarrow> False) calls"

lemma replies_of_callbacks:
  assumes "\<And>call. call \<in> set calls \<Longrightarrow> is_callback call"
  shows "replies_of calls = []"
proof -
  have "\<not> (case call of Reply_to _ _ _ \<Rightarrow> True | _ \<Rightarrow> False)" if "call \<in> set calls" for call
    using assms [OF that] by (cases call) (simp_all add: is_callback_def)
  then show ?thesis
    by (simp add: replies_of_def filter_empty_conv)
qed

lemma replies_of_append [simp]: "replies_of (xs @ ys) = replies_of xs @ replies_of ys"
  by (simp add: replies_of_def)

lemma learn_piggyback_replies:
  assumes "captain_ok c" and "0 < s" and "chosen_at c s = None"
  shows "\<exists>c' calls. learn_piggyback s vid n c = Inr (Some (c', calls)) \<and> replies_of calls = []
    \<and> acceptors c' = acceptors c"
proof -
  have ok: "log_ok c" "acceptors_ok (acceptors c)"
    using assms(1) by (simp_all add: captain_ok_def)
  obtain ov where here: "accepted_here s vid c = Inr ov"
    using accepted_here_result [OF ok(2) assms(2)] by blast
  show ?thesis
  proof (cases ov)
    case None
    then show ?thesis
      using here assms(3) ok(1)
      by (simp add: learn_piggyback_def already_chosen_result replies_of_def)
  next
    case (Some v)
    obtain c' calls where r: "add_chosen_value s v c = Inr (c', calls)" "log_ok c'" "extends c c'"
      "\<forall>call \<in> set calls. call_ok 0 call" "same_rest c c'"
      "chosen_at c' = (if chosen_at c s = None then (chosen_at c)(s := Some v) else chosen_at c)"
      by (rule add_chosen_value_rest [OF ok(1)])
    have "chosen_at c' s = Some v"
      using r(6) assms(3) by simp
    then have at: "vec_at (chosen_values c') s = Inr (Some v)"
      by (simp add: chosen_at_def split: if_splits)
    have "replies_of calls = []"
      using add_chosen_value_callback [OF ok(1) r(1)] by (rule replies_of_callbacks)
    then have "replies_of (calls @ [Produce_log s v]) = []"
      by (simp add: replies_of_def)
    moreover have "learn_piggyback s vid n c = Inr (Some (c', calls @ [Produce_log s v]))"
      using here Some assms(3) ok(1) at r(1)
      by (simp add: learn_piggyback_def already_chosen_result add_learn_value_def)
    ultimately show ?thesis
      using r(5) by (auto simp: same_rest_def)
  qed
qed

text \<open>
  An accept request of another node is always carried out by the acceptor of its slot, but
  it is answered only if the decision it carries is not yet known: if the piggybacked slot is
  already chosen the handler returns before the reply, and otherwise it makes exactly one
  reply, as its last call.
\<close>

theorem accept_reply:
  assumes "captain_ok c" and "work c" and "msg_ok (host_count (cap_view c)) (Accept m)"
    and "hdr_node (acc_header m) \<noteq> ucast (me_of c)" and "s = hdr_slot (acc_header m)"
    and "a = (case acceptor_at c s of None \<Rightarrow> new_acceptor | Some a \<Rightarrow> a)"
    and "handle_msg_accept (me_of c) m a = (a', ack)"
  shows "\<exists>c' calls. handle_msg (Accept m) name c = Inr (c', calls) \<and> acceptor_at c' s = Some a'
    \<and> replies_of calls =
        (case acc_last_slot m of
           None \<Rightarrow> [Reply_to (Ack_accept ack) (sender (acc_header m)) name]
         | Some ds \<Rightarrow> if chosen_at c ds \<noteq> None then []
                    else [Reply_to (Ack_accept ack) (sender (acc_header m)) name])"
proof -
  let ?as = "grow_acceptors (length (acceptors c)) s (acceptors c)"
  let ?c = "c\<lparr>acceptors := ?as[s := Some a']\<rparr>"
  have as: "acceptors_ok ?as" "s < length ?as" and s: "0 < s"
    using acceptors_ok_grow [of "acceptors c" s] assms(1,3,5) by (simp_all add: captain_ok_def msg_ok_def)
  obtain b where b: "?as ! s = Some b" "acceptor_ok b"
    using acceptors_ok_at [OF as(1) s as(2)] by blast
  have "b = a"
    using b(1) assms(6) by (auto simp: acceptor_at_def grow_acceptors_eq nth_append split: if_splits)
  then have at: "vec_at ?as s = Inr (Some a)" and "acceptor_ok a'"
    using as(2) b assms(7) acceptor_ok_accept [of a "me_of c" m] by auto
  then have ok: "captain_ok ?c"
    using captain_ok_acceptors [OF assms(1) acceptors_ok_update [OF as(1) s]] by simp
  have acc: "acceptor_at ?c s = Some a'"
    using as(2) by (simp add: acceptor_at_def)
  have other: "\<not> from_myself (acc_header m) c"
    using assms(4) by (simp add: from_myself_def)
  note run = handle_msg_def handle_accept_def Let_def replies_of_def
  show ?thesis
  proof (cases "acc_last_slot m")
    case None
    then show ?thesis
      using assms(2,5,7) at acc other by (simp add: run)
  next
    case (Some ds)
    then have ds: "0 < ds"
      using assms(3) by (auto simp: msg_ok_def)
    show ?thesis
    proof (cases "chosen_at c ds = None")
      case True
      let ?vid = "case acc_last_value m of None \<Rightarrow> 0 | Some vid \<Rightarrow> vid"
      obtain c' calls where r: "learn_piggyback ds ?vid (sender (acc_header m)) ?c = Inr (Some (c', calls))"
        "replies_of calls = []" "acceptors c' = acceptors ?c"
        using learn_piggyback_replies [OF ok ds, of ?vid "sender (acc_header m)"] True by auto
      then have "acceptor_at c' s = Some a'"
        using as(2) by (simp add: acceptor_at_def)
      then show ?thesis
        using assms(2,5,7) at r other Some True by (simp add: run)
    next
      case False
      then have "learn_piggyback ds vid n ?c = Inr None" for vid n
        using ok by (simp add: learn_piggyback_def already_chosen_result captain_ok_def)
      then show ?thesis
        using assms(2,5,7) at acc other Some False by (simp add: run)
    qed
  qed
qed

theorem accept_reply_witness:
  "\<exists>c' calls. handle_msg (Accept ((accept_of 65536 value_1)\<lparr>acc_header := set_msg_header 0 ACCEPT 2,
      acc_last_slot := Some 1, acc_last_value := Some 131072\<rparr>)) [] 
      ((captain_3 1 1)\<lparr>chosen_values := [None, Some value_0], max_chosen := 1, max_chosen_without_hole := 1\<rparr>)
    = Inr (c', calls) \<and> replies_of calls = []"
proof -
  let ?c = "(captain_3 1 1)\<lparr>chosen_values := [None, Some value_0], max_chosen := 1, max_chosen_without_hole := 1\<rparr>"
  let ?m = "(accept_of 65536 value_1)\<lparr>acc_header := set_msg_header 0 ACCEPT 2,
      acc_last_slot := Some 1, acc_last_value := Some 131072\<rparr>"
  let ?a = "case acceptor_at ?c 2 of None \<Rightarrow> new_acceptor | Some a \<Rightarrow> a"
  have ok: "captain_ok ?c"
    using captain_ok_new [OF view_ok_view_3 [of 1], of 1 "[] :: string"]
    by (auto simp: captain_3_def captain_ok_def log_ok_def queue_ok_def new_captain_def nth_Cons' numeral_2_eq_2)
  have me: "me_of ?c = 1" and n: "host_count (cap_view ?c) = 3" and work: "work ?c"
    and ch: "chosen_at ?c 1 \<noteq> None"
    by (simp_all add: captain_3_def new_captain_def whoami_def view_3_def chosen_at_def)
  obtain a' ack where h: "handle_msg_accept (me_of ?c) ?m ?a = (a', ack)"
    by (cases "handle_msg_accept (me_of ?c) ?m ?a")
  have "msg_ok (host_count (cap_view ?c)) (Accept ?m)"
    unfolding n by (simp add: msg_ok_def)
  from accept_reply [OF ok work this _ _ refl, of 2 a' ack "[]"] h me ch show ?thesis
    by auto
qed

section \<open>When a slot is chosen\<close>

lemma handle_accepted_chosen:
  assumes "work c" and "map_find (proposers c) s = Some info" and "s = hdr_slot (acka_header ack)"
    and "accepted_info (me_of c) s ack info = Chosen info'"
  shows "handle_msg (Ack_accept ack) name c = finish_slot s info' name c"
  using assms by (simp add: handle_msg_def handle_accepted_def Let_def)

lemma accepted_chosen_info:
  assumes "captain_ok c" and "map_find (proposers c) s = Some info"
    and "accepted_info (me_of c) s ack info = Chosen info'"
  shows "\<exists>chosen. curr_value (curr_proposer info) = Some chosen \<and> curr_value (curr_proposer info') = Some chosen"
    and "try_time info' = try_time info" "client_name info' = client_name info"
    "init_value (curr_proposer info') = init_value (curr_proposer info)"
proof -
  have "info_ok (q_size (cap_view c)) info"
    using proposers_ok_at [OF _ assms(2)] assms(1) by (auto simp: captain_ok_def)
  from accepted_info_ok [OF this, where me = "me_of c" and s = s and ack = ack]
  show "\<exists>chosen. curr_value (curr_proposer info) = Some chosen \<and> curr_value (curr_proposer info') = Some chosen"
    and "try_time info' = try_time info" "client_name info' = client_name info"
    "init_value (curr_proposer info') = init_value (curr_proposer info)"
    using assms(3) by auto
qed

text \<open>
  C28. When the reply that completes a quorum arrives for the node's own value, the client that
  handed it in is told its slot and number of tries; the chosen value is the one logged in the slot,
  unless the slot had a value before, which then stays; the proposer is gone; and the oldest waiting
  value is proposed for the next slot under its own client's name.
\<close>

theorem chosen_own_value:
  assumes "captain_ok c" and "work c" and "map_find (proposers c) s = Some info"
    and "s = hdr_slot (acka_header ack)" and "accepted_info (me_of c) s ack info = Chosen info'"
    and "curr_value (curr_proposer info) = Some chosen"
    and "pv_id chosen = pv_id (init_value (curr_proposer info))"
    and "tocommit_values c = v # vs" and "tocommit_clients c = n # ns"
  shows "\<exists>c' calls m. handle_msg (Ack_accept ack) name c
      = Inr (c', Inform_client s (try_time info) (client_name info) # calls @ [Broadcast (Accept m)])
    \<and> chosen_at c' s = (if chosen_at c s = None then Some chosen else chosen_at c s) \<and> map_find (proposers c') s = None
    \<and> acc_value m = v \<and> hdr_slot (acc_header m) = Suc (max_slot c)
    \<and> (\<exists>info2. map_find (proposers c') (Suc (max_slot c)) = Some info2 \<and> client_name info2 = n)
    \<and> tocommit_values c' = vs \<and> tocommit_clients c' = ns"
proof -
  note info = accepted_chosen_info [OF assms(1,3,5)]
  have cv: "curr_value (curr_proposer info') = Some chosen" and own: "pv_id chosen = pv_id (get_init_value (curr_proposer info'))"
    using info assms(6,7) by (auto simp: get_init_value_def)
  have s: "s \<le> max_slot c" and map: "map_ok (proposers c)"
    using assms(1) proposers_ok_at [OF _ assms(3)] by (auto simp: captain_ok_def proposers_ok_def)
  show ?thesis
  proof (rule finish_slot_parts [OF assms(1,3) cv, where name = name and n = 0])
    fix c2 calls2 c3
    assume p3: "proposers c3 = map_erase s (proposers c)" and core: "core_ok c3"
      and rest: "same_rest (c\<lparr>proposers := proposers c3\<rparr>) c3"
      and ch: "chosen_at c3 = (if chosen_at c s = None then (chosen_at c)(s := Some chosen) else chosen_at c)"
      and run: "finish_slot s info' name c = res_bind (next_work info' chosen name c3) (\<lambda>(c4, calls4).
        Inr (c4, tell_client s info' chosen c @ calls2 @ calls4))"
    have sel: "max_slot c3 = max_slot c" "tocommit_values c3 = v # vs" "tocommit_clients c3 = n # ns"
      using rest assms(8,9) by (simp_all add: same_rest_def)
    let ?c = "c3\<lparr>tocommit_values := vs, tocommit_clients := ns\<rparr>"
    have "core_ok ?c" using core by simp
    from propose_fast_result [OF this, of v n] obtain c4 m where
      fast: "propose_fast v n ?c = Inr (c4, [Broadcast (Accept m)])" "extends ?c c4"
        "hdr_slot (acc_header m) = Suc (max_slot c3)" "acc_value m = v"
        "proposers c4 = map_put (Suc (max_slot c3)) (fast_info (cap_view c3) v n) (proposers c3)"
        "tocommit_values c4 = vs" "tocommit_clients c4 = ns"
      by auto
    have "next_work info' chosen name c3 = Inr (c4, [Broadcast (Accept m)])"
      using fast(1) sel own by (simp add: next_work_def commit_from_queue_def)
    moreover obtain told where "tell_client s info' chosen c = Inform_client s (try_time info) (client_name info) # told"
      using own info(2,3) by (simp add: tell_client_def)
    ultimately have "handle_msg (Ack_accept ack) name c
        = Inr (c4, Inform_client s (try_time info) (client_name info) # (told @ calls2) @ [Broadcast (Accept m)])"
      using run handle_accepted_chosen [OF assms(2,3,4,5), of name] by simp
    moreover have "chosen_at c3 s = (if chosen_at c s = None then Some chosen else chosen_at c s)"
      by (simp add: ch)
    then have "chosen_at c4 s = (if chosen_at c s = None then Some chosen else chosen_at c s)"
      using fast(2) by (auto simp: extends_def map_le_def dom_def)
    moreover have "map_find (proposers c4) s = None"
      and "map_find (proposers c4) (Suc (max_slot c)) = Some (fast_info (cap_view c3) v n)"
      using fast(5) sel(1) s map p3 by auto
    moreover have "client_name (fast_info (cap_view c3) v n) = n"
      by (simp add: fast_info_def)
    ultimately show ?thesis
      using fast sel(1) by (intro exI [of _ c4] exI [of _ "told @ calls2"] exI [of _ m]) simp
  qed
qed

text \<open>
  When another value wins the slot, the node's own value is proposed again, in phase I,
  for the next slot and with one try more; but under the name the last reply came under, and
  not the name of the client that handed it in, who is therefore never informed.
\<close>

theorem recommit_client_name:
  assumes "captain_ok c" and "work c" and "map_find (proposers c) s = Some info"
    and "s = hdr_slot (acka_header ack)" and "accepted_info (me_of c) s ack info = Chosen info'"
    and "curr_value (curr_proposer info) = Some chosen"
    and "pv_id chosen \<noteq> pv_id (init_value (curr_proposer info))"
  shows "\<exists>c' calls m info2. handle_msg (Ack_accept ack) name c = Inr (c', calls @ [Broadcast (Prepare m)])
    \<and> hdr_slot (pre_header m) = Suc (max_slot c)
    \<and> map_find (proposers c') (Suc (max_slot c)) = Some info2
    \<and> init_value (curr_proposer info2) = init_value (curr_proposer info)
    \<and> try_time info2 = try_time info + 1 \<and> client_name info2 = name"
proof -
  note info = accepted_chosen_info [OF assms(1,3,5)]
  have cv: "curr_value (curr_proposer info') = Some chosen"
    and other: "pv_id chosen \<noteq> pv_id (get_init_value (curr_proposer info'))"
    using info assms(6,7) by (auto simp: get_init_value_def)
  have map: "map_ok (proposers c)"
    using assms(1) by (auto simp: captain_ok_def proposers_ok_def)
  show ?thesis
  proof (rule finish_slot_parts [OF assms(1,3) cv, where name = name and n = 0])
    fix c2 calls2 c3
    assume p3: "proposers c3 = map_erase s (proposers c)" and rest: "same_rest (c\<lparr>proposers := proposers c3\<rparr>) c3"
      and run: "finish_slot s info' name c = res_bind (next_work info' chosen name c3) (\<lambda>(c4, calls4).
        Inr (c4, tell_client s info' chosen c @ calls2 @ calls4))"
    let ?init = "init_value (curr_proposer info)"
    obtain info2 m where re: "recommit_info (cap_view c3) (try_time info + 1) ?init name = (info2, m)"
      by (cases "recommit_info (cap_view c3) (try_time info + 1) ?init name")
    let ?c4 = "c3\<lparr>max_slot := Suc (max_slot c), proposers := map_put (Suc (max_slot c)) info2 (proposers c3)\<rparr>"
    have "max_slot c3 = max_slot c"
      using rest by (simp add: same_rest_def)
    then have "handle_msg (Ack_accept ack) name c = Inr (?c4, (tell_client s info' chosen c @ calls2)
        @ [Broadcast (Prepare (prepare_request (Suc (max_slot c)) m))])"
      using run handle_accepted_chosen [OF assms(2,3,4,5), of name] info(2,4) other re
      by (simp add: next_work_def get_init_value_def recommit_def Let_def)
    moreover have "map_find (proposers ?c4) (Suc (max_slot c)) = Some info2"
      using map p3 by simp
    moreover have "init_value (curr_proposer info2) = ?init" "try_time info2 = try_time info + 1"
      "client_name info2 = name"
      using re by (auto simp: recommit_info_def Proposer.msg_prepare_def Let_def curr_ballot_gen_next
          new_proposer_def)
    ultimately show ?thesis
      by (intro exI [of _ ?c4] exI [of _ "tell_client s info' chosen c @ calls2"]) (auto simp: prepare_request_def)
  qed
qed

text \<open>
  A master one reply short of a decision in slot 1, for the value \<open>v\<close>, with \<open>value_0\<close> as the
  value of the client \<open>a\<close>, and \<open>value_1\<close> of the client \<open>b\<close> waiting.
\<close>

definition almost_info :: "prop_value \<Rightarrow> string proposer_info" where
  "almost_info v = \<lparr>try_time = 1, client_name = ''a'',
     curr_proposer = \<lparr>init_value = value_0, curr_ballot = 65536, curr_value = Some v, max_ballot = 0,
       max_prop = None, ack_prepares = [], ack_accepts = [(0, yes_accepted 0 65536)], qr = 2, qw = 2\<rparr>,
     pi_status = PHASEII\<rparr>"

definition almost_captain :: "prop_value \<Rightarrow> string captain" where
  "almost_captain v = (captain_3 0 1)\<lparr>proposers := [(1, almost_info v)], max_slot := 1,
     tocommit_values := [value_1], tocommit_clients := [''b'']\<rparr>"

lemma almost_captain_sel:
  "captain_ok (almost_captain v)" "work (almost_captain v)"
  "map_find (proposers (almost_captain v)) 1 = Some (almost_info v)" "me_of (almost_captain v) = 0"
  "tocommit_values (almost_captain v) = [value_1]" "tocommit_clients (almost_captain v) = [''b'']"
  "max_slot (almost_captain v) = 1"
proof -
  have "info_ok 2 (almost_info v)"
    by (simp add: info_ok_def almost_info_def proposer_ok_def)
  moreover have "captain_ok (captain_3 0 1)"
    by (simp add: captain_3_def captain_ok_new view_ok_view_3)
  moreover have "q_size (cap_view (captain_3 0 1)) = 2" "window_size (captain_3 0 1) = 1"
    by (simp_all add: captain_3_def new_captain_def view_3_def)
  ultimately show "captain_ok (almost_captain v)"
    by (auto simp: almost_captain_def captain_ok_def queue_ok_def proposers_ok_def map_find_def
        split: if_splits)
qed (simp_all add: almost_captain_def captain_3_def new_captain_def map_find_def whoami_def view_3_def)

lemma almost_info_sel:
  "curr_value (curr_proposer (almost_info v)) = Some v" "client_name (almost_info v) = ''a''"
  "init_value (curr_proposer (almost_info v)) = value_0" "try_time (almost_info v) = 1"
  by (simp_all add: almost_info_def)

lemma almost_info_chosen: "\<exists>info'. accepted_info 0 1 (yes_accepted 1 65536) (almost_info v) = Chosen info'"
proof -
  have "handle_msg_accepted (yes_accepted 1 65536) (curr_proposer (almost_info v))
      = (store_accepted (yes_accepted 1 65536) (curr_proposer (almost_info v)), CHOOSE)"
    by (simp add: handle_msg_accepted_def almost_info_def store_accepted_def)
  then show ?thesis
    by (simp add: accepted_info_def) (simp add: almost_info_def)
qed

theorem chosen_own_value_witness:
  "\<exists>c' calls m. handle_msg (Ack_accept (yes_accepted 1 65536)) [] (almost_captain value_0)
      = Inr (c', Inform_client 1 1 ''a'' # calls @ [Broadcast (Accept m)])
    \<and> acc_value m = value_1 \<and> hdr_slot (acc_header m) = 2"
proof -
  obtain info' where r: "accepted_info (me_of (almost_captain value_0)) 1 (yes_accepted 1 65536) (almost_info value_0)
      = Chosen info'"
    using almost_info_chosen [of value_0] by (auto simp: almost_captain_sel)
  have "(1 :: slot_id) = hdr_slot (acka_header (yes_accepted 1 65536))"
    by (simp add: yes_accepted_def)
  moreover have "pv_id value_0 = pv_id (init_value (curr_proposer (almost_info value_0)))"
    by (simp add: almost_info_sel)
  ultimately show ?thesis
    using chosen_own_value [OF almost_captain_sel(1-3) _ r almost_info_sel(1) _ almost_captain_sel(5,6), of "[]"]
    by (auto simp: almost_info_sel almost_captain_sel numeral_2_eq_2)
qed

theorem recommit_client_name_witness:
  "\<exists>c' calls m. handle_msg (Ack_accept (yes_accepted 1 65536)) ''reply'' (almost_captain value_1)
      = Inr (c', calls @ [Broadcast (Prepare m)])
    \<and> map_option client_name (map_find (proposers c') 2) = Some ''reply''"
proof -
  obtain info' where r: "accepted_info (me_of (almost_captain value_1)) 1 (yes_accepted 1 65536) (almost_info value_1)
      = Chosen info'"
    using almost_info_chosen [of value_1] by (auto simp: almost_captain_sel)
  have "(1 :: slot_id) = hdr_slot (acka_header (yes_accepted 1 65536))"
    by (simp add: yes_accepted_def)
  moreover have "pv_id value_1 \<noteq> pv_id (init_value (curr_proposer (almost_info value_1)))"
    by (simp add: almost_info_sel value_0_def value_1_def)
  ultimately show ?thesis
    using recommit_client_name [OF almost_captain_sel(1-3) _ r almost_info_sel(1), of "''reply''"]
    by (auto simp: almost_captain_sel numeral_2_eq_2)
qed

section \<open>Messages about slot 0\<close>

text \<open>
  Slot 0 does not exist, but no handler checks it: a prepare, an accept request or a
  decision for slot 0 dereferences the null pointer that stands at index 0 of the acceptors.
\<close>

theorem slot_zero_faults:
  assumes "captain_ok c" and "work c"
  shows "(hdr_slot (pre_header p) = 0 \<longrightarrow> handle_msg (Prepare p) name c = Inl Null_deref)
    \<and> (hdr_slot (acc_header a) = 0 \<longrightarrow> handle_msg (Accept a) name c = Inl Null_deref)
    \<and> (hdr_slot (dec_header d) = 0 \<longrightarrow> chosen_at c 0 = None \<longrightarrow>
         handle_msg (Decide d) name c = Inl Null_deref)"
proof -
  have as: "acceptors c \<noteq> []" "acceptors c ! 0 = None" and log: "log_ok c"
    using assms(1) by (simp_all add: captain_ok_def acceptors_ok_def)
  then have "vec_at (grow_acceptors (length (acceptors c)) 0 (acceptors c)) 0 = Inr None"
    by (simp add: grow_acceptors_eq nth_append)
  then show ?thesis
    using assms(2) as log
    by (simp add: handle_msg_def handle_prepare_def handle_accept_def handle_decide_def Let_def
        already_chosen_result accepted_here_def)
qed

theorem slot_zero_faults_witness:
  "handle_msg (Prepare (prepare_of 65537)) [] (captain_3 0 1) = Inl Null_deref"
proof -
  have "captain_ok (captain_3 0 1)" and "work (captain_3 0 1)"
    by (simp_all add: captain_3_def captain_ok_new view_ok_view_3, simp add: new_captain_def)
  from slot_zero_faults [OF this, of "prepare_of 65537" "[]"] show ?thesis by simp
qed

section \<open>Changing the master\<close>

text \<open>
  C38. \<open>master_change\<close> puts its command into the queue of values but nothing into the queue of
  clients. With a free place in the window the command is proposed under the name of the
  value's client, the value itself stays behind without a client, and the next time a slot is
  finished the front of the empty queue of clients is read.
\<close>

theorem master_change_breaks_queue:
  assumes "captain_ok c" and "\<not> if_master (cap_view c)" and "length (proposers c) < window_size c"
  shows "\<exists>c' calls. master_change v c = Inr (c', calls) \<and> tocommit_values c' = [v]
    \<and> tocommit_clients c' = [] \<and> commit_from_queue c' = Inl Empty_front"
proof -
  let ?c0 = "next_value_id c"
  have q: "tocommit_values c = []" "tocommit_clients c = []" and view: "view_ok (cap_view c)"
    using assms(1,3) by (auto simp: captain_ok_def queue_ok_def)
  obtain h where h: "my_hostname (cap_view c) = Inr h"
    using view by (simp add: my_hostname_def hostname_def view_ok_def)
  let ?cmd = "\<lparr>pv_id = value_id ?c0,
     pv_data = ''set_master Time_'' @ decimal (unat (drop_bit 16 (value_id ?c0))) @ '' from '' @ h,
     pv_cmd = Some SET_MASTER, pv_integrity = None\<rparr>"
  let ?c1 = "?c0\<lparr>tocommit_values := [v], tocommit_clients := []\<rparr>"
  have "core_ok ?c1"
    using assms(1) by (simp add: captain_ok_core)
  from propose_fast_result [OF this, of ?cmd "dumName c"] obtain c' m where
    fast: "propose_fast ?cmd (dumName c) ?c1 = Inr (c', [Broadcast (Accept m)])"
      "tocommit_values c' = [v]" "tocommit_clients c' = []"
    by auto
  have c0: "tocommit_values ?c0 = []" "tocommit_clients ?c0 = []"
    using q by simp_all
  have "commit_value v (dumName c) (?c0\<lparr>tocommit_values := [?cmd]\<rparr>)
      = Inr (c', [Broadcast (Accept m)], dumName c)"
    using assms(3) c0 fast(1) by (simp add: commit_value_def Let_def)
  then have "master_change v c = Inr (c'\<lparr>dumName := dumName c\<rparr>, [Broadcast (Accept m)])"
    using assms(2) h c0 by (simp add: master_change_def Let_def commit_value_dum_def)
  then show ?thesis
    using fast(2,3) by (intro exI [of _ "c'\<lparr>dumName := dumName c\<rparr>"]) (auto simp: commit_from_queue_def)
qed

theorem master_change_breaks_queue_witness:
  "\<exists>c' calls. master_change value_1 (captain_3 1 1) = Inr (c', calls)
    \<and> commit_from_queue c' = Inl Empty_front"
proof -
  have "captain_ok (captain_3 1 1)"
    by (simp add: captain_3_def captain_ok_new view_ok_view_3)
  moreover have "\<not> if_master (cap_view (captain_3 1 1))"
    "length (proposers (captain_3 1 1)) < window_size (captain_3 1 1)"
    by (simp_all add: captain_3_def new_captain_def if_master_def) (simp add: view_3_def)
  ultimately show ?thesis
    using master_change_breaks_queue [of "captain_3 1 1" value_1] by blast
qed

section \<open>Waiting for the master\<close>

text \<open>
  A node that is not the master forwards the value and blocks until the master's reply
  sets \<open>commit_ok\<close>. The flag is cleared only after the message is out: a reply that is handled
  after that ends the wait, but one that is handled before is forgotten and the caller stays
  blocked.
\<close>

theorem commit_wait:
  assumes "\<not> if_master (cap_view c)" and "mode \<noteq> Mode_recover" and "work c"
  shows "\<exists>c1. commit mode data name c = Inr (c1,
      [Send_to (Commit (Captain.msg_commit (me_of c) (new_value c data))) (master_id (cap_view c)), Wait_commit_ok])
    \<and> (\<exists>c2. handle_msg (Commit reply) name' (begin_wait c1) = Inr (c2, []) \<and> wait_over c2)
    \<and> (\<exists>c2. handle_msg (Commit reply) name' c1 = Inr (c2, []) \<and> \<not> wait_over (begin_wait c2))"
  using assms
  by (simp add: commit_def Let_def new_value_def handle_msg_def handle_commit_def begin_wait_def
      wait_over_def next_value_id_def)

theorem commit_wait_witness:
  "\<exists>c1 calls. commit Mode_default ''x'' [] (captain_3 1 1) = Inr (c1, calls)
    \<and> (\<exists>c2. handle_msg (Commit (Captain.msg_commit 0 value_1)) [] c1 = Inr (c2, []) \<and> \<not> wait_over (begin_wait c2))"
proof -
  have "\<not> if_master (cap_view (captain_3 1 1))" "work (captain_3 1 1)"
    by (simp_all add: captain_3_def new_captain_def if_master_def) (simp add: view_3_def)
  from commit_wait [OF this(1) _ this(2), of Mode_default "''x''" "[]" "Captain.msg_commit 0 value_1" "[]"]
  show ?thesis by auto
qed

section \<open>Joining the quorum\<close>

text \<open>
  A SET_QUORUM command makes the receiver a member of its own quorum set, and takes node 1
  for the master whoever sent it: a node that has just taken over and sends the command is
  not the master in the eyes of the node it recruits, unless it is node 1.
\<close>

theorem set_quorum_master:
  assumes "captain_ok c" and "work c" and "cmd_cmd m = SET_QUORUM"
  shows "\<exists>c'. handle_msg (Command m) name c = Inr (c', []) \<and> captain_ok c'
    \<and> set_find (me_of c) (quorums (cap_view c')) \<and> \<not> set_find (me_of c) (n_quorums (cap_view c'))
    \<and> master_id (cap_view c') = 1"
proof -
  let ?v = "set_master 1 (cap_view c)"
  let ?v' = "remove_n_quorums (whoami ?v) (add_quorums (whoami ?v) ?v)"
  have ok: "set_ok (quorums ?v)" "set_ok (n_quorums ?v)"
    using assms(1) by (simp_all add: captain_ok_def view_ok_def set_master_def)
  have q: "quorums ?v' = set_emplace (whoami ?v) (quorums ?v)" "n_quorums ?v' = set_erase (whoami ?v) (n_quorums ?v)"
    using ok by (simp_all add: quorums_add n_quorums_remove)
  have "set_find (whoami ?v) (quorums ?v')" "\<not> set_find (whoami ?v) (n_quorums ?v')"
    unfolding q set_find_def using ok aset.set_elems_emplace [OF ok(1)] aset.set_elems_erase [OF ok(2)]
    by auto
  moreover have "captain_ok (handle_command m c)"
    using handle_command_keeps [OF assms(1), of m] by (simp add: keeps_def)
  moreover have "whoami ?v = me_of c" "master_id ?v' = 1"
    by (simp_all add: whoami_def set_master_def)
  ultimately show ?thesis
    using assms(2,3) by (simp add: handle_msg_def handle_command_def Let_def)
qed

theorem set_quorum_master_witness:
  "\<exists>c'. handle_msg (Command (Captain.msg_command 2 SET_QUORUM)) [] (captain_3 2 1) = Inr (c', [])
    \<and> master_id (cap_view c') = 1"
proof -
  have "captain_ok (captain_3 2 1)" and "work (captain_3 2 1)"
    by (simp_all add: captain_3_def captain_ok_new view_ok_view_3, simp add: new_captain_def)
  from set_quorum_master [OF this, of "Captain.msg_command 2 SET_QUORUM" "[]"] show ?thesis
    by (auto simp: Captain.msg_command_def)
qed

end
