(* ===== verification/Commo.thy ===== *)
theory Commo
  imports Captain_Props
begin

text \<open>
  \<^verbatim>\<open>commo.hpp\<close> and \<^verbatim>\<open>commo.cpp\<close>: the communication module of a node, which turns the calls of
  the captain into NDN interests and data packets, and packets back into messages.

  A name is its list of components, a component the list of its bytes. What the code uses of
  the NDN library and of protobuf is the record \<open>externals\<close>: it stands for code outside the
  repository and is an argument of every definition that needs it. What a handler gives to
  the NDN face, to the thread pool or to the callbacks of the application is a list of
  effects, in order.
\<close>

type_synonym name = "string list"

record externals =
  uri_name :: "string \<Rightarrow> name"
  enc_number :: "nat \<Rightarrow> string"
  dec_number :: "string \<Rightarrow> nat option"
  comp_uri :: "string \<Rightarrow> string"
  serialize :: "msg \<Rightarrow> string"
  parse_as :: "msg_type \<Rightarrow> string \<Rightarrow> msg"

datatype effect =
    Interest name nat
  | Log_interest name nat
  | Data_packet name string nat
  | Schedule_self msg
  | Callback "name call"
  | Wait_for_commit
  | Blocked_forever

text \<open>The state: the captain with the shared view, the names, the log counter, \<^verbatim>\<open>quorum_mut_\<close>.\<close>

record node =
  nd_captain :: "name captain"
  consumer_names :: "name list"
  log_name :: name
  commit_name :: name
  log_counter :: nat
  quorum_locked :: bool

abbreviation nd_view :: "node \<Rightarrow> view" where
  "nd_view nd \<equiv> cap_view (nd_captain nd)"

section \<open>Construction\<close>

datatype handler = On_interest | On_interest_log | On_interest_commit

fun consumer_names_from :: "externals \<Rightarrow> view \<Rightarrow> nat \<Rightarrow> nat \<Rightarrow> name list res" where
  "consumer_names_from E v i 0 = Inr []"
| "consumer_names_from E v i (Suc k) =
     res_bind (hostname v (of_nat i)) (\<lambda>h.
       res_bind (consumer_names_from E v (Suc i) k) (\<lambda>ns. Inr ((uri_name E (prefix v) @ [h]) # ns)))"

text \<open>The interest filters the constructor sets, in order.\<close>

definition interest_filters :: "externals \<Rightarrow> view \<Rightarrow> name \<Rightarrow> name \<Rightarrow> name \<Rightarrow> (name \<times> handler) list" where
  "interest_filters E v self log_nm commit_nm =
     (let write = (commit_nm @ [enc_number E 0], On_interest_commit);
          read = (commit_nm @ [enc_number E 1], On_interest_commit)
      in if if_master v then [write, read]
         else (if if_quorum v then [(self, On_interest), (log_nm, On_interest_log), write] else [])
           @ [(self, On_interest)]
           @ (if \<not> if_quorum v \<or> nodes_size v = 2 then [read] else []))"

definition Commo_init :: "externals \<Rightarrow> name captain \<Rightarrow> (node \<times> (name \<times> handler) list) res" where
  "Commo_init E c =
     (let v = cap_view c;
          log_nm = uri_name E (prefix v) @ [''log''];
          commit_nm = uri_name E (prefix v) @ [''commit'']
      in res_bind (consumer_names_from E v 0 (nodes_size v)) (\<lambda>names.
         res_bind (if if_master v then Inr [] else vec_at names (unat (whoami v))) (\<lambda>self.
           Inr (\<lparr>nd_captain = c, consumer_names = names, log_name = log_nm, commit_name = commit_nm,
                 log_counter = 0, quorum_locked = False\<rparr>,
                interest_filters E v self log_nm commit_nm))))"

section \<open>Sending\<close>

text \<open>A message on the wire: its serialization and one digit for its type.\<close>

definition encode_msg :: "externals \<Rightarrow> msg \<Rightarrow> string" where
  "encode_msg E m = serialize E m @ decimal (msg_type_code (type_of_msg m))"

definition consume :: "name \<Rightarrow> effect" where
  "consume nm = Interest nm 200"

definition produce :: "string \<Rightarrow> name \<Rightarrow> nat \<Rightarrow> effect" where
  "produce content nm seconds = Data_packet nm content seconds"

definition send_one_msg :: "externals \<Rightarrow> msg \<Rightarrow> node_id \<Rightarrow> node \<Rightarrow> effect res" where
  "send_one_msg E m d nd =
     res_bind (vec_at (consumer_names nd) (unat d)) (\<lambda>nm. Inr (consume (nm @ [encode_msg E m])))"

definition reply_one_msg :: "externals \<Rightarrow> msg \<Rightarrow> name \<Rightarrow> effect" where
  "reply_one_msg E m nm = produce (encode_msg E m) nm 0"

definition produce_log :: "externals \<Rightarrow> slot_id \<Rightarrow> prop_value \<Rightarrow> node \<Rightarrow> effect" where
  "produce_log E s v nd =
     produce (pv_data v) (log_name nd @ [enc_number E s, enc_number E (unat (pv_id v))]) 10000"

definition to_string_int :: "int \<Rightarrow> string" where
  "to_string_int i = (if i < 0 then ''-'' @ decimal (nat (- i)) else decimal (nat i))"

definition inform_client :: "externals \<Rightarrow> slot_id \<Rightarrow> int \<Rightarrow> name \<Rightarrow> effect" where
  "inform_client E s tries nm = produce (to_string_int tries) (nm @ [enc_number E s]) 0"

text \<open>
  The loop of \<^verbatim>\<open>broadcast_msg\<close> over the quorum in ascending order: the node itself handles
  the message on the spot, the others are sent an interest. (No message a node handles for
  itself changes the quorum, so the set is read once.)
\<close>

definition broadcast_calls :: "msg \<Rightarrow> view \<Rightarrow> name call list" where
  "broadcast_calls m v = map (\<lambda>i. if i = whoami v then Send_self m else Send_to m i) (quorums v)"

text \<open>
  One call of the captain: the node after it, its effects, and the calls of the handler it
  runs, which come before anything else.
\<close>

definition with_captain :: "node \<Rightarrow> (name captain \<times> name call list) res \<Rightarrow>
    (node \<times> effect list \<times> name call list) res" where
  "with_captain nd r = res_bind r (\<lambda>(c, calls). Inr (nd\<lparr>nd_captain := c\<rparr>, [], calls))"

fun call_step :: "externals \<Rightarrow> name call \<Rightarrow> node \<Rightarrow> (node \<times> effect list \<times> name call list) res" where
  "call_step E (Send_self m) nd =
     with_captain nd (handle_msg m (dumName (nd_captain nd)) (nd_captain nd))"
| "call_step E (Send_to m d) nd = res_bind (send_one_msg E m d nd) (\<lambda>e. Inr (nd, [e], []))"
| "call_step E (Reply_to m d nm) nd = Inr (nd, [reply_one_msg E m nm], [])"
| "call_step E (Broadcast m) nd =
     (if nodes_size (nd_view nd) = 1 then Inr (nd, [Schedule_self m], [])
      else Inr (nd, [], broadcast_calls m (nd_view nd)))"
| "call_step E (Produce_log s v) nd = Inr (nd, [produce_log E s v nd], [])"
| "call_step E (Inform_client s t nm) nd = Inr (nd, [inform_client E s t nm], [])"
| "call_step E (Run_callback s d) nd = Inr (nd, [Callback (Run_callback s d)], [])"
| "call_step E (Run_callback_full s v n) nd = Inr (nd, [Callback (Run_callback_full s v n)], [])"
| "call_step E (Run_callback_latency s v t) nd = Inr (nd, [Callback (Run_callback_latency s v t)], [])"
| "call_step E Wait_commit_ok nd =
     Inr (nd\<lparr>nd_captain := begin_wait (nd_captain nd)\<rparr>, [Wait_for_commit], [])"

text \<open>
  All calls, those of nested handlers first. \<open>None\<close> would be a run that never ends: the code
  calls the captain from the captain's own calls.
\<close>

partial_function (option) exec :: "externals \<Rightarrow> name call list \<Rightarrow> node \<Rightarrow> effect list \<Rightarrow>
    (node \<times> effect list) res option" where
  "exec E calls nd effs =
     (case calls of
        [] \<Rightarrow> Some (Inr (nd, effs))
      | call # rest \<Rightarrow>
          (case call_step E call nd of
             Inl e \<Rightarrow> Some (Inl e)
           | Inr (nd', new, calls') \<Rightarrow> exec E (calls' @ rest) nd' (effs @ new)))"

text \<open>Run a captain operation and then its calls.\<close>

definition run_captain :: "externals \<Rightarrow> node \<Rightarrow> (name captain \<times> name call list) res \<Rightarrow>
    (node \<times> effect list) res option" where
  "run_captain E nd r =
     (case r of
        Inl e \<Rightarrow> Some (Inl e)
      | Inr (c, calls) \<Rightarrow> exec E calls (nd\<lparr>nd_captain := c\<rparr>) [])"

section \<open>Receiving\<close>

text \<open>\<open>get(-k)\<close> of a name throws when there are fewer components.\<close>

definition name_get :: "name \<Rightarrow> nat \<Rightarrow> string res" where
  "name_get nm k = (if 0 < k \<and> k \<le> length nm then Inr (nm ! (length nm - k)) else Inl Foreign_exception)"

definition get_number :: "externals \<Rightarrow> name \<Rightarrow> nat \<Rightarrow> nat res" where
  "get_number E nm k = res_bind (name_get nm k) (\<lambda>s.
     case dec_number E s of None \<Rightarrow> Inl Foreign_exception | Some n \<Rightarrow> Inr n)"

text \<open>
  The type is the last byte; one that names no message leaves the pointer null, which is
  dereferenced. The result of \<^verbatim>\<open>ParseFromString\<close> is not looked at.
\<close>

definition deal_msg :: "externals \<Rightarrow> string \<Rightarrow> name \<Rightarrow> name captain \<Rightarrow> (name captain \<times> name call list) res" where
  "deal_msg E s nm c =
     (if s = [] then Inl Out_of_range
      else case msg_type_of_code (int (of_char (last s)) - 48) of
             None \<Rightarrow> Inl Null_deref
           | Some t \<Rightarrow> handle_msg (parse_as E t (butlast s)) nm c)"

definition onInterest :: "externals \<Rightarrow> name \<Rightarrow> node \<Rightarrow> (node \<times> effect list) res option" where
  "onInterest E nm nd =
     run_captain E nd (res_bind (name_get nm 1) (\<lambda>s. deal_msg E s nm (nd_captain nd)))"

definition onData :: "externals \<Rightarrow> name \<Rightarrow> string \<Rightarrow> node \<Rightarrow> (node \<times> effect list) res option" where
  "onData E interest_nm content nd =
     run_captain E nd (deal_msg E content interest_nm (nd_captain nd))"

text \<open>The task the thread pool of a single node runs.\<close>

definition handle_myself :: "externals \<Rightarrow> msg \<Rightarrow> node \<Rightarrow> (node \<times> effect list) res option" where
  "handle_myself E m nd =
     run_captain E nd (handle_msg m (dumName (nd_captain nd)) (nd_captain nd))"

definition onInterestCommit :: "externals \<Rightarrow> mode \<Rightarrow> name \<Rightarrow> node \<Rightarrow> (node \<times> effect list) res option" where
  "onInterestCommit E mode nm nd =
     (case res_bind (name_get nm 1) (\<lambda>s. res_bind (get_number E nm 2) (\<lambda>_.
           res_bind (get_number E nm 3) (\<lambda>_. res_bind (get_number E nm 4) (\<lambda>t. Inr (s, t))))) of
        Inl e \<Rightarrow> Some (Inl e)
      | Inr (s, t) \<Rightarrow>
          if (of_nat t :: 32 word) = 0 then run_captain E nd (commit mode (comp_uri E s) nm (nd_captain nd))
          else Some (Inr (nd, [produce ''Need to change here'' nm 0])))"

text \<open>Serving and following the log of decisions.\<close>

definition onInterestLog :: "externals \<Rightarrow> name \<Rightarrow> node \<Rightarrow> effect list res" where
  "onInterestLog E nm nd =
     res_bind (get_number E nm 1) (\<lambda>s.
     res_bind (get_chosen_value_at s (nd_captain nd)) (\<lambda>ov.
       Inr (case ov of
              None \<Rightarrow> []
            | Some v \<Rightarrow> [produce (pv_data v) (nm @ [enc_number E (unat (pv_id v))]) 10000])))"

definition consume_log_next :: "externals \<Rightarrow> node \<Rightarrow> node \<times> effect list" where
  "consume_log_next E nd =
     (if if_quorum (nd_view nd) then (nd, [])
      else let k = Suc (log_counter nd)
           in (nd\<lparr>log_counter := k\<rparr>, [Log_interest (log_name nd @ [enc_number E k]) 20000]))"

fun consume_log :: "externals \<Rightarrow> nat \<Rightarrow> node \<Rightarrow> node \<times> effect list" where
  "consume_log E 0 nd = (nd, [])"
| "consume_log E (Suc k) nd =
     (let (nd1, e1) = consume_log_next E nd; (nd2, e2) = consume_log E k nd1 in (nd2, e1 @ e2))"

definition onDataLog :: "externals \<Rightarrow> name \<Rightarrow> string \<Rightarrow> node \<Rightarrow> (node \<times> effect list) res option" where
  "onDataLog E data_nm content nd =
     (case res_bind (get_number E data_nm 2) (\<lambda>s. res_bind (get_number E data_nm 1) (\<lambda>i. Inr (s, i))) of
        Inl e \<Rightarrow> Some (Inl e)
      | Inr (s, i) \<Rightarrow>
          (case run_captain E nd (add_chosen_value s
              \<lparr>pv_id = of_nat i, pv_data = content, pv_cmd = None, pv_integrity = None\<rparr> (nd_captain nd)) of
             None \<Rightarrow> None
           | Some (Inl e) \<Rightarrow> Some (Inl e)
           | Some (Inr (nd', effs)) \<Rightarrow>
               (let (nd2, e2) = consume_log_next E nd' in Some (Inr (nd2, effs @ e2)))))"

text \<open>
  A negative acknowledgement in recovery mode. The old member's number is the last character
  of its host name. Without a spare node the function returns with the mutex locked.
\<close>

definition last_digit :: "string \<Rightarrow> nat res" where
  "last_digit s =
     (if s = [] then Inl Out_of_range
      else if (48 :: nat) \<le> of_char (last s) \<and> of_char (last s) \<le> (57 :: nat) then Inr (digit_value (last s))
      else Inl Foreign_exception)"

definition onNack :: "externals \<Rightarrow> mode \<Rightarrow> name \<Rightarrow> node \<Rightarrow> (node \<times> effect list) res" where
  "onNack E mode nm nd =
     (if mode \<noteq> Mode_recover then Inr (nd, [])
      else res_bind (name_get nm 2) (\<lambda>host. res_bind (last_digit (comp_uri E host)) (\<lambda>old.
        if 2 \<le> old then Inr (nd, [])
        else if quorum_locked nd then Inr (nd, [Blocked_forever])
        else if n_quorums (nd_view nd) = [] then Inr (nd\<lparr>quorum_locked := True\<rparr>, [])
        else res_bind (replace_member (of_nat old) (nd_view nd)) (\<lambda>(v', nq).
          let c = nd_captain nd; nd1 = nd\<lparr>nd_captain := c\<lparr>cap_view := v'\<rparr>\<rparr>
          in res_bind (send_one_msg E (Command (Captain.msg_command (me_of c) SET_QUORUM)) nq nd1) (\<lambda>e1.
             res_bind (vec_at (consumer_names nd1) (unat nq)) (\<lambda>base.
             res_bind (name_get nm 1) (\<lambda>body. Inr (nd1, [e1, consume (base @ [body])]))))))))"

text \<open>\<^verbatim>\<open>deal_nack\<close>, which no code calls any more.\<close>

definition deal_nack :: "externals \<Rightarrow> string \<Rightarrow> node \<Rightarrow> (node \<times> effect list) res option" where
  "deal_nack E s nd =
     (if s = [] then Some (Inl Out_of_range)
      else if int (of_char (last s)) - 48 = int (msg_type_code COMMIT)
      then (case parse_as E COMMIT (butlast s) of
              Commit m \<Rightarrow> run_captain E nd (master_change (com_value m) (nd_captain nd))
            | _ \<Rightarrow> Some (Inr (nd, [])))
      else Some (Inr (nd, [])))"

section \<open>The wire format\<close>

lemma decimal_digit: "d < 10 \<Longrightarrow> decimal d = [char_of (48 + d)]"
  by (subst decimal.simps) simp

lemma encode_msg_split:
  "encode_msg E m = serialize E m @ [char_of (48 + msg_type_code (type_of_msg m))]"
  using msg_type_code_bound [of "type_of_msg m"] by (simp add: encode_msg_def decimal_digit)

lemma deal_encoded:
  assumes "parse_as E (type_of_msg m) (serialize E m) = m"
  shows "deal_msg E (encode_msg E m) nm c = handle_msg m nm c"
proof -
  let ?k = "msg_type_code (type_of_msg m)"
  have "?k < 9"
    by (rule msg_type_code_bound)
  then have "int (of_char (char_of (48 + ?k) :: char)) - 48 = int ?k"
    by (simp add: of_char_of)
  then show ?thesis
    using assms by (simp add: deal_msg_def encode_msg_split)
qed

text \<open>
  C31. What one node sends another handles: if protobuf reads back the message it wrote, the
  interest of \<open>send_one_msg\<close> makes the receiver handle exactly that message under the
  interest's name, and the data packet of a reply makes the requester handle exactly the reply
  under the name of its own request.
\<close>

theorem wire_roundtrip:
  assumes "parse_as E (type_of_msg m) (serialize E m) = m"
    and "send_one_msg E m d nd = Inr (Interest nm life)"
  shows "nm = consumer_names nd ! unat d @ [encode_msg E m]
    \<and> onInterest E nm peer = run_captain E peer (handle_msg m nm (nd_captain peer))
    \<and> reply_one_msg E m nm = Data_packet nm (encode_msg E m) 0
    \<and> onData E nm (encode_msg E m) peer = run_captain E peer (handle_msg m nm (nd_captain peer))"
proof -
  have nm: "nm = consumer_names nd ! unat d @ [encode_msg E m]"
    using assms(2) by (auto simp: send_one_msg_def consume_def res_bind_Inr_iff vec_at_Inr_iff)
  then have "name_get nm 1 = Inr (encode_msg E m)"
    by (simp add: name_get_def nth_append)
  then show ?thesis
    using nm by (simp add: onInterest_def onData_def reply_one_msg_def produce_def deal_encoded [OF assms(1)])
qed

text \<open>A toy wire for one message, and a fresh node of the three-node cluster.\<close>

definition one_message_wire :: "msg \<Rightarrow> externals" where
  "one_message_wire m = \<lparr>uri_name = (\<lambda>s. [s]), enc_number = decimal, dec_number = (\<lambda>s. Some (undecimal s)),
     comp_uri = (\<lambda>s. s), serialize = (\<lambda>_. ''body''), parse_as = (\<lambda>_ _. m)\<rparr>"

definition fresh_node :: "node_id \<Rightarrow> node" where
  "fresh_node me = \<lparr>nd_captain = new_captain (view_3 me) 1 [],
     consumer_names = [[''p'', ''node0''], [''p'', ''node1''], [''p'', ''node2'']],
     log_name = [''p'', ''log''], commit_name = [''p'', ''commit''], log_counter = 0, quorum_locked = False\<rparr>"

definition learn_1 :: msg where
  "learn_1 = Learn (Captain.msg_learn 0 1)"

lemma learn_1_type: "type_of_msg learn_1 = LEARN"
  by (simp add: learn_1_def)

theorem wire_roundtrip_witness:
  "onInterest (one_message_wire learn_1) [''p'', ''node1'', ''body5''] (fresh_node 1)
     = Some (Inr (fresh_node 1, []))"
proof -
  let ?E = "one_message_wire learn_1" and ?nm = "[''p'', ''node1'', ''body5'']"
  have "char_of (53 :: nat) = CHR ''5''"
    by code_simp
  then have code: "encode_msg ?E learn_1 = ''body5''"
    by (simp add: encode_msg_split learn_1_type) (simp add: one_message_wire_def)
  have "parse_as ?E (type_of_msg learn_1) (serialize ?E learn_1) = learn_1"
    by (simp add: one_message_wire_def)
  moreover have "send_one_msg ?E learn_1 1 (fresh_node 0) = Inr (Interest ?nm 200)"
    by (simp add: send_one_msg_def code fresh_node_def consume_def)
  ultimately have "onInterest ?E ?nm (fresh_node 1)
      = run_captain ?E (fresh_node 1) (handle_msg learn_1 ?nm (nd_captain (fresh_node 1)))"
    by (rule wire_roundtrip [THEN conjunct2, THEN conjunct1])
  also have "handle_msg learn_1 ?nm (nd_captain (fresh_node 1)) = Inr (nd_captain (fresh_node 1), [])"
    by (simp add: learn_1_def handle_msg_def handle_learn_def Let_def fresh_node_def new_captain_def Captain.msg_learn_def)
  finally show ?thesis
    by (simp add: run_captain_def exec.simps)
qed

text \<open>
  Bytes that are no message: an empty component, or a last byte that is not one of the
  nine type digits, crash the receiver.
\<close>

theorem deal_msg_bad_input:
  "(s = [] \<longrightarrow> deal_msg E s nm c = Inl Out_of_range)
   \<and> (s \<noteq> [] \<and> (of_char (last s) < (48 :: nat) \<or> 57 \<le> (of_char (last s) :: nat)) \<longrightarrow>
        deal_msg E s nm c = Inl Null_deref)"
proof -
  have "msg_type_of_code (int (of_char (last s)) - 48) = None"
    if "of_char (last s) < (48 :: nat) \<or> 57 \<le> (of_char (last s) :: nat)"
    using that by (auto simp: msg_type_of_code_def)
  then show ?thesis
    by (auto simp: deal_msg_def)
qed

theorem deal_msg_bad_input_witness:
  "deal_msg (one_message_wire learn_1) ''body9'' [] (nd_captain (fresh_node 1)) = Inl Null_deref"
  using deal_msg_bad_input [of "''body9''" "one_message_wire learn_1" "[]" "nd_captain (fresh_node 1)"] by simp

section \<open>The filters\<close>

text \<open>An interest reaches a handler when the filter's prefix is a prefix of its name.\<close>

definition handlers_of :: "(name \<times> handler) list \<Rightarrow> name \<Rightarrow> handler list" where
  "handlers_of fs nm = map snd (filter (\<lambda>f. take (length (fst f)) nm = fst f) fs)"

lemma consumer_names_from_result:
  assumes "i + k \<le> length (host_nodes v)" and "length (host_nodes v) < 65536"
  shows "consumer_names_from E v i k
    = Inr (map (\<lambda>j. uri_name E (prefix v) @ [host_name (host_nodes v ! j)]) [i..<i + k])"
  using assms
proof (induction k arbitrary: i)
  case (Suc k)
  have "hostname v (of_nat i) = Inr (host_name (host_nodes v ! i))"
    using Suc.prems by (simp add: hostname_def)
  moreover have "[i..<i + Suc k] = i # [Suc i..<Suc i + k]"
    by (simp add: upt_conv_Cons)
  ultimately show ?case
    using Suc.IH [of "Suc i"] Suc.prems by simp
qed simp

lemma Commo_init_result:
  assumes "view_ok (cap_view c)" and "host_count (cap_view c) < 65536" and "v = cap_view c"
    and "self = uri_name E (prefix v) @ [host_name (host_nodes v ! unat (whoami v))]"
  shows "\<exists>nd self'. Commo_init E c = Inr (nd, interest_filters E v self'
        (uri_name E (prefix v) @ [''log'']) (uri_name E (prefix v) @ [''commit'']))
    \<and> nd_captain nd = c \<and> length (consumer_names nd) = host_count v
    \<and> consumer_names nd ! unat (whoami v) = self \<and> (\<not> if_master v \<longrightarrow> self' = self)
    \<and> log_name nd = uri_name E (prefix v) @ [''log'']"
proof -
  have n: "length (host_nodes v) = host_count v" "unat (whoami v) < host_count v"
    using assms(1,3) by (simp_all add: view_ok_def whoami_def)
  have "consumer_names_from E v 0 (nodes_size v)
      = Inr (map (\<lambda>j. uri_name E (prefix v) @ [host_name (host_nodes v ! j)]) [0..<host_count v])"
    using consumer_names_from_result [of 0 "nodes_size v" v E] n(1) assms(2,3) by (simp add: nodes_size_def)
  then show ?thesis
    using n assms(3,4) by (auto simp: Commo_init_def Let_def)
qed

text \<open>
  A node that is not the master at start handles the messages sent to its name, once or
  twice as often as filters were set. The initial master sets no filter for its own name:
  nothing sent to it as a message, a forwarded commit in particular, ever reaches its captain.
\<close>

theorem message_filters:
  assumes "view_ok (cap_view c)" and "host_count (cap_view c) < 65536"
    and "Commo_init E c = Inr (nd, fs)" and "nm = consumer_names nd ! unat (me_of c) @ [body]"
    and "host_name (host_nodes (cap_view c) ! unat (me_of c)) \<noteq> ''commit''"
    and "host_name (host_nodes (cap_view c) ! unat (me_of c)) \<noteq> ''log''"
  shows "handlers_of fs nm =
     (if if_master (cap_view c) then []
      else if if_quorum (cap_view c) then [On_interest, On_interest] else [On_interest])"
proof -
  let ?v = "cap_view c" and ?p = "uri_name E (prefix (cap_view c))"
  let ?h = "host_name (host_nodes ?v ! unat (whoami ?v))"
  obtain nd' self' where r: "Commo_init E c = Inr (nd', interest_filters E ?v self' (?p @ [''log'']) (?p @ [''commit'']))"
    "consumer_names nd' ! unat (whoami ?v) = ?p @ [?h]" "\<not> if_master ?v \<longrightarrow> self' = ?p @ [?h]"
    using Commo_init_result [OF assms(1,2) refl refl, of E] by blast
  then have fs: "fs = interest_filters E ?v self' (?p @ [''log'']) (?p @ [''commit''])" and nm: "nm = ?p @ [?h, body]"
    using assms(3,4) by auto
  show ?thesis
    using r(3) assms(5,6) unfolding fs nm
    by (auto simp: handlers_of_def interest_filters_def Let_def)
qed

theorem message_filters_witness:
  "\<exists>nd fs. Commo_init (one_message_wire learn_1) (new_captain (view_3 0) 1 []) = Inr (nd, fs)
    \<and> handlers_of fs (consumer_names nd ! 0 @ [''body'']) = []"
proof -
  let ?E = "one_message_wire learn_1" and ?c = "new_captain (view_3 0) 1 [] :: name captain"
  have view: "cap_view ?c = view_3 0"
    by (simp add: new_captain_def)
  have ok: "view_ok (cap_view ?c)" "host_count (cap_view ?c) < 65536"
    unfolding view by (simp add: view_ok_view_3, simp add: view_3_def)
  obtain nd fs where run: "Commo_init ?E ?c = Inr (nd, fs)"
    using Commo_init_result [OF ok refl refl, of ?E] by blast
  have "handlers_of fs (consumer_names nd ! unat (me_of ?c) @ [''body'']) = []"
    using message_filters [OF ok run refl] unfolding view
    by (simp add: view_3_def whoami_def if_master_def localhost_3_def)
  then show ?thesis
    using run unfolding view by (simp add: whoami_def view_3_def)
qed

end
