(* ===== verification/Commo_Runs.thy ===== *)
theory Commo_Runs
  imports Commo
begin

text \<open>
  The captain and the communication module call each other: a handler broadcasts, the
  broadcast makes the node handle its own message, that handler replies to itself, and so on,
  on one stack. This theory shows that the nesting always ends, and that a node that handles
  a well-formed packet neither faults nor leaves its invariant.
\<close>

section \<open>Running calls\<close>

definition node_ok :: "node \<Rightarrow> bool" where
  "node_ok nd \<longleftrightarrow> captain_ok (nd_captain nd) \<and> length (consumer_names nd) = host_count (nd_view nd)"

text \<open>The calls take the node from one state to another, whatever calls follow.\<close>

definition runs_to :: "externals \<Rightarrow> node \<Rightarrow> name call list \<Rightarrow> node \<Rightarrow> bool" where
  "runs_to E nd calls nd' \<longleftrightarrow> (\<forall>rest effs. \<exists>effs'. exec E (calls @ rest) nd effs = exec E rest nd' effs')"

lemma runs_to_Nil: "runs_to E nd [] nd"
  unfolding runs_to_def by simp blast

lemma runs_to_append: "runs_to E nd xs nd1 \<Longrightarrow> runs_to E nd1 ys nd2 \<Longrightarrow> runs_to E nd (xs @ ys) nd2"
  unfolding runs_to_def by simp metis

lemma runs_to_Cons: "runs_to E nd [x] nd1 \<Longrightarrow> runs_to E nd1 xs nd2 \<Longrightarrow> runs_to E nd (x # xs) nd2"
  using runs_to_append [of E nd "[x]" nd1 xs nd2] by simp

lemma runs_to_step:
  assumes "call_step E call nd = Inr (nd1, new, calls)" and "runs_to E nd1 calls nd2"
  shows "runs_to E nd [call] nd2"
  unfolding runs_to_def
proof (intro allI)
  fix rest effs
  have "exec E ([call] @ rest) nd effs = exec E (calls @ rest) nd1 (effs @ new)"
    using assms(1) by (subst exec.simps) simp
  then show "\<exists>effs'. exec E ([call] @ rest) nd effs = exec E rest nd2 effs'"
    using assms(2) unfolding runs_to_def by simp
qed

lemma runs_to_exec: "runs_to E nd calls nd' \<Longrightarrow> \<exists>effs'. exec E calls nd effs = Some (Inr (nd', effs'))"
  unfolding runs_to_def by (drule spec [of _ "[]"]) (simp add: exec.simps [of E "[]"])

text \<open>Calls that only have effects.\<close>

definition plain :: "nat \<Rightarrow> name call \<Rightarrow> bool" where
  "plain n call = (case call of
       Send_self _ \<Rightarrow> False | Broadcast _ \<Rightarrow> False | Wait_commit_ok \<Rightarrow> False
     | Send_to _ d \<Rightarrow> unat d < n | _ \<Rightarrow> True)"

lemma plain_runs:
  assumes "\<forall>call \<in> set calls. plain (length (consumer_names nd)) call"
  shows "runs_to E nd calls nd"
  using assms
proof (induction calls)
  case (Cons call calls)
  have "plain (length (consumer_names nd)) call"
    using Cons.prems by simp
  then have "\<exists>new. call_step E call nd = Inr (nd, new, [])"
    by (cases call) (auto simp: plain_def send_one_msg_def)
  then obtain new where "call_step E call nd = Inr (nd, new, [])"
    by blast
  then have "runs_to E nd [call] nd"
    by (rule runs_to_step) (rule runs_to_Nil)
  moreover have "runs_to E nd calls nd"
    using Cons by simp
  ultimately show ?case
    by (rule runs_to_Cons)
qed (rule runs_to_Nil)

section \<open>The shape of what a handler calls\<close>

text \<open>A message that starts a phase: the proposer of its slot has no reply to it yet.\<close>

definition starts :: "name captain \<Rightarrow> msg \<Rightarrow> bool" where
  "starts c m \<longleftrightarrow> msg_ok (host_count (cap_view c)) m \<and> (case m of
       Prepare p \<Rightarrow> from_myself (pre_header p) c \<and> (\<forall>info.
         map_find (proposers c) (hdr_slot (pre_header p)) = Some info \<longrightarrow> ack_prepares (curr_proposer info) = [])
     | Accept a \<Rightarrow> from_myself (acc_header a) c \<and> (\<forall>info.
         map_find (proposers c) (hdr_slot (acc_header a)) = Some info \<longrightarrow> ack_accepts (curr_proposer info) = [])
     | _ \<Rightarrow> False)"

definition opens_one :: "name captain \<Rightarrow> name call list \<Rightarrow> bool" where
  "opens_one c calls \<longleftrightarrow> (\<exists>ps tl. calls = ps @ tl \<and> (\<forall>call \<in> set ps. plain (host_count (cap_view c)) call)
     \<and> (tl = [] \<or> (\<exists>m. tl = [Broadcast m] \<and> starts c m)))"

lemma opening_plain: "\<forall>call \<in> set calls. plain (host_count (cap_view c)) call \<Longrightarrow> opens_one c calls"
  unfolding opens_one_def by (intro exI [of _ calls] exI [of _ "[]"]) simp

lemma opening_broadcast: "starts c m \<Longrightarrow> opens_one c [Broadcast m]"
  unfolding opens_one_def by (intro exI [of _ "[]"] exI [of _ "[Broadcast m]"]) simp

lemma opening_prepend:
  assumes "\<forall>call \<in> set xs. plain (host_count (cap_view c)) call" and "opens_one c calls"
  shows "opens_one c (xs @ calls)"
proof -
  from assms(2) obtain ps tl where "calls = ps @ tl" "\<forall>call \<in> set ps. plain (host_count (cap_view c)) call"
    "tl = [] \<or> (\<exists>m. tl = [Broadcast m] \<and> starts c m)"
    unfolding opens_one_def by blast
  then show ?thesis
    using assms(1) unfolding opens_one_def by (intro exI [of _ "xs @ ps"] exI [of _ tl]) auto
qed

lemma starts_same:
  "starts c m \<Longrightarrow> proposers c' = proposers c \<Longrightarrow> host_count (cap_view c') = host_count (cap_view c) \<Longrightarrow>
     me_of c' = me_of c \<Longrightarrow> starts c' m"
  by (auto simp: starts_def from_myself_def split: msg.splits)

lemma opening_same:
  "opens_one c calls \<Longrightarrow> proposers c' = proposers c \<Longrightarrow> host_count (cap_view c') = host_count (cap_view c) \<Longrightarrow>
     me_of c' = me_of c \<Longrightarrow> opens_one c' calls"
  unfolding opens_one_def by (metis starts_same)

lemma callback_plain: "is_callback call \<Longrightarrow> plain n call"
  by (cases call) (simp_all add: is_callback_def plain_def)

section \<open>Handlers of replies open at most one phase\<close>

lemma handle_promise_opening:
  assumes "captain_ok c" and "handle_promise ack c = (c', calls)"
  shows "opens_one c' calls"
proof (cases "map_find (proposers c) (hdr_slot (ackp_header ack))")
  case None
  then show ?thesis
    using assms(2) by (auto simp: handle_promise_def Let_def opening_plain)
next
  case (Some info)
  let ?s = "hdr_slot (ackp_header ack)"
  obtain info' om where run: "promise_info (me_of c) ?s ack info = (info', om)"
    by (cases "promise_info (me_of c) ?s ack info")
  have at: "0 < ?s" "info_ok (q_size (cap_view c)) info" and map: "map_ok (proposers c)"
    using proposers_ok_at [OF _ Some] assms(1) by (auto simp: captain_ok_def proposers_ok_def)
  have c': "c' = c\<lparr>proposers := map_put ?s info' (proposers c)\<rparr>"
    and calls: "calls = (case om of None \<Rightarrow> [] | Some m \<Rightarrow> [Broadcast m])"
    using assms(2) Some run by (auto simp: handle_promise_def Let_def)
  show ?thesis
  proof (cases om)
    case None
    then show ?thesis by (simp add: calls opening_plain)
  next
    case (Some m)
    note m = promise_info_ok(2) [OF at(2) run Some]
    have "starts c' m"
      using m at(1) map captain_ok_me [OF assms(1)]
      by (auto simp: starts_def c' from_myself_def msg_ok_def opening_msg_def)
    then show ?thesis
      by (simp add: calls Some opening_broadcast)
  qed
qed

lemma propose_fast_opening:
  assumes "core_ok c" and "propose_fast v nm c = Inr (c', calls)"
  shows "opens_one c' calls"
proof -
  obtain c1 m where r: "propose_fast v nm c = Inr (c1, [Broadcast (Accept m)])"
    "msg_ok (host_count (cap_view c)) (Accept m)" "hdr_slot (acc_header m) = Suc (max_slot c)"
    "proposers c1 = map_put (Suc (max_slot c)) (fast_info (cap_view c) v nm) (proposers c)"
    "cap_view c1 = cap_view c" "hdr_node (acc_header m) = ucast (me_of c)"
    using propose_fast_result [OF assms(1), of v nm] by metis
  have "ack_accepts (curr_proposer (fast_info (cap_view c) v nm)) = []"
    by (simp add: fast_info_def proposer_ops)
  moreover have "map_ok (proposers c)"
    using assms(1) by (simp add: core_ok_def proposers_ok_def)
  ultimately have "starts c1 (Accept m)"
    using r by (auto simp: starts_def from_myself_def)
  then show ?thesis
    using assms(2) r(1) by (auto intro: opening_broadcast)
qed

lemma commit_from_queue_opening:
  assumes "core_ok c" and "commit_from_queue c = Inr (c', calls)"
  shows "opens_one c' calls"
proof (cases "tocommit_values c")
  case Nil
  then show ?thesis
    using assms(2) by (simp add: commit_from_queue_def opening_plain)
next
  case (Cons v vs)
  then obtain n ns where ns: "tocommit_clients c = n # ns"
    using assms(2) by (cases "tocommit_clients c") (auto simp: commit_from_queue_def)
  have "core_ok (c\<lparr>tocommit_values := vs, tocommit_clients := ns\<rparr>)"
    using assms(1) by simp
  from propose_fast_opening [OF this] show ?thesis
    using assms(2) Cons ns by (simp add: commit_from_queue_def)
qed

lemma recommit_opening:
  assumes "core_ok c" and "recommit tries v nm c = (c', calls)"
  shows "opens_one c' calls"
proof -
  obtain info m where re: "recommit_info (cap_view c) tries v nm = (info, m)"
    by (cases "recommit_info (cap_view c) tries v nm")
  have c': "c' = c\<lparr>max_slot := Suc (max_slot c), proposers := map_put (Suc (max_slot c)) info (proposers c)\<rparr>"
    and calls: "calls = [Broadcast (Prepare (prepare_request (Suc (max_slot c)) m))]"
    using assms(2) re by (simp_all add: recommit_def Let_def)
  have "hdr_node (pre_header m) = ucast (me_of c)" "ack_prepares (curr_proposer info) = []"
    using re by (auto simp: recommit_info_def Proposer.msg_prepare_def Let_def curr_ballot_gen_next
        new_proposer_def)
  moreover have "map_ok (proposers c)"
    using assms(1) by (simp add: core_ok_def proposers_ok_def)
  ultimately have "starts c' (Prepare (prepare_request (Suc (max_slot c)) m))"
    using core_ok_me [OF assms(1)]
    by (simp add: starts_def c' from_myself_def msg_ok_def prepare_request_def)
  then show ?thesis
    unfolding calls by (rule opening_broadcast)
qed

lemma next_work_opening:
  assumes "core_ok c" and "next_work info chosen nm c = Inr (c', calls)"
  shows "opens_one c' calls"
  using assms commit_from_queue_opening [OF assms(1)] recommit_opening [OF assms(1)]
  by (auto simp: next_work_def split: if_splits)

text \<open>Adding a value makes only callbacks.\<close>

lemma finish_slot_opening:
  assumes "captain_ok c" and "map_find (proposers c) s = Some info"
    and "curr_value (curr_proposer info') = Some chosen" and "finish_slot s info' nm c = Inr (c', calls)"
  shows "opens_one c' calls"
proof (rule finish_slot_parts [OF assms(1-3), where name = nm and n = 0])
  fix c2 calls2 c3
  assume add: "add_chosen_value s chosen (c\<lparr>proposers := map_put s info' (proposers c)\<rparr>) = Inr (c2, calls2)"
    and core: "core_ok c3"
    and run: "finish_slot s info' nm c = res_bind (next_work info' chosen nm c3) (\<lambda>(c4, calls4).
       Inr (c4, tell_client s info' chosen c @ calls2 @ calls4))"
  have "log_ok (c\<lparr>proposers := map_put s info' (proposers c)\<rparr>)"
    using assms(1) by (simp add: captain_ok_def)
  then have "\<forall>call \<in> set (tell_client s info' chosen c @ calls2). plain n call" for n
    using add_chosen_value_callback [OF _ add] callback_plain by (fastforce simp: tell_client_def plain_def)
  moreover obtain calls4 where "next_work info' chosen nm c3 = Inr (c', calls4)"
    "calls = (tell_client s info' chosen c @ calls2) @ calls4"
    using assms(4) unfolding run by (auto simp: res_bind_Inr_iff)
  ultimately show ?thesis
    using opening_prepend next_work_opening [OF core] by blast
qed

lemma handle_accepted_opening:
  assumes "captain_ok c" and "handle_accepted ack nm c = Inr (c', calls)"
  shows "opens_one c' calls"
proof (cases "map_find (proposers c) (hdr_slot (acka_header ack))")
  case None
  then show ?thesis
    using assms(2) by (simp add: handle_accepted_def Let_def opening_plain)
next
  case (Some info)
  let ?s = "hdr_slot (acka_header ack)"
  have at: "0 < ?s" "info_ok (q_size (cap_view c)) info" and map: "map_ok (proposers c)"
    using proposers_ok_at [OF _ Some] assms(1) by (auto simp: captain_ok_def proposers_ok_def)
  note info = accepted_info_ok [OF at(2), where me = "me_of c" and s = ?s and ack = ack]
  show ?thesis
  proof (cases "accepted_info (me_of c) ?s ack info")
    case (Still info')
    then show ?thesis
      using assms(2) Some by (auto simp: handle_accepted_def Let_def opening_plain)
  next
    case (Chosen info')
    then obtain chosen where "curr_value (curr_proposer info') = Some chosen"
      using info by auto
    then show ?thesis
      using finish_slot_opening [OF assms(1) Some] Some Chosen assms(2)
      by (simp add: handle_accepted_def Let_def)
  next
    case (Restarted info' m)
    then have c': "c' = c\<lparr>proposers := map_put ?s info' (proposers c)\<rparr>" and calls: "calls = [Broadcast (Prepare m)]"
      using assms(2) Some by (auto simp: handle_accepted_def Let_def)
    have "starts c' (Prepare m)"
      using info Restarted at(1) map captain_ok_me [OF assms(1)]
      by (simp add: starts_def c' from_myself_def msg_ok_def)
    then show ?thesis
      unfolding calls by (rule opening_broadcast)
  qed
qed

lemma commit_value_opening:
  assumes "captain_ok c" and "commit_value v nm c = Inr (c', calls, nm')"
  shows "opens_one c' calls"
proof -
  have ok: "core_ok c" "queue_ok c"
    using assms(1) by (simp_all add: captain_ok_core)
  from queue_ok_cases [OF ok(2)] show ?thesis
  proof
    assume "length (proposers c) = window_size c"
    then show ?thesis
      using assms(2) by (auto simp: commit_value_full [OF ok(2)] opening_plain)
  next
    assume free: "length (proposers c) < window_size c"
    then show ?thesis
      using assms(2) propose_fast_opening [OF ok(1)]
      by (auto simp: commit_value_free [OF ok(2) free] res_bind_Inr_iff)
  qed
qed

lemma handle_commit_opening:
  assumes "captain_ok c" and "handle_commit m nm c = Inr (c', calls)"
  shows "opens_one c' calls"
proof (cases "if_master (cap_view c)")
  case False
  then show ?thesis
    using assms(2) by (simp add: handle_commit_def opening_plain)
next
  case True
  then obtain c1 calls1 nm1 where r: "commit_value (com_value m) (dumName c) c = Inr (c1, calls1, nm1)"
    "c' = c1\<lparr>dumName := nm1\<rparr>" "calls = [Reply_to (Commit m) (sender (com_header m)) nm] @ calls1"
    using assms(2) by (auto simp: handle_commit_def commit_value_dum_def res_bind_Inr_iff)
  have "opens_one c' calls1"
    using opening_same [OF commit_value_opening [OF assms(1) r(1)]] r(2) by simp
  then show ?thesis
    unfolding r(3) by (intro opening_prepend) (simp_all add: plain_def)
qed

section \<open>The other handlers\<close>

lemma learn_plain:
  assumes "log_ok c" and "add_learn_value s v n c = Inr (c', calls)"
  shows "\<forall>call \<in> set calls. plain k call"
  using add_chosen_value_callback [OF assms(1)] assms(2) callback_plain
  unfolding add_learn_value_def by blast

lemma handle_decide_plain:
  assumes "captain_ok c" and "handle_decide m nm c = Inr (c', calls)"
  shows "\<forall>call \<in> set calls. plain k call"
proof -
  have log: "log_ok c"
    using assms(1) by (simp add: captain_ok_def)
  show ?thesis
    using assms(2) learn_plain [OF log]
    by (auto simp: handle_decide_def Let_def already_chosen_result [OF log] res_bind_Inr_iff plain_def
        split: if_splits option.splits)
qed

lemma handle_learn_plain:
  assumes "handle_learn m c = Inr (c', calls)" and "msg_ok n (Learn m)"
  shows "\<forall>call \<in> set calls. plain n call"
  using assms
  by (auto simp: handle_learn_def Let_def res_bind_Inr_iff plain_def msg_ok_def sender_less
      split: if_splits option.splits)

lemma handle_teach_plain:
  assumes "captain_ok c" and "handle_teach m nm c = Inr (c', calls)"
  shows "\<forall>call \<in> set calls. plain k call"
proof -
  have log: "log_ok c"
    using assms(1) by (simp add: captain_ok_def)
  show ?thesis
    using assms(2) learn_plain [OF log]
    by (auto simp: handle_teach_def Let_def already_chosen_result [OF log] res_bind_Inr_iff plain_def
        split: if_splits)
qed

lemma handle_prepare_calls:
  assumes "handle_prepare m nm c = Inr (c', calls)"
  shows "(\<exists>ack. calls = [Send_self (Ack_prepare ack)] \<and> hdr_slot (ackp_header ack) = hdr_slot (pre_header m)
      \<and> hdr_node (ackp_header ack) = ucast (me_of c)) \<or> (\<forall>call \<in> set calls. plain k call)"
    and "from_myself (pre_header m) c \<Longrightarrow> \<exists>ack. calls = [Send_self (Ack_prepare ack)]
      \<and> hdr_slot (ackp_header ack) = hdr_slot (pre_header m) \<and> hdr_node (ackp_header ack) = ucast (me_of c)"
    and "proposers c' = proposers c"
proof -
  let ?as = "grow_acceptors (length (acceptors c)) (hdr_slot (pre_header m)) (acceptors c)"
  obtain a where a: "vec_at ?as (hdr_slot (pre_header m)) = Inr (Some a)"
    using assms by (auto simp: handle_prepare_def Let_def res_bind_Inr_iff deref_Inr_iff)
  obtain a' ack where h: "handle_msg_prepare (me_of c) m a = (a', ack)"
    by (cases "handle_msg_prepare (me_of c) m a")
  have "ackp_header ack = set_msg_header (me_of c) PROMISE (hdr_slot (pre_header m))"
    using handle_msg_prepare_header [of "me_of c" m a] h by simp
  then show "(\<exists>ack. calls = [Send_self (Ack_prepare ack)] \<and> hdr_slot (ackp_header ack) = hdr_slot (pre_header m)
      \<and> hdr_node (ackp_header ack) = ucast (me_of c)) \<or> (\<forall>call \<in> set calls. plain k call)"
    and "from_myself (pre_header m) c \<Longrightarrow> \<exists>ack. calls = [Send_self (Ack_prepare ack)]
      \<and> hdr_slot (ackp_header ack) = hdr_slot (pre_header m) \<and> hdr_node (ackp_header ack) = ucast (me_of c)"
    and "proposers c' = proposers c"
    using assms a h by (auto simp: handle_prepare_def Let_def plain_def split: if_splits)
qed

lemma learn_piggyback_plain:
  assumes "log_ok c" and "learn_piggyback s vid n c = Inr (Some (c', calls))"
  shows "\<forall>call \<in> set calls. plain k call"
  using assms(2) learn_plain [OF assms(1)]
  by (auto simp: learn_piggyback_def res_bind_Inr_iff plain_def split: if_splits option.splits)

lemma handle_accept_calls:
  assumes "log_ok c" and "handle_accept m nm c = Inr (c', calls)"
  shows "if from_myself (acc_header m) c
     then proposers c' = proposers c \<and> (\<exists>ack. calls = [Send_self (Ack_accept ack)]
       \<and> hdr_slot (acka_header ack) = hdr_slot (acc_header m) \<and> hdr_node (acka_header ack) = ucast (me_of c))
     else \<forall>call \<in> set calls. plain k call"
proof -
  let ?as = "grow_acceptors (length (acceptors c)) (hdr_slot (acc_header m)) (acceptors c)"
  obtain a where a: "vec_at ?as (hdr_slot (acc_header m)) = Inr (Some a)"
    using assms(2) by (auto simp: handle_accept_def Let_def res_bind_Inr_iff deref_Inr_iff)
  obtain a' ack where h: "handle_msg_accept (me_of c) m a = (a', ack)"
    by (cases "handle_msg_accept (me_of c) m a")
  have "acka_header ack = set_msg_header (me_of c) ACCEPTED (hdr_slot (acc_header m))"
    using handle_msg_accept_header [of "me_of c" m a] h by simp
  moreover have "log_ok (c\<lparr>acceptors := ?as[hdr_slot (acc_header m) := Some a']\<rparr>)"
    using assms(1) by simp
  note learn_piggyback_plain [OF this, of _ _ _ _ _ k]
  ultimately show ?thesis
    using assms(2) a h
    by (auto simp: handle_accept_def Let_def res_bind_Inr_iff plain_def split: if_splits option.splits)
qed

text \<open>The first reply of a phase, from the node itself, is never enough in a cluster of two or more.\<close>

lemma first_promise_quiet:
  assumes "captain_ok c" and "2 \<le> unat (q_size (cap_view c))"
    and "\<And>info. map_find (proposers c) (hdr_slot (ackp_header ack)) = Some info \<Longrightarrow>
      ack_prepares (curr_proposer info) = []"
  shows "snd (handle_promise ack c) = []"
proof (cases "map_find (proposers c) (hdr_slot (ackp_header ack))")
  case None
  then show ?thesis by (simp add: handle_promise_def Let_def)
next
  case (Some info)
  have "info_ok (q_size (cap_view c)) info"
    using proposers_ok_at [OF _ Some] assms(1) by (auto simp: captain_ok_def)
  then have "snd (handle_msg_promise ack (curr_proposer info)) \<in> {DROP, NOT_ENOUGH}"
    using assms(2,3) Some by (auto simp: handle_msg_promise_def Let_def info_ok_def)
  then show ?thesis
    using Some by (auto simp: handle_promise_def promise_info_def Let_def split: prod.split)
qed

lemma first_accepted_quiet:
  assumes "captain_ok c" and "2 \<le> unat (q_size (cap_view c))"
    and "\<And>info. map_find (proposers c) (hdr_slot (acka_header ack)) = Some info \<Longrightarrow>
      ack_accepts (curr_proposer info) = []"
  shows "\<exists>c'. handle_accepted ack nm c = Inr (c', [])"
proof (cases "map_find (proposers c) (hdr_slot (acka_header ack))")
  case None
  then show ?thesis by (simp add: handle_accepted_def Let_def)
next
  case (Some info)
  have "info_ok (q_size (cap_view c)) info"
    using proposers_ok_at [OF _ Some] assms(1) by (auto simp: captain_ok_def)
  then have "snd (handle_msg_accepted ack (curr_proposer info)) \<in> {DROP, NOT_ENOUGH}"
    using assms(2,3) Some by (auto simp: handle_msg_accepted_def Let_def info_ok_def)
  then have "\<exists>info'. accepted_info (me_of c) (hdr_slot (acka_header ack)) ack info = Still info'"
    by (auto simp: accepted_info_def Let_def split: prod.split)
  then show ?thesis
    using Some by (auto simp: handle_accepted_def Let_def)
qed

section \<open>Nested handling ends\<close>

definition node_after :: "node \<Rightarrow> node \<Rightarrow> bool" where
  "node_after nd nd' \<longleftrightarrow> node_ok nd' \<and> extends (nd_captain nd) (nd_captain nd')
     \<and> host_count (nd_view nd') = host_count (nd_view nd) \<and> me_of (nd_captain nd') = me_of (nd_captain nd)
     \<and> consumer_names nd' = consumer_names nd"

lemma node_after_refl: "node_ok nd \<Longrightarrow> node_after nd nd"
  by (simp add: node_after_def extends_refl)

lemma node_after_trans: "node_after a b \<Longrightarrow> node_after b c \<Longrightarrow> node_after a c"
  using extends_trans by (auto simp: node_after_def)

lemma node_after_ok: "node_after nd nd' \<Longrightarrow> node_ok nd'"
  by (simp add: node_after_def)

lemma node_after_captain:
  "node_ok nd \<Longrightarrow> keeps (nd_captain nd) (Inr (c', calls)) \<Longrightarrow> node_after nd (nd\<lparr>nd_captain := c'\<rparr>)"
  by (auto simp: node_after_def node_ok_def keeps_def)

text \<open>The calls run, and leave a node that is in order.\<close>

definition runs_ok :: "externals \<Rightarrow> node \<Rightarrow> name call list \<Rightarrow> bool" where
  "runs_ok E nd calls \<longleftrightarrow> (\<exists>nd'. runs_to E nd calls nd' \<and> node_after nd nd')"

lemma runs_ok_plain:
  "node_ok nd \<Longrightarrow> \<forall>call \<in> set calls. plain (host_count (nd_view nd)) call \<Longrightarrow> runs_ok E nd calls"
  unfolding runs_ok_def using plain_runs [of calls nd E] node_after_refl [of nd]
  by (auto simp: node_ok_def)

lemma runs_ok_self:
  assumes "node_ok nd" and "msg_ok (host_count (nd_view nd)) m"
    and "handle_msg m (dumName (nd_captain nd)) (nd_captain nd) = Inr (c', calls)"
    and "runs_ok E (nd\<lparr>nd_captain := c'\<rparr>) calls"
  shows "runs_ok E nd [Send_self m]"
proof -
  have "keeps (nd_captain nd) (Inr (c', calls))"
    using handle_msg_keeps_rel [of "nd_captain nd" m "dumName (nd_captain nd)"] assms(1-3)
    by (simp add: node_ok_def)
  then have after: "node_after nd (nd\<lparr>nd_captain := c'\<rparr>)"
    by (rule node_after_captain [OF assms(1)])
  have "call_step E (Send_self m) nd = Inr (nd\<lparr>nd_captain := c'\<rparr>, [], calls)"
    using assms(3) by (simp add: with_captain_def)
  then show ?thesis
    using assms(4) runs_to_step node_after_trans [OF after] unfolding runs_ok_def by blast
qed

lemma runs_ok_append:
  assumes "runs_ok E nd xs" and "\<And>nd'. node_after nd nd' \<Longrightarrow> runs_ok E nd' ys"
  shows "runs_ok E nd (xs @ ys)"
  using assms runs_to_append node_after_trans unfolding runs_ok_def by blast

lemma quorum_two:
  assumes "captain_ok c" and "nodes_size (cap_view c) \<noteq> 1"
  shows "2 \<le> unat (q_size (cap_view c))"
  using assms by (auto simp: captain_ok_def view_ok_def nodes_size_def quorum_of_size_def)

text \<open>A message that a node answers to itself with a reply that is not enough.\<close>

lemma own_prepare_quiet:
  fixes c c1 :: "name captain"
  assumes "captain_ok c1" and "2 \<le> unat (q_size (cap_view c1))" and "handle_prepare p nm c = Inr (c1, calls)"
    and "from_myself (pre_header p) c"
    and "\<And>info. map_find (proposers c) (hdr_slot (pre_header p)) = Some info \<Longrightarrow> ack_prepares (curr_proposer info) = []"
  shows "\<exists>ack c2. calls = [Send_self (Ack_prepare ack)] \<and> hdr_node (ackp_header ack) = ucast (me_of c)
    \<and> handle_msg (Ack_prepare ack) nm' c1 = Inr (c2, [])"
proof -
  obtain ack where ack: "calls = [Send_self (Ack_prepare ack)]"
    "hdr_slot (ackp_header ack) = hdr_slot (pre_header p)" "hdr_node (ackp_header ack) = ucast (me_of c)"
    using handle_prepare_calls(2) [OF assms(3,4)] by blast
  have "snd (handle_promise ack c1) = []"
    using assms(5) handle_prepare_calls(3) [OF assms(3)] ack(2) by (intro first_promise_quiet [OF assms(1,2)]) simp
  then have "\<exists>c2. handle_msg (Ack_prepare ack) nm' c1 = Inr (c2, [])"
    by (cases "handle_promise ack c1"; cases "work c1") (simp_all add: handle_msg_def)
  then show ?thesis
    using ack by blast
qed

lemma own_accept_quiet:
  fixes c c1 :: "name captain"
  assumes "captain_ok c1" and "2 \<le> unat (q_size (cap_view c1))" and "log_ok c" and "handle_accept a nm c = Inr (c1, calls)"
    and "from_myself (acc_header a) c"
    and "\<And>info. map_find (proposers c) (hdr_slot (acc_header a)) = Some info \<Longrightarrow> ack_accepts (curr_proposer info) = []"
  shows "\<exists>ack c2. calls = [Send_self (Ack_accept ack)] \<and> hdr_node (acka_header ack) = ucast (me_of c)
    \<and> handle_msg (Ack_accept ack) nm' c1 = Inr (c2, [])"
proof -
  from handle_accept_calls [OF assms(3,4)] assms(5) obtain ack where
    ack: "calls = [Send_self (Ack_accept ack)]" "hdr_slot (acka_header ack) = hdr_slot (acc_header a)"
    "hdr_node (acka_header ack) = ucast (me_of c)" "proposers c1 = proposers c"
    by auto
  have "\<exists>c2. handle_accepted ack nm' c1 = Inr (c2, [])"
    using assms(6) ack(2,4) by (intro first_accepted_quiet [OF assms(1,2)]) simp
  then have "\<exists>c2. handle_msg (Ack_accept ack) nm' c1 = Inr (c2, [])"
    by (cases "work c1") (auto simp: handle_msg_def)
  then show ?thesis
    using ack by blast
qed

lemma starts_quiet:
  fixes c c1 :: "name captain"
  assumes "captain_ok c1" and "2 \<le> unat (q_size (cap_view c1))" and "log_ok c"
    and "starts c m" and "handle_msg m nm c = Inr (c1, calls)" and "work c"
  shows "\<exists>ack c2. calls = [Send_self ack] \<and> (msg_ok n ack \<longleftrightarrow> unat (ucast (me_of c) :: 32 word) < n)
    \<and> handle_msg ack nm' c1 = Inr (c2, [])"
proof (cases "\<exists>p. m = Prepare p")
  case True
  then obtain p where "handle_prepare p nm c = Inr (c1, calls)" "from_myself (pre_header p) c"
    "\<And>info. map_find (proposers c) (hdr_slot (pre_header p)) = Some info \<Longrightarrow> ack_prepares (curr_proposer info) = []"
    using assms(4,5,6) by (auto simp: starts_def handle_msg_def)
  from own_prepare_quiet [OF assms(1,2) this, of nm'] show ?thesis
    by (auto simp: msg_ok_def)
next
  case False
  then obtain a where "handle_accept a nm c = Inr (c1, calls)" "from_myself (acc_header a) c"
    "\<And>info. map_find (proposers c) (hdr_slot (acc_header a)) = Some info \<Longrightarrow> ack_accepts (curr_proposer info) = []"
    using assms(4,5,6) by (cases m) (auto simp: starts_def handle_msg_def)
  from own_accept_quiet [OF assms(1-3) this, of nm'] show ?thesis
    by (auto simp: msg_ok_def)
qed

lemma runs_ok_quiet:
  assumes "node_ok nd" and "msg_ok (host_count (nd_view nd)) m"
    and "handle_msg m (dumName (nd_captain nd)) (nd_captain nd) = Inr (c', [])"
  shows "runs_ok E nd [Send_self m]"
proof -
  have "keeps (nd_captain nd) (Inr (c', []))"
    using handle_msg_keeps_rel [of "nd_captain nd" m "dumName (nd_captain nd)"] assms by (simp add: node_ok_def)
  then have "node_ok (nd\<lparr>nd_captain := c'\<rparr>)"
    using node_after_captain [OF assms(1)] node_after_ok by blast
  then show ?thesis
    by (intro runs_ok_self [OF assms] runs_ok_plain) simp_all
qed

text \<open>The node handles the message that opens a phase.\<close>

lemma runs_ok_starts:
  assumes "node_ok nd" and "nodes_size (nd_view nd) \<noteq> 1" and "starts (nd_captain nd) m"
  shows "runs_ok E nd [Send_self m]"
proof -
  let ?c = "nd_captain nd"
  have ok: "captain_ok ?c" "msg_ok (host_count (nd_view nd)) m"
    using assms(1,3) by (simp_all add: node_ok_def starts_def)
  have keeps: "keeps ?c (handle_msg m (dumName ?c) ?c)"
    by (rule handle_msg_keeps_rel [OF ok])
  then obtain c1 calls where run: "handle_msg m (dumName ?c) ?c = Inr (c1, calls)"
    by (auto simp: keeps_def)
  let ?nd1 = "nd\<lparr>nd_captain := c1\<rparr>"
  have after: "node_after nd ?nd1"
    using node_after_captain [OF assms(1)] keeps run by simp
  have c1: "captain_ok c1" "me_of c1 = me_of ?c" "host_count (cap_view c1) = host_count (cap_view ?c)" and nd1: "node_ok ?nd1"
    using after by (simp_all add: node_after_def node_ok_def)
  have "runs_ok E ?nd1 calls"
  proof (cases "work ?c")
    case False
    then show ?thesis
      using run nd1 by (auto simp: handle_msg_def intro!: runs_ok_plain split: msg.splits)
  next
    case True
    have q: "2 \<le> unat (q_size (cap_view c1))" and log: "log_ok ?c"
      using quorum_two [OF c1(1)] assms(2) c1(3) ok(1) by (simp_all add: nodes_size_def captain_ok_def)
    obtain ack c2 where "calls = [Send_self ack]" "msg_ok (host_count (nd_view ?nd1)) ack"
      "handle_msg ack (dumName c1) c1 = Inr (c2, [])"
      using starts_quiet [OF c1(1) q log assms(3) run True, of "host_count (cap_view c1)" "dumName c1"]
        captain_ok_me [OF c1(1)] unfolding c1(2) by auto
    then show ?thesis
      using runs_ok_quiet [OF nd1] by simp
  qed
  then show ?thesis
    by (rule runs_ok_self [OF assms(1) ok(2) run])
qed

text \<open>A broadcast: the node's own turn comes at most once.\<close>

lemma plain_Send_to: "plain n (Send_to m i) \<longleftrightarrow> unat i < n"
  by (simp add: plain_def)

lemma broadcast_list_runs:
  assumes "node_ok nd" and "nodes_size (nd_view nd) \<noteq> 1" and "starts (nd_captain nd) m"
    and "distinct qs" and "\<forall>i \<in> set qs. unat i < host_count (nd_view nd)"
    and "me = me_of (nd_captain nd)"
  shows "runs_ok E nd (map (\<lambda>i. if i = me then Send_self m else Send_to m i) qs)"
  using assms(4,5)
proof (induction qs)
  case Nil
  then show ?case using assms(1) by (simp add: runs_ok_plain)
next
  case (Cons i qs)
  let ?f = "\<lambda>i. if i = me then Send_self m else Send_to m i"
  show ?case
  proof (cases "i = me")
    case False
    then have "plain (length (consumer_names nd)) (?f i)"
      using Cons.prems assms(1) by (simp add: plain_Send_to node_ok_def)
    then have "runs_to E nd [?f i] nd"
      by (intro plain_runs) simp
    moreover obtain nd' where "runs_to E nd (map ?f qs) nd'" "node_after nd nd'"
      using Cons unfolding runs_ok_def by auto
    ultimately have "runs_to E nd (?f i # map ?f qs) nd'"
      using runs_to_Cons by blast
    then show ?thesis
      unfolding runs_ok_def using \<open>node_after nd nd'\<close> by auto
  next
    case True
    then have "me \<notin> set qs"
      using Cons.prems by auto
    then have eq: "map ?f qs = map (Send_to m) qs"
      by auto
    have others: "runs_ok E nd' (map (Send_to m) qs)" if "node_after nd nd'" for nd'
      using that Cons.prems(2) by (intro runs_ok_plain) (auto simp: node_after_def plain_Send_to)
    have "runs_ok E nd ([Send_self m] @ map (Send_to m) qs)"
      by (rule runs_ok_append [OF runs_ok_starts [OF assms(1-3)]]) (rule others)
    then show ?thesis
      using True by (simp only: eq list.map if_True append_Cons append_Nil refl)
  qed
qed

lemma broadcast_runs:
  assumes "node_ok nd" and "starts (nd_captain nd) m"
  shows "runs_ok E nd [Broadcast m]"
proof (cases "nodes_size (nd_view nd) = 1")
  case True
  then have "call_step E (Broadcast m) nd = Inr (nd, [Schedule_self m], [])"
    by simp
  then show ?thesis
    unfolding runs_ok_def using runs_to_step runs_to_Nil node_after_refl [OF assms(1)] by blast
next
  case False
  have view: "view_ok (nd_view nd)"
    using assms(1) by (simp add: node_ok_def captain_ok_def)
  have "runs_ok E nd (broadcast_calls m (nd_view nd))"
    unfolding broadcast_calls_def
    using view by (intro broadcast_list_runs [OF assms(1) False assms(2)])
      (auto simp: view_ok_def set_ok_def)
  moreover have "call_step E (Broadcast m) nd = Inr (nd, [], broadcast_calls m (nd_view nd))"
    using False by simp
  ultimately show ?thesis
    unfolding runs_ok_def using runs_to_step by blast
qed

lemma opens_one_runs:
  assumes "node_ok nd" and "opens_one (nd_captain nd) calls"
  shows "runs_ok E nd calls"
proof -
  from assms(2) obtain ps tl where split: "calls = ps @ tl"
    "\<forall>call \<in> set ps. plain (host_count (nd_view nd)) call"
    "tl = [] \<or> (\<exists>m. tl = [Broadcast m] \<and> starts (nd_captain nd) m)"
    unfolding opens_one_def by blast
  have ps: "runs_to E nd ps nd"
    using split(2) assms(1) by (intro plain_runs) (simp add: node_ok_def)
  have "runs_ok E nd tl"
    using split(3) broadcast_runs [OF assms(1)] runs_ok_plain [OF assms(1), of "[]"] by auto
  then show ?thesis
    unfolding runs_ok_def split(1) using runs_to_append [OF ps] by blast
qed

lemma handle_command_plain: "\<forall>call \<in> set []. plain n call"
  by simp

text \<open>The calls of every handler run; replies to oneself come before the phase they open.\<close>

lemma reply_handlers_open:
  assumes "captain_ok c" and "handle_msg m nm c = Inr (c', calls)"
    and "(\<exists>a. m = Ack_prepare a) \<or> (\<exists>a. m = Ack_accept a)"
  shows "opens_one c' calls"
proof (cases "work c")
  case False
  then show ?thesis
    using assms(2) by (simp add: handle_msg_def opening_plain)
next
  case True
  then show ?thesis
    using assms handle_promise_opening [OF assms(1)] handle_accepted_opening [OF assms(1)]
    by (auto simp: handle_msg_def)
qed

lemma self_reply_runs:
  assumes "node_ok nd" and "msg_ok (host_count (nd_view nd)) m"
    and "(\<exists>a. m = Ack_prepare a) \<or> (\<exists>a. m = Ack_accept a)"
  shows "runs_ok E nd [Send_self m]"
proof -
  let ?c = "nd_captain nd"
  have ok: "captain_ok ?c"
    using assms(1) by (simp add: node_ok_def)
  have keeps: "keeps ?c (handle_msg m (dumName ?c) ?c)"
    by (rule handle_msg_keeps_rel [OF ok assms(2)])
  then obtain c' calls where run: "handle_msg m (dumName ?c) ?c = Inr (c', calls)"
    by (auto simp: keeps_def)
  have "node_ok (nd\<lparr>nd_captain := c'\<rparr>)"
    using node_after_captain [OF assms(1)] keeps run by (auto intro: node_after_ok)
  moreover have "opens_one c' calls"
    by (rule reply_handlers_open [OF ok run assms(3)])
  ultimately have "runs_ok E (nd\<lparr>nd_captain := c'\<rparr>) calls"
    by (intro opens_one_runs) simp_all
  then show ?thesis
    by (rule runs_ok_self [OF assms(1,2) run])
qed

text \<open>What the calls of a handler are: plain ones, one reply to oneself, or plain ones and a phase they open.\<close>

lemma handler_call_kinds:
  fixes c :: "name captain"
  assumes "captain_ok c" and "msg_ok n m" and "handle_msg m nm c = Inr (c', calls)"
  obtains (plain) "\<forall>call \<in> set calls. plain n call"
  | (reply) a b where "calls = [Send_self (Ack_prepare a)] \<or> calls = [Send_self (Ack_accept b)]"
  | (open_one) "opens_one c' calls"
proof (cases "work c")
  case False
  then show thesis
    using assms(3) plain by (simp add: handle_msg_def)
next
  case work: True
  note run = assms(3) [unfolded handle_msg_def]
  have log: "log_ok c"
    using assms(1) by (simp add: captain_ok_def)
  show thesis
  proof (cases m)
    case (Prepare p)
    then have "handle_prepare p nm c = Inr (c', calls)"
      using run work by simp
    from handle_prepare_calls(1) [OF this, of n] show thesis
      using plain reply by blast
  next
    case (Accept a)
    then have "handle_accept a nm c = Inr (c', calls)"
      using run work by simp
    from handle_accept_calls [OF log this, of n] show thesis
      using plain reply by (auto split: if_splits)
  next
    case (Ack_prepare a)
    then show thesis using open_one reply_handlers_open [OF assms(1,3)] by blast
  next
    case (Ack_accept a)
    then show thesis using open_one reply_handlers_open [OF assms(1,3)] by blast
  next
    case (Decide d)
    then show thesis using run work handle_decide_plain [OF assms(1)] by (intro plain) simp
  next
    case (Learn l)
    then show thesis using run work handle_learn_plain assms(2) by (intro plain) simp
  next
    case (Teach t)
    then show thesis using run work handle_teach_plain [OF assms(1)] by (intro plain) simp
  next
    case (Commit k)
    then show thesis using run work handle_commit_opening [OF assms(1)] by (intro open_one) simp
  next
    case (Command k)
    then show thesis using run work by (intro plain) auto
  qed
qed

lemma handler_calls_run:
  assumes "node_ok nd" and "msg_ok (host_count (nd_view nd)) m"
    and "handle_msg m nm (nd_captain nd) = Inr (c', calls)"
  shows "runs_ok E (nd\<lparr>nd_captain := c'\<rparr>) calls"
proof -
  let ?c = "nd_captain nd" and ?nd1 = "nd\<lparr>nd_captain := c'\<rparr>" and ?n = "host_count (nd_view nd)"
  have ok: "captain_ok ?c"
    using assms(1) by (simp add: node_ok_def)
  have keeps: "keeps ?c (Inr (c', calls))"
    using handle_msg_keeps_rel [OF ok assms(2), of nm] assms(3) by simp
  then have ok1: "node_ok ?nd1" "host_count (nd_view ?nd1) = ?n" "\<forall>call \<in> set calls. call_ok ?n call"
    using node_after_captain [OF assms(1) keeps] by (simp_all add: node_after_def keeps_def)
  from ok assms(2,3) show ?thesis
  proof (cases rule: handler_call_kinds)
    case plain
    then show ?thesis using ok1(2) by (intro runs_ok_plain [OF ok1(1)]) simp
  next
    case (reply a b)
    then show ?thesis using self_reply_runs [OF ok1(1)] ok1(2,3) by auto
  next
    case open_one
    then show ?thesis by (intro opens_one_runs [OF ok1(1)]) simp
  qed
qed

lemma handle_msg_runs:
  assumes "node_ok nd" and "msg_ok (host_count (nd_view nd)) m"
  shows "\<exists>nd' effs. run_captain E nd (handle_msg m nm (nd_captain nd)) = Some (Inr (nd', effs)) \<and> node_after nd nd'"
proof -
  have ok: "captain_ok (nd_captain nd)"
    using assms(1) by (simp add: node_ok_def)
  have keeps: "keeps (nd_captain nd) (handle_msg m nm (nd_captain nd))"
    by (rule handle_msg_keeps_rel [OF ok assms(2)])
  then obtain c' calls where run: "handle_msg m nm (nd_captain nd) = Inr (c', calls)"
    by (auto simp: keeps_def)
  have after: "node_after nd (nd\<lparr>nd_captain := c'\<rparr>)"
    using node_after_captain [OF assms(1)] keeps run by simp
  obtain nd' where nd': "runs_to E (nd\<lparr>nd_captain := c'\<rparr>) calls nd'" "node_after (nd\<lparr>nd_captain := c'\<rparr>) nd'"
    using handler_calls_run [OF assms run, of E] unfolding runs_ok_def by blast
  then show ?thesis
    using runs_to_exec [OF nd'(1), of "[]"] node_after_trans [OF after nd'(2)] by (auto simp: run_captain_def run)
qed

section \<open>Every packet is handled to the end\<close>

text \<open>
  C14. Handling one message ends, however the captain and the communication module call each
  other on the way, and without a fault: all broadcasts, the node's own replies to itself,
  and what those start in turn are carried out. The node keeps its invariant and the log its
  values.
\<close>

theorem message_handled_to_the_end:
  assumes "node_ok nd" and "msg_ok (host_count (nd_view nd)) m"
  shows "\<exists>nd' effs. run_captain E nd (handle_msg m nm (nd_captain nd)) = Some (Inr (nd', effs))
    \<and> node_ok nd' \<and> host_count (nd_view nd') = host_count (nd_view nd)
    \<and> (\<forall>s v. chosen_at (nd_captain nd) s = Some v \<longrightarrow> chosen_at (nd_captain nd') s = Some v)"
  using handle_msg_runs [OF assms, of E nm] unfolding node_after_def extends_def by blast

lemma node_ok_fresh: "unat me < 3 \<Longrightarrow> node_ok (fresh_node me)"
  by (simp add: node_ok_def fresh_node_def captain_ok_new view_ok_view_3)
     (simp add: new_captain_def view_3_def)

theorem message_handled_to_the_end_witness:
  "\<exists>nd' effs. run_captain (one_message_wire learn_1) (fresh_node 0) (handle_msg (Commit (Captain.msg_commit 1 value_1)) []
      (nd_captain (fresh_node 0))) = Some (Inr (nd', effs)) \<and> node_ok nd'"
proof -
  have "node_ok (fresh_node 0)"
    by (simp add: node_ok_fresh)
  moreover have "host_count (nd_view (fresh_node 0)) = 3"
    by (simp add: fresh_node_def new_captain_def view_3_def)
  then have "msg_ok (host_count (nd_view (fresh_node 0))) (Commit (Captain.msg_commit 1 value_1))"
    by (simp add: msg_ok_def Captain.msg_commit_def)
  ultimately show ?thesis
    using message_handled_to_the_end by blast
qed

end
