(* ===== verification/Commo_Props.thy ===== *)
theory Commo_Props
  imports Commo_Runs
begin

text \<open>
  What the communication module does with packets from outside the quorum: client requests,
  the log that servants outside the quorum follow, and negative acknowledgements.
\<close>

section \<open>Following the log\<close>

definition number_codec_ok :: "externals \<Rightarrow> bool" where
  "number_codec_ok E \<longleftrightarrow> (\<forall>n < 2 ^ 64. dec_number E (enc_number E n) = Some n)"

text \<open>The value as it travels on the log: without its command and its integrity flag.\<close>

definition log_copy :: "prop_value \<Rightarrow> prop_value" where
  "log_copy v = v\<lparr>pv_cmd := None, pv_integrity := None\<rparr>"

lemma name_get_append:
  "name_get (nm @ [x]) 1 = Inr x" "name_get (nm @ [x, y]) 1 = Inr y" "name_get (nm @ [x, y]) 2 = Inr x"
  by (simp_all add: name_get_def nth_append numeral_2_eq_2)

lemma callbacks_run:
  assumes "\<forall>call \<in> set calls. is_callback call"
  shows "exec E calls nd effs = Some (Inr (nd, effs @ map Callback calls))"
  using assms
proof (induction calls arbitrary: effs)
  case Nil
  then show ?case by (simp add: exec.simps)
next
  case (Cons call calls)
  have "call_step E call nd = Inr (nd, [Callback call], [])"
    using Cons.prems by (cases call) (simp_all add: is_callback_def)
  then show ?case
    using Cons by (subst exec.simps) simp
qed

text \<open>
  C30. The log service: asked for a chosen slot, a node answers with a data packet under the
  requested name extended by the value's id; a node that follows the log and gets this packet
  then has that value in that slot (unless it had one) and asks for exactly one further slot,
  the next one it has not asked for. The command of a SET_MASTER value does not travel, so the
  node that learns it this way never changes its master.
\<close>

theorem log_transfer:
  assumes "number_codec_ok E" and "s < 2 ^ 64" and "log_ok (nd_captain server)"
    and "chosen_at (nd_captain server) s = Some v" and "node_ok nd" and "\<not> if_quorum (nd_view nd)"
    and "chosen_at (nd_captain nd) s = None"
  shows "\<exists>nm nd' effs. onInterestLog E (log_name server @ [enc_number E s]) server
        = Inr [Data_packet nm (pv_data v) 10000]
    \<and> nm = log_name server @ [enc_number E s, enc_number E (unat (pv_id v))]
    \<and> onDataLog E nm (pv_data v) nd = Some (Inr (nd', effs
        @ [Log_interest (log_name nd @ [enc_number E (Suc (log_counter nd))]) 20000]))
    \<and> chosen_at (nd_captain nd') = (chosen_at (nd_captain nd))(s := Some (log_copy v))
    \<and> log_counter nd' = Suc (log_counter nd) \<and> captain_ok (nd_captain nd')"
proof -
  let ?nm = "log_name server @ [enc_number E s, enc_number E (unat (pv_id v))]"
  let ?c = "nd_captain nd"
  have "s \<le> max_chosen (nd_captain server)"
    using assms(3,4) by (auto simp: chosen_at_def log_ok_def split: if_splits)
  then have "get_chosen_value_at s (nd_captain server) = Inr (Some v)"
    using assms(3,4) by (auto simp: get_chosen_value_at_def chosen_at_def log_ok_def vec_at_def split: if_splits)
  then have ask: "onInterestLog E (log_name server @ [enc_number E s]) server = Inr [Data_packet ?nm (pv_data v) 10000]"
    using assms(1,2) by (simp add: onInterestLog_def get_number_def name_get_append [simplified]
        number_codec_ok_def produce_def)
  have id: "unat (pv_id v) < 2 ^ 64"
    using unsigned_less [of "pv_id v"] by simp
  have "get_number E ?nm 2 = Inr s" and "get_number E ?nm 1 = Inr (unat (pv_id v))"
    using assms(1,2) id
    by (simp_all only: get_number_def name_get_append number_codec_ok_def res_bind_simps option.case)
  then have nums: "res_bind (get_number E ?nm 2) (\<lambda>s. res_bind (get_number E ?nm 1) (\<lambda>i. Inr (s, i)))
      = Inr (s, unat (pv_id v))"
    by simp
  have copy: "\<lparr>pv_id = of_nat (unat (pv_id v)), pv_data = pv_data v, pv_cmd = None, pv_integrity = None\<rparr> = log_copy v"
    by (cases v) (simp add: log_copy_def)
  have ok: "captain_ok ?c"
    using assms(5) by (simp add: node_ok_def)
  then have core: "core_ok ?c" and log: "log_ok ?c"
    by (simp_all add: captain_ok_core core_ok_def)
  obtain c' calls where r: "add_chosen_value s (log_copy v) ?c = Inr (c', calls)" "core_ok c'" "extends ?c c'"
    "\<forall>call \<in> set calls. call_ok 0 call" "same_rest ?c c'"
    "chosen_at c' = (if chosen_at ?c s = None then (chosen_at ?c)(s := Some (log_copy v)) else chosen_at ?c)"
    by (rule add_chosen_value_core [OF core])
  have "captain_ok c'"
    using add_chosen_value_keeps [OF ok, of s "log_copy v"] r(1) by (simp add: keeps_def)
  moreover have quorum: "if_quorum (cap_view c') = if_quorum (nd_view nd)"
    using add_chosen_value_quorum [OF log r(1)] .
  moreover have cb: "\<forall>call \<in> set calls. is_callback call"
    using add_chosen_value_callback [OF log r(1)] by blast
  moreover have "onDataLog E ?nm (pv_data v) nd = Some (Inr (nd\<lparr>nd_captain := c', log_counter := Suc (log_counter nd)\<rparr>,
      map Callback calls @ [Log_interest (log_name nd @ [enc_number E (Suc (log_counter nd))]) 20000]))"
    unfolding onDataLog_def nums using r(1) callbacks_run [OF cb, of E "nd\<lparr>nd_captain := c'\<rparr>" "[]"] quorum assms(6)
    by (simp add: run_captain_def copy [simplified] consume_log_next_def)
  ultimately show ?thesis
    using ask r(6) assms(7) by (intro exI [of _ ?nm]) auto
qed

definition number_wire :: externals where
  "number_wire = one_message_wire learn_1"

theorem log_transfer_witness:
  "\<exists>nd' effs. onDataLog number_wire [''p'', ''log'', decimal 1, decimal 65536] ''x'' (fresh_node 2)
     = Some (Inr (nd', effs)) \<and> chosen_at (nd_captain nd') 1 = Some value_1"
proof -
  let ?server = "(fresh_node 0)\<lparr>nd_captain := (nd_captain (fresh_node 0))\<lparr>chosen_values := [None, Some value_1],
     max_chosen := 1, max_chosen_without_hole := 1\<rparr>\<rparr>"
  have "number_codec_ok number_wire"
    by (simp add: number_codec_ok_def number_wire_def one_message_wire_def undecimal_decimal)
  moreover have "log_ok (nd_captain ?server)" "chosen_at (nd_captain ?server) 1 = Some value_1"
    by (auto simp: log_ok_def chosen_at_def fresh_node_def new_captain_def nth_Cons')
  moreover have "node_ok (fresh_node 2)"
    by (simp add: node_ok_fresh)
  moreover have "\<not> if_quorum (nd_view (fresh_node 2))" "chosen_at (nd_captain (fresh_node 2)) 1 = None"
    by (simp_all add: fresh_node_def new_captain_def view_3_def if_quorum_def set_find_def chosen_at_def)
  ultimately show ?thesis
    using log_transfer [of number_wire 1 ?server value_1 "fresh_node 2"]
    by (auto simp: number_wire_def one_message_wire_def fresh_node_def value_1_def log_copy_def)
qed

text \<open>
  Following the log with a window of \<open>k\<close> asks for the next \<open>k\<close> slots, in order and each
  once; a quorum member asks for nothing.
\<close>

theorem consume_log_window:
  "consume_log E k nd =
     (if if_quorum (nd_view nd) then (nd, [])
      else (nd\<lparr>log_counter := log_counter nd + k\<rparr>,
        map (\<lambda>i. Log_interest (log_name nd @ [enc_number E i]) 20000) [Suc (log_counter nd)..<Suc (log_counter nd + k)]))"
proof (induction k arbitrary: nd)
  case 0
  then show ?case by simp
next
  case (Suc k)
  have "[Suc (log_counter nd)..<Suc (log_counter nd + Suc k)]
      = Suc (log_counter nd) # [Suc (Suc (log_counter nd))..<Suc (Suc (log_counter nd) + k)]"
    by (simp add: upt_conv_Cons)
  then show ?case
    by (simp add: Suc.IH consume_log_next_def Let_def)
qed

section \<open>Client requests\<close>

lemma get_number_at:
  assumes "number_codec_ok E" and "n < 2 ^ 64" and "0 < k" and "k \<le> length nm"
    and "nm ! (length nm - k) = enc_number E n"
  shows "get_number E nm k = Inr n"
  using assms by (simp add: get_number_def name_get_def number_codec_ok_def)

lemma commit_runs:
  assumes "node_ok nd" and "if_master (nd_view nd)"
  shows "\<exists>c1 calls nd' effs. commit mode data nm (nd_captain nd) = Inr (c1, calls)
    \<and> run_captain E nd (Inr (c1, calls)) = Some (Inr (nd', effs)) \<and> captain_ok (nd_captain nd')"
proof -
  let ?c = "nd_captain nd"
  have ok: "captain_ok ?c"
    using assms(1) by (simp add: node_ok_def)
  have ok': "captain_ok (next_value_id ?c)"
    using ok by simp
  obtain c1 calls where r: "commit_value (new_value ?c data) nm (next_value_id ?c) = Inr (c1, calls, nm)"
    "captain_ok c1" "cap_view c1 = nd_view nd" "extends (next_value_id ?c) c1"
    using commit_value_keeps [OF ok', of "new_value ?c data" nm] by auto
  then have com: "commit mode data nm ?c = Inr (c1, calls)"
    by (simp add: commit_master_eq [OF assms(2)])
  have nd1: "node_ok (nd\<lparr>nd_captain := c1\<rparr>)"
    using assms(1) r by (simp add: node_ok_def)
  obtain nd' where nd': "runs_to E (nd\<lparr>nd_captain := c1\<rparr>) calls nd'" "node_after (nd\<lparr>nd_captain := c1\<rparr>) nd'"
    using opens_one_runs [OF nd1, of calls] commit_value_opening [OF ok' r(1)] unfolding runs_ok_def by auto
  obtain effs where "exec E calls (nd\<lparr>nd_captain := c1\<rparr>) [] = Some (Inr (nd', effs))"
    using runs_to_exec [OF nd'(1)] by blast
  then show ?thesis
    using com nd'(2) by (auto simp: run_captain_def node_after_def node_ok_def)
qed

text \<open>
  C29. A client's write request \<open><prefix>/commit/0/client/counter/value\<close> at the master starts a
  commit of the value under the request's own name, and is handled to the end; a read request
  (type 1) is answered at once with a fixed text and touches nothing.
\<close>

theorem client_request:
  assumes "number_codec_ok E" and "node_ok nd" and "if_master (nd_view nd)"
    and "client < 2 ^ 64" and "counter < 2 ^ 64"
  shows "\<exists>nd' effs c1 calls.
      onInterestCommit E mode (commit_name nd @ [enc_number E 0, enc_number E client, enc_number E counter, val]) nd
        = Some (Inr (nd', effs))
    \<and> commit mode (comp_uri E val) (commit_name nd @ [enc_number E 0, enc_number E client, enc_number E counter, val])
        (nd_captain nd) = Inr (c1, calls)
    \<and> run_captain E nd (Inr (c1, calls)) = Some (Inr (nd', effs))
    \<and> captain_ok (nd_captain nd')
    \<and> onInterestCommit E mode (commit_name nd @ [enc_number E 1, enc_number E client, enc_number E counter, val]) nd
        = Some (Inr (nd, [Data_packet (commit_name nd @ [enc_number E 1, enc_number E client, enc_number E counter, val])
            ''Need to change here'' 0]))"
proof -
  let ?nm = "\<lambda>t. commit_name nd @ [enc_number E t, enc_number E client, enc_number E counter, val]"
  let ?l = "length (commit_name nd)"
  have parts: "name_get (?nm t) 1 = Inr val" for t
    by (simp add: name_get_def nth_append)
  have two: "get_number E (?nm t) 2 = Inr counter" and three: "get_number E (?nm t) 3 = Inr client"
    and four: "t < 2 ^ 64 \<Longrightarrow> get_number E (?nm t) 4 = Inr t" for t
    using assms(1,4,5) by (simp_all add: get_number_def name_get_def number_codec_ok_def nth_append nth_Cons')
  have args: "t < 2 ^ 64 \<Longrightarrow> res_bind (name_get (?nm t) 1) (\<lambda>s. res_bind (get_number E (?nm t) 2) (\<lambda>_.
      res_bind (get_number E (?nm t) 3) (\<lambda>_. res_bind (get_number E (?nm t) 4) (\<lambda>t. Inr (s, t))))) = Inr (val, t)" for t
    by (simp only: parts two three four res_bind_simps)
  have args0: "res_bind (name_get (?nm 0) 1) (\<lambda>s. res_bind (get_number E (?nm 0) 2) (\<lambda>_.
      res_bind (get_number E (?nm 0) 3) (\<lambda>_. res_bind (get_number E (?nm 0) 4) (\<lambda>t. Inr (s, t))))) = Inr (val, 0)"
    and args1: "res_bind (name_get (?nm 1) 1) (\<lambda>s. res_bind (get_number E (?nm 1) 2) (\<lambda>_.
      res_bind (get_number E (?nm 1) 3) (\<lambda>_. res_bind (get_number E (?nm 1) 4) (\<lambda>t. Inr (s, t))))) = Inr (val, 1)"
    by (rule args, simp)+
  obtain c1 calls nd' effs where com: "commit mode (comp_uri E val) (?nm 0) (nd_captain nd) = Inr (c1, calls)"
    and run: "run_captain E nd (Inr (c1, calls)) = Some (Inr (nd', effs))" and ok: "captain_ok (nd_captain nd')"
    using commit_runs [OF assms(2,3), of mode "comp_uri E val" "?nm 0" E] by blast
  have "onInterestCommit E mode (?nm 0) nd = Some (Inr (nd', effs))"
    unfolding onInterestCommit_def args0 using run com by simp
  moreover have "onInterestCommit E mode (?nm 1) nd = Some (Inr (nd, [Data_packet (?nm 1) ''Need to change here'' 0]))"
    unfolding onInterestCommit_def args1 by (simp add: produce_def)
  ultimately show ?thesis
    using com run ok by blast
qed

theorem client_request_witness:
  "\<exists>nd' effs. onInterestCommit number_wire Mode_default [''p'', ''commit'', decimal 0, decimal 5, decimal 0, ''x''] (fresh_node 0)
     = Some (Inr (nd', effs)) \<and> captain_ok (nd_captain nd')"
proof -
  have "number_codec_ok number_wire"
    by (simp add: number_codec_ok_def number_wire_def one_message_wire_def undecimal_decimal)
  moreover have "node_ok (fresh_node 0)"
    by (simp add: node_ok_fresh)
  moreover have "if_master (nd_view (fresh_node 0))"
    by (simp add: fresh_node_def new_captain_def if_master_def) (simp add: view_3_def)
  ultimately show ?thesis
    using client_request [of number_wire "fresh_node 0" 5 0 Mode_default "''x''"]
    by (auto simp: number_wire_def one_message_wire_def fresh_node_def)
qed

section \<open>Negative acknowledgements\<close>

lemma last_digit_result: "s \<noteq> [] \<Longrightarrow> last s = char_of (48 + d) \<Longrightarrow> d < (10 :: nat) \<Longrightarrow> last_digit s = Inr d"
  by (simp add: last_digit_def of_char_of digit_value_def)

text \<open>
  In recovery mode a negative acknowledgement from quorum member 0 or 1 replaces it by the
  first spare node: the spare is told to join, the message is sent to it again, and the quorum
  stays a majority of the same size.
\<close>

theorem nack_replaces_member:
  assumes "node_ok nd" and "\<not> quorum_locked nd" and "n_quorums (nd_view nd) = nq # spares"
    and "old < (2 :: nat)" and "set_find (of_nat old) (quorums (nd_view nd))"
    and "comp_uri E host = base @ [char_of (48 + old)]"
  shows "\<exists>nd'. onNack E Mode_recover (pre @ [host, body]) nd = Inr (nd',
      [Interest (consumer_names nd ! unat nq @ [encode_msg E (Command (Captain.msg_command (me_of (nd_captain nd)) SET_QUORUM))]) 200,
       Interest (consumer_names nd ! unat nq @ [body]) 200])
    \<and> node_ok nd' \<and> set (quorums (nd_view nd')) = insert nq (set (quorums (nd_view nd)) - {of_nat old})
    \<and> length (quorums (nd_view nd')) = length (quorums (nd_view nd)) \<and> \<not> quorum_locked nd'"
proof -
  have ok: "captain_ok (nd_captain nd)" and view: "view_ok (nd_view nd)"
    using assms(1) by (simp_all add: node_ok_def captain_ok_def)
  obtain v' where v': "replace_member (of_nat old) (nd_view nd) = Inr (v', nq)" "view_ok v'"
    "length (quorums v') = length (quorums (nd_view nd))"
    "set (quorums v') = insert nq (set (quorums (nd_view nd)) - {of_nat old})"
    using replace_member_result [OF view assms(5,3)] by blast
  have frame: "host_count v' = host_count (nd_view nd)" "q_size v' = q_size (nd_view nd)" "whoami v' = whoami (nd_view nd)"
    using v'(1) assms(3) by (auto simp: replace_member_def Let_def whoami_def)
  have "unat nq < host_count (nd_view nd)"
    using view assms(3) by (auto simp: view_ok_def)
  then have at: "unat nq < length (consumer_names nd)"
    using assms(1) by (simp add: node_ok_def)
  have "last_digit (comp_uri E host) = Inr old"
    using assms(4) by (intro last_digit_result) (simp_all add: assms(6))
  moreover have "captain_ok ((nd_captain nd)\<lparr>cap_view := v'\<rparr>)"
    using ok v'(2) frame by (simp add: captain_ok_def queue_ok_def)
  ultimately show ?thesis
    using assms(1-4) v' frame at name_get_append(2,3) [of pre host body]
    by (simp add: onNack_def Let_def send_one_msg_def consume_def node_ok_def)
qed

theorem nack_replaces_member_witness:
  "\<exists>nd' effs. onNack number_wire Mode_recover [''p'', ''node1'', ''body''] (fresh_node 0) = Inr (nd', effs)
    \<and> set (quorums (nd_view nd')) = {0, 2}"
proof -
  have view: "nd_view (fresh_node 0) = view_3 0"
    by (simp add: fresh_node_def new_captain_def)
  have "node_ok (fresh_node 0)" "\<not> quorum_locked (fresh_node 0)"
    by (simp add: node_ok_fresh, simp add: fresh_node_def)
  moreover have "n_quorums (nd_view (fresh_node 0)) = [2]" "set_find (of_nat 1) (quorums (nd_view (fresh_node 0)))"
    unfolding view by (simp_all add: view_3_def set_find_def)
  moreover have "comp_uri number_wire ''node1'' = ''node'' @ [char_of (48 + (1 :: nat))]"
  proof -
    have "char_of (49 :: nat) = CHR ''1''" by code_simp
    then show ?thesis by (simp add: number_wire_def one_message_wire_def)
  qed
  ultimately have "\<exists>nd'. onNack number_wire Mode_recover ([''p''] @ [''node1'', ''body'']) (fresh_node 0) = Inr (nd',
      [Interest (consumer_names (fresh_node 0) ! unat (2 :: node_id) @ [encode_msg number_wire
         (Command (Captain.msg_command (me_of (nd_captain (fresh_node 0))) SET_QUORUM))]) 200,
       Interest (consumer_names (fresh_node 0) ! unat (2 :: node_id) @ [''body'']) 200])
    \<and> node_ok nd' \<and> set (quorums (nd_view nd')) = insert 2 (set (quorums (nd_view (fresh_node 0))) - {of_nat 1})
    \<and> length (quorums (nd_view nd')) = length (quorums (nd_view (fresh_node 0))) \<and> \<not> quorum_locked nd'"
    by (intro nack_replaces_member [where spares = "[]"]) simp_all
  moreover have "insert 2 (set (quorums (nd_view (fresh_node 0))) - {of_nat 1}) = {0, 2}"
    unfolding view by (auto simp: view_3_def)
  ultimately show ?thesis by auto
qed

text \<open>
  Without a spare node the handler returns with \<^verbatim>\<open>quorum_mut_\<close> still locked, and the next
  negative acknowledgement from a member blocks its thread for ever.
\<close>

theorem nack_leaves_lock:
  assumes "\<not> quorum_locked nd" and "n_quorums (nd_view nd) = []" and "old < (2 :: nat)" and "old2 < (2 :: nat)"
    and "comp_uri E host = base @ [char_of (48 + old)]" and "comp_uri E host2 = base2 @ [char_of (48 + old2)]"
  shows "\<exists>nd'. onNack E Mode_recover (pre @ [host, body]) nd = Inr (nd', []) \<and> quorum_locked nd'
    \<and> onNack E Mode_recover (pre2 @ [host2, body2]) nd' = Inr (nd', [Blocked_forever])"
proof -
  have "last_digit (comp_uri E host) = Inr old" "last_digit (comp_uri E host2) = Inr old2"
    using assms(3,4) by (auto intro!: last_digit_result simp: assms(5,6))
  then show ?thesis
    using assms(1-4) name_get_append(2,3) [of pre host body] name_get_append(2,3) [of pre2 host2 body2]
    by (simp add: onNack_def)
qed

theorem nack_leaves_lock_witness:
  "\<exists>nd'. onNack number_wire Mode_recover [''p'', ''node1'', ''body'']
      ((fresh_node 0)\<lparr>nd_captain := (nd_captain (fresh_node 0))\<lparr>cap_view := (view_3 0)\<lparr>n_quorums := []\<rparr>\<rparr>\<rparr>)
    = Inr (nd', []) \<and> quorum_locked nd'"
proof -
  let ?nd = "(fresh_node 0)\<lparr>nd_captain := (nd_captain (fresh_node 0))\<lparr>cap_view := (view_3 0)\<lparr>n_quorums := []\<rparr>\<rparr>\<rparr>"
  have "char_of (49 :: nat) = CHR ''1''" by code_simp
  then have uri: "comp_uri number_wire ''node1'' = ''node'' @ [char_of (48 + (1 :: nat))]"
    by (simp add: number_wire_def one_message_wire_def)
  have "\<not> quorum_locked ?nd" "n_quorums (nd_view ?nd) = []"
    by (simp_all add: fresh_node_def)
  from nack_leaves_lock [OF this _ _ uri uri, of "[''p'']" "''body''"] show ?thesis by auto
qed

end
