(* ===== verification/Paxos_Slot.thy ===== *)
theory Paxos_Slot
  imports Captain_Inv
begin

text \<open>
  One slot of the cluster as a distributed system: the acceptors and proposers that all nodes
  have for the slot, and the messages between them. Its transitions are the code's own
  handlers (\<open>handle_msg_prepare\<close>, \<open>handle_msg_accept\<close>, \<open>promise_info\<close>, \<open>accepted_info\<close>) and the
  code's own two ways to start a proposer (\<open>fast_info\<close>, \<open>recommit_info\<close>). Messages may be lost,
  delayed, delivered out of order and more than once; a reply goes only to the node that
  asked, as the data packet for an interest does.
\<close>

section \<open>Quorums\<close>

text \<open>What the protocol needs of its quorums.\<close>

locale quorum_system =
  fixes members :: "node_id set"
    and quorum :: "node_id set \<Rightarrow> bool"
  assumes quorum_members: "quorum Q \<Longrightarrow> Q \<subseteq> members"
    and quorum_all: "quorum members"
    and quorums_meet: "quorum Q \<Longrightarrow> quorum R \<Longrightarrow> Q \<inter> R \<noteq> {}"
begin

text \<open>Two facts about all members of a quorum each meet in one node.\<close>

lemma common_member:
  assumes "quorum Q" and "quorum R" and "\<And>x. x \<in> Q \<Longrightarrow> P x" and "\<And>x. x \<in> R \<Longrightarrow> P' x"
  obtains x where "x \<in> members" "P x" "P' x"
proof -
  obtain x where "x \<in> Q" "x \<in> R"
    using quorums_meet [OF assms(1,2)] by blast
  then show thesis
    using that assms quorum_members by blast
qed

lemma quorum_nonempty: "quorum Q \<Longrightarrow> Q \<noteq> {}"
  using quorums_meet [of Q Q] by blast

end

definition hosts :: "nat \<Rightarrow> node_id set" where
  "hosts n = {x. unat x < n}"

definition is_quorum :: "nat \<Rightarrow> node_id set \<Rightarrow> bool" where
  "is_quorum n Q \<longleftrightarrow> Q \<subseteq> hosts n \<and> quorum_of_size n \<le> card Q"

lemma card_hosts:
  assumes "n \<le> 65536"
  shows "card (hosts n) = n"
proof -
  have "hosts n = of_nat ` {..<n}"
  proof
    show "hosts n \<subseteq> of_nat ` {..<n}"
    proof
      fix x assume "x \<in> hosts n"
      then have "x = of_nat (unat x)" "unat x \<in> {..<n}"
        by (simp_all add: hosts_def)
      then show "x \<in> of_nat ` {..<n}" by blast
    qed
    show "of_nat ` {..<n} \<subseteq> hosts n"
      using assms by (auto simp: hosts_def)
  qed
  moreover have "inj_on (of_nat :: nat \<Rightarrow> node_id) {..<n}"
    using assms by (intro inj_onI) (metis lessThan_iff order_less_le_trans unat_of_nat_node)
  ultimately show ?thesis
    by (simp add: card_image)
qed

text \<open>The majority the view computes; a cluster has between 1 and \<open>2 ^ 16\<close> hosts.\<close>

lemma majority_quorums:
  assumes "0 < n" and "n \<le> 65536"
  shows "quorum_system (hosts n) (is_quorum n)"
proof
  fix Q R
  show "Q \<subseteq> hosts n" if "is_quorum n Q"
    using that by (simp add: is_quorum_def)
  show "is_quorum n (hosts n)"
    using assms quorum_of_size_bounds(2) [OF assms(1)] by (simp add: is_quorum_def card_hosts)
  show "Q \<inter> R \<noteq> {}" if "is_quorum n Q" "is_quorum n R"
  proof
    assume disjoint: "Q \<inter> R = {}"
    have fin: "finite (hosts n)" by simp
    have "card Q + card R = card (Q \<union> R)"
      using disjoint by (simp add: card_Un_disjoint)
    also have "\<dots> \<le> card (hosts n)"
      using that by (intro card_mono) (auto simp: is_quorum_def)
    also have "\<dots> < 2 * quorum_of_size n"
      using assms quorum_of_size_bounds(1) [of n] by (simp add: card_hosts)
    finally show False
      using that by (simp add: is_quorum_def)
  qed
qed

text \<open>The quorums of a view.\<close>

definition cluster_size :: "view \<Rightarrow> nat" where
  "cluster_size v = (if 0 < host_count v \<and> host_count v \<le> 65536 then host_count v else 1)"

interpretation majority: quorum_system "hosts (cluster_size v)" "is_quorum (cluster_size v)" for v
  by (rule majority_quorums) (simp_all add: cluster_size_def)

section \<open>The system\<close>

record 'n slot_state =
  sl_acceptors :: "node_id \<Rightarrow> acceptor"
  sl_proposers :: "node_id \<Rightarrow> 'n proposer_info option"
  sl_started :: "node_id list"
  sl_net :: "(node_id option \<times> msg) list"
  sl_chosen :: "prop_value list"

text \<open>A packet for everyone, or for one node.\<close>

definition deliverable :: "node_id \<Rightarrow> msg \<Rightarrow> 'n slot_state \<Rightarrow> bool" where
  "deliverable n m S \<longleftrightarrow> (None, m) \<in> set (sl_net S) \<or> (Some n, m) \<in> set (sl_net S)"

datatype 'n slot_event =
    Start_fast prop_value 'n
  | Start_prepare node_id int prop_value 'n
  | Recv_prepare node_id msg_prepare
  | Recv_accept node_id msg_accept
  | Recv_promise node_id msg_ack_prepare
  | Recv_accepted node_id msg_ack_accept

definition send :: "(node_id option \<times> msg) list \<Rightarrow> 'n slot_state \<Rightarrow> 'n slot_state" where
  "send ms S = S\<lparr>sl_net := sl_net S @ ms\<rparr>"

definition set_acceptor :: "node_id \<Rightarrow> acceptor \<Rightarrow> 'n slot_state \<Rightarrow> 'n slot_state" where
  "set_acceptor a acc S = S\<lparr>sl_acceptors := (sl_acceptors S)(a := acc)\<rparr>"

definition set_proposer :: "node_id \<Rightarrow> 'n proposer_info option \<Rightarrow> 'n slot_state \<Rightarrow> 'n slot_state" where
  "set_proposer n p S = S\<lparr>sl_proposers := (sl_proposers S)(n := p)\<rparr>"

text \<open>
  The transitions; \<open>views\<close> gives the view of every node, \<open>m\<close> is the master of the lease, the
  one node that may take the fast path, \<open>s\<close> the slot. A node starts at most one proposer for
  a slot, since every start takes a new slot number. A ballot counter does not wrap: a step
  that may restart a proposer is not taken after \<open>2 ^ 48 - 1\<close> attempts.
\<close>

fun slot_do :: "(node_id \<Rightarrow> view) \<Rightarrow> nat \<Rightarrow> node_id \<Rightarrow> slot_id \<Rightarrow> 'n slot_event \<Rightarrow> 'n slot_state \<Rightarrow>
    'n slot_state option" where
  "slot_do views n m s (Start_fast v name) S =
     (if unat m < n \<and> m \<notin> set (sl_started S)
      then let info = fast_info (views m) v name
           in Some (send [(None, Accept (accept_request m s info))]
                (set_proposer m (Some info) (S\<lparr>sl_started := m # sl_started S\<rparr>)))
      else None)"
| "slot_do views n m s (Start_prepare k tries v name) S =
     (if unat k < n \<and> k \<notin> set (sl_started S)
      then let (info, p) = recommit_info (views k) tries v name
           in Some (send [(None, Prepare (prepare_request s p))]
                (set_proposer k (Some info) (S\<lparr>sl_started := k # sl_started S\<rparr>)))
      else None)"
| "slot_do views n m s (Recv_prepare a p) S =
     (if unat a < n \<and> deliverable a (Prepare p) S
      then let (acc, ack) = handle_msg_prepare a p (sl_acceptors S a)
           in Some (send [(Some (sender (pre_header p)), Ack_prepare ack)] (set_acceptor a acc S))
      else None)"
| "slot_do views n m s (Recv_accept a r) S =
     (if unat a < n \<and> deliverable a (Accept r) S
      then let (acc, ack) = handle_msg_accept a r (sl_acceptors S a)
           in Some (send [(Some (sender (acc_header r)), Ack_accept ack)] (set_acceptor a acc S))
      else None)"
| "slot_do views n m s (Recv_promise k ack) S =
     (case sl_proposers S k of
        None \<Rightarrow> None
      | Some info \<Rightarrow>
          if deliverable k (Ack_prepare ack) S \<and> no_ballot_wrap (curr_ballot (curr_proposer info))
          then let (info', om) = promise_info k s ack info
               in Some (send (case om of None \<Rightarrow> [] | Some r \<Rightarrow> [(None, r)]) (set_proposer k (Some info') S))
          else None)"
| "slot_do views n m s (Recv_accepted k ack) S =
     (case sl_proposers S k of
        None \<Rightarrow> None
      | Some info \<Rightarrow>
          if deliverable k (Ack_accept ack) S \<and> no_ballot_wrap (curr_ballot (curr_proposer info))
          then Some (case accepted_info k s ack info of
                 Still info' \<Rightarrow> set_proposer k (Some info') S
               | Chosen info' \<Rightarrow> set_proposer k None
                   (S\<lparr>sl_chosen := sl_chosen S @ (case get_chosen_value (curr_proposer info') of None \<Rightarrow> [] | Some v \<Rightarrow> [v])\<rparr>)
               | Restarted info' p \<Rightarrow> send [(None, Prepare p)] (set_proposer k (Some info') S))
          else None)"

text \<open>
  At first every acceptor has promised the first ballot of the master (the slots of the
  lease), or nothing at all (slots beyond it), which is enough when the master is node 0.
\<close>

definition slot_init :: "node_id \<Rightarrow> 'n slot_state \<Rightarrow> bool" where
  "slot_init m S \<longleftrightarrow>
     (\<forall>a. sl_acceptors S a = update_max_proposed (first_ballot m) new_acceptor
        \<or> m = 0 \<and> sl_acceptors S a = new_acceptor)
     \<and> sl_proposers S = Map.empty \<and> sl_started S = [] \<and> sl_net S = [] \<and> sl_chosen S = []"

inductive slot_reach :: "(node_id \<Rightarrow> view) \<Rightarrow> nat \<Rightarrow> node_id \<Rightarrow> slot_id \<Rightarrow> 'n slot_state \<Rightarrow> bool"
  for views :: "node_id \<Rightarrow> view" and n :: nat and m :: node_id and s :: slot_id where
  slot_start: "slot_init m S \<Longrightarrow> slot_reach views n m s S"
| slot_step: "slot_reach views n m s S \<Longrightarrow> slot_do views n m s e S = Some S' \<Longrightarrow> slot_reach views n m s S'"

inductive_cases slot_reach_cases: "slot_reach views n m s S"

end
