(* ===== verification/Paxos_Inv.thy ===== *)
theory Paxos_Inv
  imports Paxos_Slot
begin

text \<open>
  The invariant of one slot. It has seven parts: what is on the network, one value per ballot,
  the proposers, the acceptors, the promises given, the safety of every proposed value, and
  the choices made. It gives agreement, and the acceptors' steps keep it.
\<close>

section \<open>Votes and proposals\<close>

definition voted :: "'n slot_state \<Rightarrow> node_id \<Rightarrow> ballot_id \<Rightarrow> bool" where
  "voted S a b \<longleftrightarrow> (\<exists>d ack. (d, Ack_accept ack) \<in> set (sl_net S) \<and> acka_reply ack
     \<and> sender (acka_header ack) = a \<and> acka_ballot ack = b)"

definition proposed :: "'n slot_state \<Rightarrow> ballot_id \<Rightarrow> value_id \<Rightarrow> bool" where
  "proposed S b v \<longleftrightarrow> (\<exists>d r. (d, Accept r) \<in> set (sl_net S) \<and> acc_ballot r = b \<and> pv_id (acc_value r) = v)"

definition asked :: "'n slot_state \<Rightarrow> ballot_id \<Rightarrow> bool" where
  "asked S b \<longleftrightarrow> (\<exists>d p. (d, Prepare p) \<in> set (sl_net S) \<and> pre_ballot p = b)"

lemmas history_defs = voted_def proposed_def asked_def

lemma state_simps [simp]:
  "sl_net (send ms S) = sl_net S @ ms" "sl_acceptors (send ms S) = sl_acceptors S"
  "sl_proposers (send ms S) = sl_proposers S" "sl_started (send ms S) = sl_started S"
  "sl_chosen (send ms S) = sl_chosen S"
  "sl_net (set_acceptor a acc S) = sl_net S" "sl_acceptors (set_acceptor a acc S) = (sl_acceptors S)(a := acc)"
  "sl_proposers (set_acceptor a acc S) = sl_proposers S" "sl_started (set_acceptor a acc S) = sl_started S"
  "sl_chosen (set_acceptor a acc S) = sl_chosen S"
  "sl_net (set_proposer k p S) = sl_net S" "sl_acceptors (set_proposer k p S) = sl_acceptors S"
  "sl_proposers (set_proposer k p S) = (sl_proposers S)(k := p)" "sl_started (set_proposer k p S) = sl_started S"
  "sl_chosen (set_proposer k p S) = sl_chosen S"
  by (simp_all add: send_def set_acceptor_def set_proposer_def)

lemma send_nil [simp]: "send [] S = S"
  by (cases S) (simp add: send_def)

text \<open>The history reads only the network.\<close>

lemma history_net:
  "sl_net S' = sl_net S \<Longrightarrow> voted S' = voted S" "sl_net S' = sl_net S \<Longrightarrow> proposed S' = proposed S"
  "sl_net S' = sl_net S \<Longrightarrow> asked S' = asked S"
  by (simp_all add: history_defs fun_eq_iff)

lemma history_ack_prepare:
  assumes "sl_net S' = sl_net S @ [(d, Ack_prepare ack)]"
  shows "voted S' = voted S" "proposed S' = proposed S" "asked S' = asked S"
  using assms by (auto simp: history_defs fun_eq_iff)

lemma history_ack_accept:
  assumes "sl_net S' = sl_net S @ [(d, Ack_accept ack)]"
  shows "voted S' a b \<longleftrightarrow> voted S a b \<or> acka_reply ack \<and> sender (acka_header ack) = a \<and> acka_ballot ack = b"
    "proposed S' = proposed S" "asked S' = asked S"
  using assms by (auto simp: history_defs fun_eq_iff)

lemma history_prepare:
  assumes "sl_net S' = sl_net S @ [(d, Prepare p)]"
  shows "voted S' = voted S" "proposed S' = proposed S" "asked S' b \<longleftrightarrow> asked S b \<or> pre_ballot p = b"
  using assms by (auto simp: history_defs fun_eq_iff)

lemma history_accept:
  assumes "sl_net S' = sl_net S @ [(d, Accept r)]"
  shows "voted S' = voted S" "asked S' = asked S"
    "proposed S' b v \<longleftrightarrow> proposed S b v \<or> acc_ballot r = b \<and> pv_id (acc_value r) = v"
  using assms by (auto simp: history_defs fun_eq_iff)

section \<open>The invariant\<close>

text \<open>Requests belong to the owner of their ballot; replies go back to it.\<close>

definition net_ok :: "nat \<Rightarrow> 'n slot_state \<Rightarrow> bool" where
  "net_ok n S \<longleftrightarrow>
     (\<forall>b. asked S b \<or> (\<exists>v. proposed S b v) \<longrightarrow> unat (ballot_owner b) < n
        \<and> ballot_owner b \<in> set (sl_started S) \<and> first_ballot (ballot_owner b) \<le> b)
   \<and> (\<forall>d p. (d, Prepare p) \<in> set (sl_net S) \<longrightarrow> sender (pre_header p) = ballot_owner (pre_ballot p))
   \<and> (\<forall>d r. (d, Accept r) \<in> set (sl_net S) \<longrightarrow> sender (acc_header r) = ballot_owner (acc_ballot r))
   \<and> (\<forall>d ack. (d, Ack_prepare ack) \<in> set (sl_net S) \<longrightarrow> d = Some (ballot_owner (ackp_ballot ack))
        \<and> asked S (ackp_ballot ack) \<and> unat (sender (ackp_header ack)) < n)
   \<and> (\<forall>d ack. (d, Ack_accept ack) \<in> set (sl_net S) \<longrightarrow> d = Some (ballot_owner (acka_ballot ack))
        \<and> (\<exists>v. proposed S (acka_ballot ack) v) \<and> unat (sender (acka_header ack)) < n)"

text \<open>One value per ballot.\<close>

definition unique_ok :: "'n slot_state \<Rightarrow> bool" where
  "unique_ok S \<longleftrightarrow> (\<forall>b v w. proposed S b v \<longrightarrow> proposed S b w \<longrightarrow> v = w)"

text \<open>
  A running proposer: its ballot is its latest, the replies it keeps are to that ballot, and
  what it was told of earlier votes is true.
\<close>

definition proposer_inv :: "view \<Rightarrow> 'n slot_state \<Rightarrow> node_id \<Rightarrow> 'n proposer_info \<Rightarrow> bool" where
  "proposer_inv v S k info \<longleftrightarrow> (let p = curr_proposer info in
     k \<in> set (sl_started S) \<and> info_ok (q_size v) info
   \<and> ballot_owner (curr_ballot p) = k \<and> first_ballot k \<le> curr_ballot p
   \<and> (\<forall>b. asked S b \<longrightarrow> ballot_owner b = k \<longrightarrow> b \<le> curr_ballot p)
   \<and> (\<forall>b v. proposed S b v \<longrightarrow> ballot_owner b = k \<longrightarrow> b \<le> curr_ballot p
        \<and> (b = curr_ballot p \<longrightarrow> (\<exists>w. curr_value p = Some w \<and> pv_id w = v)))
   \<and> (\<forall>w. curr_value p = Some w \<longrightarrow> proposed S (curr_ballot p) (pv_id w))
   \<and> (max_ballot p \<noteq> 0 \<longrightarrow> max_ballot p < curr_ballot p
        \<and> (\<exists>w. max_prop p = Some w \<and> proposed S (max_ballot p) (pv_id w)))
   \<and> (\<forall>j ack. map_find (ack_prepares p) j = Some ack \<longrightarrow> (Some k, Ack_prepare ack) \<in> set (sl_net S)
        \<and> sender (ackp_header ack) = j \<and> ackp_ballot ack = curr_ballot p)
   \<and> (\<forall>j ack. map_find (ack_accepts p) j = Some ack \<longrightarrow> (Some k, Ack_accept ack) \<in> set (sl_net S)
        \<and> sender (acka_header ack) = j \<and> acka_ballot ack = curr_ballot p))"

definition proposers_inv :: "(node_id \<Rightarrow> view) \<Rightarrow> nat \<Rightarrow> 'n slot_state \<Rightarrow> bool" where
  "proposers_inv views n S \<longleftrightarrow>
     (\<forall>k info. sl_proposers S k = Some info \<longrightarrow> unat k < n \<and> proposer_inv (views k) S k info)"

text \<open>An acceptor's state is its last vote; all votes are at or above the master's first ballot.\<close>

definition acceptors_inv :: "node_id \<Rightarrow> 'n slot_state \<Rightarrow> bool" where
  "acceptors_inv m S \<longleftrightarrow> (\<forall>a. let acc = sl_acceptors S a in
     acceptor_ok acc \<and> (first_ballot m \<le> max_proposed_ballot acc \<or> m = 0)
   \<and> (max_accepted_ballot acc \<noteq> 0 \<longrightarrow>
        (\<exists>v. max_value acc = Some v \<and> proposed S (max_accepted_ballot acc) (pv_id v)))
   \<and> (\<forall>b. voted S a b \<longrightarrow> b \<le> max_accepted_ballot acc \<and> first_ballot m \<le> b))"

text \<open>A promise for \<open>b\<close> reported the highest vote below \<open>b\<close>, and no other vote below \<open>b\<close> will come.\<close>

definition promise_ok :: "'n slot_state \<Rightarrow> msg_ack_prepare \<Rightarrow> bool" where
  "promise_ok S ack \<longleftrightarrow> ackp_ballot ack \<le> max_proposed_ballot (sl_acceptors S (sender (ackp_header ack)))
     \<and> ackp_max_ballot ack < ackp_ballot ack
     \<and> (\<forall>b. voted S (sender (ackp_header ack)) b \<longrightarrow> b < ackp_ballot ack \<longrightarrow> b \<le> ackp_max_ballot ack)
     \<and> (ackp_max_ballot ack \<noteq> 0 \<longrightarrow>
          (\<exists>v. ackp_max_value ack = Some v \<and> proposed S (ackp_max_ballot ack) (pv_id v)))"

definition promises_inv :: "'n slot_state \<Rightarrow> bool" where
  "promises_inv S \<longleftrightarrow> (\<forall>d ack. (d, Ack_prepare ack) \<in> set (sl_net S) \<longrightarrow> ackp_reply ack \<longrightarrow> promise_ok S ack)"

text \<open>
  A value is safe at a ballot when, for every lower ballot, a quorum can no longer vote
  there, and its members that did vote there voted for the same value.
\<close>

definition closed_at :: "'n slot_state \<Rightarrow> node_id \<Rightarrow> ballot_id \<Rightarrow> bool" where
  "closed_at S a b \<longleftrightarrow> b < max_proposed_ballot (sl_acceptors S a) \<or> b < 65536"

definition safe_at :: "nat \<Rightarrow> 'n slot_state \<Rightarrow> ballot_id \<Rightarrow> value_id \<Rightarrow> bool" where
  "safe_at n S b v \<longleftrightarrow> (\<forall>b' < b. \<exists>Q. is_quorum n Q \<and> (\<forall>a \<in> Q. closed_at S a b'
     \<and> (voted S a b' \<longrightarrow> proposed S b' v)))"

definition safe_inv :: "nat \<Rightarrow> 'n slot_state \<Rightarrow> bool" where
  "safe_inv n S \<longleftrightarrow> (\<forall>b v. proposed S b v \<longrightarrow> safe_at n S b v)"

definition decided_at :: "nat \<Rightarrow> 'n slot_state \<Rightarrow> ballot_id \<Rightarrow> value_id \<Rightarrow> bool" where
  "decided_at n S b v \<longleftrightarrow> proposed S b v \<and> (\<exists>Q. is_quorum n Q \<and> (\<forall>a \<in> Q. voted S a b))"

definition chosen_inv :: "nat \<Rightarrow> 'n slot_state \<Rightarrow> bool" where
  "chosen_inv n S \<longleftrightarrow> (\<forall>v \<in> set (sl_chosen S). \<exists>b. decided_at n S b (pv_id v))"

definition paxos_inv :: "(node_id \<Rightarrow> view) \<Rightarrow> nat \<Rightarrow> node_id \<Rightarrow> 'n slot_state \<Rightarrow> bool" where
  "paxos_inv views n m S \<longleftrightarrow> net_ok n S \<and> unique_ok S \<and> proposers_inv views n S
     \<and> acceptors_inv m S \<and> promises_inv S \<and> safe_inv n S \<and> chosen_inv n S"

text \<open>The views of a cluster of \<open>n\<close> nodes.\<close>

definition cluster :: "(node_id \<Rightarrow> view) \<Rightarrow> nat \<Rightarrow> bool" where
  "cluster views n \<longleftrightarrow> 0 < n \<and> n \<le> 65536
     \<and> (\<forall>k. unat k < n \<longrightarrow> view_ok (views k) \<and> whoami (views k) = k \<and> host_count (views k) = n)"

lemma cluster_size_views: "cluster views n \<Longrightarrow> cluster_size (views 0) = n"
  by (simp add: cluster_def cluster_size_def)

lemma cluster_q: "cluster views n \<Longrightarrow> unat k < n \<Longrightarrow> unat (q_size (views k)) = quorum_of_size n"
  by (simp add: cluster_def view_ok_def)

lemmas cluster_quorum = majority.quorums_meet majority.quorum_all majority.quorum_members

section \<open>Ballots of a node\<close>

lemma owner_first_ballot [simp]: "ballot_owner (first_ballot k) = k"
  by (simp add: ballot_owner_def first_ballot_def ucast_add_64_16)

lemma first_ballot_ge: "65536 \<le> first_ballot k"
proof -
  have "unat k < 65536"
    using unsigned_less [of k] by simp
  then show ?thesis
    by (simp add: first_ballot_def word_le_nat_alt unat_word_ariths)
qed

lemma first_ballot_0: "first_ballot 0 = 65536"
  by (simp add: first_ballot_def)

lemma owner_next_ballot: "ballot_owner b = k \<Longrightarrow> ballot_owner (ballot_after k b) = k"
  by (rule ballots.owner_next)

lemma next_ballot_greater: "no_ballot_wrap b \<Longrightarrow> b < ballot_after k b"
  by (rule ballots.next_greater)

section \<open>Agreement from the invariant\<close>

lemma decided_unique:
  assumes "cluster views n" and "paxos_inv views n m S" and "decided_at n S b v" and "decided_at n S c w"
  shows "v = w"
proof -
  have unique: "x = y" if "proposed S e x" "proposed S e y" for e x y
    using assms(2) that unfolding paxos_inv_def unique_ok_def by blast
  have lower: "x = y" if first: "decided_at n S d x" and second: "decided_at n S e y" and less: "d < e" for d e x y
  proof -
    obtain Q where Q: "is_quorum n Q" "\<forall>a \<in> Q. voted S a d" and d: "proposed S d x"
      using first unfolding decided_at_def by blast
    have "safe_at n S e y"
      using assms(2) second unfolding paxos_inv_def safe_inv_def decided_at_def by blast
    then obtain R where R: "is_quorum n R" "\<forall>a \<in> R. closed_at S a d \<and> (voted S a d \<longrightarrow> proposed S d y)"
      using less unfolding safe_at_def by blast
    obtain a where "a \<in> Q" "a \<in> R"
      using majority.quorums_meet [of "views 0" Q R] Q(1) R(1) cluster_size_views [OF assms(1)] by auto
    then have "proposed S d y"
      using Q(2) R(2) by blast
    then show ?thesis using unique d by blast
  qed
  consider "b = c" | "b < c" | "c < b" by fastforce
  then show ?thesis
  proof cases
    case 1
    then show ?thesis using assms(3,4) unique by (auto simp: decided_at_def)
  qed (use lower assms(3,4) in blast)+
qed

section \<open>What never changes\<close>

definition grows :: "'n slot_state \<Rightarrow> 'n slot_state \<Rightarrow> bool" where
  "grows S S' \<longleftrightarrow> set (sl_net S) \<subseteq> set (sl_net S') \<and> set (sl_started S) \<subseteq> set (sl_started S')
     \<and> (\<forall>a. max_proposed_ballot (sl_acceptors S a) \<le> max_proposed_ballot (sl_acceptors S' a))
     \<and> (\<forall>a b. voted S' a b \<longrightarrow> voted S a b \<or> \<not> closed_at S a b)"

lemma grows_history:
  assumes "grows S S'"
  shows "proposed S b v \<Longrightarrow> proposed S' b v" "asked S b \<Longrightarrow> asked S' b" "voted S a b \<Longrightarrow> voted S' a b"
    "closed_at S a b \<Longrightarrow> closed_at S' a b"
  using assms unfolding grows_def history_defs closed_at_def by (blast, blast, blast, metis order_less_le_trans)

lemma grows_safe_at:
  assumes "grows S S'" and "safe_at n S b v"
  shows "safe_at n S' b v"
  unfolding safe_at_def
proof (intro allI impI)
  fix b' assume "b' < b"
  then obtain Q where Q: "is_quorum n Q" "\<forall>a \<in> Q. closed_at S a b' \<and> (voted S a b' \<longrightarrow> proposed S b' v)"
    using assms(2) unfolding safe_at_def by blast
  have "closed_at S' a b' \<and> (voted S' a b' \<longrightarrow> proposed S' b' v)" if "a \<in> Q" for a
    using Q(2) that assms(1) grows_history [OF assms(1)] unfolding grows_def by blast
  then show "\<exists>Q. is_quorum n Q \<and> (\<forall>a \<in> Q. closed_at S' a b' \<and> (voted S' a b' \<longrightarrow> proposed S' b' v))"
    using Q(1) by blast
qed

lemma grows_decided_at: "grows S S' \<Longrightarrow> decided_at n S b v \<Longrightarrow> decided_at n S' b v"
  using grows_history unfolding decided_at_def by metis

lemma grows_safe_inv:
  assumes "grows S S'" and "safe_inv n S" and "\<And>b v. proposed S' b v \<Longrightarrow> \<not> proposed S b v \<Longrightarrow> safe_at n S' b v"
  shows "safe_inv n S'"
  using assms grows_safe_at unfolding safe_inv_def by blast

lemma grows_chosen_inv:
  "grows S S' \<Longrightarrow> chosen_inv n S \<Longrightarrow> sl_chosen S' = sl_chosen S \<Longrightarrow> chosen_inv n S'"
  using grows_decided_at unfolding chosen_inv_def by metis

text \<open>A running proposer keeps its invariant when nothing of its own ballots is added.\<close>

lemma proposer_inv_grows:
  assumes "grows S S'" and "proposer_inv v S k info"
    and "\<And>b. asked S' b \<Longrightarrow> \<not> asked S b \<Longrightarrow> ballot_owner b \<noteq> k"
    and "\<And>b w. proposed S' b w \<Longrightarrow> \<not> proposed S b w \<Longrightarrow> ballot_owner b \<noteq> k"
  shows "proposer_inv v S' k info"
proof -
  note old = assms(2) [unfolded proposer_inv_def Let_def]
  have net: "set (sl_net S) \<subseteq> set (sl_net S')" and st: "set (sl_started S) \<subseteq> set (sl_started S')"
    using assms(1) by (auto simp: grows_def)
  show ?thesis
    unfolding proposer_inv_def Let_def
  proof (intro conjI)
    show "\<forall>b. asked S' b \<longrightarrow> ballot_owner b = k \<longrightarrow> b \<le> curr_ballot (curr_proposer info)"
      using old assms(3) by blast
    show "\<forall>b v. proposed S' b v \<longrightarrow> ballot_owner b = k \<longrightarrow> b \<le> curr_ballot (curr_proposer info)
        \<and> (b = curr_ballot (curr_proposer info) \<longrightarrow> (\<exists>w. curr_value (curr_proposer info) = Some w \<and> pv_id w = v))"
      using old assms(4) by blast
  qed (use old net st grows_history(1) [OF assms(1)] in \<open>blast+\<close>)
qed

lemma proposers_inv_grows:
  assumes "grows S S'" and "proposers_inv views n S" and "sl_proposers S' = sl_proposers S"
    and "\<And>b. asked S' b \<Longrightarrow> asked S b" and "\<And>b w. proposed S' b w \<Longrightarrow> proposed S b w"
  shows "proposers_inv views n S'"
  unfolding proposers_inv_def assms(3)
proof (intro allI impI)
  fix k info assume at: "sl_proposers S k = Some info"
  then have "unat k < n" "proposer_inv (views k) S k info"
    using assms(2) by (simp_all add: proposers_inv_def)
  then show "unat k < n \<and> proposer_inv (views k) S' k info"
    using proposer_inv_grows [OF assms(1)] assms(4,5) by metis
qed

section \<open>Acceptor steps\<close>

lemma prepare_result:
  assumes "handle_msg_prepare a p acc = (acc', ack)"
  shows "ackp_ballot ack = pre_ballot p" "sender (ackp_header ack) = a"
    "max_accepted_ballot acc' = max_accepted_ballot acc" "max_value acc' = max_value acc"
    "max_proposed_ballot acc \<le> max_proposed_ballot acc'"
    "ackp_reply ack \<Longrightarrow> max_proposed_ballot acc < pre_ballot p \<and> max_proposed_ballot acc' = pre_ballot p
       \<and> ackp_max_ballot ack = max_accepted_ballot acc \<and> ackp_max_value ack = max_value acc"
    "acceptor_ok acc \<Longrightarrow> acceptor_ok acc'"
  using assms acceptor_ok_prepare [of acc a p]
  by (auto simp: handle_msg_prepare_def Let_def split: if_splits)

lemma accept_result:
  assumes "handle_msg_accept a r acc = (acc', ack)"
  shows "acka_ballot ack = acc_ballot r" "sender (acka_header ack) = a"
    "max_proposed_ballot acc \<le> max_proposed_ballot acc'" "acceptor_ok acc \<Longrightarrow> acceptor_ok acc'"
    "acka_reply ack \<longleftrightarrow> max_proposed_ballot acc \<le> acc_ballot r" "\<not> acka_reply ack \<Longrightarrow> acc' = acc"
    "acka_reply ack \<Longrightarrow> max_proposed_ballot acc' = acc_ballot r \<and> max_accepted_ballot acc' = acc_ballot r
       \<and> (\<exists>v. max_value acc' = Some v \<and> pv_id v = pv_id (acc_value r))"
  using assms acceptor_ok_accept [of acc a r]
  by (auto simp: handle_msg_accept_def Let_def split: if_splits option.splits)

lemma deliverable_in: "deliverable k m S \<Longrightarrow> \<exists>d. (d, m) \<in> set (sl_net S) \<and> (d = None \<or> d = Some k)"
  by (auto simp: deliverable_def)

lemma acceptor_le: "acceptor_ok acc \<Longrightarrow> max_accepted_ballot acc \<le> max_proposed_ballot acc"
  by (simp add: acceptor_ok_def)

lemma promise_ok_grows:
  assumes "grows S T" and "promise_ok S ack"
  shows "promise_ok T ack"
  unfolding promise_ok_def
proof (intro conjI allI impI)
  note old = assms(2) [unfolded promise_ok_def]
  show "ackp_ballot ack \<le> max_proposed_ballot (sl_acceptors T (sender (ackp_header ack)))"
    using old assms(1) unfolding grows_def by (metis order_trans)
  show "b \<le> ackp_max_ballot ack" if "voted T (sender (ackp_header ack)) b" "b < ackp_ballot ack" for b
  proof -
    have "closed_at S (sender (ackp_header ack)) b"
      using old that(2) unfolding closed_at_def by (blast intro: less_le_trans)
    then have "voted S (sender (ackp_header ack)) b"
      using assms(1) that(1) unfolding grows_def by blast
    then show ?thesis
      using old that(2) by blast
  qed
qed (use assms(2) grows_history(1) [OF assms(1)] in \<open>auto simp: promise_ok_def\<close>)

lemma grows_promises_inv:
  assumes "grows S T" and "promises_inv S"
    and "\<And>d ack. (d, Ack_prepare ack) \<in> set (sl_net T) \<Longrightarrow> ackp_reply ack \<Longrightarrow>
      (d, Ack_prepare ack) \<in> set (sl_net S) \<or> promise_ok T ack"
  shows "promises_inv T"
  using assms promise_ok_grows [OF assms(1)] unfolding promises_inv_def by blast

lemma recv_prepare_inv:
  assumes "cluster views n" and "paxos_inv views n m S" and "unat a < n" and "deliverable a (Prepare p) S"
    and "handle_msg_prepare a p (sl_acceptors S a) = (acc, ack)"
  shows "paxos_inv views n m (send [(Some (sender (pre_header p)), Ack_prepare ack)] (set_acceptor a acc S))"
    (is "paxos_inv _ _ _ ?S'")
proof -
  obtain T where T: "T = ?S'" by blast
  note inv = assms(2) [unfolded paxos_inv_def]
  note r = prepare_result [OF assms(5)]
  have net: "sl_net T = sl_net S @ [(Some (sender (pre_header p)), Ack_prepare ack)]"
    and other: "sl_acceptors T = (sl_acceptors S)(a := acc)" "sl_proposers T = sl_proposers S"
      "sl_started T = sl_started S" "sl_chosen T = sl_chosen S"
    by (simp_all add: T)
  note h = history_ack_prepare [OF net]
  have ok: "acceptor_ok (sl_acceptors S a)"
    using inv by (simp add: acceptors_inv_def Let_def)
  have grows: "grows S T"
    using r(5) by (auto simp: grows_def h net other)
  have owner: "sender (pre_header p) = ballot_owner (pre_ballot p)" and asked: "asked S (pre_ballot p)"
    using inv deliverable_in [OF assms(4)] by (auto simp: net_ok_def asked_def)
  have "net_ok n T"
    using inv r(1,2) assms(3) owner asked by (auto simp: net_ok_def h net other)
  moreover have "unique_ok T"
    using inv by (simp add: unique_ok_def h net other)
  moreover have "proposers_inv views n T"
    using inv by (intro proposers_inv_grows [OF grows]) (simp_all add: h other)
  moreover have "acceptors_inv m T"
    using inv r(3,4,5,7) by (auto simp: acceptors_inv_def Let_def h other intro: order_trans)
  moreover have "promise_ok T ack" if "ackp_reply ack"
    using that r ok acceptor_le [OF ok] inv by (auto simp: promise_ok_def h other acceptors_inv_def Let_def)
  then have "promises_inv T"
    using inv by (intro grows_promises_inv [OF grows]) (auto simp: net)
  moreover have "safe_inv n T"
    using inv by (intro grows_safe_inv [OF grows]) (simp_all add: h other)
  moreover have "chosen_inv n T"
    using inv by (intro grows_chosen_inv [OF grows]) (simp_all add: other)
  ultimately show ?thesis
    unfolding paxos_inv_def T [symmetric] by blast
qed

lemma recv_accept_inv:
  assumes "cluster views n" and "paxos_inv views n m S" and "unat a < n" and "deliverable a (Accept r) S"
    and "handle_msg_accept a r (sl_acceptors S a) = (acc, ack)"
  shows "paxos_inv views n m (send [(Some (sender (acc_header r)), Ack_accept ack)] (set_acceptor a acc S))"
    (is "paxos_inv _ _ _ ?S'")
proof -
  obtain T where T: "T = ?S'" by blast
  note inv = assms(2) [unfolded paxos_inv_def]
  note res = accept_result [OF assms(5)]
  have net: "sl_net T = sl_net S @ [(Some (sender (acc_header r)), Ack_accept ack)]"
    and other: "sl_acceptors T = (sl_acceptors S)(a := acc)" "sl_proposers T = sl_proposers S"
      "sl_started T = sl_started S" "sl_chosen T = sl_chosen S"
    by (simp_all add: T)
  note h = history_ack_accept [OF net]
  have ok: "acceptor_ok (sl_acceptors S a)" and m: "first_ballot m \<le> max_proposed_ballot (sl_acceptors S a) \<or> m = 0"
    and votes: "\<And>b. voted S a b \<Longrightarrow> b \<le> max_accepted_ballot (sl_acceptors S a) \<and> first_ballot m \<le> b"
    using inv by (simp_all add: acceptors_inv_def Let_def)
  have owner: "sender (acc_header r) = ballot_owner (acc_ballot r)"
    and was: "proposed S (acc_ballot r) (pv_id (acc_value r))"
    using inv deliverable_in [OF assms(4)] by (auto simp: net_ok_def proposed_def)
  have big: "65536 \<le> acc_ballot r"
    using inv was first_ballot_ge order_trans unfolding net_ok_def by metis
  have vote: "first_ballot m \<le> acc_ballot r" if "acka_reply ack"
    using m big res(5) that first_ballot_0 by (auto intro: order_trans)
  have grows: "grows S T"
    using res(3,5) big by (auto simp: grows_def h net other closed_at_def res(1,2))
  have "net_ok n T"
    using inv res(1,2) assms(3) owner was by (auto simp: net_ok_def h net other)
  moreover have "unique_ok T"
    using inv by (simp add: unique_ok_def h net other)
  moreover have "proposers_inv views n T"
    using inv by (intro proposers_inv_grows [OF grows]) (simp_all add: h other)
  moreover have "acceptors_inv m T"
  proof (cases "acka_reply ack")
    case True
    then have "b \<le> acc_ballot r" if "voted S a b" for b
      using votes [OF that] acceptor_le [OF ok] res(5) by (auto intro: order_trans)
    then show ?thesis
      using inv res True was m vote votes by (auto simp: acceptors_inv_def Let_def h other intro: order_trans)
  next
    case False
    then show ?thesis
      using inv res(6) by (auto simp: acceptors_inv_def Let_def h other)
  qed
  moreover have "promises_inv T"
    using inv by (intro grows_promises_inv [OF grows]) (auto simp: net)
  moreover have "safe_inv n T"
    using inv by (intro grows_safe_inv [OF grows]) (simp_all add: h other)
  moreover have "chosen_inv n T"
    using inv by (intro grows_chosen_inv [OF grows]) (simp_all add: other)
  ultimately show ?thesis
    unfolding paxos_inv_def T [symmetric] by blast
qed

end
