(* ===== verification/Paxos_Safety.thy ===== *)
theory Paxos_Safety
  imports Paxos_Inv
begin

text \<open>
  Every transition of a slot keeps the protocol invariant, so all reachable states have it, and
  with it agreement: the steps of the proposers (start, promise, reply to an accept request),
  the induction over a run, and the theorems.
\<close>

section \<open>Proposer steps\<close>

text \<open>A request that proposer \<open>k\<close> may send: a ballot of its own, and for a value a safe one.\<close>

definition request_ok :: "nat \<Rightarrow> 'n slot_state \<Rightarrow> node_id \<Rightarrow> msg \<Rightarrow> bool" where
  "request_ok n S k m \<longleftrightarrow>
     (\<exists>p. m = Prepare p \<and> sender (pre_header p) = k \<and> ballot_owner (pre_ballot p) = k
        \<and> first_ballot k \<le> pre_ballot p)
   \<or> (\<exists>r. m = Accept r \<and> sender (acc_header r) = k \<and> ballot_owner (acc_ballot r) = k
        \<and> first_ballot k \<le> acc_ballot r \<and> safe_at n S (acc_ballot r) (pv_id (acc_value r))
        \<and> (\<forall>v. \<not> proposed S (acc_ballot r) v))"

definition request_list :: "msg option \<Rightarrow> (node_id option \<times> msg) list" where
  "request_list om = (case om of None \<Rightarrow> [] | Some r \<Rightarrow> [(None, r)])"

lemma request_list_simps [simp]: "request_list None = []" "request_list (Some r) = [(None, r)]"
  by (simp_all add: request_list_def)

lemma history_request:
  assumes "sl_net T = sl_net S @ request_list om" and "\<forall>r. om = Some r \<longrightarrow> request_ok n S k r"
  shows "voted T = voted S"
    and "asked T b \<longleftrightarrow> asked S b \<or> (\<exists>p. om = Some (Prepare p) \<and> pre_ballot p = b)"
    and "proposed T b v \<longleftrightarrow> proposed S b v
      \<or> (\<exists>r. om = Some (Accept r) \<and> acc_ballot r = b \<and> pv_id (acc_value r) = v)"
  using assms by (cases om; force simp: history_defs fun_eq_iff request_ok_def)+

lemma request_new:
  assumes "sl_net T = sl_net S @ request_list om" and "\<forall>r. om = Some r \<longrightarrow> request_ok n S k r"
  shows "asked T b \<Longrightarrow> asked S b \<or> ballot_owner b = k \<and> first_ballot k \<le> b"
    and "proposed T b v \<Longrightarrow> proposed S b v
      \<or> ballot_owner b = k \<and> first_ballot k \<le> b \<and> safe_at n S b v \<and> (\<forall>w. \<not> proposed S b w)"
  using history_request(2,3) [OF assms] assms(2) by (auto simp: request_ok_def)

text \<open>The replies on the network are the same as before, and the new request has its sender.\<close>

lemma request_net:
  assumes "sl_net T = sl_net S @ request_list om" and "\<forall>r. om = Some r \<longrightarrow> request_ok n S k r"
  shows "(d, Ack_prepare p) \<in> set (sl_net T) \<longleftrightarrow> (d, Ack_prepare p) \<in> set (sl_net S)"
    and "(d, Ack_accept a) \<in> set (sl_net T) \<longleftrightarrow> (d, Ack_accept a) \<in> set (sl_net S)"
    and "(d, Prepare q) \<in> set (sl_net T) \<Longrightarrow> (d, Prepare q) \<in> set (sl_net S) \<or> sender (pre_header q) = ballot_owner (pre_ballot q)"
    and "(d, Accept r) \<in> set (sl_net T) \<Longrightarrow> (d, Accept r) \<in> set (sl_net S) \<or> sender (acc_header r) = ballot_owner (acc_ballot r)"
  using assms by (cases om; auto simp: request_ok_def)+

lemma request_net_ok:
  assumes "net_ok n S" and "unat k < n" and "set (sl_started T) = insert k (set (sl_started S))"
    and net: "sl_net T = sl_net S @ request_list om" and req: "\<forall>r. om = Some r \<longrightarrow> request_ok n S k r"
  shows "net_ok n T"
  unfolding net_ok_def
proof (intro conjI)
  note old = assms(1) [unfolded net_ok_def]
  have more: "asked S b \<Longrightarrow> asked T b" "proposed S b v \<Longrightarrow> proposed T b v" for b v
    using history_request(2,3) [OF net req] by blast+
  show "\<forall>b. asked T b \<or> (\<exists>v. proposed T b v) \<longrightarrow> unat (ballot_owner b) < n
      \<and> ballot_owner b \<in> set (sl_started T) \<and> first_ballot (ballot_owner b) \<le> b"
    using old request_new [OF net req] assms(2) unfolding assms(3) by blast
  show "\<forall>d p. (d, Prepare p) \<in> set (sl_net T) \<longrightarrow> sender (pre_header p) = ballot_owner (pre_ballot p)"
    using old request_net(3) [OF net req] by blast
  show "\<forall>d r. (d, Accept r) \<in> set (sl_net T) \<longrightarrow> sender (acc_header r) = ballot_owner (acc_ballot r)"
    using old request_net(4) [OF net req] by blast
  show "\<forall>d ack. (d, Ack_prepare ack) \<in> set (sl_net T) \<longrightarrow> d = Some (ballot_owner (ackp_ballot ack))
      \<and> asked T (ackp_ballot ack) \<and> unat (sender (ackp_header ack)) < n"
    using old more(1) unfolding request_net(1) [OF net req] by blast
  show "\<forall>d ack. (d, Ack_accept ack) \<in> set (sl_net T) \<longrightarrow> d = Some (ballot_owner (acka_ballot ack))
      \<and> (\<exists>v. proposed T (acka_ballot ack) v) \<and> unat (sender (acka_header ack)) < n"
    using old more(2) unfolding request_net(2) [OF net req] by meson
qed

lemma request_proposers:
  assumes "proposers_inv views n S" and "grows S T" and "unat k < n" and "proposer_inv (views k) T k info"
    and props: "sl_proposers T = (sl_proposers S)(k := Some info)"
    and net: "sl_net T = sl_net S @ request_list om" and req: "\<forall>r. om = Some r \<longrightarrow> request_ok n S k r"
  shows "proposers_inv views n T"
  unfolding proposers_inv_def
proof (intro allI impI)
  fix j info' assume at: "sl_proposers T j = Some info'"
  show "unat j < n \<and> proposer_inv (views j) T j info'"
  proof (cases "j = k")
    case False
    then have "unat j < n" "proposer_inv (views j) S j info'"
      using at props assms(1) by (simp_all add: proposers_inv_def)
    moreover have "proposer_inv (views j) T j info'"
      using calculation(2) request_new [OF net req] False by (intro proposer_inv_grows [OF assms(2)]) blast+
    ultimately show ?thesis by simp
  qed (use at assms(3,4) props in simp)
qed

lemma proposer_step_inv:
  assumes "cluster views n" and "paxos_inv views n m S" and "unat k < n"
    and net: "sl_net T = sl_net S @ request_list om" and req: "\<forall>r. om = Some r \<longrightarrow> request_ok n S k r"
    and acc: "sl_acceptors T = sl_acceptors S" and props: "sl_proposers T = (sl_proposers S)(k := Some info)"
    and started: "set (sl_started T) = insert k (set (sl_started S))" and chosen: "sl_chosen T = sl_chosen S"
    and me: "proposer_inv (views k) T k info"
  shows "paxos_inv views n m T"
proof -
  note inv = assms(2) [unfolded paxos_inv_def]
  note h = history_request [OF net req] and new = request_new [OF net req]
  have grows: "grows S T"
    using acc by (auto simp: grows_def net started h(1))
  have "net_ok n T"
    by (rule request_net_ok [OF _ assms(3) started net req]) (use inv in blast)
  moreover have "unique_ok T"
    using inv new(2) h(3) unfolding unique_ok_def by (metis msg.inject option.inject)
  moreover have "proposers_inv views n T"
    by (rule request_proposers [where views = views and k = k, OF _ grows assms(3) me props net req]) (use inv in blast)
  moreover have "acceptors_inv m T"
    using inv grows_history(1) [OF grows] unfolding acceptors_inv_def Let_def acc h(1) by meson
  moreover have "promises_inv T"
    using inv by (intro grows_promises_inv [OF grows]) (simp_all add: request_net(1) [OF net req])
  moreover have "safe_inv n T"
    using inv new(2) grows_safe_at [OF grows] by (intro grows_safe_inv [OF grows]) blast+
  moreover have "chosen_inv n T"
    using inv chosen by (intro grows_chosen_inv [OF grows]) simp_all
  ultimately show ?thesis
    unfolding paxos_inv_def by blast
qed

text \<open>A node that has not started has no request on the network.\<close>

lemma not_started:
  assumes "paxos_inv views n m S" and "k \<notin> set (sl_started S)"
  shows "asked S b \<Longrightarrow> ballot_owner b \<noteq> k" "proposed S b v \<Longrightarrow> ballot_owner b \<noteq> k"
  using assms unfolding paxos_inv_def net_ok_def by blast+

lemma start_fast_inv:
  assumes "cluster views n" and "paxos_inv views n m S" and "unat m < n" and "m \<notin> set (sl_started S)"
  shows "paxos_inv views n m (send [(None, Accept (accept_request m s (fast_info (views m) v name)))]
    (set_proposer m (Some (fast_info (views m) v name)) (S\<lparr>sl_started := m # sl_started S\<rparr>)))"
    (is "paxos_inv _ _ _ ?S'")
proof -
  let ?info = "fast_info (views m) v name"
  let ?r = "accept_request m s ?info"
  obtain T where T: "T = ?S'" by blast
  note inv = assms(2) [unfolded paxos_inv_def]
  have me: "whoami (views m) = m"
    using assms(1,3) by (simp add: cluster_def)
  have p: "curr_ballot (curr_proposer ?info) = first_ballot m" "curr_value (curr_proposer ?info) = Some v"
    "max_ballot (curr_proposer ?info) = 0" "ack_prepares (curr_proposer ?info) = []"
    "ack_accepts (curr_proposer ?info) = []"
    by (simp_all add: fast_info_def proposer_ops me first_ballot_def)
  have r: "acc_ballot ?r = first_ballot m" "acc_value ?r = v" "sender (acc_header ?r) = m"
    by (simp_all add: accept_request_def Proposer.msg_accept_def p Let_def sender_def)
  have net: "sl_net T = sl_net S @ request_list (Some (Accept ?r))"
    and started: "sl_started T = m # sl_started S"
    by (simp_all add: T)
  have safe: "safe_at n S (first_ballot m) (pv_id v)"
    unfolding safe_at_def
  proof (intro allI impI)
    fix b' assume less: "b' < first_ballot m"
    have "closed_at S a b' \<and> \<not> voted S a b'" for a
    proof
      have "first_ballot m \<le> max_proposed_ballot (sl_acceptors S a) \<or> m = 0"
        using inv by (simp add: acceptors_inv_def Let_def)
      then show "closed_at S a b'"
        using less unfolding closed_at_def first_ballot_0 [symmetric] by (metis order_less_le_trans)
      show "\<not> voted S a b'"
        using inv less unfolding acceptors_inv_def Let_def by (meson not_le)
    qed
    moreover have "is_quorum n (hosts n)"
      using majority.quorum_all [of "views 0"] cluster_size_views [OF assms(1)] by simp
    ultimately show "\<exists>Q. is_quorum n Q \<and> (\<forall>a \<in> Q. closed_at S a b'
        \<and> (voted S a b' \<longrightarrow> proposed S b' (pv_id v)))"
      by blast
  qed
  note none = not_started [OF assms(2,4)]
  have "\<not> proposed S (first_ballot m) w" for w
    using none(2) [of "first_ballot m" w] by auto
  then have req: "\<forall>x. Some (Accept ?r) = Some x \<longrightarrow> request_ok n S m x"
    using safe by (simp add: request_ok_def r)
  note h = history_request [OF net req]
  have "paxos_inv views n m T"
  proof (rule proposer_step_inv [OF assms(1-3) net req])
    show "proposer_inv (views m) T m ?info"
      unfolding proposer_inv_def Let_def p h
      using none by (auto simp: started info_ok_fast r)
  qed (auto simp: T started)
  then show ?thesis by (simp add: T)
qed

lemma start_prepare_inv:
  assumes "cluster views n" and "paxos_inv views n m S" and "unat k < n" and "k \<notin> set (sl_started S)"
    and "recommit_info (views k) tries v name = (info, p)"
  shows "paxos_inv views n m (send [(None, Prepare (prepare_request s p))]
    (set_proposer k (Some info) (S\<lparr>sl_started := k # sl_started S\<rparr>)))"
    (is "paxos_inv _ _ _ ?S'")
proof -
  let ?r = "prepare_request s p"
  obtain T where T: "T = ?S'" by blast
  have me: "whoami (views k) = k"
    using assms(1,3) by (simp add: cluster_def)
  have p: "curr_ballot (curr_proposer info) = first_ballot k" "curr_value (curr_proposer info) = None"
    "max_ballot (curr_proposer info) = 0" "ack_prepares (curr_proposer info) = []"
    "ack_accepts (curr_proposer info) = []"
    and r: "pre_ballot ?r = first_ballot k" "sender (pre_header ?r) = k"
    using assms(5) by (auto simp: recommit_info_def Proposer.msg_prepare_def proposer_ops me first_ballot_def
        prepare_request_def Let_def sender_def)
  have net: "sl_net T = sl_net S @ request_list (Some (Prepare ?r))"
    and started: "sl_started T = k # sl_started S"
    by (simp_all add: T)
  have req: "\<forall>x. Some (Prepare ?r) = Some x \<longrightarrow> request_ok n S k x"
    by (simp add: request_ok_def r)
  note none = not_started [OF assms(2,4)] and h = history_request [OF net req]
  have "paxos_inv views n m T"
  proof (rule proposer_step_inv [OF assms(1-3) net req])
    show "proposer_inv (views k) T k info"
      unfolding proposer_inv_def Let_def p h
      using none info_ok_recommit [OF assms(5)] by (auto simp: started r)
  qed (auto simp: T started)
  then show ?thesis by (simp add: T)
qed

text \<open>A proposer that starts over: a higher ballot of its own, and what it was told is kept.\<close>

lemma restart_inv:
  assumes "cluster views n" and "paxos_inv views n m S" and "sl_proposers S k = Some info0"
    and re: "restart_info k s info = (info', r)" and wrap: "no_ballot_wrap (curr_ballot (curr_proposer info))"
    and ok: "proposer_ok (curr_proposer info)" "qr (curr_proposer info) = q_size (views k)"
      "qw (curr_proposer info) = q_size (views k)"
    and same: "curr_ballot (curr_proposer info) = curr_ballot (curr_proposer info0)"
    and told: "max_ballot (curr_proposer info) \<noteq> 0 \<Longrightarrow>
      max_ballot (curr_proposer info) < curr_ballot (curr_proposer info)
      \<and> (\<exists>w. max_prop (curr_proposer info) = Some w \<and> proposed S (max_ballot (curr_proposer info)) (pv_id w))"
  shows "paxos_inv views n m (send [(None, Prepare r)] (set_proposer k (Some info') S))"
    (is "paxos_inv _ _ _ ?S'")
proof -
  let ?b = "curr_ballot (curr_proposer info)"
  obtain T where T: "T = ?S'" by blast
  have k: "unat k < n" and old: "proposer_inv (views k) S k info0"
    using assms(2,3) by (simp_all add: paxos_inv_def proposers_inv_def)
  note old = old [unfolded proposer_inv_def Let_def, folded same]
  have up: "?b < ballot_after k ?b" and own: "ballot_owner (ballot_after k ?b) = k"
    using next_ballot_greater [OF wrap] owner_next_ballot old by blast+
  have p: "curr_ballot (curr_proposer info') = ballot_after k ?b" "curr_value (curr_proposer info') = None"
    "max_ballot (curr_proposer info') = max_ballot (curr_proposer info)"
    "max_prop (curr_proposer info') = max_prop (curr_proposer info)"
    "ack_prepares (curr_proposer info') = []" "ack_accepts (curr_proposer info') = []"
    and r: "pre_ballot r = ballot_after k ?b" "sender (pre_header r) = k"
    using re by (auto simp: restart_info_def restart_msg_prepare_def Proposer.msg_prepare_def
        curr_ballot_gen_next prepare_request_def Let_def sender_def)
  have net: "sl_net T = sl_net S @ request_list (Some (Prepare r))" by (simp add: T)
  have first: "first_ballot k \<le> ballot_after k ?b"
    using old up by (meson le_less_trans less_imp_le)
  have req: "\<forall>x. Some (Prepare r) = Some x \<longrightarrow> request_ok n S k x"
    using own first by (simp add: request_ok_def r)
  note h = history_request [OF net req]
  have "paxos_inv views n m T"
  proof (rule proposer_step_inv [OF assms(1,2) k net req])
    have asked: "\<forall>b. asked T b \<longrightarrow> ballot_owner b = k \<longrightarrow> b \<le> ballot_after k ?b"
      using old up by (auto simp: h r intro: order_trans less_imp_le)
    have below: "\<forall>b v. proposed T b v \<longrightarrow> ballot_owner b = k \<longrightarrow> b < ballot_after k ?b"
    proof (intro allI impI)
      fix b v assume "proposed T b v" and own_b: "ballot_owner b = k"
      then have "proposed S b v" by (simp add: h)
      then have "b \<le> ?b" using old own_b by blast
      then show "b < ballot_after k ?b" using up by (rule le_less_trans)
    qed
    have max: "max_ballot (curr_proposer info) \<noteq> 0 \<longrightarrow> max_ballot (curr_proposer info) < ballot_after k ?b
        \<and> (\<exists>w. max_prop (curr_proposer info) = Some w \<and> proposed T (max_ballot (curr_proposer info)) (pv_id w))"
      using told up by (auto simp: h intro: less_trans)
    have "info_ok (q_size (views k)) info'" "k \<in> set (sl_started T)"
      using info_ok_restart [OF ok re] old by (simp_all add: T)
    then show "proposer_inv (views k) T k info'"
      unfolding proposer_inv_def Let_def p
      using own first asked below max by (auto intro: less_imp_le)
  qed (use old in \<open>auto simp: T\<close>)
  then show ?thesis by (simp add: T)
qed

text \<open>A step that sends nothing and only stores a reply.\<close>

lemma store_inv:
  assumes "cluster views n" and "paxos_inv views n m S" and "sl_proposers S k = Some info"
    and "proposer_inv (views k) S k info'"
  shows "paxos_inv views n m (set_proposer k (Some info') S)"
proof (rule proposer_step_inv [where k = k and om = None, OF assms(1,2)])
  let ?T = "set_proposer k (Some info') S"
  show "unat k < n"
    using assms(2,3) by (simp add: paxos_inv_def proposers_inv_def)
  show "proposer_inv (views k) ?T k info'"
    using assms(4) history_net [of ?T S] by (simp add: proposer_inv_def Let_def)
  show "set (sl_started ?T) = insert k (set (sl_started S))"
    using assms(4) by (auto simp: proposer_inv_def Let_def)
qed simp_all

section \<open>Promises\<close>

lemma promise_result:
  assumes "proposer_ok p" and "curr_value p = None" and "handle_msg_promise ack p = (p', t)" and "t \<noteq> DROP"
  shows "curr_ballot p \<le> ackp_ballot ack"
    and "ack_prepares p' = map_put (sender (ackp_header ack)) ack (ack_prepares p)"
    and "max_ballot p' = max_ballot p \<and> max_prop p' = max_prop p
      \<or> (\<exists>j a. map_find (ack_prepares p') j = Some a \<and> ackp_reply a
           \<and> max_ballot p' = ackp_max_ballot a \<and> max_ballot p' \<noteq> 0 \<and> max_prop p' = Some (reported_value a))"
    and "t \<noteq> CONTINUE \<Longrightarrow> curr_value p' = None"
proof -
  let ?acks = "ack_prepares (store_promise ack p)"
  obtain mb mv yes where loop: "promise_loop ?acks (max_ballot p, max_prop p, 0) = (mb, mv, yes)"
    by (metis prod_cases3)
  have live: "\<not> (ackp_ballot ack < curr_ballot p \<or> curr_value p \<noteq> None)"
    using assms(2,3,4) handle_msg_promise_drop [of ack p] by auto
  then show "curr_ballot p \<le> ackp_ballot ack" by auto
  note run = handle_msg_promise_loop [OF live loop, unfolded assms(3)]
  show acks: "ack_prepares p' = map_put (sender (ackp_header ack)) ack (ack_prepares p)"
    using run by (auto split: if_splits)
  show "curr_value p' = None" if "t \<noteq> CONTINUE"
    using run assms(2) that by (auto split: if_splits)
  have ok: "map_ok ?acks"
    using assms(1) by (simp add: proposer_ok_def)
  have "mb = max_ballot p \<and> mv = max_prop p
      \<or> (\<exists>j a. map_find ?acks j = Some a \<and> ackp_reply a \<and> mb = ackp_max_ballot a \<and> mb \<noteq> 0
           \<and> mv = Some (reported_value a))"
    using promise_loop_find(3) [OF ok loop] by (metis word_not_simps(1))
  then show "max_ballot p' = max_ballot p \<and> max_prop p' = max_prop p
      \<or> (\<exists>j a. map_find (ack_prepares p') j = Some a \<and> ackp_reply a
           \<and> max_ballot p' = ackp_max_ballot a \<and> max_ballot p' \<noteq> 0 \<and> max_prop p' = Some (reported_value a))"
    using run by (auto split: if_splits)
qed

text \<open>What a proposer knows after it has stored a promise for its ballot.\<close>

lemma promise_known:
  assumes "paxos_inv views n m S" and "proposer_inv v S k info" and "deliverable k (Ack_prepare ack) S"
    and "curr_value (curr_proposer info) = None" and "handle_msg_promise ack (curr_proposer info) = (p', t)"
    and "t \<noteq> DROP"
  shows "\<And>j a. map_find (ack_prepares p') j = Some a \<Longrightarrow> (Some k, Ack_prepare a) \<in> set (sl_net S)
      \<and> sender (ackp_header a) = j \<and> ackp_ballot a = curr_ballot p'"
    and "max_ballot p' \<noteq> 0 \<Longrightarrow> max_ballot p' < curr_ballot p'
      \<and> (\<exists>w. max_prop p' = Some w \<and> proposed S (max_ballot p') (pv_id w))"
proof -
  note inv = assms(1) [unfolded paxos_inv_def] and old = assms(2) [unfolded proposer_inv_def Let_def]
  have ok: "proposer_ok (curr_proposer info)"
    using old by (simp add: info_ok_def)
  note res = promise_result [OF ok assms(4,5,6)]
  note same = handle_msg_promise_frame(5) [OF assms(5)]
  obtain d where "(d, Ack_prepare ack) \<in> set (sl_net S)" "d = None \<or> d = Some k"
    using deliverable_in [OF assms(3)] by blast
  then have ack: "(Some k, Ack_prepare ack) \<in> set (sl_net S)" "ballot_owner (ackp_ballot ack) = k"
    "asked S (ackp_ballot ack)"
    using inv unfolding net_ok_def by auto
  have "ackp_ballot ack \<le> curr_ballot (curr_proposer info)"
    using old ack(2,3) by blast
  then have now: "ackp_ballot ack = curr_ballot (curr_proposer info)"
    using res(1) by (rule order_antisym)
  show known: "(Some k, Ack_prepare a) \<in> set (sl_net S)
      \<and> sender (ackp_header a) = j \<and> ackp_ballot a = curr_ballot p'"
    if at: "map_find (ack_prepares p') j = Some a" for j a
  proof (cases "j = sender (ackp_header ack)")
    case True
    then have "a = ack"
      using at ok by (simp add: res(2) proposer_ok_def)
    then show ?thesis
      using ack(1) now True same by simp
  next
    case False
    then have "map_find (ack_prepares (curr_proposer info)) j = Some a"
      using at ok by (simp add: res(2) proposer_ok_def)
    then show ?thesis
      using old same by simp
  qed
  show "max_ballot p' < curr_ballot p' \<and> (\<exists>w. max_prop p' = Some w \<and> proposed S (max_ballot p') (pv_id w))"
    if "max_ballot p' \<noteq> 0"
    using res(3)
  proof
    assume "max_ballot p' = max_ballot (curr_proposer info) \<and> max_prop p' = max_prop (curr_proposer info)"
    then show ?thesis using old that by (simp add: same)
  next
    assume "\<exists>j a. map_find (ack_prepares p') j = Some a \<and> ackp_reply a
      \<and> max_ballot p' = ackp_max_ballot a \<and> max_ballot p' \<noteq> 0 \<and> max_prop p' = Some (reported_value a)"
    then obtain j a where a: "map_find (ack_prepares p') j = Some a" "ackp_reply a"
      "max_ballot p' = ackp_max_ballot a" "max_prop p' = Some (reported_value a)" by blast
    have "(Some k, Ack_prepare a) \<in> set (sl_net S)"
      using known [OF a(1)] by blast
    then have "ackp_max_ballot a < ackp_ballot a
        \<and> (\<exists>v. ackp_max_value a = Some v \<and> proposed S (ackp_max_ballot a) (pv_id v))"
      using inv a(2) that unfolding promises_inv_def promise_ok_def a(3) by blast
    then show ?thesis
      using a known by (auto simp: reported_value_def)
  qed
qed

text \<open>What a voter that promised will not do: go below the ballot, or have voted above the highest it reported.\<close>

lemma voter_promised:
  assumes "paxos_inv views n m S" and "handle_msg_promise ack p = (p', CONTINUE)" and "proposer_ok p"
    and known: "\<And>j a. map_find (ack_prepares p') j = Some a \<Longrightarrow> (Some k, Ack_prepare a) \<in> set (sl_net S)
      \<and> sender (ackp_header a) = j \<and> ackp_ballot a = curr_ballot p'"
    and "j \<in> promise_voters (ack_prepares p')"
  shows "j \<in> hosts n" "b < curr_ballot p' \<Longrightarrow> closed_at S j b"
    "voted S j b \<Longrightarrow> b < curr_ballot p' \<Longrightarrow> b \<le> max_ballot p'"
proof -
  note inv = assms(1) [unfolded paxos_inv_def]
  obtain a where a: "map_find (ack_prepares p') j = Some a" "ackp_reply a"
    using assms(5) by (auto simp: promise_voters_def)
  have le: "ackp_max_ballot a \<le> max_ballot p'"
    using promise_value_facts [OF assms(3,2)] assms(5) a(1) by auto
  have mem: "(Some k, Ack_prepare a) \<in> set (sl_net S)" "sender (ackp_header a) = j" "ackp_ballot a = curr_ballot p'"
    using known [OF a(1)] by blast+
  show "j \<in> hosts n"
    using inv mem(1) unfolding net_ok_def mem(2) [symmetric] hosts_def by blast
  have "promises_inv S"
    using inv by blast
  then have "curr_ballot p' \<le> max_proposed_ballot (sl_acceptors S j)"
    and low: "\<forall>b. voted S j b \<longrightarrow> b < curr_ballot p' \<longrightarrow> b \<le> ackp_max_ballot a"
    using mem(1) a(2) unfolding promises_inv_def promise_ok_def mem(2,3) [symmetric] by blast+
  then show "closed_at S j b" if "b < curr_ballot p'"
    using that unfolding closed_at_def by (meson less_le_trans)
  show "b \<le> max_ballot p'" if "voted S j b" "b < curr_ballot p'"
    using low that le by (meson order_trans)
qed

text \<open>
  The heart of the protocol: if a quorum has closed what is below a ballot and voted for nothing
  above \<open>mb\<close>, then what was proposed at \<open>mb\<close> is safe, and any value if \<open>mb\<close> is 0.
\<close>

lemma quorum_makes_safe:
  assumes "paxos_inv views n m S" and "is_quorum n Q"
    and closed: "\<And>j b'. j \<in> Q \<Longrightarrow> b' < b \<Longrightarrow> closed_at S j b'"
    and low: "\<And>j b'. j \<in> Q \<Longrightarrow> voted S j b' \<Longrightarrow> b' < b \<Longrightarrow> b' \<le> mb"
    and "mb \<noteq> 0 \<Longrightarrow> proposed S mb v"
  shows "safe_at n S b v"
  unfolding safe_at_def
proof (intro allI impI)
  note inv = assms(1) [unfolded paxos_inv_def]
  fix b' assume less: "b' < b"
  have high: "0 < b'" if "voted S j b'" for j
  proof -
    have "first_ballot m \<le> b'"
      using inv that unfolding acceptors_inv_def Let_def by blast
    then have "65536 \<le> b'"
      using first_ballot_ge by (rule order_trans [rotated])
    then show ?thesis
      by (simp add: word_neq_0_conv [symmetric]) auto
  qed
  consider "b' < mb" "mb \<noteq> 0" | "b' = mb" "mb \<noteq> 0" | "mb < b' \<or> mb = 0" by fastforce
  then show "\<exists>Q. is_quorum n Q \<and> (\<forall>a \<in> Q. closed_at S a b' \<and> (voted S a b' \<longrightarrow> proposed S b' v))"
  proof cases
    case 1
    then have "safe_at n S mb v"
      using inv assms(5) unfolding safe_inv_def by blast
    then show ?thesis using 1 unfolding safe_at_def by blast
  next
    case 2
    then show ?thesis using assms(2,5) closed less by blast
  next
    case 3
    then have "\<not> voted S j b'" if "j \<in> Q" for j
      using low [OF that _ less] high by (metis leD)
    then show ?thesis using assms(2) closed less by blast
  qed
qed

text \<open>The value a proposer takes into phase II is safe at its ballot.\<close>

lemma phase_two_safe:
  assumes "cluster views n" and "paxos_inv views n m S" and "unat k < n"
    and "info_ok (q_size (views k)) info" and cont: "handle_msg_promise ack (curr_proposer info) = (p', CONTINUE)"
    and val: "curr_value p' = Some w"
    and known: "\<And>j a. map_find (ack_prepares p') j = Some a \<Longrightarrow> (Some k, Ack_prepare a) \<in> set (sl_net S)
      \<and> sender (ackp_header a) = j \<and> ackp_ballot a = curr_ballot p'"
    and told: "max_ballot p' \<noteq> 0 \<Longrightarrow> max_ballot p' < curr_ballot p'
      \<and> (\<exists>w. max_prop p' = Some w \<and> proposed S (max_ballot p') (pv_id w))"
  shows "safe_at n S (curr_ballot p') (pv_id w)"
proof (rule quorum_makes_safe [OF assms(2)])
  have ok: "proposer_ok (curr_proposer info)" and q: "qr (curr_proposer info) = q_size (views k)"
    using assms(4) by (simp_all add: info_ok_def)
  note facts = promise_value_facts [OF ok cont]
  note promised = voter_promised [OF assms(2) cont ok known]
  show "is_quorum n (promise_voters (ack_prepares p'))"
    using facts promised(1) cluster_q [OF assms(1,3)] by (auto simp: is_quorum_def q)
  show "closed_at S j b" if "j \<in> promise_voters (ack_prepares p')" "b < curr_ballot p'" for j b
    using promised(2) that by blast
  show "b \<le> max_ballot p'" if "j \<in> promise_voters (ack_prepares p')" "voted S j b" "b < curr_ballot p'" for j b
    using promised(3) that by blast
  show "proposed S (max_ballot p') (pv_id w)" if "max_ballot p' \<noteq> 0"
    using told [OF that] facts val that by auto
qed

text \<open>A proposer that enters phase II with a value that is safe.\<close>

lemma phase_two_inv:
  assumes "cluster views n" and "paxos_inv views n m S" and k: "unat k < n"
    and p: "curr_proposer info' = curr_proposer info" "ack_accepts (curr_proposer info) = []"
      "info_ok (q_size (views k)) info'"
    and w: "curr_value (curr_proposer info) = Some w" "safe_at n S (curr_ballot (curr_proposer info)) (pv_id w)"
    and fresh: "\<And>v. \<not> proposed S (curr_ballot (curr_proposer info)) v"
    and base: "k \<in> set (sl_started S)" "ballot_owner (curr_ballot (curr_proposer info)) = k"
      "first_ballot k \<le> curr_ballot (curr_proposer info)"
      "\<And>b. asked S b \<Longrightarrow> ballot_owner b = k \<Longrightarrow> b \<le> curr_ballot (curr_proposer info)"
      "\<And>b v. proposed S b v \<Longrightarrow> ballot_owner b = k \<Longrightarrow> b \<le> curr_ballot (curr_proposer info)"
    and known: "\<And>j a. map_find (ack_prepares (curr_proposer info)) j = Some a \<Longrightarrow> (Some k, Ack_prepare a) \<in> set (sl_net S)
      \<and> sender (ackp_header a) = j \<and> ackp_ballot a = curr_ballot (curr_proposer info)"
    and told: "max_ballot (curr_proposer info) \<noteq> 0 \<Longrightarrow> max_ballot (curr_proposer info) < curr_ballot (curr_proposer info)
      \<and> (\<exists>w. max_prop (curr_proposer info) = Some w \<and> proposed S (max_ballot (curr_proposer info)) (pv_id w))"
  shows "paxos_inv views n m (send [(None, Accept (accept_request k s info))] (set_proposer k (Some info') S))"
    (is "paxos_inv _ _ _ ?S'")
proof -
  let ?r = "accept_request k s info"
  obtain T where T: "T = ?S'" by blast
  have r: "acc_ballot ?r = curr_ballot (curr_proposer info)" "acc_value ?r = w" "sender (acc_header ?r) = k"
    by (simp_all add: accept_request_def Proposer.msg_accept_def w Let_def sender_def)
  have net: "sl_net T = sl_net S @ request_list (Some (Accept ?r))" by (simp add: T)
  have req: "\<forall>x. Some (Accept ?r) = Some x \<longrightarrow> request_ok n S k x"
    using base fresh w(2) by (simp add: request_ok_def r)
  note h = history_request [OF net req]
  have "paxos_inv views n m T"
  proof (rule proposer_step_inv [OF assms(1,2) k net req])
    have "\<exists>u. max_prop (curr_proposer info) = Some u \<and> proposed T (max_ballot (curr_proposer info)) (pv_id u)"
      if "max_ballot (curr_proposer info) \<noteq> 0"
      using told [OF that] h(3) by blast
    moreover have "proposed T (curr_ballot (curr_proposer info)) v \<longleftrightarrow> v = pv_id w" for v
      using fresh by (auto simp: h(3) r)
    moreover have "b \<le> curr_ballot (curr_proposer info)" if "proposed T b v" "ballot_owner b = k" for b v
      using that base(5) by (auto simp: h(3) r)
    moreover have "b \<le> curr_ballot (curr_proposer info)" if "asked T b" "ballot_owner b = k" for b
      using that base(4) by (auto simp: h(2))
    moreover have "k \<in> set (sl_started T)" "set (sl_net S) \<subseteq> set (sl_net T)"
      using base(1) by (auto simp: T)
    ultimately show "proposer_inv (views k) T k info'"
      unfolding proposer_inv_def Let_def p(1) using base(2,3) known told p(2,3) w by auto
  qed (use base in \<open>auto simp: T\<close>)
  then show ?thesis by (simp add: T)
qed

text \<open>A promise that is counted: wait for more, start over, or enter phase II.\<close>

lemma recv_promise_live:
  assumes "cluster views n" and "paxos_inv views n m S" and at: "sl_proposers S k = Some info"
    and "deliverable k (Ack_prepare ack) S" and wrap: "no_ballot_wrap (curr_ballot (curr_proposer info))"
    and run: "promise_info k s ack info = (info', om)" and step: "handle_msg_promise ack (curr_proposer info) = (p', t)"
    and live: "pi_status info = INIT \<or> pi_status info = PHASEI" "t \<noteq> DROP"
  shows "paxos_inv views n m (send (request_list om) (set_proposer k (Some info') S))"
proof -
  have k: "unat k < n" and old: "proposer_inv (views k) S k info"
    using assms(2) at by (simp_all add: paxos_inv_def proposers_inv_def)
  note old' = old [unfolded proposer_inv_def Let_def]
  have ok: "info_ok (q_size (views k)) info" using old' by blast
  note ok' = promise_info_ok(1) [OF ok run]
  let ?info1 = "info\<lparr>pi_status := PHASEI, curr_proposer := p'\<rparr>"
  have none: "curr_value (curr_proposer info) = None"
    using ok live(1) by (auto simp: info_ok_def)
  note known = promise_known [OF assms(2) old assms(4) none step live(2)]
  note frame = handle_msg_promise_frame [OF step]
  have p_ok: "proposer_ok p'" "qr p' = q_size (views k)" "qw p' = q_size (views k)" "ack_accepts p' = []"
    using ok proposer_ok_promise' [OF _ step] frame live(1) by (auto simp: info_ok_def)
  have fresh: "\<not> proposed S (curr_ballot p') v" for v
    using old' none frame(5) by auto
  have base: "k \<in> set (sl_started S)" "ballot_owner (curr_ballot p') = k" "first_ballot k \<le> curr_ballot p'"
    "\<And>b. asked S b \<Longrightarrow> ballot_owner b = k \<Longrightarrow> b \<le> curr_ballot p'"
    "\<And>b v. proposed S b v \<Longrightarrow> ballot_owner b = k \<Longrightarrow> b \<le> curr_ballot p'"
    using old' unfolding frame(5) by blast+
  show ?thesis
  proof (cases t)
    case NOT_ENOUGH
    then have res: "info' = ?info1" "om = None"
      using run live(1) step by (auto simp: promise_info_def)
    have "curr_value p' = None"
      using promise_result(4) [OF _ none step live(2)] ok NOT_ENOUGH by (simp add: info_ok_def)
    then have "proposer_inv (views k) S k info'"
      unfolding proposer_inv_def Let_def using ok' base fresh known p_ok(4) by (auto simp: res(1))
    then show ?thesis
      using store_inv [OF assms(1,2) at] res(2) by simp
  next
    case RESTART
    obtain r where re: "restart_info k s ?info1 = (info', r)" and om: "om = Some (Prepare r)"
      using run live(1) step RESTART by (auto simp: promise_info_def split: prod.splits)
    have "paxos_inv views n m (send [(None, Prepare r)] (set_proposer k (Some info') S))"
      by (rule restart_inv [OF assms(1,2) at re]) (use wrap p_ok frame(5) known(2) in simp_all)
    then show ?thesis by (simp add: om)
  next
    case CONTINUE
    have res: "info' = ?info1\<lparr>pi_status := PHASEII\<rparr>" "om = Some (Accept (accept_request k s ?info1))"
      using run live(1) step CONTINUE by (auto simp: promise_info_def)
    obtain w where w: "curr_value p' = Some w"
      using frame(7) [OF none] CONTINUE by auto
    have safe: "safe_at n S (curr_ballot p') (pv_id w)"
      using phase_two_safe [OF assms(1,2) k ok step [unfolded CONTINUE] w] known by blast
    have "paxos_inv views n m (send [(None, Accept (accept_request k s ?info1))] (set_proposer k (Some info') S))"
      by (rule phase_two_inv [OF assms(1,2) k, where w = w]) (use ok' res(1) p_ok w safe fresh base known in simp_all)
    then show ?thesis by (simp add: res(2))
  qed (use live(2) frame(6) in simp_all)
qed

lemma recv_promise_inv:
  assumes "cluster views n" and "paxos_inv views n m S" and at: "sl_proposers S k = Some info"
    and "deliverable k (Ack_prepare ack) S" and wrap: "no_ballot_wrap (curr_ballot (curr_proposer info))"
    and run: "promise_info k s ack info = (info', om)"
  shows "paxos_inv views n m (send (request_list om) (set_proposer k (Some info') S))"
proof -
  have k: "unat k < n" and old: "proposer_inv (views k) S k info"
    using assms(2) at by (simp_all add: paxos_inv_def proposers_inv_def)
  note old' = old [unfolded proposer_inv_def Let_def]
  have ok: "info_ok (q_size (views k)) info" using old' by blast
  note ok' = promise_info_ok(1) [OF ok run]
  obtain p' t where step: "handle_msg_promise ack (curr_proposer info) = (p', t)"
    by (cases "handle_msg_promise ack (curr_proposer info)")
  consider (no) "om = None" "curr_proposer info' = curr_proposer info"
    | (live) "pi_status info = INIT \<or> pi_status info = PHASEI" "t \<noteq> DROP"
    using run step handle_msg_promise_frame(6) [OF step] ok
    by (cases "pi_status info") (auto simp: promise_info_def handle_msg_promise_def Let_def info_ok_def
        split: if_splits prod.splits)
  then show ?thesis
  proof cases
    case no
    have "proposer_inv (views k) S k info'"
      using old' ok' unfolding proposer_inv_def Let_def no(2) by blast
    then show ?thesis
      using store_inv [OF assms(1,2) at] no(1) by simp
  next
    case live
    show ?thesis by (rule recv_promise_live [OF assms step live])
  qed
qed

section \<open>Votes counted\<close>

text \<open>A reply kept by a proposer in phase II is a reply to its accept request.\<close>

lemma accepted_known:
  assumes "paxos_inv views n m S" and "proposer_inv v S k info" and "deliverable k (Ack_accept ack) S"
    and live: "\<not> (acka_ballot ack < curr_ballot (curr_proposer info) \<or> curr_value (curr_proposer info) = None)"
    and at: "map_find (ack_accepts (store_accepted ack (curr_proposer info))) j = Some a"
  shows "(Some k, Ack_accept a) \<in> set (sl_net S) \<and> sender (acka_header a) = j
    \<and> acka_ballot a = curr_ballot (curr_proposer info)"
proof -
  note inv = assms(1) [unfolded paxos_inv_def] and old = assms(2) [unfolded proposer_inv_def Let_def]
  have ok: "map_ok (ack_accepts (curr_proposer info))"
    using old by (simp add: info_ok_def proposer_ok_def)
  obtain d where d: "(d, Ack_accept ack) \<in> set (sl_net S)" "d = None \<or> d = Some k"
    using deliverable_in [OF assms(3)] by blast
  then have ack: "(Some k, Ack_accept ack) \<in> set (sl_net S)" "ballot_owner (acka_ballot ack) = k"
    "\<exists>v. proposed S (acka_ballot ack) v"
    using inv unfolding net_ok_def by auto
  have "acka_ballot ack \<le> curr_ballot (curr_proposer info)"
    using old ack(2,3) by blast
  then have now: "acka_ballot ack = curr_ballot (curr_proposer info)"
    using live by auto
  show ?thesis
  proof (cases "j = sender (acka_header ack)")
    case True
    then show ?thesis
      using at ok ack(1) now by auto
  next
    case False
    then have "map_find (ack_accepts (curr_proposer info)) j = Some a"
      using at ok by simp
    then show ?thesis
      using old by blast
  qed
qed

text \<open>Enough stored yes replies are a decision.\<close>

lemma voters_decide:
  assumes "cluster views n" and "paxos_inv views n m S" and "unat k < n"
    and known: "\<And>j a. map_find acks j = Some a \<Longrightarrow> (Some k, Ack_accept a) \<in> set (sl_net S)
      \<and> sender (acka_header a) = j \<and> acka_ballot a = b"
    and enough: "unat (q_size (views k)) \<le> card (accept_voters acks)" and "proposed S b w"
  shows "decided_at n S b w"
proof -
  note inv = assms(2) [unfolded paxos_inv_def]
  have vote: "j \<in> hosts n \<and> voted S j b" if voter: "j \<in> accept_voters acks" for j
  proof -
    obtain a where a: "map_find acks j = Some a" "acka_reply a"
      using voter by (auto simp: accept_voters_def)
    have mem: "(Some k, Ack_accept a) \<in> set (sl_net S)" "sender (acka_header a) = j" "acka_ballot a = b"
      using known [OF a(1)] by blast+
    have "unat j < n"
      using inv mem(1) unfolding net_ok_def mem(2) [symmetric] by blast
    then show ?thesis
      using mem a(2) unfolding voted_def hosts_def by blast
  qed
  have "is_quorum n (accept_voters acks)"
    using vote enough cluster_q [OF assms(1,3)] by (auto simp: is_quorum_def)
  then show ?thesis
    using vote assms(6) unfolding decided_at_def by blast
qed

text \<open>A proposer that is done leaves the slot with its value chosen.\<close>

lemma chosen_step_inv:
  assumes "paxos_inv views n m S" and "decided_at n S b (pv_id w)"
  shows "paxos_inv views n m (set_proposer k None (S\<lparr>sl_chosen := sl_chosen S @ [w]\<rparr>))"
    (is "paxos_inv _ _ _ ?S'")
proof -
  obtain T where T: "T = ?S'" by blast
  note inv = assms(1) [unfolded paxos_inv_def]
  have net: "sl_net T = sl_net S" by (simp add: T)
  note h = history_net [OF net]
  have other: "sl_acceptors T = sl_acceptors S" "sl_started T = sl_started S"
    "sl_proposers T = (sl_proposers S)(k := None)" "sl_chosen T = sl_chosen S @ [w]"
    by (simp_all add: T)
  have safe: "safe_at n T = safe_at n S" and decided: "decided_at n T = decided_at n S"
    by (simp_all add: fun_eq_iff safe_at_def decided_at_def closed_at_def h other)
  have "proposers_inv views n T"
    using inv by (auto simp: proposers_inv_def proposer_inv_def h net other)
  then have "paxos_inv views n m T"
    using inv assms(2) unfolding paxos_inv_def net_ok_def unique_ok_def acceptors_inv_def promises_inv_def promise_ok_def
      safe_inv_def chosen_inv_def h net other(1,2) safe decided
    by (auto simp: other(4))
  then show ?thesis by (simp add: T)
qed

text \<open>The result of the ACCEPTED case.\<close>

definition accepted_state :: "node_id \<Rightarrow> 'n accepted_result \<Rightarrow> 'n slot_state \<Rightarrow> 'n slot_state" where
  "accepted_state k r S = (case r of
       Still info' \<Rightarrow> set_proposer k (Some info') S
     | Chosen info' \<Rightarrow> set_proposer k None
         (S\<lparr>sl_chosen := sl_chosen S @ (case get_chosen_value (curr_proposer info') of None \<Rightarrow> [] | Some v \<Rightarrow> [v])\<rparr>)
     | Restarted info' p \<Rightarrow> send [(None, Prepare p)] (set_proposer k (Some info') S))"

text \<open>What the ACCEPTED case does with a reply that counts.\<close>

lemma accepted_info_cases:
  assumes "pi_status info = PHASEII" and "info_ok q info"
    and live: "\<not> (acka_ballot ack < curr_ballot (curr_proposer info) \<or> curr_value (curr_proposer info) = None)"
    and p': "p' = store_accepted ack (curr_proposer info)"
  obtains (wait) "accepted_info k s ack info = Still (info\<lparr>curr_proposer := p'\<rparr>)"
  | (choose) "accepted_info k s ack info = Chosen (info\<lparr>curr_proposer := p', pi_status := CHOSEN\<rparr>)"
      "unat q \<le> card (accept_voters (ack_accepts p'))"
  | (restart) info2 r where "restart_info k s (info\<lparr>curr_proposer := p'\<rparr>) = (info2, r)"
      "accepted_info k s ack info = Restarted info2 r"
proof -
  have "map_ok (ack_accepts (curr_proposer info))" "qw (curr_proposer info) = q"
    using assms(2) by (simp_all add: info_ok_def proposer_ok_def)
  then have "handle_msg_accepted ack (curr_proposer info) = (p',
      if length (ack_accepts p') < unat q then NOT_ENOUGH
      else if unat q \<le> card (accept_voters (ack_accepts p')) then CHOOSE else RESTART)"
    using handle_msg_accepted_live [OF live _ refl] unfolding p' by metis
  then show thesis
    using that assms(1)
    by (cases "restart_info k s (info\<lparr>curr_proposer := p'\<rparr>)") (auto simp: accepted_info_def split: if_splits)
qed

lemma recv_accepted_inv:
  assumes "cluster views n" and "paxos_inv views n m S" and at: "sl_proposers S k = Some info"
    and "deliverable k (Ack_accept ack) S" and wrap: "no_ballot_wrap (curr_ballot (curr_proposer info))"
  shows "paxos_inv views n m (accepted_state k (accepted_info k s ack info) S)"
proof -
  let ?p = "curr_proposer info"
  let ?p' = "store_accepted ack ?p"
  have k: "unat k < n" and old: "proposer_inv (views k) S k info"
    using assms(2) at by (simp_all add: paxos_inv_def proposers_inv_def)
  note old' = old [unfolded proposer_inv_def Let_def]
  have ok: "info_ok (q_size (views k)) info" using old' by blast
  show ?thesis
  proof (cases "pi_status info = PHASEII \<and> \<not> (acka_ballot ack < curr_ballot ?p \<or> curr_value ?p = None)")
    case False
    then have "accepted_info k s ack info = Still info"
      using handle_msg_accepted_drop [of ack ?p] by (auto simp: accepted_info_def)
    then show ?thesis
      using store_inv [OF assms(1,2) at old] by (simp add: accepted_state_def)
  next
    case True
    then have live: "pi_status info = PHASEII" "\<not> (acka_ballot ack < curr_ballot ?p \<or> curr_value ?p = None)" by blast+
    note known = accepted_known [OF assms(2) old assms(4) live(2)]
    from live(1) ok live(2) refl [of ?p'] show ?thesis
    proof (cases rule: accepted_info_cases [where k = k and s = s])
      case wait
      have "info_ok (q_size (views k)) (info\<lparr>curr_proposer := ?p'\<rparr>)"
        using accepted_info_ok [OF ok, where me = k and s = s and ack = ack] wait by simp
      then have "proposer_inv (views k) S k (info\<lparr>curr_proposer := ?p'\<rparr>)"
        using old' known unfolding proposer_inv_def Let_def by auto
      then show ?thesis
        using store_inv [OF assms(1,2) at] by (simp add: accepted_state_def wait)
    next
      case choose
      obtain w where w: "curr_value ?p = Some w" using live by auto
      then have "proposed S (curr_ballot ?p) (pv_id w)"
        using old' by blast
      then have "decided_at n S (curr_ballot ?p) (pv_id w)"
        using voters_decide [OF assms(1,2) k known] choose(2) by blast
      then show ?thesis
        using chosen_step_inv [OF assms(2)] w by (simp add: accepted_state_def choose(1) get_chosen_value_def)
    next
      case (restart info2 r)
      have p_ok: "proposer_ok ?p'" "qr ?p' = q_size (views k)" "qw ?p' = q_size (views k)"
        using ok by (simp_all add: info_ok_def proposer_ok_def store_accepted_def)
      have "paxos_inv views n m (send [(None, Prepare r)] (set_proposer k (Some info2) S))"
        by (rule restart_inv [OF assms(1,2) at restart(1)]) (use wrap p_ok old' in auto)
      then show ?thesis by (simp add: accepted_state_def restart(2))
    qed
  qed
qed

section \<open>All reachable states\<close>

lemma slot_init_inv:
  assumes "slot_init m S"
  shows "paxos_inv views n m S"
proof -
  have empty: "\<not> voted S a b" "\<not> proposed S b v" "\<not> asked S b" for a b v
    using assms by (auto simp: slot_init_def history_defs)
  have "acceptors_inv m S"
    unfolding acceptors_inv_def Let_def
  proof
    fix a
    have "sl_acceptors S a = update_max_proposed (first_ballot m) new_acceptor
        \<or> m = 0 \<and> sl_acceptors S a = new_acceptor"
      using assms by (simp add: slot_init_def)
    then show "acceptor_ok (sl_acceptors S a)
      \<and> (first_ballot m \<le> max_proposed_ballot (sl_acceptors S a) \<or> m = 0)
      \<and> (max_accepted_ballot (sl_acceptors S a) \<noteq> 0 \<longrightarrow>
           (\<exists>v. max_value (sl_acceptors S a) = Some v
             \<and> proposed S (max_accepted_ballot (sl_acceptors S a)) (pv_id v)))
      \<and> (\<forall>b. voted S a b \<longrightarrow> b \<le> max_accepted_ballot (sl_acceptors S a) \<and> first_ballot m \<le> b)"
      using empty acceptor_ok_init
      by (auto simp: update_max_proposed_def new_acceptor_def acceptor_ok_def)
  qed
  then show ?thesis
    using assms empty unfolding paxos_inv_def net_ok_def unique_ok_def proposers_inv_def promises_inv_def promise_ok_def
      safe_inv_def chosen_inv_def slot_init_def by simp
qed

lemma slot_do_inv:
  assumes "cluster views n" and "paxos_inv views n m S" and "slot_do views n m s e S = Some S'"
  shows "paxos_inv views n m S'"
proof (cases e)
  case (Start_fast v name)
  then show ?thesis
    using assms(3) start_fast_inv [OF assms(1,2)] by (auto simp: Let_def split: if_splits)
next
  case (Start_prepare k tries v name)
  then show ?thesis
    using assms(3) start_prepare_inv [OF assms(1,2)] by (auto simp: Let_def split: if_splits prod.splits)
next
  case (Recv_prepare a p)
  then show ?thesis
    using assms(3) recv_prepare_inv [OF assms(1,2)] by (auto split: if_splits prod.splits)
next
  case (Recv_accept a r)
  then show ?thesis
    using assms(3) recv_accept_inv [OF assms(1,2)] by (auto split: if_splits prod.splits)
next
  case (Recv_promise k ack)
  then obtain info info' om where info: "sl_proposers S k = Some info" "deliverable k (Ack_prepare ack) S"
      "no_ballot_wrap (curr_ballot (curr_proposer info))" "promise_info k s ack info = (info', om)"
      and S': "S' = send (request_list om) (set_proposer k (Some info') S)"
    using assms(3) unfolding request_list_def by (auto split: if_splits option.splits prod.splits)
  show ?thesis
    unfolding S' by (rule recv_promise_inv [OF assms(1,2) info])
next
  case (Recv_accepted k ack)
  then obtain info where info: "sl_proposers S k = Some info" "deliverable k (Ack_accept ack) S"
      "no_ballot_wrap (curr_ballot (curr_proposer info))"
      and S': "S' = accepted_state k (accepted_info k s ack info) S"
    using assms(3) by (auto simp: accepted_state_def split: if_splits option.splits)
  show ?thesis
    unfolding S' by (rule recv_accepted_inv [OF assms(1,2) info])
qed

lemma slot_reach_inv:
  assumes "slot_reach views n m s S" and "cluster views n"
  shows "paxos_inv views n m S"
  using assms
proof (induction rule: slot_reach.induct)
  case (slot_start S)
  then show ?case by (blast intro: slot_init_inv)
next
  case (slot_step S e S')
  then show ?case by (blast intro: slot_do_inv)
qed

lemma chosen_agree:
  assumes "cluster views n" and "slot_reach views n m s S"
    and "v \<in> set (sl_chosen S)" and "w \<in> set (sl_chosen S)"
  shows "pv_id v = pv_id w"
proof -
  have inv: "paxos_inv views n m S"
    by (rule slot_reach_inv [OF assms(2,1)])
  then obtain b c where "decided_at n S b (pv_id v)" "decided_at n S c (pv_id w)"
    using assms(3,4) unfolding paxos_inv_def chosen_inv_def by blast
  then show ?thesis
    by (rule decided_unique [OF assms(1) inv])
qed

end
