(* ===== verification/Paxos_Runs.thy ===== *)
theory Paxos_Runs
  imports Paxos_Safety
begin

text \<open>
  The theorems about one slot: agreement, the abstract specification of consensus it refines,
  and validity, with a run of three nodes in which two proposers compete.
\<close>

section \<open>Runs\<close>

fun slot_run :: "(node_id \<Rightarrow> view) \<Rightarrow> nat \<Rightarrow> node_id \<Rightarrow> slot_id \<Rightarrow> 'n slot_event list \<Rightarrow> 'n slot_state \<Rightarrow>
    'n slot_state option" where
  "slot_run views n m s [] S = Some S"
| "slot_run views n m s (e # es) S =
     (case slot_do views n m s e S of None \<Rightarrow> None | Some S' \<Rightarrow> slot_run views n m s es S')"

lemma slot_run_reach:
  "slot_run views n m s es S = Some S' \<Longrightarrow> slot_reach views n m s S \<Longrightarrow> slot_reach views n m s S'"
proof (induction es arbitrary: S)
  case (Cons e es)
  then show ?case by (auto split: option.splits intro: slot_reach.slot_step)
qed simp

text \<open>A slot of the lease in a cluster of three, master node 0.\<close>

definition slot_0 :: "unit slot_state" where
  "slot_0 = \<lparr>sl_acceptors = (\<lambda>_. update_max_proposed 65536 new_acceptor), sl_proposers = Map.empty,
     sl_started = [], sl_net = [], sl_chosen = []\<rparr>"

lemma slot_init_0: "slot_init 0 slot_0"
  by (simp add: slot_init_def slot_0_def first_ballot_0)

lemma cluster_3: "cluster view_3 3"
proof -
  have "view_ok (view_3 k) \<and> whoami (view_3 k) = k \<and> host_count (view_3 k) = 3" if "unat k < 3" for k
    using view_ok_view_3 [OF that] by (simp add: view_3_def whoami_def)
  then show ?thesis by (simp add: cluster_def)
qed

text \<open>
  The master's value is chosen by nodes 0 and 1; node 1 then asks nodes 1 and 2, hears of
  it from node 1, and proposes it again.
\<close>

definition prepare_1 :: "msg_prepare" where
  "prepare_1 = prepare_request 1 (snd (recommit_info (view_3 1) 2 value_1 ()))"

definition contest_1 :: "unit slot_event list" where
  "contest_1 =
     [Start_fast value_0 (),
      Recv_accept 0 (accept_request 0 1 (fast_info (view_3 0) value_0 ())),
      Recv_accept 1 (accept_request 0 1 (fast_info (view_3 0) value_0 ())),
      Recv_accepted 0 (yes_accepted 0 65536),
      Recv_accepted 0 (yes_accepted 1 65536),
      Start_prepare 1 2 value_1 (),
      Recv_prepare 1 prepare_1,
      Recv_prepare 2 prepare_1,
      Recv_promise 1 (yes_promise 2 65537),
      Recv_promise 1 (voted_promise 1 65537 65536 value_0),
      Recv_accept 1 (accept_of 65537 value_0\<lparr>acc_header := set_msg_header 1 ACCEPT 1\<rparr>),
      Recv_accept 2 (accept_of 65537 value_0\<lparr>acc_header := set_msg_header 1 ACCEPT 1\<rparr>),
      Recv_accepted 1 (yes_accepted 2 65537),
      Recv_accepted 1 (yes_accepted 1 65537)]"

lemma contest_1_run:
  "map_option sl_chosen (slot_run view_3 3 0 1 contest_1 slot_0) = Some [value_0, value_0]"
  by code_simp

section \<open>Consensus\<close>

text \<open>
  What a slot promises: it decides at most once. The decision is a matter of the votes that
  were cast, whether or not any node knows of it yet.
\<close>

definition decided :: "nat \<Rightarrow> 'n slot_state \<Rightarrow> value_id set" where
  "decided n S = {v. \<exists>b. decided_at n S b v}"

definition consensus_step :: "'v set \<Rightarrow> 'v set \<Rightarrow> bool" where
  "consensus_step D D' \<longleftrightarrow> D' = D \<or> D = {} \<and> (\<exists>v. D' = {v})"

lemma slot_do_net: "slot_do views n m s e S = Some S' \<Longrightarrow> set (sl_net S) \<subseteq> set (sl_net S')"
  by (cases e) (auto simp: Let_def split: if_splits option.splits prod.splits accepted_result.splits)

lemma decided_net: "set (sl_net S) \<subseteq> set (sl_net S') \<Longrightarrow> decided n S \<subseteq> decided n S'"
  unfolding decided_def decided_at_def history_defs by blast

lemma decided_one:
  assumes "cluster views n" and "paxos_inv views n m S" and "v \<in> decided n S"
  shows "decided n S = {v}"
  using assms(3) decided_unique [OF assms(1,2)] unfolding decided_def by blast

lemma decided_init: "slot_init m S \<Longrightarrow> decided n S = {}"
  by (auto simp: slot_init_def decided_def decided_at_def history_defs)

text \<open>
  C12. A slot refines consensus: the decision, made when a quorum has voted for one value at
  one ballot, goes from none to one value and never changes after that, and every value a
  proposer takes as chosen is the decision.
\<close>

theorem slot_refines_consensus:
  assumes "cluster views n" and "slot_reach views n m s S" and "slot_do views n m s e S = Some S'"
  shows "consensus_step (decided n S) (decided n S') \<and> pv_id ` set (sl_chosen S') \<subseteq> decided n S'"
proof
  have inv: "paxos_inv views n m S'"
    using slot_do_inv [OF assms(1) slot_reach_inv [OF assms(2,1)] assms(3)] .
  then show "pv_id ` set (sl_chosen S') \<subseteq> decided n S'"
    by (auto simp: paxos_inv_def chosen_inv_def decided_def)
  have "decided n S \<subseteq> decided n S'"
    by (rule decided_net [OF slot_do_net [OF assms(3)]])
  moreover have "decided n S' = {} \<or> (\<exists>v. decided n S' = {v})"
    using decided_one [OF assms(1) inv] by blast
  ultimately show "consensus_step (decided n S) (decided n S')"
    unfolding consensus_step_def by (metis subset_empty subset_singletonD)
qed

theorem slot_refines_consensus_witness:
  "\<exists>S. slot_do view_3 3 0 1 (Start_fast value_0 ()) slot_0 = Some S
     \<and> consensus_step (decided 3 slot_0) (decided 3 S)"
proof -
  obtain S where S: "slot_do view_3 3 0 1 (Start_fast value_0 ()) slot_0 = Some S"
    by (simp add: slot_0_def Let_def)
  have "slot_reach view_3 3 0 1 slot_0"
    by (rule slot_reach.slot_start [OF slot_init_0])
  from slot_refines_consensus [OF cluster_3 this S] S show ?thesis by blast
qed

section \<open>Validity\<close>

text \<open>Every value in the system is one that a start event brought in.\<close>

definition valid_msg :: "prop_value set \<Rightarrow> msg \<Rightarrow> bool" where
  "valid_msg V m \<longleftrightarrow> (\<forall>r. m = Accept r \<longrightarrow> acc_value r \<in> V)
     \<and> (\<forall>ack v. m = Ack_prepare ack \<longrightarrow> ackp_max_value ack = Some v \<longrightarrow> v \<in> V)"

definition valid_proposer :: "prop_value set \<Rightarrow> proposer \<Rightarrow> bool" where
  "valid_proposer V p \<longleftrightarrow> init_value p \<in> V \<and> set_option (curr_value p) \<subseteq> V \<and> set_option (max_prop p) \<subseteq> V"

definition valid_inv :: "prop_value set \<Rightarrow> 'n slot_state \<Rightarrow> bool" where
  "valid_inv V S \<longleftrightarrow> (\<forall>d m. (d, m) \<in> set (sl_net S) \<longrightarrow> valid_msg V m)
     \<and> (\<forall>a. set_option (max_value (sl_acceptors S a)) \<subseteq> V)
     \<and> (\<forall>k info. sl_proposers S k = Some info \<longrightarrow> valid_proposer V (curr_proposer info))
     \<and> set (sl_chosen S) \<subseteq> V"

fun event_values :: "'n slot_event \<Rightarrow> prop_value set" where
  "event_values (Start_fast v name) = {v}"
| "event_values (Start_prepare k tries v name) = {v}"
| "event_values _ = {}"

lemma valid_msg_simps [simp]:
  "valid_msg V (Prepare p)" "valid_msg V (Accept r) \<longleftrightarrow> acc_value r \<in> V"
  "valid_msg V (Ack_prepare ack) \<longleftrightarrow> set_option (ackp_max_value ack) \<subseteq> V" "valid_msg V (Ack_accept aa)"
  by (auto simp: valid_msg_def)

lemma valid_state:
  assumes "valid_inv V S"
  shows "valid_inv V (send [] S)" "valid_msg V m \<Longrightarrow> valid_inv V (send [(d, m)] S)"
    "set_option (max_value acc) \<subseteq> V \<Longrightarrow> valid_inv V (set_acceptor a acc S)"
    "valid_proposer V (curr_proposer info) \<Longrightarrow> valid_inv V (set_proposer k (Some info) S)"
    "valid_inv V (set_proposer k None S)"
    "valid_inv V (S\<lparr>sl_started := st\<rparr>)" "set vs \<subseteq> V \<Longrightarrow> valid_inv V (S\<lparr>sl_chosen := sl_chosen S @ vs\<rparr>)"
  using assms by (auto simp: valid_inv_def)

lemma valid_restart:
  "valid_proposer V (curr_proposer info) \<Longrightarrow> restart_info k s info = (info', r) \<Longrightarrow>
    valid_proposer V (curr_proposer info')"
  by (auto simp: restart_info_def restart_msg_prepare_def Proposer.msg_prepare_def curr_ballot_gen_next
      valid_proposer_def Let_def)

lemma valid_promise:
  assumes "paxos_inv views n m S" and "valid_inv V S" and at: "sl_proposers S k = Some info"
    and "deliverable k (Ack_prepare ack) S" and none: "curr_value (curr_proposer info) = None"
    and step: "handle_msg_promise ack (curr_proposer info) = (p', t)"
  shows "valid_proposer V p'"
proof (cases "t = DROP")
  case True
  then have "p' = curr_proposer info"
    using step by (auto simp: handle_msg_promise_def Let_def split: if_splits prod.splits)
  then show ?thesis
    using assms(2) at by (simp add: valid_inv_def)
next
  case False
  have old: "proposer_inv (views k) S k info"
    using assms(1) at by (simp add: paxos_inv_def proposers_inv_def)
  then have ok: "proposer_ok (curr_proposer info)"
    by (simp add: proposer_inv_def Let_def info_ok_def)
  have valid: "valid_proposer V (curr_proposer info)"
    using assms(2) at by (simp add: valid_inv_def)
  note known = promise_known [OF assms(1) old assms(4) none step False]
  note res = promise_result [OF ok none step False]
  have told: "set_option (max_prop p') \<subseteq> V"
    using res(3)
  proof
    assume "\<exists>j a. map_find (ack_prepares p') j = Some a \<and> ackp_reply a
      \<and> max_ballot p' = ackp_max_ballot a \<and> max_ballot p' \<noteq> 0 \<and> max_prop p' = Some (reported_value a)"
    then obtain j a where a: "map_find (ack_prepares p') j = Some a" "ackp_reply a"
      "max_ballot p' = ackp_max_ballot a" "max_ballot p' \<noteq> 0" "max_prop p' = Some (reported_value a)" by blast
    have mem: "(Some k, Ack_prepare a) \<in> set (sl_net S)"
      using known(1) [OF a(1)] by blast
    then have "\<exists>v. ackp_max_value a = Some v"
      using assms(1) a(2,4) unfolding paxos_inv_def promises_inv_def promise_ok_def a(3) by blast
    moreover have "valid_msg V (Ack_prepare a)"
      using assms(2) mem unfolding valid_inv_def by blast
    ultimately show ?thesis
      by (auto simp: a(5) reported_value_def)
  qed (use valid in \<open>simp add: valid_proposer_def\<close>)
  have "init_value p' = init_value (curr_proposer info)"
    by (rule handle_msg_promise_frame(4) [OF step])
  moreover have "set_option (curr_value p') \<subseteq> V"
  proof (cases "t = CONTINUE")
    case True
    then show ?thesis
      using promise_value_facts [OF ok step [unfolded True]] told valid
      by (auto simp: valid_proposer_def split: option.splits)
  qed (use res(4) in simp)
  ultimately show ?thesis
    using told valid by (simp add: valid_proposer_def)
qed

lemma valid_promise_info:
  assumes "paxos_inv views n m S" and "valid_inv V S" and at: "sl_proposers S k = Some info"
    and "deliverable k (Ack_prepare ack) S" and run: "promise_info k s ack info = (info', om)"
  shows "valid_inv V (send (request_list om) (set_proposer k (Some info') S))"
proof -
  have valid: "valid_proposer V (curr_proposer info)"
    using assms(2) at by (simp add: valid_inv_def)
  have ok: "info_ok (q_size (views k)) info"
    using assms(1) at by (simp add: paxos_inv_def proposers_inv_def proposer_inv_def Let_def)
  obtain p' t where step: "handle_msg_promise ack (curr_proposer info) = (p', t)"
    by (cases "handle_msg_promise ack (curr_proposer info)")
  let ?info1 = "info\<lparr>pi_status := PHASEI, curr_proposer := p'\<rparr>"
  show ?thesis
  proof (cases "pi_status info = INIT \<or> pi_status info = PHASEI")
    case False
    then show ?thesis
      using run valid valid_state [OF assms(2)] by (auto simp: promise_info_def)
  next
    case True
    then have none: "curr_value (curr_proposer info) = None"
      using ok by (auto simp: info_ok_def)
    have p': "valid_proposer V p'"
      by (rule valid_promise [OF assms(1,2) at assms(4) none step])
    then have stored: "valid_inv V (set_proposer k (Some i) S)" if "curr_proposer i = p'" for i
      using valid_state(4) [OF assms(2)] that by blast
    show ?thesis
    proof (cases "t = RESTART")
      case True
      obtain r where re: "restart_info k s ?info1 = (info', r)" and om: "om = Some (Prepare r)"
        using run \<open>pi_status info = INIT \<or> pi_status info = PHASEI\<close> step True
        by (auto simp: promise_info_def split: prod.splits)
      have "valid_proposer V (curr_proposer info')"
        using valid_restart [OF _ re] p' by simp
      from valid_state(2) [OF valid_state(4) [OF assms(2) this]] show ?thesis
        by (simp add: om)
    next
      case False
      have "acc_value (accept_request k s ?info1) \<in> V" if "t = CONTINUE"
        using handle_msg_promise_frame(7) [OF step none] that p'
        by (auto simp: accept_request_def Proposer.msg_accept_def Let_def valid_proposer_def)
      then have "curr_proposer info' = p'" "om = None \<or> (\<exists>r. om = Some (Accept r) \<and> acc_value r \<in> V)"
        using run \<open>pi_status info = INIT \<or> pi_status info = PHASEI\<close> step False
          handle_msg_promise_frame(6) [OF step]
        by (cases t; auto simp: promise_info_def)+
      then show ?thesis
        using stored valid_state(1,2) by fastforce
    qed
  qed
qed

lemma valid_accepted_state:
  assumes "valid_inv V S" and at: "sl_proposers S k = Some info"
  shows "valid_inv V (accepted_state k (accepted_info k s ack info) S)"
proof -
  have valid: "valid_proposer V (curr_proposer info)"
    using assms by (simp add: valid_inv_def)
  obtain p t where run: "handle_msg_accepted ack (curr_proposer info) = (p, t)"
    by (cases "handle_msg_accepted ack (curr_proposer info)")
  have "max_prop p = max_prop (curr_proposer info)"
    using run by (auto simp: handle_msg_accepted_def Let_def split: if_splits)
  then have p: "valid_proposer V p"
    using valid handle_msg_accepted_frame(3,4) [OF run] by (simp add: valid_proposer_def)
  let ?info1 = "info\<lparr>curr_proposer := p\<rparr>"
  obtain info2 r where re: "restart_info k s ?info1 = (info2, r)"
    by (cases "restart_info k s ?info1")
  have res: "accepted_info k s ack info = (if pi_status info \<noteq> PHASEII then Still info
      else case t of CHOOSE \<Rightarrow> Chosen (?info1\<lparr>pi_status := CHOSEN\<rparr>) | DROP \<Rightarrow> Still ?info1
        | NOT_ENOUGH \<Rightarrow> Still ?info1 | _ \<Rightarrow> Restarted info2 r)"
    by (cases t) (simp_all add: accepted_info_def run re)
  consider (still) info' where "accepted_info k s ack info = Still info'" "valid_proposer V (curr_proposer info')"
    | (chosen) info' where "accepted_info k s ack info = Chosen info'" "curr_proposer info' = p"
    | (again) "accepted_info k s ack info = Restarted info2 r"
  proof (cases "pi_status info = PHASEII")
    case True
    then show ?thesis using that p by (cases t) (simp_all add: res)
  qed (use that valid in \<open>simp add: res\<close>)
  then show ?thesis
  proof cases
    case still
    then show ?thesis
      using valid_state(4) [OF assms(1)] by (simp add: accepted_state_def)
  next
    case chosen
    have "set (case curr_value p of None \<Rightarrow> [] | Some v \<Rightarrow> [v]) \<subseteq> V"
      using p by (auto simp: valid_proposer_def split: option.splits)
    from valid_state(5) [OF valid_state(7) [OF assms(1) this]] show ?thesis
      by (simp add: accepted_state_def chosen get_chosen_value_def)
  next
    case again
    have "valid_proposer V (curr_proposer info2)"
      using valid_restart [OF _ re] p by simp
    from valid_state(2) [OF valid_state(4) [OF assms(1) this]] show ?thesis
      by (simp add: accepted_state_def again)
  qed
qed

lemma valid_prepare:
  assumes "valid_inv V S" and run: "handle_msg_prepare a p (sl_acceptors S a) = (acc, ack)"
  shows "valid_inv V (send [(d, Ack_prepare ack)] (set_acceptor a acc S))"
proof -
  have "set_option (max_value (sl_acceptors S a)) \<subseteq> V"
    using assms(1) by (simp add: valid_inv_def)
  then have "set_option (max_value acc) \<subseteq> V" "valid_msg V (Ack_prepare ack)"
    using run by (auto simp: handle_msg_prepare_def Let_def split: if_splits)
  then show ?thesis
    using valid_state(2) [OF valid_state(3) [OF assms(1)]] by blast
qed

lemma valid_accept:
  assumes "valid_inv V S" and "deliverable a (Accept r) S" and run: "handle_msg_accept a r (sl_acceptors S a) = (acc, ack)"
  shows "valid_inv V (send [(d, Ack_accept ack)] (set_acceptor a acc S))"
proof -
  have "valid_msg V (Accept r)" "set_option (max_value (sl_acceptors S a)) \<subseteq> V"
    using assms(1) deliverable_in [OF assms(2)] unfolding valid_inv_def by blast+
  then have "set_option (max_value acc) \<subseteq> V"
    using run by (auto simp: handle_msg_accept_def Let_def split: if_splits option.splits)
  then show ?thesis
    using valid_state(2) [OF valid_state(3) [OF assms(1)]] by simp
qed

lemma valid_do:
  assumes "paxos_inv views n m S" and "valid_inv V S" and "event_values e \<subseteq> V"
    and step: "slot_do views n m s e S = Some S'"
  shows "valid_inv V S'"
proof (cases e)
  case (Start_fast v name)
  let ?info = "fast_info (views m) v name"
  have "valid_proposer V (curr_proposer ?info)" "acc_value (accept_request m s ?info) \<in> V"
    using assms(3) Start_fast
    by (simp_all add: fast_info_def proposer_ops valid_proposer_def accept_request_def Let_def)
  then show ?thesis
    using step valid_state(2) [OF valid_state(4) [OF valid_state(6) [OF assms(2)]]]
    by (auto simp: Start_fast Let_def split: if_splits)
next
  case (Start_prepare k tries v name)
  have "valid_proposer V (curr_proposer (fst (recommit_info (views k) tries v name)))"
    using assms(3) Start_prepare
    by (simp add: recommit_info_def proposer_ops valid_proposer_def Let_def)
  then show ?thesis
    using step valid_state(2) [OF valid_state(4) [OF valid_state(6) [OF assms(2)]]]
    by (auto simp: Start_prepare Let_def split: if_splits prod.splits)
next
  case (Recv_prepare a p)
  then show ?thesis
    using step valid_prepare [OF assms(2)] by (auto split: if_splits prod.splits)
next
  case (Recv_accept a r)
  then show ?thesis
    using step valid_accept [OF assms(2)] by (auto split: if_splits prod.splits)
next
  case (Recv_promise k ack)
  then obtain info info' om where "sl_proposers S k = Some info" "deliverable k (Ack_prepare ack) S"
      "promise_info k s ack info = (info', om)"
      and S': "S' = send (request_list om) (set_proposer k (Some info') S)"
    using step unfolding request_list_def by (auto split: if_splits option.splits prod.splits)
  then show ?thesis
    unfolding S' by (intro valid_promise_info [OF assms(1,2)])
next
  case (Recv_accepted k ack)
  then obtain info where info: "sl_proposers S k = Some info"
      and S': "S' = accepted_state k (accepted_info k s ack info) S"
    using step by (auto simp: accepted_state_def split: if_splits option.splits)
  show ?thesis
    unfolding S' by (rule valid_accepted_state [OF assms(2) info])
qed

lemma valid_run:
  assumes "cluster views n" and "paxos_inv views n m S" and "valid_inv V S"
    and "\<Union> (set (map event_values es)) \<subseteq> V" and "slot_run views n m s es S = Some S'"
  shows "valid_inv V S'"
  using assms(2-)
proof (induction es arbitrary: S)
  case (Cons e es)
  then obtain T where T: "slot_do views n m s e S = Some T" "slot_run views n m s es T = Some S'"
    by (auto split: option.splits)
  have "paxos_inv views n m T"
    by (rule slot_do_inv [OF assms(1) Cons.prems(1) T(1)])
  moreover have "valid_inv V T"
    using valid_do [OF Cons.prems(1,2) _ T(1)] Cons.prems(3) by simp
  ultimately show ?case
    using Cons.IH Cons.prems(3) T(2) by simp
qed simp

text \<open>
  Validity: a value that is chosen in a run is, with all its fields, a value that one of
  the run's start events brought in.
\<close>

theorem slot_validity:
  assumes "cluster views n" and "slot_init m S" and "slot_run views n m s es S = Some S'"
    and "v \<in> set (sl_chosen S')"
  shows "\<exists>e \<in> set es. v \<in> event_values e"
proof -
  let ?V = "\<Union> (set (map event_values es))"
  have "max_value (sl_acceptors S a) = None" for a
    using assms(2) by (auto simp: slot_init_def update_max_proposed_def new_acceptor_def dest!: spec [of _ a])
  then have "valid_inv ?V S"
    using assms(2) by (simp add: slot_init_def valid_inv_def)
  then have "valid_inv ?V S'"
    using valid_run [OF assms(1) slot_init_inv [OF assms(2)]] assms(3) by blast
  then show ?thesis
    using assms(4) by (auto simp: valid_inv_def)
qed

theorem slot_validity_witness:
  "\<exists>S. slot_run view_3 3 0 1 contest_1 slot_0 = Some S
     \<and> (\<forall>v \<in> set (sl_chosen S). \<exists>e \<in> set contest_1. v \<in> event_values e)"
proof -
  obtain S where S: "slot_run view_3 3 0 1 contest_1 slot_0 = Some S"
    using contest_1_run by (auto simp: map_option_eq_Some)
  have "\<forall>v \<in> set (sl_chosen S). \<exists>e \<in> set contest_1. v \<in> event_values e"
    using slot_validity [OF cluster_3 slot_init_0 S] by blast
  with S show ?thesis by blast
qed

text \<open>
  C11. Agreement and validity, for whole values: if values that are handed in with the same id are
  the same value, as the commits of a cluster see to, then in every run of a slot, whatever messages
  were lost, repeated or reordered and however many proposers competed, either no proposer took a
  value as chosen, or all took one and the same value, data included, which a start event of the
  run brought in.
\<close>

theorem slot_agreement:
  assumes "cluster views n" and "slot_init m S0" and "slot_run views n m s es S0 = Some S"
    and "\<forall>d \<in> set es. \<forall>e \<in> set es. \<forall>v \<in> event_values d. \<forall>w \<in> event_values e. pv_id v = pv_id w \<longrightarrow> v = w"
  shows "sl_chosen S = [] \<or> (\<exists>e \<in> set es. \<exists>v \<in> event_values e. set (sl_chosen S) = {v})"
proof (cases "sl_chosen S")
  case (Cons v vs)
  have reach: "slot_reach views n m s S"
    using slot_run_reach [OF assms(3)] assms(2) by (blast intro: slot_reach.slot_start)
  obtain d where d: "d \<in> set es" "v \<in> event_values d"
    using slot_validity [OF assms(1-3), of v] Cons by auto
  have "w = v" if w: "w \<in> set (sl_chosen S)" for w
  proof -
    obtain e where "e \<in> set es" "w \<in> event_values e"
      using slot_validity [OF assms(1-3) w] by blast
    moreover have "pv_id v = pv_id w"
      by (rule chosen_agree [OF assms(1) reach _ w]) (simp add: Cons)
    ultimately show ?thesis
      using assms(4) d by metis
  qed
  then have "set (sl_chosen S) = {v}"
    using Cons by auto
  then show ?thesis
    using d by blast
qed simp

theorem slot_agreement_witness:
  "\<exists>S. slot_run view_3 3 0 1 contest_1 slot_0 = Some S \<and> set (sl_chosen S) = {value_0}"
proof -
  obtain S where S: "slot_run view_3 3 0 1 contest_1 slot_0 = Some S" "sl_chosen S = [value_0, value_0]"
    using contest_1_run by (auto simp: map_option_eq_Some)
  have "pv_id value_0 \<noteq> pv_id value_1"
    by (simp add: value_0_def value_1_def)
  then have "sl_chosen S = [] \<or> (\<exists>e \<in> set contest_1. \<exists>v \<in> event_values e. set (sl_chosen S) = {v})"
    by (intro slot_agreement [OF cluster_3 slot_init_0 S(1)]) (auto simp: contest_1_def)
  then show ?thesis
    using S by auto
qed

end
