(* ===== verification/Captain_Callbacks.thy ===== *)
theory Captain_Callbacks
  imports Captain_Props
begin

text \<open>
  Which callbacks of the application a captain runs, in any run of commits and messages: the
  order in the log, for the whole module and not only for \<open>add_chosen_value\<close>.
\<close>

section \<open>Steps and the log\<close>

definition callbacks_of :: "'n call list \<Rightarrow> 'n call list" where
  "callbacks_of calls = filter is_callback calls"

lemma callbacks_of_simps [simp]:
  "callbacks_of [] = []"
  "callbacks_of (call # calls) = (if is_callback call then call # callbacks_of calls else callbacks_of calls)"
  "callbacks_of (xs @ ys) = callbacks_of xs @ callbacks_of ys"
  by (simp_all add: callbacks_of_def)

lemma is_callback_simps [simp]:
  "is_callback (Run_callback s d)" "is_callback (Run_callback_full s v n)"
  "\<not> is_callback (Send_self m)" "\<not> is_callback (Send_to m d')" "\<not> is_callback (Reply_to m d' nm)"
  "\<not> is_callback (Broadcast m)" "\<not> is_callback (Produce_log s v)" "\<not> is_callback (Inform_client s t nm)"
  "\<not> is_callback (Run_callback_latency s v t)" "\<not> is_callback Wait_commit_ok"
  by (simp_all add: is_callback_def)

text \<open>The part of a captain on which the callbacks depend.\<close>

definition same_log :: "'n captain \<Rightarrow> 'n captain \<Rightarrow> bool" where
  "same_log c c' \<longleftrightarrow> chosen_at c' = chosen_at c \<and> max_chosen_without_hole c' = max_chosen_without_hole c
     \<and> has_callback c' = has_callback c \<and> has_callback_full c' = has_callback_full c"

lemma callbacks_between_same: "same_log c c' \<Longrightarrow> callbacks_between c' i j = callbacks_between c i j"
  by (simp add: callbacks_between_def same_log_def value_callbacks_def)

lemma callbacks_between_nil [simp]: "callbacks_between c i i = []"
  by (simp add: callbacks_between_def)

text \<open>
  \<open>tells\<close>: a step runs exactly the callbacks of the slots the filled prefix grew by.
  \<open>silent\<close>: a step that runs none and leaves the log alone.
\<close>

definition tells :: "'n captain \<Rightarrow> ('n captain \<times> 'n call list) res \<Rightarrow> bool" where
  "tells c r \<longleftrightarrow> (\<forall>c' calls. r = Inr (c', calls) \<longrightarrow>
     callbacks_of calls = callbacks_between c' (max_chosen_without_hole c) (max_chosen_without_hole c'))"

definition silent :: "'n captain \<Rightarrow> ('n captain \<times> 'n call list) res \<Rightarrow> bool" where
  "silent c r \<longleftrightarrow> (\<forall>c' calls. r = Inr (c', calls) \<longrightarrow> same_log c c' \<and> callbacks_of calls = [])"

lemma silent_tells: "silent c r \<Longrightarrow> tells c r"
  by (simp add: silent_def tells_def same_log_def)

lemma learn_tells:
  assumes "log_ok c" and "add_chosen_value s v c = Inr (c', calls)"
  shows "callbacks_of calls = callbacks_between c' (max_chosen_without_hole c) (max_chosen_without_hole c')"
proof -
  have "calls = callbacks_between c' (max_chosen_without_hole c) (max_chosen_without_hole c')"
    using add_chosen_value_extends [OF assms(1), of s v] assms(2) by auto
  moreover have "callbacks_of calls = calls"
    using add_chosen_value_callback [OF assms] by (simp add: callbacks_of_def filter_True)
  ultimately show ?thesis by simp
qed

section \<open>The handlers\<close>

lemma handle_prepare_silent: "silent c (handle_prepare m name c)"
  by (auto simp: silent_def same_log_def handle_prepare_def Let_def res_bind_Inr_iff
      split: prod.split_asm if_splits)

lemma handle_promise_silent: "silent c (Inr (handle_promise ack c))"
  by (auto simp: silent_def same_log_def handle_promise_def Let_def
      split: option.splits prod.split_asm)

lemma handle_learn_silent: "silent c (handle_learn m c)"
  by (auto simp: silent_def same_log_def handle_learn_def Let_def res_bind_Inr_iff
      split: if_splits option.splits)

lemma handle_command_silent: "silent c (Inr (handle_command m c, []))"
  by (cases "cmd_cmd m") (simp_all add: silent_def same_log_def handle_command_def Let_def)

lemma piggyback_log:
  "piggyback m c = Inr (c', m') \<Longrightarrow> same_log c c'"
  by (auto simp: piggyback_def same_log_def res_bind_Inr_iff split: if_splits option.splits)

lemma propose_fast_silent: "silent c (propose_fast v name c)"
  by (auto simp: silent_def propose_fast_def Let_def res_bind_Inr_iff same_log_def
      dest!: piggyback_log split: prod.splits)

lemma commit_value_silent:
  "commit_value v name c = Inr (c', calls, name') \<Longrightarrow> same_log c c' \<and> callbacks_of calls = []"
  using propose_fast_silent
  by (fastforce simp: commit_value_def silent_def same_log_def Let_def res_bind_Inr_iff split: if_splits)

lemma commit_from_queue_silent: "silent c (commit_from_queue c)"
  using propose_fast_silent
  by (fastforce simp: commit_from_queue_def silent_def same_log_def res_bind_Inr_iff split: if_splits)

lemma handle_commit_silent: "silent c (handle_commit m name c)"
  using commit_value_silent
  by (fastforce simp: handle_commit_def commit_value_dum_def silent_def same_log_def res_bind_Inr_iff split: if_splits)

lemma recommit_silent: "silent c (Inr (recommit tries v name c))"
  by (auto simp: silent_def recommit_def same_log_def Let_def split: prod.split_asm)

lemma commit_silent: "silent c (commit mode data name c)"
  using commit_value_silent
  by (fastforce simp: commit_def silent_def same_log_def next_value_id_def Let_def res_bind_Inr_iff split: if_splits)

lemma learn_piggyback_tells:
  assumes "log_ok c" and "learn_piggyback s vid n c = Inr (Some (c', calls))"
  shows "callbacks_of calls = callbacks_between c' (max_chosen_without_hole c) (max_chosen_without_hole c')"
  using assms(2) learn_tells [OF assms(1)]
  by (auto simp: learn_piggyback_def add_learn_value_def res_bind_Inr_iff split: if_splits option.splits)

lemma handle_accept_tells:
  assumes "log_ok c"
  shows "tells c (handle_accept m name c)"
  unfolding tells_def
proof (intro allI impI)
  fix c' calls
  let ?as = "grow_acceptors (length (acceptors c)) (hdr_slot (acc_header m)) (acceptors c)"
  assume run: "handle_accept m name c = Inr (c', calls)"
  obtain a where a: "vec_at ?as (hdr_slot (acc_header m)) = Inr (Some a)"
    using run by (auto simp: handle_accept_def Let_def res_bind_Inr_iff deref_Inr_iff)
  obtain a' ack where h: "handle_msg_accept (me_of c) m a = (a', ack)"
    by (cases "handle_msg_accept (me_of c) m a")
  let ?c = "c\<lparr>acceptors := ?as[hdr_slot (acc_header m) := Some a']\<rparr>"
  have log: "log_ok ?c" using assms by simp
  show "callbacks_of calls = callbacks_between c' (max_chosen_without_hole c) (max_chosen_without_hole c')"
    using run a h learn_piggyback_tells [OF log]
    by (auto simp: handle_accept_def Let_def res_bind_Inr_iff split: if_splits option.splits)
qed

lemma handle_decide_tells:
  assumes "log_ok c"
  shows "tells c (handle_decide m name c)"
  unfolding tells_def
  using learn_tells [OF assms]
  by (auto simp: handle_decide_def add_learn_value_def Let_def res_bind_Inr_iff split: if_splits option.splits)

lemma handle_teach_tells:
  assumes "log_ok c"
  shows "tells c (handle_teach m name c)"
  unfolding tells_def
  using learn_tells [OF assms]
  by (auto simp: handle_teach_def add_learn_value_def Let_def res_bind_Inr_iff split: if_splits)

lemma next_work_silent: "silent c (next_work info chosen name c)"
  using commit_from_queue_silent [of c] recommit_silent [of c] by (auto simp: next_work_def silent_def)

lemma finish_slot_tells:
  assumes "log_ok c"
  shows "tells c (finish_slot s info name c)"
  unfolding tells_def
proof (intro allI impI)
  fix c' calls
  let ?hole = max_chosen_without_hole
  assume "finish_slot s info name c = Inr (c', calls)"
  then obtain chosen c2 calls2 calls4
    where add: "add_chosen_value s chosen (c\<lparr>proposers := map_put s info (proposers c)\<rparr>) = Inr (c2, calls2)"
      and next_step: "next_work info chosen name (c2\<lparr>proposers := map_erase s (proposers c2)\<rparr>) = Inr (c', calls4)"
      and calls: "calls = tell_client s info chosen c @ calls2 @ calls4"
    by (rule finish_slot_InrE)
  have "callbacks_of (tell_client s info chosen c) = []"
    by (simp add: tell_client_def)
  moreover have same: "same_log c2 c'" "callbacks_of calls4 = []"
    using next_work_silent [of "c2\<lparr>proposers := map_erase s (proposers c2)\<rparr>"] next_step
    by (auto simp: silent_def same_log_def)
  moreover have "callbacks_of calls2 = callbacks_between c2 (?hole c) (?hole c2)"
    using learn_tells [OF _ add] assms by simp
  ultimately show "callbacks_of calls = callbacks_between c' (?hole c) (?hole c')"
    using calls callbacks_between_same [OF same(1)] by (simp add: same_log_def)
qed

lemma handle_accepted_tells:
  assumes "log_ok c"
  shows "tells c (handle_accepted ack name c)"
proof (cases "map_find (proposers c) (hdr_slot (acka_header ack))")
  case (Some info)
  then show ?thesis
    using finish_slot_tells [OF assms]
    by (cases "accepted_info (me_of c) (hdr_slot (acka_header ack)) ack info")
       (simp_all add: handle_accepted_def Let_def tells_def)
qed (simp add: handle_accepted_def Let_def tells_def)

lemma handle_msg_tells:
  assumes "log_ok c"
  shows "tells c (handle_msg m name c)"
proof (cases "work c")
  case True
  then show ?thesis
    using assms
    by (cases m) (simp_all add: handle_msg_def handle_accept_tells handle_decide_tells handle_teach_tells
        handle_accepted_tells silent_tells [OF handle_prepare_silent] silent_tells [OF handle_promise_silent]
        silent_tells [OF handle_learn_silent] silent_tells [OF handle_command_silent]
        silent_tells [OF handle_commit_silent])
qed (simp add: handle_msg_def tells_def)

section \<open>Runs\<close>

text \<open>All calls of a run, in order.\<close>

fun captain_calls :: "mode \<Rightarrow> 'n captain_event list \<Rightarrow> 'n captain \<Rightarrow> ('n captain \<times> 'n call list) res" where
  "captain_calls mode [] c = Inr (c, [])"
| "captain_calls mode (e # es) c =
     res_bind (captain_step mode e c) (\<lambda>(c1, calls1).
       res_bind (captain_calls mode es c1) (\<lambda>(c2, calls2). Inr (c2, calls1 @ calls2)))"

lemma captain_step_tells:
  assumes "captain_ok c" and "mode \<noteq> Mode_recover" and "event_ok (host_count (cap_view c)) e"
  obtains c' calls where "captain_step mode e c = Inr (c', calls)" "captain_ok c'" "extends c c'"
    "host_count (cap_view c') = host_count (cap_view c)"
    "callbacks_of calls = callbacks_between c' (max_chosen_without_hole c) (max_chosen_without_hole c')"
proof -
  obtain c' calls where r: "captain_step mode e c = Inr (c', calls)" "captain_ok c'"
    "host_count (cap_view c') = host_count (cap_view c)"
    using captain_step_keeps [OF assms] by blast
  have "extends c c' \<and> tells c (captain_step mode e c)"
  proof (cases e)
    case (Got_msg m name)
    then have "keeps c (handle_msg m name c)"
      using assms by (intro handle_msg_keeps_rel) simp_all
    then show ?thesis
      using Got_msg r(1) handle_msg_tells [of c m name] assms(1) by (auto simp: keeps_def captain_ok_def)
  next
    case (Commit_string data name)
    then have "same_log c c'"
      using r(1) commit_silent [of c mode data name] by (simp add: silent_def)
    then show ?thesis
      using Commit_string silent_tells [OF commit_silent] by (simp add: extends_def same_log_def)
  qed
  then show thesis
    using that r by (simp add: tells_def)
qed

lemma captain_calls_result:
  assumes "captain_ok c" and "mode \<noteq> Mode_recover" and "\<forall>e \<in> set es. event_ok (host_count (cap_view c)) e"
  shows "\<exists>c' calls. captain_calls mode es c = Inr (c', calls) \<and> captain_ok c' \<and> extends c c'
    \<and> callbacks_of calls = callbacks_between c' (max_chosen_without_hole c) (max_chosen_without_hole c')"
  using assms
proof (induction es arbitrary: c)
  case Nil
  then show ?case by (simp add: extends_refl)
next
  case (Cons e es)
  let ?hole = max_chosen_without_hole
  obtain c1 calls1 where one: "captain_step mode e c = Inr (c1, calls1)" "captain_ok c1" "extends c c1"
    "host_count (cap_view c1) = host_count (cap_view c)"
    "callbacks_of calls1 = callbacks_between c1 (?hole c) (?hole c1)"
    using captain_step_tells [OF Cons.prems(1,2)] Cons.prems(3) by (metis list.set_intros(1))
  obtain c2 calls2 where two: "captain_calls mode es c1 = Inr (c2, calls2)" "captain_ok c2" "extends c1 c2"
    "callbacks_of calls2 = callbacks_between c2 (?hole c1) (?hole c2)"
    using Cons.IH [OF one(2) Cons.prems(2)] Cons.prems(3) one(4) by auto
  have "callbacks_between c1 (?hole c) (?hole c1) = callbacks_between c2 (?hole c) (?hole c1)"
    using one(2) log_ok_filled [of c1] by (intro callbacks_between_extends [OF two(3)]) (auto simp: captain_ok_def)
  moreover have "callbacks_between c2 (?hole c) (?hole c2)
      = callbacks_between c2 (?hole c) (?hole c1) @ callbacks_between c2 (?hole c1) (?hole c2)"
    using one(3) two(3) by (intro callbacks_between_append) (simp_all add: extends_def)
  ultimately show ?case
    using one two extends_trans [OF one(3) two(3)] by simp
qed

end
