(* ===== verification/World.thy ===== *)
theory World
  imports Commo_Props Paxos_Runs Captain_Callbacks
begin

text \<open>
  The whole cluster on a bad network: the captains of all nodes, every message ever sent, the
  values handed in by clients, and the calls each captain has made, in order. Nodes commit, messages arrive in any order, repeatedly or
  never, a node without a vote copies decisions from the log another node serves, and nodes
  stop. Each slot of such a cluster is a run of the one-slot system of \<open>Paxos_Slot\<close>: the
  theory relates the nodes' captains to it.
\<close>

section \<open>The system\<close>

record 'n world =
  w_captains :: "node_id \<Rightarrow> 'n captain"
  w_net :: "(node_id option \<times> msg) list"
  w_handed :: "prop_value list"
  w_told :: "node_id \<Rightarrow> 'n call list"

text \<open>Where the calls of node \<open>k\<close> go: to everyone, or to one node.\<close>

fun packets :: "node_id \<Rightarrow> 'n call \<Rightarrow> (node_id option \<times> msg) list" where
  "packets k (Send_self m) = [(Some k, m)]"
| "packets k (Send_to m d) = [(Some d, m)]"
| "packets k (Reply_to m d name) = [(Some d, m)]"
| "packets k (Broadcast m) = [(None, m)]"
| "packets k _ = []"

definition sent_by :: "node_id \<Rightarrow> 'n call list \<Rightarrow> (node_id option \<times> msg) list" where
  "sent_by k calls = concat (map (packets k) calls)"

definition moved :: "node_id \<Rightarrow> 'n captain \<Rightarrow> (node_id option \<times> msg) list \<Rightarrow> 'n world \<Rightarrow> 'n world" where
  "moved k c ps W = W\<lparr>w_captains := (w_captains W)(k := c), w_net := w_net W @ ps\<rparr>"

definition told :: "node_id \<Rightarrow> 'n call list \<Rightarrow> 'n world \<Rightarrow> 'n world" where
  "told k calls W = W\<lparr>w_told := (w_told W)(k := w_told W k @ calls)\<rparr>"

datatype 'n world_event =
    W_commit node_id string 'n
  | W_recv node_id msg 'n
  | W_log node_id node_id slot_id
  | W_crash node_id

text \<open>
  An event can happen when its message was sent to the node, or the decision it copies is in
  the log it is copied from. Counters do not wrap: a node makes fewer than \<open>2 ^ 48\<close> values,
  and fewer than \<open>2 ^ 48\<close> attempts in one slot.
\<close>

fun world_can :: "nat \<Rightarrow> 'n world_event \<Rightarrow> 'n world \<Rightarrow> bool" where
  "world_can n (W_commit k data name) W =
     (unat k < n \<and> value_id (w_captains W k) < value_id (w_captains W k) + 65536)"
| "world_can n (W_recv k m name) W =
     (unat k < n \<and> ((None, m) \<in> set (w_net W) \<or> (Some k, m) \<in> set (w_net W))
      \<and> list_all (\<lambda>(s, info). no_ballot_wrap (curr_ballot (curr_proposer info))) (proposers (w_captains W k)))"
| "world_can n (W_log k j s) W = (unat k < n \<and> unat j < n \<and> chosen_at (w_captains W j) s \<noteq> None)"
| "world_can n (W_crash k) W = (unat k < n)"

definition acts :: "node_id \<Rightarrow> ('n captain \<times> 'n call list) res \<Rightarrow> 'n world \<Rightarrow> 'n world res" where
  "acts k r W = res_bind r (\<lambda>(c, calls). Inr (told k calls (moved k c (sent_by k calls) W)))"

fun world_do :: "mode \<Rightarrow> 'n world_event \<Rightarrow> 'n world \<Rightarrow> 'n world res" where
  "world_do mode (W_commit k data name) W =
     acts k (commit mode data name (w_captains W k))
       (W\<lparr>w_handed := w_handed W @ [new_value (w_captains W k) data]\<rparr>)"
| "world_do mode (W_recv k m name) W = acts k (handle_msg m name (w_captains W k)) W"
| "world_do mode (W_log k j s) W =
     (case chosen_at (w_captains W j) s of
        None \<Rightarrow> Inr W
      | Some v \<Rightarrow> acts k (add_chosen_value s (log_copy v) (w_captains W k)) W)"
| "world_do mode (W_crash k) W = acts k (Inr (crash (w_captains W k), [])) W"

text \<open>At first every node has a new captain, with or without callbacks.\<close>

definition world_init :: "(node_id \<Rightarrow> view) \<Rightarrow> 'n world \<Rightarrow> bool" where
  "world_init views W \<longleftrightarrow> w_net W = [] \<and> w_handed W = [] \<and> w_told W = (\<lambda>_. [])
     \<and> (\<forall>k. \<exists>win dum b1 b2 b3. w_captains W k = (new_captain (views k) win dum)
          \<lparr>has_callback := b1, has_callback_full := b2, has_callback_latency := b3\<rparr>)"

inductive world_reach :: "mode \<Rightarrow> (node_id \<Rightarrow> view) \<Rightarrow> nat \<Rightarrow> 'n world \<Rightarrow> bool"
  for mode :: mode and views :: "node_id \<Rightarrow> view" and n :: nat where
  world_start: "world_init views W \<Longrightarrow> world_reach mode views n W"
| world_step: "world_reach mode views n W \<Longrightarrow> world_can n e W \<Longrightarrow> world_do mode e W = Inr W' \<Longrightarrow>
    world_reach mode views n W'"

inductive_cases world_reach_cases: "world_reach mode views n W"

lemma moved_sel [simp]:
  "w_captains (moved k c ps W) = (w_captains W)(k := c)" "w_net (moved k c ps W) = w_net W @ ps"
  "w_handed (moved k c ps W) = w_handed W"
  by (simp_all add: moved_def)

lemma told_sel [simp]:
  "w_captains (told k calls W) = w_captains W" "w_net (told k calls W) = w_net W"
  "w_handed (told k calls W) = w_handed W" "w_told (told k calls W) = (w_told W)(k := w_told W k @ calls)"
  "w_told (moved k c ps W) = w_told W"
  by (simp_all add: told_def moved_def)

lemma moved_twice: "moved k c2 ps2 (moved k c1 ps1 W) = moved k c2 (ps1 @ ps2) W"
  by (simp add: moved_def)

lemma sent_by_simps [simp]:
  "sent_by k [] = []" "sent_by k (call # calls) = packets k call @ sent_by k calls"
  "sent_by k (xs @ ys) = sent_by k xs @ sent_by k ys"
  by (simp_all add: sent_by_def)

lemma sent_by_callbacks: "\<forall>call \<in> set calls. is_callback call \<Longrightarrow> sent_by k calls = []"
  by (induction calls) (auto simp: is_callback_def split: call.splits)

section \<open>One slot of the system\<close>

definition acc_at :: "'n captain \<Rightarrow> slot_id \<Rightarrow> acceptor" where
  "acc_at c s = (case acceptor_at c s of None \<Rightarrow> new_acceptor | Some a \<Rightarrow> a)"

text \<open>A node's share of slot \<open>s\<close>, and the packets that concern it, are those of \<open>S\<close>.\<close>

definition node_mirror :: "slot_id \<Rightarrow> 'n slot_state \<Rightarrow> node_id \<Rightarrow> 'n captain \<Rightarrow> bool" where
  "node_mirror s S k c \<longleftrightarrow> (0 < s \<longrightarrow> sl_acceptors S k = acc_at c s)
     \<and> sl_proposers S k = map_find (proposers c) s
     \<and> (max_slot c < s \<longrightarrow> k \<notin> set (sl_started S))
     \<and> (\<forall>v. chosen_at c s = Some v \<longrightarrow> v \<in> set (sl_chosen S))"

text \<open>An accept request without the decision it carries for another slot.\<close>

definition bare :: "msg_accept \<Rightarrow> msg_accept" where
  "bare r = r\<lparr>acc_last_slot := None, acc_last_value := None\<rparr>"

fun packet_mirror :: "slot_id \<Rightarrow> prop_value set \<Rightarrow> 'n slot_state \<Rightarrow> node_id option \<times> msg \<Rightarrow> bool" where
  "packet_mirror s V S (d, Prepare p) = (hdr_slot (pre_header p) = s \<longrightarrow> (d, Prepare p) \<in> set (sl_net S))"
| "packet_mirror s V S (d, Ack_prepare a) = (hdr_slot (ackp_header a) = s \<longrightarrow> (d, Ack_prepare a) \<in> set (sl_net S))"
| "packet_mirror s V S (d, Accept r) = ((hdr_slot (acc_header r) = s \<longrightarrow> (d, Accept (bare r)) \<in> set (sl_net S))
     \<and> (acc_last_slot r = Some s \<longrightarrow> (\<exists>v \<in> set (sl_chosen S). acc_last_value r = Some (pv_id v))))"
| "packet_mirror s V S (d, Ack_accept a) = (hdr_slot (acka_header a) = s \<longrightarrow> (d, Ack_accept a) \<in> set (sl_net S))"
| "packet_mirror s V S (d, Commit m) = (com_value m \<in> V)"
| "packet_mirror s V S (d, m) = False"

end
