(* ===== verification/World_Sim.thy ===== *)
theory World_Sim
  imports World
begin

text \<open>
  Every step of a node is, in each slot, a step of the one-slot system or no step: the
  invariant that says so, and that the handlers keep it.
\<close>

section \<open>The invariant\<close>

definition one_master :: "(node_id \<Rightarrow> view) \<Rightarrow> nat \<Rightarrow> bool" where
  "one_master views n \<longleftrightarrow> cluster views n \<and> (\<forall>k. unat k < n \<longrightarrow> master_id (views k) = 0)"

text \<open>A node has its view, and only node 0 has values waiting.\<close>

definition node_inv :: "(node_id \<Rightarrow> view) \<Rightarrow> prop_value set \<Rightarrow> node_id \<Rightarrow> 'n captain \<Rightarrow> bool" where
  "node_inv views V k c \<longleftrightarrow> core_ok c \<and> cap_view c = views k \<and> set (tocommit_values c) \<subseteq> V
     \<and> (k \<noteq> 0 \<longrightarrow> tocommit_values c = [])"

definition slot_sim :: "(node_id \<Rightarrow> view) \<Rightarrow> nat \<Rightarrow> 'n world \<Rightarrow> slot_id \<Rightarrow> 'n slot_state \<Rightarrow> bool" where
  "slot_sim views n W s S \<longleftrightarrow> slot_reach views n 0 s S \<and> valid_inv (set (w_handed W)) S
     \<and> (\<forall>k. unat k < n \<longrightarrow> node_mirror s S k (w_captains W k))
     \<and> (\<forall>p \<in> set (w_net W). packet_mirror s (set (w_handed W)) S p)"

definition world_inv :: "(node_id \<Rightarrow> view) \<Rightarrow> nat \<Rightarrow> 'n world \<Rightarrow> bool" where
  "world_inv views n W \<longleftrightarrow> (\<forall>k. unat k < n \<longrightarrow> node_inv views (set (w_handed W)) k (w_captains W k))
     \<and> (\<forall>s. \<exists>S. slot_sim views n W s S)"

section \<open>A node moves\<close>

fun actor :: "'n slot_event \<Rightarrow> node_id" where
  "actor (Start_fast v name) = 0"
| "actor (Start_prepare k tries v name) = k"
| "actor (Recv_prepare a p) = a"
| "actor (Recv_accept a r) = a"
| "actor (Recv_promise k ack) = k"
| "actor (Recv_accepted k ack) = k"

lemma slot_do_others:
  assumes "slot_do views n 0 s e S = Some S'" and "j \<noteq> actor e"
  shows "sl_acceptors S' j = sl_acceptors S j" "sl_proposers S' j = sl_proposers S j"
    "j \<in> set (sl_started S') \<longleftrightarrow> j \<in> set (sl_started S)"
  using assms
  by (cases e; auto simp: Let_def split: if_splits option.splits prod.splits accepted_result.splits)+

lemma slot_do_chosen: "slot_do views n m s e S = Some S' \<Longrightarrow> set (sl_chosen S) \<subseteq> set (sl_chosen S')"
  by (cases e) (auto simp: Let_def split: if_splits option.splits prod.splits accepted_result.splits)

text \<open>One step of node \<open>k\<close> in a slot, or none.\<close>

definition slot_moves :: "(node_id \<Rightarrow> view) \<Rightarrow> nat \<Rightarrow> prop_value set \<Rightarrow> slot_id \<Rightarrow> node_id \<Rightarrow>
    'n slot_state \<Rightarrow> 'n slot_state \<Rightarrow> bool" where
  "slot_moves views n V s k S S' \<longleftrightarrow> S' = S
     \<or> (\<exists>e. slot_do views n 0 s e S = Some S' \<and> event_values e \<subseteq> V \<and> actor e = k)"

lemma slot_moves_facts:
  assumes "cluster views n" and "slot_reach views n 0 s S" and "valid_inv V S" and "slot_moves views n V s k S S'"
  shows "slot_reach views n 0 s S'" "valid_inv V S'"
    "set (sl_net S) \<subseteq> set (sl_net S')" "set (sl_chosen S) \<subseteq> set (sl_chosen S')"
    "j \<noteq> k \<Longrightarrow> node_mirror s S j c \<Longrightarrow> node_mirror s S' j c"
proof -
  have "slot_reach views n 0 s S' \<and> valid_inv V S' \<and> set (sl_net S) \<subseteq> set (sl_net S')
    \<and> set (sl_chosen S) \<subseteq> set (sl_chosen S') \<and> (j \<noteq> k \<longrightarrow> node_mirror s S j c \<longrightarrow> node_mirror s S' j c)"
  proof (cases "S' = S")
    case False
    then obtain e where e: "slot_do views n 0 s e S = Some S'" "event_values e \<subseteq> V" "actor e = k"
      using assms(4) by (auto simp: slot_moves_def)
    then show ?thesis
      using slot_step [OF assms(2) e(1)] valid_do [OF slot_reach_inv [OF assms(2,1)] assms(3) e(2,1)]
        slot_do_net [OF e(1)] slot_do_chosen [OF e(1)] slot_do_others [OF e(1)]
      by (auto simp: node_mirror_def)
  qed (use assms in simp)
  then show "slot_reach views n 0 s S'" "valid_inv V S'"
    "set (sl_net S) \<subseteq> set (sl_net S')" "set (sl_chosen S) \<subseteq> set (sl_chosen S')"
    "j \<noteq> k \<Longrightarrow> node_mirror s S j c \<Longrightarrow> node_mirror s S' j c" by blast+
qed

lemma packet_mirror_mono:
  assumes "packet_mirror s V S p" and "set (sl_net S) \<subseteq> set (sl_net S')" and "set (sl_chosen S) \<subseteq> set (sl_chosen S')"
  shows "packet_mirror s V S' p"
  using assms by (cases "(s, V, S, p)" rule: packet_mirror.cases) auto

text \<open>Packets about slot \<open>s\<close>; a decision on board is one the sender \<open>c\<close> knows.\<close>

fun about :: "slot_id \<Rightarrow> 'n captain \<Rightarrow> msg \<Rightarrow> bool" where
  "about s c (Prepare p) = (hdr_slot (pre_header p) = s)"
| "about s c (Ack_prepare a) = (hdr_slot (ackp_header a) = s)"
| "about s c (Accept r) = (hdr_slot (acc_header r) = s \<and> (\<forall>l. acc_last_slot r = Some l \<longrightarrow>
     (\<exists>v. chosen_at c l = Some v \<and> acc_last_value r = Some (pv_id v))))"
| "about s c (Ack_accept a) = (hdr_slot (acka_header a) = s)"
| "about s c m = False"

lemma about_mirror:
  "about s c m \<Longrightarrow> t \<noteq> s \<Longrightarrow> node_mirror t S k c \<Longrightarrow> packet_mirror t V S (d, m)"
  by (cases m) (auto simp: node_mirror_def)

definition same_at :: "slot_id \<Rightarrow> 'n captain \<Rightarrow> 'n captain \<Rightarrow> bool" where
  "same_at t c c' \<longleftrightarrow> acc_at c' t = acc_at c t \<and> map_find (proposers c') t = map_find (proposers c) t
     \<and> chosen_at c' t = chosen_at c t"

lemma node_mirror_same:
  "node_mirror t S k c \<Longrightarrow> same_at t c c' \<Longrightarrow> max_slot c \<le> max_slot c' \<Longrightarrow> node_mirror t S k c'"
  by (auto simp: node_mirror_def same_at_def)

text \<open>Node \<open>k\<close> changes at most slot \<open>s\<close>, where the one-slot system can follow.\<close>

lemma node_moves:
  assumes "cluster views n" and inv: "world_inv views n W" and "unat k < n"
    and node: "node_inv views (set (w_handed W)) k c'" and "max_slot (w_captains W k) \<le> max_slot c'"
    and other: "\<forall>t. t \<noteq> s \<longrightarrow> same_at t (w_captains W k) c'"
    and ps: "\<forall>(d, m) \<in> set ps. about s (w_captains W k) m"
    and sim: "\<forall>S. slot_sim views n W s S \<longrightarrow> (\<exists>S'. slot_moves views n (set (w_handed W)) s k S S'
       \<and> node_mirror s S' k c' \<and> (\<forall>p \<in> set ps. packet_mirror s (set (w_handed W)) S' p))"
  shows "world_inv views n (moved k c' ps W)"
proof -
  have "\<exists>S. slot_sim views n (moved k c' ps W) t S" for t
  proof (cases "t = s")
    case True
    obtain S where S: "slot_sim views n W s S"
      using inv by (auto simp: world_inv_def)
    then obtain S' where S': "slot_moves views n (set (w_handed W)) s k S S'" "node_mirror s S' k c'"
      "\<forall>p \<in> set ps. packet_mirror s (set (w_handed W)) S' p"
      using sim by blast
    note facts = slot_moves_facts [OF assms(1) _ _ S'(1)]
    have "slot_sim views n (moved k c' ps W) s S'"
      using S S'(2,3) facts packet_mirror_mono [OF _ facts(3,4)] by (auto simp: slot_sim_def)
    then show ?thesis
      using True by blast
  next
    case False
    obtain S where S: "slot_sim views n W t S"
      using inv by (auto simp: world_inv_def)
    then have k: "node_mirror t S k (w_captains W k)"
      using assms(3) by (simp add: slot_sim_def)
    have "node_mirror t S k c'"
      using node_mirror_same [OF k] other False assms(5) by blast
    moreover have "\<forall>p \<in> set ps. packet_mirror t (set (w_handed W)) S p"
      using about_mirror [OF _ False k] ps by fast
    ultimately have "slot_sim views n (moved k c' ps W) t S"
      using S by (auto simp: slot_sim_def)
    then show ?thesis by blast
  qed
  then show ?thesis
    using inv node by (simp add: world_inv_def)
qed

text \<open>A step that no slot sees; the packets may forward values.\<close>

lemma node_quiet:
  assumes inv: "world_inv views n W" and "unat k < n"
    and node: "node_inv views (set (w_handed W)) k c'" and "max_slot (w_captains W k) \<le> max_slot c'"
    and same: "\<forall>t. same_at t (w_captains W k) c'"
    and ps: "\<forall>(d, m) \<in> set ps. \<exists>cm. m = Commit cm \<and> com_value cm \<in> set (w_handed W)"
  shows "world_inv views n (moved k c' ps W)"
proof -
  have "\<exists>S. slot_sim views n (moved k c' ps W) t S" for t
  proof -
    obtain S where S: "slot_sim views n W t S"
      using inv by (auto simp: world_inv_def)
    then have "node_mirror t S k c'"
      using node_mirror_same [of t S k "w_captains W k"] same assms(2,4) by (auto simp: slot_sim_def)
    moreover have "packet_mirror t (set (w_handed W)) S p" if "p \<in> set ps" for p
      using ps that by (cases p) auto
    ultimately have "slot_sim views n (moved k c' ps W) t S"
      using S by (auto simp: slot_sim_def)
    then show ?thesis by blast
  qed
  then show ?thesis
    using inv node by (simp add: world_inv_def)
qed

end
