(* ===== verification/World_Nodes.thy ===== *)
theory World_Nodes
  imports World_Sim
begin

text \<open>The handlers of a node keep the invariant that relates it to the one-slot systems.\<close>

section \<open>Facts\<close>

definition arrived :: "node_id \<Rightarrow> msg \<Rightarrow> 'n world \<Rightarrow> bool" where
  "arrived k m W \<longleftrightarrow> (None, m) \<in> set (w_net W) \<or> (Some k, m) \<in> set (w_net W)"

text \<open>What a message that has arrived is in the one-slot system.\<close>

lemma arrived_deliverable:
  assumes "slot_sim views n W s S"
  shows "arrived k (Prepare p) W \<Longrightarrow> hdr_slot (pre_header p) = s \<Longrightarrow> deliverable k (Prepare p) S"
    "arrived k (Ack_prepare a) W \<Longrightarrow> hdr_slot (ackp_header a) = s \<Longrightarrow> deliverable k (Ack_prepare a) S"
    "arrived k (Accept r) W \<Longrightarrow> hdr_slot (acc_header r) = s \<Longrightarrow> deliverable k (Accept (bare r)) S"
    "arrived k (Ack_accept aa) W \<Longrightarrow> hdr_slot (acka_header aa) = s \<Longrightarrow> deliverable k (Ack_accept aa) S"
    "arrived k (Accept r) W \<Longrightarrow> acc_last_slot r = Some s \<Longrightarrow>
       \<exists>v \<in> set (sl_chosen S). acc_last_value r = Some (pv_id v)"
  using assms unfolding slot_sim_def arrived_def deliverable_def by fastforce+

lemma world_node:
  assumes "world_inv views n W" and "unat k < n"
  shows "core_ok (w_captains W k)" "cap_view (w_captains W k) = views k"
    "set (tocommit_values (w_captains W k)) \<subseteq> set (w_handed W)"
    "k \<noteq> 0 \<Longrightarrow> tocommit_values (w_captains W k) = []"
  using assms by (simp_all add: world_inv_def node_inv_def)

lemma cluster_me: "cluster views n \<Longrightarrow> unat k < n \<Longrightarrow> whoami (views k) = k"
  by (simp add: cluster_def)

lemma world_mirror: "slot_sim views n W s S \<Longrightarrow> unat k < n \<Longrightarrow> node_mirror s S k (w_captains W k)"
  by (simp add: slot_sim_def)

text \<open>Every value in a log was handed in.\<close>

lemma chosen_handed:
  assumes "world_inv views n W" and "unat k < n" and "chosen_at (w_captains W k) s = Some v"
  shows "v \<in> set (w_handed W)"
proof -
  obtain S where "slot_sim views n W s S"
    using assms(1) by (auto simp: world_inv_def)
  then show ?thesis
    using world_mirror [of views n W s S k] assms(2,3) by (auto simp: slot_sim_def node_mirror_def valid_inv_def)
qed

lemma moved_same [simp]: "moved k (w_captains W k) [] W = W"
  by (cases W) (simp add: moved_def)

section \<open>Acceptors\<close>

lemma grown_acceptors:
  assumes "acceptors_ok (acceptors c)" and "0 < s" and "accs = grow_acceptors (length (acceptors c)) s (acceptors c)"
  shows "vec_at accs s = Inr (Some (acc_at c s))"
    "acc_at (c\<lparr>acceptors := accs[s := Some a]\<rparr>) t = (if t = s then a else acc_at c t)"
proof -
  have len: "s < length accs"
    using acceptors_ok_grow [OF assms(1)] assms(3) by simp
  have at: "accs ! t = (if t < length (acceptors c) then acceptors c ! t else Some new_acceptor)"
    if "t < length accs" for t
    using that assms(3) by (auto simp: grow_acceptors_eq nth_append)
  have "accs ! s = Some (acc_at c s)"
  proof (cases "s < length (acceptors c)")
    case True
    then obtain b where "acceptors c ! s = Some b"
      using acceptors_ok_at [OF assms(1,2)] by blast
    then show ?thesis
      using at [OF len] True by (simp add: acc_at_def acceptor_at_def)
  qed (use at [OF len] in \<open>simp add: acc_at_def acceptor_at_def\<close>)
  then show "vec_at accs s = Inr (Some (acc_at c s))"
    using len by simp
  have "length (acceptors c) \<le> length accs"
    using assms(3) by (simp add: grow_acceptors_eq)
  then show "acc_at (c\<lparr>acceptors := accs[s := Some a]\<rparr>) t = (if t = s then a else acc_at c t)"
    using len at [of t] by (auto simp: acc_at_def acceptor_at_def nth_list_update)
qed

lemma acc_at_ok:
  assumes "acceptors_ok (acceptors c)" and "0 < s"
  shows "acceptor_ok (acc_at c s)"
proof (cases "s < length (acceptors c)")
  case True
  then obtain a where "acceptors c ! s = Some a" "acceptor_ok a"
    using acceptors_ok_at [OF assms] by blast
  then show ?thesis
    using True by (simp add: acc_at_def acceptor_at_def)
qed (simp add: acc_at_def acceptor_at_def acceptor_ok_init)

text \<open>An acceptor's reply and its new state.\<close>

lemma acceptor_moves:
  assumes "cluster views n" and inv: "world_inv views n W" and k: "unat k < n" and s: "0 < s"
    and c': "c' = (w_captains W k)\<lparr>acceptors := (grow_acceptors (length (acceptors (w_captains W k))) s
      (acceptors (w_captains W k)))[s := Some a]\<rparr>" and "acceptor_ok a"
    and ps: "\<forall>(d, m) \<in> set ps. about s (w_captains W k) m"
    and e: "actor e = k" "event_values e = {}"
    and step: "\<forall>S. slot_sim views n W s S \<longrightarrow> (\<exists>S'. slot_do views n 0 s e S = Some S'
      \<and> (\<exists>ms. S' = send ms (set_acceptor k a S)) \<and> (\<forall>p \<in> set ps. packet_mirror s (set (w_handed W)) S' p))"
  shows "world_inv views n (moved k c' ps W)"
proof (rule node_moves [OF assms(1) inv k, where s = s])
  let ?c = "w_captains W k"
  note node = world_node [OF inv k]
  have as: "acceptors_ok (acceptors ?c)"
    using node(1) by (simp add: core_ok_def)
  note acc = grown_acceptors(2) [OF as s refl, of a, folded c']
  have "core_ok c'"
    using node(1) acceptors_ok_update [OF acceptors_ok_grow(1) [OF as] s assms(6)] by (simp add: c' core_ok_def)
  then show "node_inv views (set (w_handed W)) k c'"
    using node by (simp add: c' node_inv_def)
  show "max_slot ?c \<le> max_slot c'"
    by (simp add: c')
  show "\<forall>t. t \<noteq> s \<longrightarrow> same_at t ?c c'"
    using acc by (simp add: same_at_def) (simp add: c')
  show "\<forall>S. slot_sim views n W s S \<longrightarrow> (\<exists>S'. slot_moves views n (set (w_handed W)) s k S S'
      \<and> node_mirror s S' k c' \<and> (\<forall>p \<in> set ps. packet_mirror s (set (w_handed W)) S' p))"
  proof (intro allI impI)
    fix S assume S: "slot_sim views n W s S"
    then obtain S' ms where S': "slot_do views n 0 s e S = Some S'" "S' = send ms (set_acceptor k a S)"
      "\<forall>p \<in> set ps. packet_mirror s (set (w_handed W)) S' p"
      using step by blast
    have "slot_moves views n (set (w_handed W)) s k S S'"
      using S'(1) e unfolding slot_moves_def by blast
    moreover have "node_mirror s S' k c'"
      using world_mirror [OF S k] acc by (simp add: node_mirror_def S'(2)) (simp add: c')
    ultimately show "\<exists>S'. slot_moves views n (set (w_handed W)) s k S S'
      \<and> node_mirror s S' k c' \<and> (\<forall>p \<in> set ps. packet_mirror s (set (w_handed W)) S' p)"
      using S'(3) by blast
  qed
qed (rule ps)

lemma handle_prepare_moves:
  assumes "cluster views n" and inv: "world_inv views n W" and k: "unat k < n" and s: "0 < hdr_slot (pre_header p)"
    and m: "arrived k (Prepare p) W" and run: "handle_prepare p name (w_captains W k) = Inr (c', calls)"
  shows "world_inv views n (moved k c' (sent_by k calls) W)"
proof -
  let ?c = "w_captains W k" and ?s = "hdr_slot (pre_header p)"
  note node = world_node [OF inv k]
  have as: "acceptors_ok (acceptors ?c)"
    using node(1) by (simp add: core_ok_def)
  have me: "me_of ?c = k"
    using node(2) cluster_me [OF assms(1) k] by simp
  obtain a ack where a: "handle_msg_prepare k p (acc_at ?c ?s) = (a, ack)"
    by (cases "handle_msg_prepare k p (acc_at ?c ?s)")
  have self: "sender (pre_header p) = k" if "from_myself (pre_header p) ?c"
    using that by (simp add: from_myself_def sender_def me)
  have res: "c' = ?c\<lparr>acceptors := (grow_acceptors (length (acceptors ?c)) ?s (acceptors ?c))[?s := Some a]\<rparr>"
    "sent_by k calls = [(Some (sender (pre_header p)), Ack_prepare ack)]"
    using run grown_acceptors(1) [OF as s refl] a me self by (auto simp: handle_prepare_def Let_def split: if_splits)
  have ack: "hdr_slot (ackp_header ack) = ?s"
    using handle_msg_prepare_header [of k p "acc_at ?c ?s"] a by simp
  have "acceptor_ok (acc_at ?c ?s)"
    using acc_at_ok [OF as s] .
  then have ok: "acceptor_ok a"
    using acceptor_ok_prepare a by (metis fst_conv)
  show ?thesis
  proof (rule acceptor_moves [OF assms(1) inv k s res(1) ok, where e = "Recv_prepare k p"])
    show "\<forall>S. slot_sim views n W ?s S \<longrightarrow> (\<exists>S'. slot_do views n 0 ?s (Recv_prepare k p) S = Some S'
        \<and> (\<exists>ms. S' = send ms (set_acceptor k a S))
        \<and> (\<forall>q \<in> set (sent_by k calls). packet_mirror ?s (set (w_handed W)) S' q))"
    proof (intro allI impI)
      fix S assume S: "slot_sim views n W ?s S"
      then have "sl_acceptors S k = acc_at ?c ?s"
        using world_mirror [OF S k] s by (simp add: node_mirror_def)
      then show "\<exists>S'. slot_do views n 0 ?s (Recv_prepare k p) S = Some S'
          \<and> (\<exists>ms. S' = send ms (set_acceptor k a S))
          \<and> (\<forall>q \<in> set (sent_by k calls). packet_mirror ?s (set (w_handed W)) S' q)"
        using arrived_deliverable(1) [OF S m refl] k a by (auto simp: res(2))
    qed
  qed (simp_all add: res(2) ack)
qed

section \<open>Learning\<close>

lemma add_callback_view:
  assumes "add_callback c = Inr (c', calls)" and "\<forall>s v. chosen_at c s = Some v \<longrightarrow> pv_cmd v = None"
  shows "cap_view c' = cap_view c"
  using assms
proof (induction c arbitrary: c' calls rule: add_callback.induct)
  case (1 c)
  let ?s = "Suc (max_chosen_without_hole c)"
  show ?case
  proof (cases "max_chosen_without_hole c < max_chosen c \<and> (\<exists>v. vec_at (chosen_values c) ?s = Inr (Some v))")
    case False
    then show ?thesis
      using "1.prems"(1) by (subst (asm) add_callback.simps)
        (auto simp: res_bind_Inr_iff split: if_splits option.splits)
  next
    case True
    then obtain v where more: "max_chosen_without_hole c < max_chosen c" and v: "vec_at (chosen_values c) ?s = Inr (Some v)"
      by blast
    let ?c1 = "apply_command v (c\<lparr>max_chosen_without_hole := ?s\<rparr>)"
    have "chosen_at c ?s = Some v"
      using v by (auto simp: vec_at_Inr_iff chosen_at_def)
    then have plain: "?c1 = c\<lparr>max_chosen_without_hole := ?s\<rparr>"
      using "1.prems"(2) by (simp add: apply_command_def)
    obtain calls2 where "add_callback ?c1 = Inr (c', calls2)"
      using "1.prems"(1) more v by (subst (asm) add_callback.simps) (auto simp: res_bind_Inr_iff Let_def)
    from "1.IH" [OF more refl refl this] "1.prems"(2) show ?thesis
      by (simp add: plain)
  qed
qed

lemma add_chosen_value_view:
  assumes "log_ok c" and "add_chosen_value s v c = Inr (c', calls)"
    and "\<forall>t w. chosen_at c t = Some w \<longrightarrow> pv_cmd w = None" and "pv_cmd v = None"
  shows "cap_view c' = cap_view c"
proof -
  have "\<forall>t w. chosen_at (store_chosen s v c) t = Some w \<longrightarrow> pv_cmd w = None"
    using assms(3,4) by (simp add: chosen_at_store [OF assms(1)])
  then show ?thesis
    using add_callback_view [of "store_chosen s v c" c' calls] assms(2)
    by (simp add: add_chosen_value_store [OF assms(1)])
qed

text \<open>Values that were handed in carry no command.\<close>

definition plain_values :: "'n world \<Rightarrow> bool" where
  "plain_values W \<longleftrightarrow> (\<forall>v \<in> set (w_handed W). pv_cmd v = None \<and> pv_integrity v = None)"

text \<open>What learning a value changes.\<close>

definition learned :: "slot_id \<Rightarrow> prop_value \<Rightarrow> 'n captain \<Rightarrow> 'n captain \<Rightarrow> bool" where
  "learned s v c c' \<longleftrightarrow> same_rest c c' \<and> log_ok c' \<and> cap_view c' = cap_view c
     \<and> chosen_at c' = (if chosen_at c s = None then (chosen_at c)(s := Some v) else chosen_at c)"

lemma add_chosen_value_learned:
  assumes "log_ok c" and "add_chosen_value s v c = Inr (c', calls)"
    and "\<forall>t w. chosen_at c t = Some w \<longrightarrow> pv_cmd w = None" and "pv_cmd v = None"
  shows "learned s v c c'" and "sent_by k calls = []"
proof -
  obtain c1 calls1 where r: "add_chosen_value s v c = Inr (c1, calls1)" "log_ok c1" "same_rest c c1"
    "chosen_at c1 = (if chosen_at c s = None then (chosen_at c)(s := Some v) else chosen_at c)"
    using add_chosen_value_rest [OF assms(1), of s v] by metis
  then show "learned s v c c'"
    using assms(2) add_chosen_value_view [OF assms] by (simp add: learned_def)
  show "sent_by k calls = []"
    using add_chosen_value_callback [OF assms(1,2)] by (intro sent_by_callbacks) blast
qed

lemma learned_same_at:
  "learned s v c c' \<Longrightarrow> t \<noteq> s \<Longrightarrow> same_at t c c'"
  by (simp add: learned_def same_rest_def same_at_def acc_at_def acceptor_at_def)

lemma learned_node:
  "learned s v c c' \<Longrightarrow> node_inv views V k c \<Longrightarrow> node_inv views V k c'"
  by (auto simp: learned_def same_rest_def node_inv_def core_ok_def)

lemma learned_mirror:
  "learned s v c c' \<Longrightarrow> node_mirror s S k c \<Longrightarrow> v \<in> set (sl_chosen S) \<Longrightarrow> node_mirror s S k c'"
  by (auto simp: learned_def same_rest_def node_mirror_def acc_at_def acceptor_at_def split: if_splits)

lemma learn_moves:
  assumes "cluster views n" and inv: "world_inv views n W" and k: "unat k < n"
    and l: "learned s v (w_captains W k) c'" and v: "\<forall>S. slot_sim views n W s S \<longrightarrow> v \<in> set (sl_chosen S)"
  shows "world_inv views n (moved k c' [] W)"
proof (rule node_moves [OF assms(1) inv k, where s = s])
  show "node_inv views (set (w_handed W)) k c'"
    using inv k by (intro learned_node [OF l]) (simp add: world_inv_def)
  show "max_slot (w_captains W k) \<le> max_slot c'"
    using l by (simp add: learned_def same_rest_def)
  show "\<forall>S. slot_sim views n W s S \<longrightarrow> (\<exists>S'. slot_moves views n (set (w_handed W)) s k S S'
      \<and> node_mirror s S' k c' \<and> (\<forall>p \<in> set []. packet_mirror s (set (w_handed W)) S' p))"
    using learned_mirror [OF l world_mirror [OF _ k]] v by (auto simp: slot_moves_def)
qed (use learned_same_at [OF l] in auto)

section \<open>Accept requests\<close>

lemma bare_sel [simp]:
  "acc_header (bare r) = acc_header r" "acc_ballot (bare r) = acc_ballot r" "acc_value (bare r) = acc_value r"
  "acc_last_slot (bare r) = None" "acc_last_value (bare r) = None"
  by (simp_all add: bare_def)

lemma handle_msg_accept_bare: "handle_msg_accept k (bare r) a = handle_msg_accept k r a"
  unfolding handle_msg_accept_def bare_sel ..

lemma vote_moves:
  assumes "cluster views n" and inv: "world_inv views n W" and k: "unat k < n" and s: "0 < s"
    and m: "arrived k (Accept r) W" "hdr_slot (acc_header r) = s"
    and vote: "handle_msg_accept k r (acc_at (w_captains W k) s) = (a, ack)"
    and c': "c' = (w_captains W k)\<lparr>acceptors := (grow_acceptors (length (acceptors (w_captains W k))) s
      (acceptors (w_captains W k)))[s := Some a]\<rparr>"
    and ps: "set ps \<subseteq> {(Some (sender (acc_header r)), Ack_accept ack)}"
  shows "world_inv views n (moved k c' ps W)"
proof (rule acceptor_moves [OF assms(1) inv k s c', where e = "Recv_accept k (bare r)"])
  let ?c = "w_captains W k"
  have "acceptors_ok (acceptors ?c)"
    using world_node(1) [OF inv k] by (simp add: core_ok_def)
  then show "acceptor_ok a"
    using acceptor_ok_accept [OF acc_at_ok [OF _ s], of ?c k r] vote by simp
  have ack: "hdr_slot (acka_header ack) = s"
    using handle_msg_accept_header [of k r "acc_at ?c s"] vote m(2) by simp
  then show "\<forall>(d, m) \<in> set ps. about s ?c m"
    using ps by auto
  show "\<forall>S. slot_sim views n W s S \<longrightarrow> (\<exists>S'. slot_do views n 0 s (Recv_accept k (bare r)) S = Some S'
      \<and> (\<exists>ms. S' = send ms (set_acceptor k a S)) \<and> (\<forall>p \<in> set ps. packet_mirror s (set (w_handed W)) S' p))"
  proof (intro allI impI)
    fix S assume S: "slot_sim views n W s S"
    then have at: "sl_acceptors S k = acc_at ?c s"
      using world_mirror [OF S k] s by (simp add: node_mirror_def)
    let ?S = "send [(Some (sender (acc_header r)), Ack_accept ack)] (set_acceptor k a S)"
    have "slot_do views n 0 s (Recv_accept k (bare r)) S = Some ?S"
      using arrived_deliverable(3) [OF S m] k vote at by (simp add: handle_msg_accept_bare)
    moreover have "\<forall>p \<in> set ps. packet_mirror s (set (w_handed W)) ?S p"
      using ps by auto
    ultimately show "\<exists>S'. slot_do views n 0 s (Recv_accept k (bare r)) S = Some S'
        \<and> (\<exists>ms. S' = send ms (set_acceptor k a S)) \<and> (\<forall>p \<in> set ps. packet_mirror s (set (w_handed W)) S' p)"
      by blast
  qed
qed simp_all

lemma learn_piggyback_moves:
  assumes "cluster views n" and inv: "world_inv views n W" and k: "unat k < n" and s: "0 < s"
    and plain: "plain_values W" and ids: "inj_on pv_id (set (w_handed W))"
    and m: "arrived k (Accept r) W" "acc_last_slot r = Some s" "acc_last_value r = Some vid"
    and run: "learn_piggyback s vid j (w_captains W k) = Inr (Some (c', calls))"
  shows "world_inv views n (moved k c' [] W)" "sent_by k calls = []"
proof -
  let ?c = "w_captains W k"
  have ok: "log_ok ?c" "acceptors_ok (acceptors ?c)"
    using world_node(1) [OF inv k] by (simp_all add: core_ok_def)
  have cmds: "\<forall>t w. chosen_at ?c t = Some w \<longrightarrow> pv_cmd w = None"
    using chosen_handed [OF inv k] plain by (auto simp: plain_values_def)
  obtain ov where here: "accepted_here s vid ?c = Inr ov"
    using accepted_here_result [OF ok(2) s] by blast
  have "world_inv views n (moved k c' [] W) \<and> sent_by k calls = []"
  proof (cases ov)
    case None
    then have "c' = ?c" "calls = []"
      using run here by (auto simp: learn_piggyback_def already_chosen_result [OF ok(1)] split: if_splits)
    then show ?thesis
      using inv by (simp add: moved_def)
  next
    case (Some v)
    then have v: "max_value (acc_at ?c s) = Some v" "pv_id v = vid"
      using here unfolding accepted_here_result [OF ok(2) s]
      by (auto simp: acc_at_def split: option.splits if_splits)
    obtain calls1 where add: "add_chosen_value s v ?c = Inr (c', calls1)" "calls = calls1 @ [Produce_log s v]
        \<or> (\<exists>w. calls = calls1 @ [Produce_log s w])"
      using run here Some by (auto simp: learn_piggyback_def already_chosen_result [OF ok(1)] add_learn_value_def
          res_bind_Inr_iff split: if_splits)
    have chosen: "v \<in> set (sl_chosen S)" if S: "slot_sim views n W s S" for S
    proof -
      obtain w where w: "w \<in> set (sl_chosen S)" "pv_id w = vid"
        using arrived_deliverable(5) [OF S m(1,2)] m(3) by auto
      have "v \<in> set (w_handed W)" "w \<in> set (w_handed W)"
        using S v(1) world_mirror [OF S k] s w(1) unfolding slot_sim_def node_mirror_def valid_inv_def
        by (metis option.set_intros subsetD)+
      then show ?thesis
        using w v(2) ids by (metis inj_onD)
    qed
    obtain S where S: "slot_sim views n W s S"
      using inv by (auto simp: world_inv_def)
    then have "v \<in> set (w_handed W)"
      using chosen [OF S] by (auto simp: slot_sim_def valid_inv_def)
    then have "pv_cmd v = None"
      using plain by (simp add: plain_values_def)
    note l = add_chosen_value_learned [OF ok(1) add(1) cmds this]
    show ?thesis
      using learn_moves [OF assms(1) inv k l(1)] chosen l(2) add(2) by auto
  qed
  then show "world_inv views n (moved k c' [] W)" "sent_by k calls = []" by blast+
qed

lemma handle_accept_moves:
  assumes "cluster views n" and inv: "world_inv views n W" and k: "unat k < n"
    and plain: "plain_values W" "inj_on pv_id (set (w_handed W))"
    and ok: "0 < hdr_slot (acc_header r)" "acc_last_slot r \<noteq> Some 0"
    and m: "arrived k (Accept r) W" and run: "handle_accept r name (w_captains W k) = Inr (c', calls)"
  shows "world_inv views n (moved k c' (sent_by k calls) W)"
proof -
  let ?c = "w_captains W k" and ?s = "hdr_slot (acc_header r)"
  have as: "acceptors_ok (acceptors ?c)" and me: "me_of ?c = k"
    using world_node(1,2) [OF inv k] cluster_me [OF assms(1) k] by (simp_all add: core_ok_def)
  obtain a ack where a: "handle_msg_accept k r (acc_at ?c ?s) = (a, ack)"
    by (cases "handle_msg_accept k r (acc_at ?c ?s)")
  let ?c1 = "?c\<lparr>acceptors := (grow_acceptors (length (acceptors ?c)) ?s (acceptors ?c))[?s := Some a]\<rparr>"
  let ?reply = "(Some (sender (acc_header r)), Ack_accept ack)"
  note vote = vote_moves [OF assms(1) inv k ok(1) m refl a refl]
  note at = grown_acceptors(1) [OF as ok(1) refl]
  show ?thesis
  proof (cases "from_myself (acc_header r) ?c \<or> acc_last_slot r = None")
    case True
    have "sender (acc_header r) = k" if "from_myself (acc_header r) ?c"
      using that by (simp add: from_myself_def sender_def me)
    then have "c' = ?c1" "sent_by k calls = [?reply]"
      using True run at a me by (auto simp: handle_accept_def Let_def split: if_splits)
    then show ?thesis
      using vote [of "[?reply]"] by simp
  next
    case False
    then obtain ds where ds: "acc_last_slot r = Some ds" "0 < ds" "\<not> from_myself (acc_header r) ?c"
      using ok(2) by auto
    let ?vid = "case acc_last_value r of None \<Rightarrow> 0 | Some vid \<Rightarrow> vid"
    obtain p where p: "learn_piggyback ds ?vid (sender (acc_header r)) ?c1 = Inr p"
        "case p of None \<Rightarrow> c' = ?c1 \<and> calls = []
         | Some (c2, calls2) \<Rightarrow> c' = c2 \<and> calls = calls2 @ [Reply_to (Ack_accept ack) (sender (acc_header r)) name]"
      using run ds at a me
      by (auto simp: handle_accept_def Let_def res_bind_Inr_iff split: option.splits)
    show ?thesis
    proof (cases p)
      case None
      then show ?thesis
        using p(2) vote [of "[]"] by simp
    next
      case (Some q)
      then obtain c2 calls2 where q: "p = Some (c2, calls2)" "c' = c2"
          "calls = calls2 @ [Reply_to (Ack_accept ack) (sender (acc_header r)) name]"
        using p(2) by (cases q) auto
      let ?W = "moved k ?c1 [?reply] W"
      have W: "world_inv views n ?W" "plain_values ?W" "inj_on pv_id (set (w_handed ?W))" "arrived k (Accept r) ?W"
        using vote [of "[?reply]"] plain m by (simp_all add: plain_values_def arrived_def)
      obtain S where S: "slot_sim views n W ds S"
        using inv by (auto simp: world_inv_def)
      obtain vid where vid: "acc_last_value r = Some vid"
        using arrived_deliverable(5) [OF S m ds(1)] by blast
      have "learn_piggyback ds vid (sender (acc_header r)) (w_captains ?W k) = Inr (Some (c2, calls2))"
        using p(1) q(1) vid by simp
      from learn_piggyback_moves [OF assms(1) W(1) k ds(2) W(2-4) ds(1) vid this] show ?thesis
        by (simp add: q moved_twice)
    qed
  qed
qed

end
