(* ===== verification/World_Proposers.thy ===== *)
theory World_Proposers
  imports World_Nodes
begin

text \<open>
  The proposer side of a node, its queue and its commits keep the invariant that relates the
  node to the one-slot systems.
\<close>

section \<open>Replies to a proposer\<close>

lemma world_proposer:
  assumes "world_inv views n W" and "unat k < n" and "map_find (proposers (w_captains W k)) s = Some info"
  shows "0 < s" "s \<le> max_slot (w_captains W k)" "info_ok (q_size (views k)) info"
proof -
  have "proposers_ok (q_size (views k)) (max_slot (w_captains W k)) (proposers (w_captains W k))"
    using world_node(1,2) [OF assms(1,2)] by (simp add: core_ok_def)
  from proposers_ok_at [OF this assms(3)]
  show "0 < s" "s \<le> max_slot (w_captains W k)" "info_ok (q_size (views k)) info" by blast+
qed

lemma proposer_moves:
  assumes "cluster views n" and inv: "world_inv views n W" and k: "unat k < n"
    and at: "map_find (proposers (w_captains W k)) s = Some info" and info': "info_ok (q_size (views k)) info'"
    and c': "c' = (w_captains W k)\<lparr>proposers := map_put s info' (proposers (w_captains W k))\<rparr>"
    and ps: "\<forall>(d, m) \<in> set ps. about s (w_captains W k) m"
    and e: "actor e = k" "event_values e = {}"
    and step: "\<forall>S. slot_sim views n W s S \<longrightarrow> (\<exists>S' ms. slot_do views n 0 s e S = Some S'
      \<and> S' = send ms (set_proposer k (Some info') S) \<and> (\<forall>p \<in> set ps. packet_mirror s (set (w_handed W)) S' p))"
  shows "world_inv views n (moved k c' ps W)"
proof (rule node_moves [OF assms(1) inv k, where s = s])
  let ?c = "w_captains W k"
  note node = world_node [OF inv k] and pos = world_proposer [OF inv k at]
  have po: "proposers_ok (q_size (views k)) (max_slot ?c) (proposers ?c)"
    using node(1,2) by (simp add: core_ok_def)
  have find: "map_find (proposers c') = (map_find (proposers ?c))(s \<mapsto> info')"
    using proposers_ok_map [OF po] by (simp add: c' map_find_put)
  have "proposers_ok (q_size (views k)) (max_slot ?c) (proposers c')"
    using proposers_ok_put [OF po pos(1,2) info'] by (simp add: c')
  then show "node_inv views (set (w_handed W)) k c'"
    using node by (simp add: node_inv_def core_ok_def c')
  show "\<forall>t. t \<noteq> s \<longrightarrow> same_at t ?c c'"
    using find by (simp add: same_at_def) (simp add: c' acc_at_def acceptor_at_def)
  show "\<forall>S. slot_sim views n W s S \<longrightarrow> (\<exists>S'. slot_moves views n (set (w_handed W)) s k S S'
      \<and> node_mirror s S' k c' \<and> (\<forall>p \<in> set ps. packet_mirror s (set (w_handed W)) S' p))"
  proof (intro allI impI)
    fix S assume S: "slot_sim views n W s S"
    then obtain S' ms where S': "slot_do views n 0 s e S = Some S'" "S' = send ms (set_proposer k (Some info') S)"
      "\<forall>p \<in> set ps. packet_mirror s (set (w_handed W)) S' p"
      using step by blast
    have "slot_moves views n (set (w_handed W)) s k S S'"
      using S'(1) e unfolding slot_moves_def by blast
    moreover have "node_mirror s S' k c'"
      using world_mirror [OF S k] find by (simp add: node_mirror_def S'(2))
        (simp add: c' acc_at_def acceptor_at_def)
    ultimately show "\<exists>S'. slot_moves views n (set (w_handed W)) s k S S'
      \<and> node_mirror s S' k c' \<and> (\<forall>p \<in> set ps. packet_mirror s (set (w_handed W)) S' p)"
      using S'(3) by blast
  qed
qed (simp_all add: ps, simp add: c')

text \<open>The requests a proposer sends by itself are about its own slot and carry no other decision.\<close>

definition own_request :: "slot_id \<Rightarrow> msg \<Rightarrow> bool" where
  "own_request s m \<longleftrightarrow> (\<exists>p. m = Prepare (prepare_request s p))
     \<or> (\<exists>r. m = Accept r \<and> hdr_slot (acc_header r) = s \<and> bare r = r)"

lemma accept_request_sel [simp]:
  "bare (accept_request k s i) = accept_request k s i" "hdr_slot (acc_header (accept_request k s i)) = s"
  "acc_last_slot (accept_request k s i) = None" "acc_last_value (accept_request k s i) = None"
  by (simp_all add: bare_def accept_request_def Proposer.msg_accept_def Let_def)

lemma bare_same: "bare r = r \<Longrightarrow> acc_last_slot r = None"
  by (metis bare_sel(4))

lemma own_request_about: "own_request s m \<Longrightarrow> about s c m"
  by (auto simp: own_request_def prepare_request_def bare_same)

lemma own_request_mirror: "own_request s m \<Longrightarrow> (d, m) \<in> set (sl_net S) \<Longrightarrow> packet_mirror s V S (d, m)"
  by (auto simp: own_request_def bare_same)

lemma restart_request:
  "restart_info k s info = (info', m) \<Longrightarrow> \<exists>p. m = prepare_request s p"
  by (auto simp: restart_info_def split: prod.splits)

lemma promise_request:
  assumes "promise_info k s ack info = (info', Some m)"
  shows "own_request s m"
proof -
  obtain p t where step: "handle_msg_promise ack (curr_proposer info) = (p, t)"
    by (cases "handle_msg_promise ack (curr_proposer info)")
  let ?info1 = "info\<lparr>pi_status := PHASEI, curr_proposer := p\<rparr>"
  obtain info2 r where re: "restart_info k s ?info1 = (info2, r)"
    by (cases "restart_info k s ?info1")
  have "m = Prepare r \<or> m = Accept (accept_request k s ?info1)"
    using assms step re by (cases t) (auto simp: promise_info_def split: if_splits)
  then show ?thesis
    using restart_request [OF re] by (auto simp: own_request_def)
qed

lemma handle_promise_moves:
  assumes "cluster views n" and inv: "world_inv views n W" and k: "unat k < n"
    and m: "arrived k (Ack_prepare ack) W" and run: "handle_promise ack (w_captains W k) = (c', calls)"
    and wrap: "list_all (\<lambda>(s, info). no_ballot_wrap (curr_ballot (curr_proposer info))) (proposers (w_captains W k))"
  shows "world_inv views n (moved k c' (sent_by k calls) W)"
proof (cases "map_find (proposers (w_captains W k)) (hdr_slot (ackp_header ack))")
  case None
  then show ?thesis
    using run inv by (auto simp: handle_promise_def Let_def)
next
  case (Some info)
  let ?c = "w_captains W k" and ?s = "hdr_slot (ackp_header ack)"
  have me: "me_of ?c = k"
    using world_node(2) [OF inv k] cluster_me [OF assms(1) k] by simp
  obtain info' om where p: "promise_info k ?s ack info = (info', om)"
    by (cases "promise_info k ?s ack info")
  have res: "c' = ?c\<lparr>proposers := map_put ?s info' (proposers ?c)\<rparr>" "sent_by k calls = request_list om"
    using run Some p me by (auto simp: handle_promise_def Let_def request_list_def split: option.splits)
  have nowrap: "no_ballot_wrap (curr_ballot (curr_proposer info))"
    using wrap Some by (auto simp: list_all_iff map_find_def dest!: map_of_SomeD)
  have own: "own_request ?s r" if "om = Some r" for r
    using promise_request p that by blast
  show ?thesis
    unfolding res(2)
  proof (rule proposer_moves [OF assms(1) inv k Some promise_info_ok(1) [OF world_proposer(3) [OF inv k Some] p] res(1),
        where e = "Recv_promise k ack"])
    show "\<forall>(d, m) \<in> set (request_list om). about ?s ?c m"
      using own_request_about [OF own] by (cases om) auto
    show "\<forall>S. slot_sim views n W ?s S \<longrightarrow> (\<exists>S' ms. slot_do views n 0 ?s (Recv_promise k ack) S = Some S'
        \<and> S' = send ms (set_proposer k (Some info') S)
        \<and> (\<forall>q \<in> set (request_list om). packet_mirror ?s (set (w_handed W)) S' q))"
    proof (intro allI impI)
      fix S assume S: "slot_sim views n W ?s S"
      then have "sl_proposers S k = Some info"
        using world_mirror [OF S k] Some by (simp add: node_mirror_def)
      then have "slot_do views n 0 ?s (Recv_promise k ack) S = Some (send (request_list om) (set_proposer k (Some info') S))"
        using arrived_deliverable(2) [OF S m refl] nowrap p by (simp add: request_list_def)
      moreover have "\<forall>q \<in> set (request_list om). packet_mirror ?s (set (w_handed W))
          (send (request_list om) (set_proposer k (Some info') S)) q"
        by (cases om) (auto intro!: own_request_mirror own)
      ultimately show "\<exists>S' ms. slot_do views n 0 ?s (Recv_promise k ack) S = Some S'
        \<and> S' = send ms (set_proposer k (Some info') S)
        \<and> (\<forall>q \<in> set (request_list om). packet_mirror ?s (set (w_handed W)) S' q)"
        by blast
    qed
  qed simp_all
qed

section \<open>A new proposer\<close>

text \<open>A node takes its next slot, with a request that may carry a decision it knows.\<close>

lemma start_moves:
  assumes "cluster views n" and inv: "world_inv views n W" and k: "unat k < n"
    and s: "s = Suc (max_slot (w_captains W k))" and info: "info_ok (q_size (views k)) info"
    and c': "c' = (w_captains W k)\<lparr>max_slot := s, proposers := map_put s info (proposers (w_captains W k)), last_slot := l\<rparr>"
    and log: "log_ok c'"
    and about: "about s (w_captains W k) m"
    and e: "actor e = k" "event_values e \<subseteq> set (w_handed W)"
    and step: "\<forall>S. slot_sim views n W s S \<longrightarrow> k \<notin> set (sl_started S) \<longrightarrow>
      (\<exists>S'. slot_do views n 0 s e S = Some S' \<and> sl_acceptors S' = sl_acceptors S
        \<and> sl_proposers S' = (sl_proposers S)(k \<mapsto> info) \<and> sl_chosen S' = sl_chosen S
        \<and> (case m of Accept r \<Rightarrow> (None, Accept (bare r)) \<in> set (sl_net S') | _ \<Rightarrow> (None, m) \<in> set (sl_net S')))"
  shows "world_inv views n (moved k c' [(None, m)] W)"
proof (rule node_moves [OF assms(1) inv k, where s = s])
  let ?c = "w_captains W k"
  note node = world_node [OF inv k]
  have po: "proposers_ok (q_size (views k)) (max_slot ?c) (proposers ?c)"
    using node(1,2) by (simp add: core_ok_def)
  have find: "map_find (proposers c') = (map_find (proposers ?c))(s \<mapsto> info)"
    using proposers_ok_map [OF po] by (simp add: c' map_find_put)
  have same: "acc_at c' = acc_at ?c" "chosen_at c' = chosen_at ?c"
    by (simp_all add: c' acc_at_def acceptor_at_def fun_eq_iff)
  have "proposers_ok (q_size (views k)) s (proposers c')"
    using proposers_ok_put [OF proposers_ok_raise [OF po, of s] _ _ info, of s] s by (simp add: c')
  then show "node_inv views (set (w_handed W)) k c'"
    using node log by (simp add: node_inv_def core_ok_def) (simp add: c')
  show "max_slot ?c \<le> max_slot c'"
    by (simp add: c' s)
  show "\<forall>t. t \<noteq> s \<longrightarrow> same_at t ?c c'"
    using find same by (simp add: same_at_def)
  show "\<forall>(d, x) \<in> set [(None, m)]. about s ?c x"
    using about by simp
  show "\<forall>S. slot_sim views n W s S \<longrightarrow> (\<exists>S'. slot_moves views n (set (w_handed W)) s k S S'
      \<and> node_mirror s S' k c' \<and> (\<forall>p \<in> set [(None, m)]. packet_mirror s (set (w_handed W)) S' p))"
  proof (intro allI impI)
    fix S assume S: "slot_sim views n W s S"
    note mirror = world_mirror [OF S k]
    then have "k \<notin> set (sl_started S)"
      by (simp add: node_mirror_def s)
    then obtain S' where S': "slot_do views n 0 s e S = Some S'" "sl_acceptors S' = sl_acceptors S"
        "sl_proposers S' = (sl_proposers S)(k \<mapsto> info)" "sl_chosen S' = sl_chosen S"
        "case m of Accept r \<Rightarrow> (None, Accept (bare r)) \<in> set (sl_net S') | _ \<Rightarrow> (None, m) \<in> set (sl_net S')"
      using step S by blast
    have "slot_moves views n (set (w_handed W)) s k S S'"
      using S'(1) e unfolding slot_moves_def by blast
    moreover have "node_mirror s S' k c'"
      using mirror find same by (simp add: node_mirror_def S'(2-4)) (simp add: c')
    moreover have "packet_mirror s (set (w_handed W)) S' (None, m)"
      using S'(4,5) about mirror by (cases m) (auto simp: node_mirror_def)
    ultimately show "\<exists>S'. slot_moves views n (set (w_handed W)) s k S S'
      \<and> node_mirror s S' k c' \<and> (\<forall>p \<in> set [(None, m)]. packet_mirror s (set (w_handed W)) S' p)"
      by auto
  qed
qed

lemma propose_fast_moves:
  assumes "cluster views n" and inv: "world_inv views n W" and "0 < n"
    and v: "v \<in> set (w_handed W)" and run: "propose_fast v name (w_captains W 0) = Inr (c', calls)"
  shows "world_inv views n (moved 0 c' (sent_by 0 calls) W)"
proof -
  let ?c = "w_captains W 0" and ?s = "Suc (max_slot (w_captains W 0))"
  have k: "unat (0 :: node_id) < n"
    using assms(3) by simp
  have view: "cap_view ?c = views 0" "me_of ?c = 0"
    using world_node(2) [OF inv k] cluster_me [OF assms(1) k] by simp_all
  let ?info = "fast_info (views 0) v name"
  let ?m = "accept_request 0 ?s ?info"
  let ?c1 = "?c\<lparr>max_slot := ?s, proposers := map_put ?s ?info (proposers ?c)\<rparr>"
  have log: "log_ok ?c1"
    using world_node(1) [OF inv k] by (simp add: core_ok_def)
  have res: "\<exists>l r. c' = ?c1\<lparr>last_slot := l\<rparr> \<and> log_ok c' \<and> calls = [Broadcast (Accept r)] \<and> bare r = ?m \<and> about ?s ?c (Accept r)"
    using log
  proof (cases rule: piggyback_result [where m = ?m])
    case 1
    then have "c' = ?c1\<lparr>last_slot := last_slot ?c1\<rparr>" "calls = [Broadcast (Accept ?m)]"
      using run view by (simp_all add: propose_fast_def Let_def)
    then show ?thesis
      using log by (intro exI [of _ "last_slot ?c"] exI [of _ ?m]) simp
  next
    case (2 w)
    let ?r = "?m\<lparr>acc_last_slot := Some (Suc (last_slot ?c1)), acc_last_value := Some (pv_id w)\<rparr>"
    have "c' = ?c1\<lparr>last_slot := Suc (last_slot ?c1)\<rparr>" "calls = [Broadcast (Accept ?r)]"
      using 2(3) run view by (simp_all add: propose_fast_def Let_def)
    moreover have "bare ?r = ?m"
      by (simp add: bare_def accept_request_def Proposer.msg_accept_def Let_def)
    ultimately show ?thesis
      using 2(1,2) by auto
  qed
  then obtain l r where r: "c' = ?c1\<lparr>last_slot := l\<rparr>" "log_ok c'" "calls = [Broadcast (Accept r)]" "bare r = ?m"
      "about ?s ?c (Accept r)" by blast
  have "world_inv views n (moved 0 c' [(None, Accept r)] W)"
    by (rule start_moves [OF assms(1) inv k refl info_ok_fast, where e = "Start_fast v name"])
      (use r v assms(3) in \<open>auto simp: Let_def\<close>)
  then show ?thesis
    by (simp add: r(3))
qed

lemma recommit_moves:
  assumes "cluster views n" and inv: "world_inv views n W" and k: "unat k < n"
    and v: "v \<in> set (w_handed W)" and run: "recommit tries v name (w_captains W k) = (c', calls)"
  shows "world_inv views n (moved k c' (sent_by k calls) W)"
proof -
  let ?c = "w_captains W k" and ?s = "Suc (max_slot (w_captains W k))"
  have view: "cap_view ?c = views k"
    by (rule world_node(2) [OF inv k])
  obtain info p where re: "recommit_info (views k) tries v name = (info, p)"
    by (cases "recommit_info (views k) tries v name")
  have r: "c' = ?c\<lparr>max_slot := ?s, proposers := map_put ?s info (proposers ?c), last_slot := last_slot ?c\<rparr>"
    "calls = [Broadcast (Prepare (prepare_request ?s p))]"
    using run re view by (auto simp: recommit_def Let_def)
  have "log_ok c'"
    using world_node(1) [OF inv k] by (simp add: r(1) core_ok_def)
  moreover have "info_ok (q_size (views k)) info"
    using info_ok_recommit [OF re] by blast
  ultimately have "world_inv views n (moved k c' [(None, Prepare (prepare_request ?s p))] W)"
    by (intro start_moves [OF assms(1) inv k refl _ r(1), where e = "Start_prepare k tries v name"])
      (use v k re in \<open>auto simp: prepare_request_def\<close>)
  then show ?thesis
    by (simp add: r(2))
qed

section \<open>Accepted\<close>

text \<open>The restarted proposer, or one that only stored the reply.\<close>

lemma handle_accepted_running:
  assumes "cluster views n" and inv: "world_inv views n W" and k: "unat k < n"
    and m: "arrived k (Ack_accept ack) W" "hdr_slot (acka_header ack) = s"
    and at: "map_find (proposers (w_captains W k)) s = Some info"
    and wrap: "no_ballot_wrap (curr_ballot (curr_proposer info))"
    and res: "accepted_info k s ack info = Still info' \<and> ps = []
      \<or> accepted_info k s ack info = Restarted info' p \<and> ps = [(None, Prepare p)]"
    and c': "c' = (w_captains W k)\<lparr>proposers := map_put s info' (proposers (w_captains W k))\<rparr>"
  shows "world_inv views n (moved k c' ps W)"
proof (rule proposer_moves [OF assms(1) inv k at _ c', where e = "Recv_accepted k ack"])
  let ?c = "w_captains W k"
  show "info_ok (q_size (views k)) info'"
    using accepted_info_ok [OF world_proposer(3) [OF inv k at], where me = k and s = s and ack = ack] res by auto
  have own: "own_request s (Prepare p)" if "accepted_info k s ack info = Restarted info' p"
  proof -
    obtain q t where "handle_msg_accepted ack (curr_proposer info) = (q, t)"
      by (cases "handle_msg_accepted ack (curr_proposer info)")
    then show ?thesis
      using that restart_request by (cases t) (auto simp: accepted_info_def own_request_def split: if_splits prod.splits)
  qed
  then show "\<forall>(d, m) \<in> set ps. about s ?c m"
    using res own_request_about [OF own] by auto
  show "\<forall>S. slot_sim views n W s S \<longrightarrow> (\<exists>S' ms. slot_do views n 0 s (Recv_accepted k ack) S = Some S'
      \<and> S' = send ms (set_proposer k (Some info') S) \<and> (\<forall>p \<in> set ps. packet_mirror s (set (w_handed W)) S' p))"
  proof (intro allI impI)
    fix S assume S: "slot_sim views n W s S"
    then have "sl_proposers S k = Some info"
      using world_mirror [OF S k] at by (simp add: node_mirror_def)
    then have "slot_do views n 0 s (Recv_accepted k ack) S = Some (send ps (set_proposer k (Some info') S))"
      using arrived_deliverable(4) [OF S m] wrap res by auto
    moreover have "\<forall>q \<in> set ps. packet_mirror s (set (w_handed W)) (send ps (set_proposer k (Some info') S)) q"
      using res own by (auto intro!: own_request_mirror)
    ultimately show "\<exists>S' ms. slot_do views n 0 s (Recv_accepted k ack) S = Some S'
      \<and> S' = send ms (set_proposer k (Some info') S) \<and> (\<forall>p \<in> set ps. packet_mirror s (set (w_handed W)) S' p)"
      by blast
  qed
qed simp_all

text \<open>A chosen slot: its proposer is gone and its value is in the log.\<close>

definition finished :: "slot_id \<Rightarrow> prop_value \<Rightarrow> 'n captain \<Rightarrow> 'n captain \<Rightarrow> bool" where
  "finished s v c c' \<longleftrightarrow> core_ok c' \<and> cap_view c' = cap_view c \<and> acceptors c' = acceptors c
     \<and> proposers c' = map_erase s (proposers c) \<and> max_slot c' = max_slot c
     \<and> tocommit_values c' = tocommit_values c
     \<and> chosen_at c' = (if chosen_at c s = None then (chosen_at c)(s := Some v) else chosen_at c)"

lemma chosen_moves:
  assumes "cluster views n" and inv: "world_inv views n W" and k: "unat k < n"
    and m: "arrived k (Ack_accept ack) W" "hdr_slot (acka_header ack) = s"
    and at: "map_find (proposers (w_captains W k)) s = Some info"
    and wrap: "no_ballot_wrap (curr_ballot (curr_proposer info))"
    and res: "accepted_info k s ack info = Chosen info'" "curr_value (curr_proposer info') = Some v"
    and fin: "finished s v (w_captains W k) c'"
  shows "world_inv views n (moved k c' [] W)"
proof (rule node_moves [OF assms(1) inv k, where s = s])
  let ?c = "w_captains W k"
  have find: "map_find (proposers c') = (map_find (proposers ?c))(s := None)"
    using fin by (simp add: finished_def map_find_erase)
  have same: "acc_at c' = acc_at ?c" "max_slot c' = max_slot ?c"
    "chosen_at c' = (if chosen_at ?c s = None then (chosen_at ?c)(s := Some v) else chosen_at ?c)"
    using fin by (simp_all add: finished_def acc_at_def acceptor_at_def fun_eq_iff)
  show "node_inv views (set (w_handed W)) k c'"
    using world_node [OF inv k] fin by (simp add: node_inv_def finished_def)
  show "\<forall>t. t \<noteq> s \<longrightarrow> same_at t ?c c'"
    using find same by (simp add: same_at_def)
  show "\<forall>S. slot_sim views n W s S \<longrightarrow> (\<exists>S'. slot_moves views n (set (w_handed W)) s k S S'
      \<and> node_mirror s S' k c' \<and> (\<forall>p \<in> set []. packet_mirror s (set (w_handed W)) S' p))"
  proof (intro allI impI)
    fix S assume S: "slot_sim views n W s S"
    note mirror = world_mirror [OF S k, unfolded node_mirror_def]
    let ?S = "set_proposer k None (S\<lparr>sl_chosen := sl_chosen S @ [v]\<rparr>)"
    have "slot_do views n 0 s (Recv_accepted k ack) S = Some ?S"
      using arrived_deliverable(4) [OF S m] wrap res mirror at by (simp add: get_chosen_value_def)
    then have "slot_moves views n (set (w_handed W)) s k S ?S"
      unfolding slot_moves_def by (intro disjI2 exI [of _ "Recv_accepted k ack"]) simp
    moreover have "node_mirror s ?S k c'"
      using mirror find same by (auto simp: node_mirror_def)
    ultimately show "\<exists>S'. slot_moves views n (set (w_handed W)) s k S S'
      \<and> node_mirror s S' k c' \<and> (\<forall>p \<in> set []. packet_mirror s (set (w_handed W)) S' p)"
      by auto
  qed
  show "max_slot ?c \<le> max_slot c'"
    using same(2) by simp
qed simp

text \<open>Taking a value off the queue, or putting one on it, is seen by no slot.\<close>

lemma queue_moves:
  assumes inv: "world_inv views n W" and k: "unat k < n"
    and "set vs \<subseteq> set (w_handed W)" and "k \<noteq> 0 \<longrightarrow> vs = []"
  shows "world_inv views n (moved k ((w_captains W k)\<lparr>tocommit_values := vs, tocommit_clients := ns\<rparr>) [] W)"
  using world_node [OF inv k] assms(3,4)
  by (intro node_quiet [OF inv k]) (simp_all add: node_inv_def same_at_def acc_at_def acceptor_at_def)

lemma commit_from_queue_moves:
  assumes "cluster views n" and inv: "world_inv views n W" and k: "unat k < n"
    and run: "commit_from_queue (w_captains W k) = Inr (c', calls)"
  shows "world_inv views n (moved k c' (sent_by k calls) W)"
proof (cases "tocommit_values (w_captains W k)")
  case Nil
  then show ?thesis
    using run inv by (auto simp: commit_from_queue_def)
next
  case (Cons v vs)
  note node = world_node [OF inv k]
  have zero: "k = 0" "0 < n"
    using node(4) Cons k by auto
  obtain name ns where r: "propose_fast v name
      ((w_captains W k)\<lparr>tocommit_values := vs, tocommit_clients := ns\<rparr>) = Inr (c', calls)"
    using run Cons by (auto simp: commit_from_queue_def res_bind_Inr_iff queue_front_def split: if_splits)
  let ?W = "moved k ((w_captains W k)\<lparr>tocommit_values := vs, tocommit_clients := ns\<rparr>) [] W"
  have "world_inv views n ?W"
    using queue_moves [OF inv k, of vs ns] node(3) Cons zero by simp
  from propose_fast_moves [OF assms(1) this zero(2), of v] show ?thesis
    using r node(3) Cons zero(1) by (simp add: moved_twice)
qed

lemma proposer_values:
  assumes "world_inv views n W" and "unat k < n" and at: "map_find (proposers (w_captains W k)) s = Some info"
  shows "valid_proposer (set (w_handed W)) (curr_proposer info)"
proof -
  obtain S where S: "slot_sim views n W s S"
    using assms(1) by (auto simp: world_inv_def)
  then have "sl_proposers S k = Some info"
    using world_mirror [OF S assms(2)] at by (simp add: node_mirror_def)
  then show ?thesis
    using S by (auto simp: slot_sim_def valid_inv_def)
qed

lemma next_work_moves:
  assumes "cluster views n" and "world_inv views n (moved k c ms W)" and "unat k < n"
    and "init_value (curr_proposer info) \<in> set (w_handed W)" and "next_work info v name c = Inr (c', calls)"
  shows "world_inv views n (moved k c' (sent_by k calls) (moved k c ms W))"
  using assms(4,5) commit_from_queue_moves [OF assms(1-3)] recommit_moves [OF assms(1-3)]
  by (auto simp: next_work_def get_init_value_def split: if_splits)

lemma finish_slot_moves:
  assumes "cluster views n" and inv: "world_inv views n W" and k: "unat k < n" and plain: "plain_values W"
    and m: "arrived k (Ack_accept ack) W" "hdr_slot (acka_header ack) = s"
    and at: "map_find (proposers (w_captains W k)) s = Some info"
    and wrap: "no_ballot_wrap (curr_ballot (curr_proposer info))"
    and res: "accepted_info k s ack info = Chosen info'"
    and run: "finish_slot s info' name (w_captains W k) = Inr (c', calls)"
  shows "world_inv views n (moved k c' (sent_by k calls) W)"
proof -
  let ?c = "w_captains W k" and ?init = "init_value (curr_proposer info')"
  note node = world_node [OF inv k]
  have ps: "proposers_ok (q_size (cap_view ?c)) (max_slot ?c) (proposers ?c)" and log: "log_ok ?c"
    using node(1) by (simp_all add: core_ok_def)
  obtain v where v: "curr_value (curr_proposer info') = Some v" "curr_value (curr_proposer info) = Some v"
      and init: "?init = init_value (curr_proposer info)"
    using accepted_info_ok [OF world_proposer(3) [OF inv k at], where me = k and s = s and ack = ack] res by auto
  have handed: "v \<in> set (w_handed W)" "?init \<in> set (w_handed W)"
    using proposer_values [OF inv k at] v(2) by (simp_all add: valid_proposer_def init)
  let ?c1 = "?c\<lparr>proposers := map_put s info' (proposers ?c)\<rparr>"
  obtain c2 calls2 where add: "add_chosen_value s v ?c1 = Inr (c2, calls2)"
    using add_chosen_value_rest [of ?c1 s v] log by (metis log_ok_update(1))
  have "\<forall>t w. chosen_at ?c1 t = Some w \<longrightarrow> pv_cmd w = None"
    using chosen_handed [OF inv k] plain by (auto simp: plain_values_def)
  then have l: "learned s v ?c1 c2" "sent_by k calls2 = []"
    using add_chosen_value_learned [OF _ add] log handed(1) plain by (auto simp: plain_values_def)
  let ?c3 = "c2\<lparr>proposers := map_erase s (proposers c2)\<rparr>"
  have "proposers ?c3 = map_erase s (proposers ?c)"
    using l(1) map_erase_put [OF proposers_ok_map [OF ps]] by (simp add: learned_def same_rest_def)
  then have fin: "finished s v ?c ?c3"
    using l(1) node(1) proposers_ok_erase [OF ps]
    by (auto simp: finished_def learned_def same_rest_def core_ok_def)
  let ?W = "moved k ?c3 [] W"
  have W: "world_inv views n ?W"
    by (rule chosen_moves [OF assms(1) inv k m at wrap res v(1) fin])
  obtain calls4 where c': "next_work info' v name ?c3 = Inr (c', calls4)" "sent_by k calls = sent_by k calls4"
    using run v(1) add l(2)
    by (auto simp: get_chosen_value_def tell_client_def elim!: finish_slot_InrE)
  have "world_inv views n (moved k c' (sent_by k calls4) ?W)"
    by (rule next_work_moves [OF assms(1) W k _ c'(1)]) (simp_all add: handed(2))
  then show ?thesis
    by (simp add: moved_twice c'(2))
qed

lemma handle_accepted_moves:
  assumes "cluster views n" and inv: "world_inv views n W" and k: "unat k < n" and plain: "plain_values W"
    and m: "arrived k (Ack_accept ack) W" and run: "handle_accepted ack name (w_captains W k) = Inr (c', calls)"
    and wrap: "list_all (\<lambda>(s, info). no_ballot_wrap (curr_ballot (curr_proposer info))) (proposers (w_captains W k))"
  shows "world_inv views n (moved k c' (sent_by k calls) W)"
proof (cases "map_find (proposers (w_captains W k)) (hdr_slot (acka_header ack))")
  case None
  then show ?thesis
    using run inv by (auto simp: handle_accepted_def Let_def)
next
  case (Some info)
  let ?c = "w_captains W k" and ?s = "hdr_slot (acka_header ack)"
  have me: "me_of ?c = k"
    using world_node(2) [OF inv k] cluster_me [OF assms(1) k] by simp
  have nowrap: "no_ballot_wrap (curr_ballot (curr_proposer info))"
    using wrap Some by (auto simp: list_all_iff map_find_def dest!: map_of_SomeD)
  note running = handle_accepted_running [OF assms(1) inv k m refl Some nowrap]
  show ?thesis
  proof (cases "accepted_info k ?s ack info")
    case (Still info')
    then have "c' = ?c\<lparr>proposers := map_put ?s info' (proposers ?c)\<rparr>" "calls = []"
      using run Some me by (auto simp: handle_accepted_def Let_def)
    then show ?thesis
      using running [of info' "[]" undefined c'] Still by simp
  next
    case (Restarted info' p)
    then have "c' = ?c\<lparr>proposers := map_put ?s info' (proposers ?c)\<rparr>" "calls = [Broadcast (Prepare p)]"
      using run Some me by (auto simp: handle_accepted_def Let_def)
    then show ?thesis
      using running [of info' "[(None, Prepare p)]" p c'] Restarted by simp
  next
    case (Chosen info')
    then show ?thesis
      using finish_slot_moves [OF assms(1) inv k plain m refl Some nowrap] run Some me
      by (simp add: handle_accepted_def Let_def)
  qed
qed

section \<open>Commits\<close>

text \<open>The order of the packets does not matter.\<close>

lemma world_net_set:
  assumes "world_inv views n (moved k c ps W)" and "set qs = set ps" and "c' = c"
  shows "world_inv views n (moved k c' qs W)"
  using assms by (simp add: world_inv_def slot_sim_def)

lemma commit_value_moves:
  assumes "cluster views n" and inv: "world_inv views n W" and "0 < n" and queue: "queue_ok (w_captains W 0)"
    and v: "v \<in> set (w_handed W)" and run: "commit_value v name (w_captains W 0) = Inr (c', calls, name')"
  shows "world_inv views n (moved 0 c' (sent_by 0 calls) W)"
  using queue_ok_cases [OF queue]
proof
  have k: "unat (0 :: node_id) < n"
    using assms(3) by simp
  assume "length (proposers (w_captains W 0)) = window_size (w_captains W 0)"
  then show ?thesis
    using run v world_node(3) [OF inv k] queue_moves [OF inv k, of "tocommit_values (w_captains W 0) @ [v]"]
    by (auto simp: commit_value_full [OF queue])
next
  assume "length (proposers (w_captains W 0)) < window_size (w_captains W 0)"
  then show ?thesis
    using run propose_fast_moves [OF assms(1) inv assms(3) v]
    by (auto simp: commit_value_free [OF queue] res_bind_Inr_iff)
qed

text \<open>Parts of a node that no slot reads.\<close>

lemma unseen_moves:
  assumes inv: "world_inv views n W" and k: "unat k < n"
    and c': "core_ok c' = core_ok (w_captains W k)" "cap_view c' = cap_view (w_captains W k)"
      "acceptors c' = acceptors (w_captains W k)" "proposers c' = proposers (w_captains W k)"
      "chosen_at c' = chosen_at (w_captains W k)" "max_slot c' = max_slot (w_captains W k)"
      "tocommit_values c' = tocommit_values (w_captains W k)"
    and ps: "\<forall>(d, m) \<in> set ps. \<exists>cm. m = Commit cm \<and> com_value cm \<in> set (w_handed W)"
  shows "world_inv views n (moved k c' ps W)"
  using world_node [OF inv k] ps
  by (intro node_quiet [OF inv k]) (simp_all add: c' node_inv_def same_at_def acc_at_def acceptor_at_def)

lemma handle_commit_moves:
  assumes "one_master views n" and inv: "world_inv views n W" and k: "unat k < n"
    and queue: "queue_ok (w_captains W k)"
    and m: "arrived k (Commit m) W" and run: "handle_commit m name (w_captains W k) = Inr (c', calls)"
  shows "world_inv views n (moved k c' (sent_by k calls) W)"
proof (cases "if_master (cap_view (w_captains W k))")
  let ?c = "w_captains W k"
  case False
  then have "c' = ?c\<lparr>commit_ok := True\<rparr>" "calls = []"
    using run by (auto simp: handle_commit_def)
  then show ?thesis
    using unseen_moves [OF inv k, of "?c\<lparr>commit_ok := True\<rparr>" "[]"] by simp
next
  let ?c = "w_captains W k"
  case True
  have clust: "cluster views n"
    using assms(1) by (simp add: one_master_def)
  then have zero: "k = 0" "0 < n"
    using True world_node(2) [OF inv k] cluster_me [OF clust k] assms(1) k
    by (auto simp: one_master_def if_master_def whoami_def cluster_def)
  obtain S where "slot_sim views n W 0 S"
    using inv by (auto simp: world_inv_def)
  then have v: "com_value m \<in> set (w_handed W)"
    using m by (auto simp: slot_sim_def arrived_def)
  obtain c1 calls1 nm where r: "commit_value (com_value m) (dumName ?c) ?c = Inr (c1, calls1, nm)"
      "c' = c1\<lparr>dumName := nm\<rparr>" "calls = Reply_to (Commit m) (sender (com_header m)) name # calls1"
    using run True by (auto simp: handle_commit_def commit_value_dum_def res_bind_Inr_iff)
  let ?W = "moved 0 c1 (sent_by 0 calls1) W"
  have W: "world_inv views n ?W"
    using commit_value_moves [OF clust inv zero(2) _ v] queue r(1) zero(1) by simp
  have "world_inv views n (moved 0 (c1\<lparr>dumName := nm\<rparr>) [(Some (sender (com_header m)), Commit m)] ?W)"
    using v zero(2) by (intro unseen_moves [OF W]) simp_all
  then show ?thesis
    using world_net_set [of views n 0 "c1\<lparr>dumName := nm\<rparr>" _ W "sent_by k calls" c']
    by (simp add: moved_twice r(2,3) zero(1))
qed

end
