(* ===== verification/World_Safety.thy ===== *)
theory World_Safety
  imports World_Proposers
begin

text \<open>
  The invariant of the whole cluster along every run, and what follows from it: all nodes
  build the same log.
\<close>

section \<open>Value ids\<close>

text \<open>Only a node's own commits count its value ids up.\<close>

definition same_id :: "'n captain \<Rightarrow> ('n captain \<times> 'n call list) res \<Rightarrow> bool" where
  "same_id c r \<longleftrightarrow> (\<forall>c' calls. r = Inr (c', calls) \<longrightarrow> value_id c' = value_id c)"

lemma learn_same_id: "log_ok c \<Longrightarrow> add_chosen_value s v c = Inr (c', calls) \<Longrightarrow> value_id c' = value_id c"
  using add_chosen_value_result [of c s v] passed_to_sel(11) by (metis Pair_inject store_chosen_sel(10) sum.inject(2))

lemma piggyback_id: "piggyback m c = Inr (c', m') \<Longrightarrow> value_id c' = value_id c"
  by (auto simp: piggyback_def res_bind_Inr_iff split: if_splits option.splits)

lemma propose_fast_id: "propose_fast v name c = Inr (c', calls) \<Longrightarrow> value_id c' = value_id c"
  using piggyback_id by (fastforce simp: propose_fast_def Let_def res_bind_Inr_iff)

lemma commit_value_id: "commit_value v name c = Inr (c', calls, name') \<Longrightarrow> value_id c' = value_id c"
  using propose_fast_id by (fastforce simp: commit_value_def Let_def res_bind_Inr_iff split: if_splits)

lemma commit_from_queue_id: "commit_from_queue c = Inr (c', calls) \<Longrightarrow> value_id c' = value_id c"
  using propose_fast_id by (fastforce simp: commit_from_queue_def res_bind_Inr_iff split: if_splits)

lemma handle_prepare_id: "same_id c (handle_prepare m name c)"
  by (auto simp: same_id_def handle_prepare_def Let_def res_bind_Inr_iff split: prod.split_asm if_splits)

lemma handle_promise_id: "same_id c (Inr (handle_promise m c))"
  by (auto simp: same_id_def handle_promise_def Let_def split: option.splits prod.split_asm)

lemma learn_piggyback_id:
  assumes "log_ok c" and "learn_piggyback s vid j c = Inr (Some (c', calls))"
  shows "value_id c' = value_id c"
  using assms(2) learn_same_id [OF assms(1)]
  by (auto simp: learn_piggyback_def add_learn_value_def res_bind_Inr_iff split: if_splits option.splits)

lemma handle_accept_id:
  assumes "log_ok c"
  shows "same_id c (handle_accept m name c)"
  unfolding same_id_def
proof (intro allI impI)
  fix c' calls
  let ?as = "grow_acceptors (length (acceptors c)) (hdr_slot (acc_header m)) (acceptors c)"
  assume run: "handle_accept m name c = Inr (c', calls)"
  obtain a where a: "vec_at ?as (hdr_slot (acc_header m)) = Inr (Some a)"
    using run by (auto simp: handle_accept_def Let_def res_bind_Inr_iff deref_Inr_iff)
  obtain a' ack where h: "handle_msg_accept (me_of c) m a = (a', ack)"
    by (cases "handle_msg_accept (me_of c) m a")
  have "log_ok (c\<lparr>acceptors := ?as[hdr_slot (acc_header m) := Some a']\<rparr>)"
    using assms by simp
  from learn_piggyback_id [OF this] show "value_id c' = value_id c"
    using run a h by (auto simp: handle_accept_def Let_def res_bind_Inr_iff split: if_splits option.splits)
qed

lemma next_work_id: "next_work info v name c = Inr (c', calls) \<Longrightarrow> value_id c' = value_id c"
  using commit_from_queue_id [of c c' calls] by (auto simp: next_work_def recommit_def Let_def split: if_splits prod.splits)

lemma finish_slot_id:
  assumes "log_ok c" and "finish_slot s info name c = Inr (c', calls)"
  shows "value_id c' = value_id c"
  using assms(2)
proof (rule finish_slot_InrE)
  fix chosen c2 calls2 calls4
  assume "add_chosen_value s chosen (c\<lparr>proposers := map_put s info (proposers c)\<rparr>) = Inr (c2, calls2)"
    and "next_work info chosen name (c2\<lparr>proposers := map_erase s (proposers c2)\<rparr>) = Inr (c', calls4)"
  then show ?thesis
    using learn_same_id [of "c\<lparr>proposers := map_put s info (proposers c)\<rparr>"] next_work_id assms(1) by fastforce
qed

lemma handle_accepted_id:
  assumes "log_ok c"
  shows "same_id c (handle_accepted m name c)"
  using finish_slot_id [OF assms]
  by (auto simp: same_id_def handle_accepted_def Let_def split: option.splits accepted_result.splits)

lemma handle_commit_id: "same_id c (handle_commit m name c)"
  using commit_value_id
  by (fastforce simp: same_id_def handle_commit_def commit_value_dum_def res_bind_Inr_iff split: if_splits)

text \<open>A message the nodes send; the others are handled, but nobody sends them.\<close>

fun protocol_msg :: "msg \<Rightarrow> bool" where
  "protocol_msg (Decide m) = False"
| "protocol_msg (Learn m) = False"
| "protocol_msg (Teach m) = False"
| "protocol_msg (Command m) = False"
| "protocol_msg _ = True"

lemma handle_msg_id:
  assumes "log_ok c" and "protocol_msg m"
  shows "same_id c (handle_msg m name c)"
proof (cases "work c")
  case True
  then show ?thesis
    using assms by (cases m) (simp_all add: handle_msg_def handle_prepare_id handle_promise_id handle_accept_id
        handle_accepted_id handle_commit_id)
qed (simp add: handle_msg_def same_id_def)

section \<open>The invariant\<close>

text \<open>Every id was handed out by the node in its low half, which has passed it.\<close>

definition id_node :: "value_id \<Rightarrow> node_id" where
  "id_node i = ucast i"

definition ids_ok :: "nat \<Rightarrow> 'n world \<Rightarrow> bool" where
  "ids_ok n W \<longleftrightarrow> inj_on pv_id (set (w_handed W))
     \<and> (\<forall>k. unat k < n \<longrightarrow> id_node (value_id (w_captains W k)) = k)
     \<and> (\<forall>v \<in> set (w_handed W). unat (id_node (pv_id v)) < n
          \<and> pv_id v \<le> value_id (w_captains W (id_node (pv_id v))))"

definition world_ok :: "(node_id \<Rightarrow> view) \<Rightarrow> nat \<Rightarrow> 'n world \<Rightarrow> bool" where
  "world_ok views n W \<longleftrightarrow> world_inv views n W \<and> plain_values W \<and> ids_ok n W
     \<and> (\<forall>k. unat k < n \<longrightarrow> captain_ok (w_captains W k)) \<and> (\<forall>p \<in> set (w_net W). msg_ok n (snd p))"

lemma world_init_ok:
  fixes W :: "'n world"
  assumes "one_master views n" and "world_init views W"
  shows "world_ok views n W"
proof -
  have clust: "cluster views n"
    using assms(1) by (simp add: one_master_def)
  have new: "captain_ok (w_captains W k)" "cap_view (w_captains W k) = views k"
    "tocommit_values (w_captains W k) = []" "proposers (w_captains W k) = []" "chosen_at (w_captains W k) s = None"
    "value_id (w_captains W k) = ucast k"
    "0 < s \<Longrightarrow> acc_at (w_captains W k) s = update_max_proposed (first_ballot 0) new_acceptor
       \<or> acc_at (w_captains W k) s = new_acceptor"
    if k: "unat k < n" for k s
  proof -
    obtain win dum b1 b2 b3 where c: "w_captains W k = (new_captain (views k) win dum)
        \<lparr>has_callback := b1, has_callback_full := b2, has_callback_latency := b3\<rparr>"
      using assms(2) unfolding world_init_def by blast
    have view: "view_ok (views k)" "whoami (views k) = k" "master_id (views k) = 0"
      using assms(1) k by (simp_all add: one_master_def cluster_def)
    show "captain_ok (w_captains W k)"
      using captain_ok_new [OF view(1), of win dum] by (simp add: c captain_ok_def log_ok_def queue_ok_def)
    show "cap_view (w_captains W k) = views k" "tocommit_values (w_captains W k) = []"
      "proposers (w_captains W k) = []" "chosen_at (w_captains W k) s = None" "value_id (w_captains W k) = ucast k"
      using view(2) by (simp_all add: c new_captain_def chosen_at_def)
    show "acc_at (w_captains W k) s = update_max_proposed (first_ballot 0) new_acceptor
        \<or> acc_at (w_captains W k) s = new_acceptor" if "0 < s"
      using that view(3) by (auto simp: c new_captain_def acc_at_def acceptor_at_def nth_Cons' split: option.split)
  qed
  have net: "w_net W = []" "w_handed W = []"
    using assms(2) by (simp_all add: world_init_def)
  have "\<exists>S. slot_sim views n W s S" for s
  proof -
    let ?S = "\<lparr>sl_acceptors = \<lambda>k. if unat k < n \<and> 0 < s then acc_at (w_captains W k) s else new_acceptor,
      sl_proposers = Map.empty, sl_started = [], sl_net = [], sl_chosen = []\<rparr> :: 'n slot_state"
    have init: "slot_init 0 ?S"
      using new(7) by (auto simp: slot_init_def)
    have "max_value (sl_acceptors ?S k) = None" for k
      using new(7) [of k s] by (auto simp: update_max_proposed_def new_acceptor_def)
    then have "valid_inv {} ?S"
      by (simp add: valid_inv_def)
    then have "slot_sim views n W s ?S"
      using slot_start [OF init] new(4,5) by (simp add: slot_sim_def net node_mirror_def map_find_def)
    then show ?thesis by blast
  qed
  then have "world_inv views n W"
    using new(1-3) by (simp add: world_inv_def node_inv_def captain_ok_core net)
  moreover have "ids_ok n W"
    using new(6) by (simp add: ids_ok_def net id_node_def)
  ultimately show ?thesis
    using new(1) by (simp add: world_ok_def net plain_values_def)
qed

section \<open>Steps\<close>

lemma world_ok_told [simp]: "world_ok views n (told k calls W) = world_ok views n W"
  by (simp add: world_ok_def world_inv_def slot_sim_def plain_values_def ids_ok_def)

text \<open>The part of the invariant that is about one node's move.\<close>

lemma world_ok_moved:
  assumes "world_ok views n W" and k: "unat k < n"
    and inv: "world_inv views n (moved k c' (sent_by k calls) W)" and ok: "captain_ok c'"
    and calls: "\<forall>call \<in> set calls. call_ok n call" and id: "value_id c' = value_id (w_captains W k)"
  shows "world_ok views n (moved k c' (sent_by k calls) W)"
proof -
  have "msg_ok n (snd p)" if "p \<in> set (sent_by k calls)" for p
    using calls that by (induction calls) (auto simp: call_ok_def split: call.splits)
  then show ?thesis
    using assms by (auto simp: world_ok_def plain_values_def ids_ok_def)
qed

lemma arrived_ok:
  assumes "world_ok views n W" and "arrived k m W"
  shows "msg_ok n m" "protocol_msg m"
proof -
  show "msg_ok n m"
    using assms by (auto simp: world_ok_def arrived_def)
  obtain S where "slot_sim views n W 0 S"
    using assms(1) unfolding world_ok_def world_inv_def by blast
  then show "protocol_msg m"
    using assms(2) by (cases m) (auto simp: slot_sim_def arrived_def)
qed

lemma world_host_count:
  assumes "one_master views n" and "world_ok views n W" and "unat k < n"
  shows "host_count (cap_view (w_captains W k)) = n" "captain_ok (w_captains W k)"
  using assms world_node(2) [of views n W k] by (simp_all add: world_ok_def one_master_def cluster_def)

lemma handle_msg_moves:
  assumes "one_master views n" and inv: "world_inv views n W" and k: "unat k < n" and "queue_ok (w_captains W k)"
    and plain: "plain_values W" "inj_on pv_id (set (w_handed W))"
    and m: "arrived k m W" "msg_ok n m" "protocol_msg m"
    and wrap: "list_all (\<lambda>(s, info). no_ballot_wrap (curr_ballot (curr_proposer info))) (proposers (w_captains W k))"
    and run: "handle_msg m name (w_captains W k) = Inr (c', calls)"
  shows "world_inv views n (moved k c' (sent_by k calls) W)"
proof (cases "work (w_captains W k)")
  case False
  then show ?thesis
    using run inv by (auto simp: handle_msg_def)
next
  case True
  note run = run [unfolded handle_msg_def]
  have clust: "cluster views n"
    using assms(1) by (simp add: one_master_def)
  show ?thesis
  proof (cases m)
    case (Prepare p)
    show ?thesis
      by (rule handle_prepare_moves [OF clust inv k, of p name]) (use Prepare run m True in \<open>simp_all add: msg_ok_def\<close>)
  next
    case (Ack_prepare p)
    show ?thesis
      by (rule handle_promise_moves [OF clust inv k, of p]) (use Ack_prepare run m True wrap in simp_all)
  next
    case (Accept p)
    show ?thesis
      by (rule handle_accept_moves [OF clust inv k plain, of p name]) (use Accept run m True in \<open>simp_all add: msg_ok_def\<close>)
  next
    case (Ack_accept p)
    show ?thesis
      by (rule handle_accepted_moves [OF clust inv k plain(1), of p name]) (use Ack_accept run m True wrap in simp_all)
  next
    case (Commit p)
    show ?thesis
      by (rule handle_commit_moves [OF assms(1) inv k assms(4), of p name]) (use Commit run m True in simp_all)
  qed (use m(3) in simp_all)
qed

lemma recv_step:
  assumes mast: "one_master views n" and ok: "world_ok views n W" and can: "world_can n (W_recv k m name) W"
  shows "\<exists>W'. world_do mode (W_recv k m name) W = Inr W' \<and> world_ok views n W'"
proof -
  let ?c = "w_captains W k"
  have k: "unat k < n" and m: "arrived k m W"
    and wrap: "list_all (\<lambda>(s, info). no_ballot_wrap (curr_ballot (curr_proposer info))) (proposers ?c)"
    using can by (simp_all add: arrived_def)
  note host = world_host_count [OF mast ok k] and msg = arrived_ok [OF ok m]
  have inv: "world_inv views n W" "plain_values W" "inj_on pv_id (set (w_handed W))"
    using ok by (simp_all add: world_ok_def ids_ok_def)
  have log: "log_ok ?c" and queue: "queue_ok ?c"
    using host(2) by (simp_all add: captain_ok_def)
  have "keeps ?c (handle_msg m name ?c)"
    using host msg(1) by (intro handle_msg_keeps_rel) simp_all
  then obtain c' calls where r: "handle_msg m name ?c = Inr (c', calls)" "captain_ok c'"
      "\<forall>call \<in> set calls. call_ok n call"
    using host(1) by (auto simp: keeps_def)
  have "world_inv views n (moved k c' (sent_by k calls) W)"
    by (rule handle_msg_moves [OF mast inv(1) k queue inv(2,3) m msg wrap r(1)])
  moreover have "value_id c' = value_id ?c"
    using handle_msg_id [OF log msg(2)] r(1) unfolding same_id_def by blast
  ultimately show ?thesis
    using world_ok_moved [OF ok k _ r(2,3)] r(1) by (simp add: acts_def)
qed

lemma log_step:
  assumes mast: "one_master views n" and ok: "world_ok views n W" and can: "world_can n (W_log k j s) W"
  shows "\<exists>W'. world_do mode (W_log k j s) W = Inr W' \<and> world_ok views n W'"
proof -
  let ?c = "w_captains W k"
  have clust: "cluster views n"
    using mast by (simp add: one_master_def)
  have k: "unat k < n" and j: "unat j < n" and "chosen_at (w_captains W j) s \<noteq> None"
    using can by simp_all
  then obtain v where v: "chosen_at (w_captains W j) s = Some v" by blast
  note host = world_host_count [OF mast ok k]
  have inv: "world_inv views n W" "plain_values W"
    using ok by (simp_all add: world_ok_def)
  have cmds: "\<forall>t w. chosen_at ?c t = Some w \<longrightarrow> pv_cmd w = None" and plain: "pv_cmd v = None" "log_copy v = v"
    using chosen_handed [OF inv(1) k] chosen_handed [OF inv(1) j v] inv(2)
    by (auto simp: plain_values_def log_copy_def)
  have log: "log_ok ?c"
    using host(2) by (simp add: captain_ok_def)
  have "keeps ?c (add_chosen_value s v ?c)"
    by (rule add_chosen_value_keeps [OF host(2)])
  then obtain c' calls where r: "add_chosen_value s v ?c = Inr (c', calls)" "captain_ok c'"
      "\<forall>call \<in> set calls. call_ok n call"
    using host(1) by (auto simp: keeps_def)
  note l = add_chosen_value_learned [OF log r(1) cmds plain(1)]
  have "\<forall>S. slot_sim views n W s S \<longrightarrow> v \<in> set (sl_chosen S)"
    using world_mirror [OF _ j] v unfolding node_mirror_def by blast
  then have "world_inv views n (moved k c' (sent_by k calls) W)"
    using learn_moves [OF clust inv(1) k l(1)] l(2) by simp
  moreover have "value_id c' = value_id ?c"
    by (rule learn_same_id [OF log r(1)])
  ultimately show ?thesis
    using world_ok_moved [OF ok k _ r(2,3)] r(1) v plain(2) by (simp add: acts_def)
qed

lemma crash_step:
  assumes ok: "world_ok views n W" and k: "unat k < n"
  shows "\<exists>W'. world_do mode (W_crash k) W = Inr W' \<and> world_ok views n W'"
proof -
  have "world_inv views n (moved k (crash (w_captains W k)) [] W)"
    using ok k by (intro unseen_moves) (simp_all add: world_ok_def crash_def core_ok_def log_ok_def chosen_at_def fun_eq_iff)
  moreover have "captain_ok (crash (w_captains W k))"
    using ok k by (simp add: world_ok_def crash_def captain_ok_def log_ok_def queue_ok_def)
  ultimately show ?thesis
    using world_ok_moved [OF ok k, of "crash (w_captains W k)" "[]"] by (simp add: crash_def acts_def)
qed

text \<open>A commit makes a value with an id nobody has used.\<close>

definition hand_in :: "prop_value \<Rightarrow> 'n world \<Rightarrow> 'n world" where
  "hand_in v W = W\<lparr>w_handed := w_handed W @ [v]\<rparr>"

lemma hand_in_sel [simp]:
  "w_captains (hand_in v W) = w_captains W" "w_net (hand_in v W) = w_net W" "w_handed (hand_in v W) = w_handed W @ [v]"
  by (simp_all add: hand_in_def)

lemma packet_mirror_handed: "packet_mirror s V S p \<Longrightarrow> V \<subseteq> V' \<Longrightarrow> packet_mirror s V' S p"
  by (cases "(s, V, S, p)" rule: packet_mirror.cases) auto

lemma valid_inv_handed:
  assumes "valid_inv V S" and "V \<subseteq> V'"
  shows "valid_inv V' S"
proof -
  have "valid_msg V m \<Longrightarrow> valid_msg V' m" for m
    using assms(2) by (auto simp: valid_msg_def)
  moreover have "valid_proposer V p \<Longrightarrow> valid_proposer V' p" for p
    using assms(2) by (auto simp: valid_proposer_def)
  ultimately show ?thesis
    using assms unfolding valid_inv_def by (meson subset_trans)
qed

lemma world_inv_handed:
  assumes "world_inv views n W"
  shows "world_inv views n (hand_in v W)"
proof -
  have "slot_sim views n (hand_in v W) s S" if "slot_sim views n W s S" for s S
    using that valid_inv_handed [of "set (w_handed W)" S "set (w_handed (hand_in v W))"]
      packet_mirror_handed [of s "set (w_handed W)" S _ "set (w_handed (hand_in v W))"]
    by (auto simp: slot_sim_def)
  then show ?thesis
    using assms unfolding world_inv_def node_inv_def by fastforce
qed

lemma new_value_ids:
  assumes "ids_ok n W" and k: "unat k < n" and less: "value_id (w_captains W k) < value_id (w_captains W k) + 65536"
    and c': "value_id c' = value_id (w_captains W k) + 65536"
  shows "ids_ok n (moved k c' ps (hand_in (new_value (w_captains W k) data) W))"
proof -
  let ?v = "new_value (w_captains W k) data"
  have id: "id_node (value_id (w_captains W k) + 65536) = k"
    using assms(1) k by (simp add: ids_ok_def id_node_def ucast_add_64_16)
  have used: "id_node (pv_id w) = k \<Longrightarrow> pv_id w < pv_id ?v" if "w \<in> set (w_handed W)" for w
    using assms(1) that less unfolding ids_ok_def by (fastforce simp: new_value_def)
  then have "pv_id ?v \<notin> pv_id ` set (w_handed W)"
    using id by (fastforce simp: new_value_def)
  then have "inj_on pv_id (set (w_handed (hand_in ?v W)))"
    using assms(1) by (auto simp: ids_ok_def)
  moreover have "pv_id w \<le> value_id c'" if "w \<in> set (w_handed W)" "id_node (pv_id w) = k" for w
    using used [OF that] by (simp add: c' new_value_def)
  ultimately show ?thesis
    using assms(1) k id c' by (auto simp: ids_ok_def new_value_def)
qed

lemma commit_moves:
  assumes mast: "one_master views n" and mode: "mode \<noteq> Mode_recover" and k: "unat k < n"
    and inv: "world_inv views n W" and v: "new_value (w_captains W k) data \<in> set (w_handed W)"
    and host: "host_count (cap_view (w_captains W k)) = n" "captain_ok (w_captains W k)"
  shows "\<exists>c' calls. commit mode data name (w_captains W k) = Inr (c', calls) \<and> captain_ok c'
    \<and> (\<forall>call \<in> set calls. call_ok n call) \<and> value_id c' = value_id (w_captains W k) + 65536
    \<and> world_inv views n (moved k c' (sent_by k calls) W)"
proof -
  let ?c = "w_captains W k" and ?v = "new_value (w_captains W k) data" and ?next = "next_value_id (w_captains W k)"
  have clust: "cluster views n"
    using mast by (simp add: one_master_def)
  have log: "chosen_at ?next = chosen_at ?c"
    by (simp add: next_value_id_def)
  show ?thesis
  proof (cases "if_master (cap_view ?c)")
    case True
    then have zero: "k = 0" "0 < n"
      using world_node(2) [OF inv k] cluster_me [OF clust k] mast k
      by (auto simp: one_master_def if_master_def whoami_def cluster_def)
    obtain c' calls where r: "commit_value ?v name ?next = Inr (c', calls, name)" "captain_ok c'"
        "\<forall>call \<in> set calls. call_ok n call"
      using commit_value_keeps [of ?next ?v name] host by auto
    have W: "world_inv views n (moved 0 ?next [] W)"
      using zero log by (intro unseen_moves [OF inv]) simp_all
    have "queue_ok ?next"
      using host(2) by (simp add: captain_ok_def)
    then have "world_inv views n (moved k c' (sent_by k calls) W)"
      using commit_value_moves [OF clust W zero(2) _ _, of ?v name c' calls name] v r(1) zero(1)
      by (simp add: moved_twice)
    then show ?thesis
      using r commit_value_id [OF r(1)] by (simp add: commit_master_eq [OF True])
  next
    case False
    let ?m = "Captain.msg_commit (me_of ?c) ?v"
    have run: "commit mode data name ?c = Inr (?next, [Send_to (Commit ?m) (master_id (views k)), Wait_commit_ok])"
      using False mode world_node(2) [OF inv k] by (simp add: commit_def Let_def new_value_def)
    have "world_inv views n (moved k ?next [(Some (master_id (views k)), Commit ?m)] W)"
      using log v by (intro unseen_moves [OF inv k]) (simp_all add: Captain.msg_commit_def)
    moreover have "unat (master_id (views k)) < n" "unat (ucast (me_of ?c) :: 32 word) < n"
      using mast k host captain_ok_me [OF host(2)] by (simp_all add: one_master_def cluster_def)
    ultimately show ?thesis
      using run host by (simp add: msg_ok_def Captain.msg_commit_def)
  qed
qed

lemma commit_step:
  assumes mast: "one_master views n" and mode: "mode \<noteq> Mode_recover" and ok: "world_ok views n W"
    and can: "world_can n (W_commit k data name) W"
  shows "\<exists>W'. world_do mode (W_commit k data name) W = Inr W' \<and> world_ok views n W'"
proof -
  let ?c = "w_captains W k" and ?W = "hand_in (new_value (w_captains W k) data) W"
  have k: "unat k < n" and less: "value_id ?c < value_id ?c + 65536"
    using can by simp_all
  note host = world_host_count [OF mast ok k]
  have "world_inv views n ?W" "new_value ?c data \<in> set (w_handed ?W)"
    using ok by (simp_all add: world_ok_def world_inv_handed)
  then obtain c' calls where r: "commit mode data name ?c = Inr (c', calls)" "captain_ok c'"
      "\<forall>call \<in> set calls. call_ok n call" "value_id c' = value_id ?c + 65536"
      "world_inv views n (moved k c' (sent_by k calls) ?W)"
    using commit_moves [OF mast mode k, of ?W data name] host by auto
  have msgs: "msg_ok n (snd p)" if "p \<in> set (sent_by k calls)" for p
    using r(3) that by (induction calls) (auto simp: call_ok_def split: call.splits)
  have "plain_values ?W" "ids_ok n (moved k c' (sent_by k calls) ?W)"
    using ok new_value_ids [OF _ k less r(4)] by (auto simp: world_ok_def plain_values_def new_value_def)
  then have "world_ok views n (moved k c' (sent_by k calls) ?W)"
    using ok r(2,5) msgs by (auto simp: world_ok_def plain_values_def)
  then show ?thesis
    using r(1) by (simp add: acts_def hand_in_def)
qed

lemma world_step_ok:
  assumes "one_master views n" and "mode \<noteq> Mode_recover" and "world_ok views n W" and "world_can n e W"
  shows "\<exists>W'. world_do mode e W = Inr W' \<and> world_ok views n W'"
proof (cases e)
  case (W_commit k data name)
  then show ?thesis using commit_step [OF assms(1-3)] assms(4) by simp
next
  case (W_recv k m name)
  then show ?thesis using recv_step [OF assms(1,3)] assms(4) by simp
next
  case (W_log k j s)
  then show ?thesis using log_step [OF assms(1,3)] assms(4) by simp
next
  case (W_crash k)
  then show ?thesis using crash_step [OF assms(3)] assms(4) by simp
qed

lemma world_reach_ok:
  assumes "world_reach mode views n W" and "one_master views n" and "mode \<noteq> Mode_recover"
  shows "world_ok views n W"
  using assms
proof (induction rule: world_reach.induct)
  case (world_start W)
  then show ?case by (blast intro: world_init_ok)
next
  case (world_step W e W')
  then show ?case using world_step_ok by fastforce
qed

section \<open>One log\<close>

lemma worlds_agree:
  assumes "world_ok views n W" and "one_master views n" and "unat j < n" and "unat k < n"
    and v: "chosen_at (w_captains W j) s = Some v" and w: "chosen_at (w_captains W k) s = Some w"
  shows "v = w" "v \<in> set (w_handed W)"
proof -
  have inv: "world_inv views n W" and ids: "inj_on pv_id (set (w_handed W))"
    using assms(1) by (simp_all add: world_ok_def ids_ok_def)
  obtain S where S: "slot_sim views n W s S"
    using inv unfolding world_inv_def by blast
  have "v \<in> set (sl_chosen S)" "w \<in> set (sl_chosen S)"
    using world_mirror [OF S assms(3)] world_mirror [OF S assms(4)] v w unfolding node_mirror_def by blast+
  moreover have "cluster views n" "slot_reach views n 0 s S"
    using S assms(2) by (simp_all add: slot_sim_def one_master_def)
  ultimately have "pv_id v = pv_id w"
    by (intro chosen_agree)
  then show "v = w"
    using chosen_handed [OF inv assms(3) v] chosen_handed [OF inv assms(4) w] by (rule inj_onD [OF ids])
  show "v \<in> set (w_handed W)"
    by (rule chosen_handed [OF inv assms(3) v])
qed

end
