(* ===== verification/Cluster.thy ===== *)
theory Cluster
  imports Captain_Callbacks
begin

text \<open>
  A cluster whose quorum is the master and one other node, as long as nothing goes wrong: what each
  of the two does with a value that the master is asked to commit, from the accept request to the
  decision. What comes of many values at once is in \<^verbatim>\<open>Pipeline\<close> and \<^verbatim>\<open>Service_Pipeline\<close>.
\<close>

section \<open>Calls\<close>

text \<open>Where the calls of node \<open>i\<close> go, and which of them tell a client its slot.\<close>

fun call_packets :: "nat \<Rightarrow> view \<Rightarrow> 'n call \<Rightarrow> (nat \<times> msg) list" where
  "call_packets i v (Send_self m) = [(i, m)]"
| "call_packets i v (Send_to m d) = [(unat d, m)]"
| "call_packets i v (Reply_to m d nm) = [(unat d, m)]"
| "call_packets i v (Broadcast m) = map (\<lambda>d. (unat d, m)) (quorums v)"
| "call_packets i v _ = []"

definition packets_of :: "nat \<Rightarrow> 'n captain \<Rightarrow> 'n call list \<Rightarrow> (nat \<times> msg) list" where
  "packets_of i c calls = concat (map (call_packets i (cap_view c)) calls)"

definition is_inform :: "'n call \<Rightarrow> bool" where
  "is_inform call = (case call of Inform_client _ _ _ \<Rightarrow> True | _ \<Rightarrow> False)"

section \<open>Acceptors that have not voted\<close>

definition fresh_above :: "nat \<Rightarrow> acceptor option list \<Rightarrow> bool" where
  "fresh_above k as \<longleftrightarrow> as \<noteq> []
     \<and> (\<forall>s. k < s \<and> s < length as \<longrightarrow>
          (\<exists>a. as ! s = Some a \<and> max_proposed_ballot a \<le> 65536 \<and> max_value a = None))"

text \<open>The vote of a fresh acceptor for the first ballot of node 0.\<close>

definition vote_of :: "prop_value \<Rightarrow> acceptor" where
  "vote_of v = \<lparr>max_proposed_ballot = 65536, max_accepted_ballot = 65536, max_value = Some v\<rparr>"

definition grant_of :: "node_id \<Rightarrow> slot_id \<Rightarrow> msg_ack_accept" where
  "grant_of me s = \<lparr>acka_header = set_msg_header me ACCEPTED s, acka_ballot = 65536, acka_reply = True\<rparr>"

lemma fresh_above_grown:
  fixes as :: "acceptor option list"
  assumes "fresh_above k as" and "accs = grow_acceptors (length as) (Suc k) as"
  shows "\<exists>a. vec_at accs (Suc k) = Inr (Some a) \<and> max_proposed_ballot a \<le> 65536 \<and> max_value a = None
    \<and> Suc k < length accs \<and> (\<forall>a'. fresh_above (Suc k) (accs[Suc k := Some a']))
    \<and> (\<forall>i < length as. accs ! i = as ! i)"
proof -
  have len: "Suc k < length accs" and old: "\<And>i. i < length as \<Longrightarrow> accs ! i = as ! i"
    using assms(2) by (auto simp: grow_acceptors_eq nth_append)
  have fresh: "\<exists>a. accs ! s = Some a \<and> max_proposed_ballot a \<le> 65536 \<and> max_value a = None"
    if "k < s" "s < length accs" for s
  proof (cases "s < length as")
    case True
    then show ?thesis
      using assms(1) that old by (auto simp: fresh_above_def)
  next
    case False
    then have "accs ! s = Some new_acceptor"
      using that(2) assms(2) by (auto simp: grow_acceptors_eq nth_append)
    then show ?thesis
      by (simp add: new_acceptor_def)
  qed
  then obtain a where "accs ! Suc k = Some a" "max_proposed_ballot a \<le> 65536" "max_value a = None"
    using len by blast
  moreover have "fresh_above (Suc k) (accs[Suc k := Some a'])" for a'
    using fresh assms(1) by (auto simp: fresh_above_def assms(2) grow_acceptors_eq nth_list_update)
  ultimately show ?thesis
    using len old by (intro exI [of _ a]) simp
qed

lemma accept_fresh:
  assumes "max_proposed_ballot a \<le> 65536" and "max_value a = None" and "acc_ballot m = 65536"
  shows "handle_msg_accept me m a = (vote_of (acc_value m), grant_of me (hdr_slot (acc_header m)))"
  using assms by (cases a) (simp add: handle_msg_accept_def Let_def vote_of_def grant_of_def)

section \<open>The log\<close>

definition log_is :: "prop_value list \<Rightarrow> 'n captain \<Rightarrow> bool" where
  "log_is vs c \<longleftrightarrow> chosen_values c = None # map Some vs \<and> max_chosen c = length vs
     \<and> max_chosen_without_hole c = length vs"

definition log_with :: "prop_value list \<Rightarrow> 'n captain \<Rightarrow> 'n captain" where
  "log_with vs c = c\<lparr>chosen_values := None # map Some vs, max_chosen := length vs,
     max_chosen_without_hole := length vs\<rparr>"

lemma add_next_value:
  assumes "log_is vs c" and "pv_cmd v = None"
  shows "add_chosen_value (Suc (length vs)) v c
    = Inr (log_with (vs @ [v]) c, value_callbacks (Suc (length vs)) v c)"
proof -
  let ?c = "c\<lparr>chosen_values := None # map Some (vs @ [v]), max_chosen := Suc (length vs)\<rparr>"
  have at: "vec_at (chosen_values ?c) (Suc (length vs)) = Inr (Some v)"
    by (simp add: nth_append)
  have stop: "add_callback (log_with (vs @ [v]) c) = Inr (log_with (vs @ [v]) c, [])"
    by (subst add_callback.simps) (simp add: log_with_def)
  have passed: "apply_command v (?c\<lparr>max_chosen_without_hole := Suc (length vs)\<rparr>) = log_with (vs @ [v]) c"
    using assms by (simp add: apply_command_def log_with_def)
  have vc: "value_callbacks s v (log_with ws c) = value_callbacks s v c" for s ws
    by (simp add: value_callbacks_def log_with_def)
  have "add_callback ?c = Inr (log_with (vs @ [v]) c, value_callbacks (Suc (length vs)) v c)"
    by (subst add_callback.simps) (use assms(1) at passed stop vc in \<open>simp add: log_is_def Let_def\<close>)
  then show ?thesis
    using assms(1) by (simp add: add_chosen_value_def push_nulls_eq log_is_def)
qed

section \<open>The master\<close>

text \<open>Between two commits: everything committed so far is chosen, nothing is under way.\<close>

definition leader :: "'n captain \<Rightarrow> bool" where
  "leader c \<longleftrightarrow> work c \<and> if_master (cap_view c) \<and> me_of c = 0 \<and> quorums (cap_view c) = [0, 1]
     \<and> q_size (cap_view c) = 2 \<and> 0 < window_size c \<and> tocommit_values c = []"

definition leading :: "prop_value list \<Rightarrow> 'n captain \<Rightarrow> bool" where
  "leading vs c \<longleftrightarrow> leader c \<and> proposers c = [] \<and> max_slot c = length vs \<and> last_slot c = length vs - 1
     \<and> log_is vs c \<and> fresh_above (length vs) (acceptors c)"

text \<open>While a value is being proposed: the replies so far, and how far the acceptors have voted.\<close>

definition running_info :: "view \<Rightarrow> prop_value \<Rightarrow> 'n \<Rightarrow> (node_id \<times> msg_ack_accept) list \<Rightarrow> 'n proposer_info" where
  "running_info w v name acks = (fast_info w v name)\<lparr>curr_proposer :=
     (curr_proposer (fast_info w v name))\<lparr>ack_accepts := acks\<rparr>\<rparr>"

definition proposing :: "prop_value list \<Rightarrow> prop_value \<Rightarrow> 'n \<Rightarrow> (node_id \<times> msg_ack_accept) list \<Rightarrow> nat \<Rightarrow>
    'n captain \<Rightarrow> bool" where
  "proposing vs v name acks j c \<longleftrightarrow> leader c
     \<and> proposers c = [(Suc (length vs), running_info (cap_view c) v name acks)]
     \<and> max_slot c = Suc (length vs) \<and> last_slot c = length vs \<and> log_is vs c \<and> fresh_above j (acceptors c)"

text \<open>The accept request for the next value, with the last decision on board.\<close>

definition request_for :: "prop_value list \<Rightarrow> prop_value \<Rightarrow> msg_accept \<Rightarrow> bool" where
  "request_for vs v m \<longleftrightarrow> hdr_slot (acc_header m) = Suc (length vs) \<and> hdr_node (acc_header m) = 0
     \<and> acc_ballot m = 65536 \<and> acc_value m = v
     \<and> (if vs = [] then acc_last_slot m = None
        else acc_last_slot m = Some (length vs) \<and> acc_last_value m = Some (pv_id (last vs)))"

lemma running_info_nil: "running_info w v name [] = fast_info w v name"
  by (simp add: running_info_def fast_info_def proposer_ops)

lemma leading_commit:
  assumes "leading vs c"
  shows "\<exists>c' m. commit mode data name c = Inr (c', [Broadcast (Accept m)])
    \<and> proposing vs (new_value c data) name [] (length vs) c' \<and> request_for vs (new_value c data) m"
proof -
  let ?k = "length vs" and ?v = "new_value c data"
  let ?info = "fast_info (cap_view c) ?v name"
  let ?m = "accept_request 0 (Suc ?k) ?info"
  let ?c1 = "(next_value_id c)\<lparr>max_slot := Suc ?k, proposers := [(Suc ?k, ?info)]\<rparr>"
  have lead: "leader c" "proposers c = []" "max_slot c = ?k" "last_slot c = ?k - 1" "log_is vs c"
    "fresh_above ?k (acceptors c)"
    using assms by (simp_all add: leading_def)
  have m: "hdr_slot (acc_header ?m) = Suc ?k" "hdr_node (acc_header ?m) = 0" "acc_ballot ?m = 65536"
    "acc_value ?m = ?v" "acc_last_slot ?m = None" "acc_last_value ?m = None"
    using lead(1) by (simp_all add: accept_request_def fast_info_def proposer_ops msg_accept_def Let_def
        set_msg_header_def leader_def)
  have run: "commit_value ?v name (next_value_id c) = res_bind (propose_fast ?v name (next_value_id c))
      (\<lambda>(c', calls). Inr (c', calls, name))"
    "propose_fast ?v name (next_value_id c)
      = res_bind (piggyback ?m ?c1) (\<lambda>(c2, m). Inr (c2, [Broadcast (Accept m)]))"
    "commit mode data name c = res_bind (commit_value ?v name (next_value_id c)) (\<lambda>(c', calls, _). Inr (c', calls))"
    using lead by (simp_all add: commit_master_eq commit_value_def propose_fast_def Let_def leader_def)
  show ?thesis
  proof (cases "vs = []")
    case True
    then have "piggyback ?m ?c1 = Inr (?c1, ?m)"
      using lead by (simp add: piggyback_def log_is_def next_value_id_def)
    moreover have "proposing vs ?v name [] ?k ?c1" "request_for vs ?v ?m"
      using lead m True by (simp_all add: proposing_def request_for_def running_info_nil leader_def log_is_def
          next_value_id_def)
    ultimately show ?thesis
      using run by simp
  next
    case False
    then have k: "Suc (?k - 1) = ?k" and at: "chosen_values c ! ?k = Some (last vs)"
      using lead(5) by (simp_all add: log_is_def nth_Cons' last_conv_nth)
    then have "piggyback ?m ?c1 = Inr (?c1\<lparr>last_slot := ?k\<rparr>,
        ?m\<lparr>acc_last_slot := Some ?k, acc_last_value := Some (pv_id (last vs))\<rparr>)"
      using lead False by (simp add: piggyback_def log_is_def next_value_id_def)
    moreover have "proposing vs ?v name [] ?k (?c1\<lparr>last_slot := ?k\<rparr>)"
      "request_for vs ?v (?m\<lparr>acc_last_slot := Some ?k, acc_last_value := Some (pv_id (last vs))\<rparr>)"
      using lead m False by (simp_all add: proposing_def request_for_def running_info_nil leader_def log_is_def
          next_value_id_def)
    ultimately show ?thesis
      using run by simp
  qed
qed

lemma master_votes:
  assumes "proposing vs v name [] (length vs) c" and "request_for vs v m"
  shows "\<exists>c'. handle_msg (Accept m) nm c = Inr (c', [Send_self (Ack_accept (grant_of 0 (Suc (length vs))))])
    \<and> proposing vs v name [] (Suc (length vs)) c'"
proof -
  let ?k = "length vs" and ?as = "grow_acceptors (length (acceptors c)) (Suc (length vs)) (acceptors c)"
  have p: "leader c" "fresh_above ?k (acceptors c)"
    using assms(1) by (simp_all add: proposing_def)
  obtain a where a: "vec_at ?as (Suc ?k) = Inr (Some a)" "max_proposed_ballot a \<le> 65536" "max_value a = None"
    "fresh_above (Suc ?k) (?as[Suc ?k := Some (vote_of v)])"
    using fresh_above_grown [OF p(2) refl] by blast
  have "handle_msg_accept 0 m a = (vote_of v, grant_of 0 (Suc ?k))"
    using accept_fresh [OF a(2,3)] assms(2) by (simp add: request_for_def)
  then have "handle_msg (Accept m) nm c = Inr (c\<lparr>acceptors := ?as[Suc ?k := Some (vote_of v)]\<rparr>,
      [Send_self (Ack_accept (grant_of 0 (Suc ?k)))])"
    using p(1) a(1) assms(2)
    by (simp add: handle_msg_def handle_accept_def Let_def from_myself_def request_for_def leader_def)
  moreover have "proposing vs v name [] (Suc ?k) (c\<lparr>acceptors := ?as[Suc ?k := Some (vote_of v)]\<rparr>)"
    using assms(1) a(4) by (simp add: proposing_def leader_def log_is_def)
  ultimately show ?thesis by blast
qed

text \<open>Its own vote is not yet a majority.\<close>

lemma running_info_accepted:
  assumes "quorum_size w = 2" and "whoami w = 0"
  shows "accepted_info 0 s (grant_of 0 s) (running_info w v name []) = Still (running_info w v name [(0, grant_of 0 s)])"
    and "accepted_info 0 s (grant_of 1 s) (running_info w v name [(0, grant_of 0 s)])
      = Chosen ((running_info w v name [(0, grant_of 0 s), (1, grant_of 1 s)])\<lparr>pi_status := CHOSEN\<rparr>)"
  using assms
  by (simp_all add: accepted_info_def running_info_def fast_info_def proposer_ops handle_msg_accepted_def
      grant_of_def Let_def)

lemma master_counts_own:
  assumes "proposing vs v name [] (Suc (length vs)) c"
  shows "\<exists>c'. handle_msg (Ack_accept (grant_of 0 (Suc (length vs)))) nm c = Inr (c', [])
    \<and> proposing vs v name [(0, grant_of 0 (Suc (length vs)))] (Suc (length vs)) c'"
proof -
  let ?s = "Suc (length vs)"
  let ?info = "running_info (cap_view c) v name [(0, grant_of 0 ?s)]"
  have lead: "leader c" "proposers c = [(?s, running_info (cap_view c) v name [])]"
    using assms by (simp_all add: proposing_def)
  have "hdr_slot (acka_header (grant_of 0 ?s)) = ?s"
    by (simp add: grant_of_def)
  then have "handle_msg (Ack_accept (grant_of 0 ?s)) nm c = Inr (c\<lparr>proposers := [(?s, ?info)]\<rparr>, [])"
    using lead running_info_accepted(1) [of "cap_view c" ?s v name]
    by (simp add: handle_msg_def handle_accepted_def Let_def map_find_def leader_def quorum_size_def whoami_def)
  moreover have "proposing vs v name [(0, grant_of 0 ?s)] ?s (c\<lparr>proposers := [(?s, ?info)]\<rparr>)"
    using assms by (simp add: proposing_def leader_def log_is_def)
  ultimately show ?thesis by blast
qed

text \<open>The second vote decides: the value is logged and the client is told, at the first try.\<close>

lemma log_with_sel [simp]:
  "log_is vs (log_with vs c)" "proposers (log_with vs c) = proposers c" "acceptors (log_with vs c) = acceptors c"
  "cap_view (log_with vs c) = cap_view c" "work (log_with vs c) = work c" "max_slot (log_with vs c) = max_slot c"
  "last_slot (log_with vs c) = last_slot c" "window_size (log_with vs c) = window_size c"
  "tocommit_values (log_with vs c) = tocommit_values c"
  by (simp_all add: log_with_def log_is_def)

lemma callbacks_quiet:
  "call_packets i w call = [] \<and> \<not> is_inform call" if "call \<in> set (value_callbacks s v c)"
  using that by (auto simp: value_callbacks_def is_inform_def split: if_splits)

lemma packets_of_callbacks [simp]: "packets_of i c' (value_callbacks s v c) = []"
  using callbacks_quiet by (fastforce simp: packets_of_def)

lemma inform_callbacks [simp]: "filter is_inform (value_callbacks s v c) = []"
  unfolding filter_empty_conv using callbacks_quiet by metis

lemma packets_of_append [simp]: "packets_of i c (xs @ ys) = packets_of i c xs @ packets_of i c ys"
  by (simp add: packets_of_def)

lemma packets_of_Cons [simp]: "packets_of i c (call # calls) = call_packets i (cap_view c) call @ packets_of i c calls"
  "packets_of i c [] = []"
  by (simp_all add: packets_of_def)

lemma master_decides:
  assumes "proposing vs v name [(0, grant_of 0 (Suc (length vs)))] (Suc (length vs)) c" and "pv_cmd v = None"
  shows "\<exists>c' calls. handle_msg (Ack_accept (grant_of 1 (Suc (length vs)))) nm c = Inr (c', calls)
    \<and> leading (vs @ [v]) c' \<and> packets_of 0 c' calls = []
    \<and> filter is_inform calls = [Inform_client (Suc (length vs)) 1 name]"
proof -
  let ?s = "Suc (length vs)"
  let ?info = "(running_info (cap_view c) v name [(0, grant_of 0 ?s), (1, grant_of 1 ?s)])\<lparr>pi_status := CHOSEN\<rparr>"
  let ?c1 = "c\<lparr>proposers := [(?s, ?info)]\<rparr>"
  let ?c3 = "(log_with (vs @ [v]) ?c1)\<lparr>proposers := []\<rparr>"
  let ?told = "[Inform_client ?s 1 name] @ (if has_callback_latency c then [Run_callback_latency ?s v 1] else [])"
  have lead: "leader c" "proposers c = [(?s, running_info (cap_view c) v name [(0, grant_of 0 ?s)])]" "log_is vs c"
    "max_slot c = ?s" "last_slot c = length vs" "fresh_above ?s (acceptors c)"
    using assms(1) by (simp_all add: proposing_def)
  have info: "curr_value (curr_proposer ?info) = Some v" "init_value (curr_proposer ?info) = v"
    "try_time ?info = 1" "client_name ?info = name"
    by (simp_all add: running_info_def fast_info_def proposer_ops)
  have log: "log_is vs ?c1"
    using lead(3) by (simp add: log_is_def)
  have told: "tell_client ?s ?info v c1 = [Inform_client ?s 1 name] @ (if has_callback_latency c1 then [Run_callback_latency ?s v 1] else [])"
    and work: "next_work ?info v nm c1 = commit_from_queue c1" for c1
    unfolding tell_client_def next_work_def get_init_value_def info by simp_all
  have "finish_slot ?s ?info nm c = Inr (?c3, ?told @ value_callbacks ?s v ?c1)"
    unfolding finish_slot_def get_chosen_value_def info told work
    using lead add_next_value [OF log assms(2)]
    by (simp add: work told Let_def map_erase_def commit_from_queue_def leader_def)
  moreover have "hdr_slot (acka_header (grant_of 1 ?s)) = ?s"
    by (simp add: grant_of_def)
  ultimately have run: "handle_msg (Ack_accept (grant_of 1 ?s)) nm c = Inr (?c3, ?told @ value_callbacks ?s v ?c1)"
    using lead(1,2) running_info_accepted(2) [of "cap_view c" ?s v name]
    by (simp add: handle_msg_def handle_accepted_def Let_def map_find_def leader_def quorum_size_def whoami_def)
  have "leading (vs @ [v]) ?c3"
    using lead by (simp add: leading_def leader_def) (simp add: log_is_def log_with_def)
  then show ?thesis
    using run by (intro exI [of _ ?c3] exI [of _ "?told @ value_callbacks ?s v ?c1"]) (simp add: is_inform_def)
qed

section \<open>The other member of the quorum\<close>

text \<open>It has voted for every value and knows all decisions but the last.\<close>

definition following :: "prop_value list \<Rightarrow> 'n captain \<Rightarrow> bool" where
  "following vs c \<longleftrightarrow> work c \<and> me_of c = 1 \<and> log_is (butlast vs) c \<and> fresh_above (length vs) (acceptors c)
     \<and> (vs \<noteq> [] \<longrightarrow> length vs < length (acceptors c) \<and> acceptors c ! length vs = Some (vote_of (last vs)))"

text \<open>With the request the follower learns the decision before it, for which it has voted.\<close>

lemma follower_learns:
  assumes "log_is us c" and "Suc (length us) < length (acceptors c)"
    and "acceptors c ! Suc (length us) = Some (vote_of u)" and "pv_cmd u = None"
  shows "learn_piggyback (Suc (length us)) (pv_id u) 0 c = Inr (Some (log_with (us @ [u]) c,
    value_callbacks (Suc (length us)) u c @ [Produce_log (Suc (length us)) u]))"
proof -
  have "accepted_here (Suc (length us)) (pv_id u) c = Inr (Some u)"
    using assms(2,3) by (simp add: accepted_here_def vote_of_def)
  moreover have "already_chosen (Suc (length us)) c = Inr False"
    using assms(1) by (simp add: already_chosen_def log_is_def)
  moreover have "add_chosen_value (Suc (length us)) u c
      = Inr (log_with (us @ [u]) c, value_callbacks (Suc (length us)) u c)"
    by (rule add_next_value [OF assms(1,4)])
  moreover have "vec_at (chosen_values (log_with (us @ [u]) c)) (Suc (length us)) = Inr (Some u)"
    by (simp add: log_with_def nth_append)
  ultimately show ?thesis
    by (simp add: learn_piggyback_def add_learn_value_def)
qed

lemma follower_votes:
  assumes "following vs c" and "request_for vs v m" and "\<forall>u \<in> set vs. pv_cmd u = None"
  shows "\<exists>c' calls. handle_msg (Accept m) nm c = Inr (c', calls) \<and> following (vs @ [v]) c'
    \<and> packets_of 1 c' calls = [(0, Ack_accept (grant_of 1 (Suc (length vs))))] \<and> filter is_inform calls = []
    \<and> Reply_to (Ack_accept (grant_of 1 (Suc (length vs)))) 0 nm \<in> set calls"
proof -
  let ?k = "length vs" and ?as = "grow_acceptors (length (acceptors c)) (Suc (length vs)) (acceptors c)"
  let ?c = "c\<lparr>acceptors := ?as[Suc ?k := Some (vote_of v)]\<rparr>"
  let ?reply = "Reply_to (Ack_accept (grant_of 1 (Suc ?k))) 0 nm"
  have f: "work c" "me_of c = 1" "log_is (butlast vs) c" "fresh_above ?k (acceptors c)"
    using assms(1) by (simp_all add: following_def)
  obtain a where a: "vec_at ?as (Suc ?k) = Inr (Some a)" "max_proposed_ballot a \<le> 65536" "max_value a = None"
    "Suc ?k < length ?as" "fresh_above (Suc ?k) (?as[Suc ?k := Some (vote_of v)])"
    "\<forall>i < length (acceptors c). ?as ! i = acceptors c ! i"
    using fresh_above_grown [OF f(4) refl] by blast
  have m: "hdr_slot (acc_header m) = Suc ?k" "hdr_node (acc_header m) = 0" "sender (acc_header m) = 0"
    using assms(2) by (simp_all add: request_for_def sender_def)
  have vote: "handle_msg_accept 1 m a = (vote_of v, grant_of 1 (Suc ?k))"
    using accept_fresh [OF a(2,3)] assms(2) by (simp add: request_for_def)
  have run: "handle_msg (Accept m) nm c =
      (case acc_last_slot m of
         None \<Rightarrow> Inr (?c, [?reply])
       | Some ds \<Rightarrow> res_bind (learn_piggyback ds (case acc_last_value m of None \<Rightarrow> 0 | Some vid \<Rightarrow> vid) 0 ?c)
           (\<lambda>r. case r of None \<Rightarrow> Inr (?c, []) | Some (c2, calls) \<Rightarrow> Inr (c2, calls @ [?reply])))"
    using f(1,2) a(1) m vote by (auto simp: handle_msg_def handle_accept_def Let_def from_myself_def split: option.splits)
  show ?thesis
  proof (cases vs rule: rev_cases)
    case Nil
    then have "handle_msg (Accept m) nm c = Inr (?c, [?reply])"
      using run assms(2) by (simp add: request_for_def)
    moreover have "following (vs @ [v]) ?c"
      using Nil f a by (simp add: following_def log_is_def)
    ultimately show ?thesis
      by (intro exI [of _ ?c] exI [of _ "[?reply]"]) (simp add: is_inform_def)
  next
    case (snoc us u)
    have voted: "Suc (length us) < length (acceptors c)" "acceptors c ! Suc (length us) = Some (vote_of u)"
      using assms(1) by (simp_all add: following_def snoc)
    have "learn_piggyback (Suc (length us)) (pv_id u) 0 ?c = Inr (Some (log_with (us @ [u]) ?c,
        value_callbacks (Suc (length us)) u ?c @ [Produce_log (Suc (length us)) u]))"
      by (rule follower_learns) (use f(3) a(4,6) voted assms(3) in \<open>simp_all add: snoc log_is_def\<close>)
    then have "handle_msg (Accept m) nm c = Inr (log_with vs ?c,
        (value_callbacks (Suc (length us)) u ?c @ [Produce_log (Suc (length us)) u]) @ [?reply])"
      using run assms(2) by (simp add: request_for_def snoc)
    moreover have "following (vs @ [v]) (log_with vs ?c)"
      using f a(4,5) by (simp add: following_def)
    ultimately show ?thesis
      by (intro exI [of _ "log_with vs ?c"] exI) (auto simp: is_inform_def)
  qed
qed

section \<open>The start\<close>

text \<open>The two nodes at the start.\<close>

lemma fresh_start: "master_id v = 0 \<Longrightarrow> fresh_above 0 (acceptors (new_captain v win dum))"
  by (auto simp: fresh_above_def new_captain_def update_max_proposed_def first_ballot_def new_acceptor_def nth_Cons')

lemma window_positive:
  assumes "0 < win" and "win < 2 ^ 63"
  shows "0 < window_size (new_captain v win dum)"
proof -
  have "uint (of_int win :: 64 word) = win"
    using assms by (simp add: uint_word_of_int_eq take_bit_int_eq_self)
  then have "(of_int win :: 64 word) \<noteq> 0"
    using assms(1) by auto
  then show ?thesis
    by (simp add: new_captain_def unat_gt_0)
qed

end
