(* ===== verification/DBManager.thy ===== *)
theory DBManager
  imports Commo Captain_Callbacks
begin

text \<open>
  \<^verbatim>\<open>dbmanager.hpp\<close> and \<^verbatim>\<open>dbmanager.cpp\<close>: a replicated SQL database. A node commits statements as
  values and executes each value the captain reports through its full callback on its own
  database. SQLite is outside the repository: \<open>ex\<close> is \<^verbatim>\<open>sqlite3_exec\<close>, which takes the
  database and a statement to a return code and a database, and \<open>open_db\<close> is \<^verbatim>\<open>sqlite3_open\<close>.
  The database is one more field of the node's state.
\<close>

section \<open>The manager\<close>

record 'd db_manager =
  db_node :: node
  db_handle :: 'd

definition db_config_file :: "node_id \<Rightarrow> string" where
  "db_config_file n = ''config/localhost-'' @ decimal (unat n) @ ''.yaml''"

text \<open>The captain of a manager has the latency and the full callback set.\<close>

definition db_captain :: "view \<Rightarrow> int \<Rightarrow> 'n \<Rightarrow> 'n captain" where
  "db_captain v win dum = set_callback_full (set_callback_latency (new_captain v win dum))"

definition DBManager_init :: "externals \<Rightarrow> mode \<Rightarrow> (string \<Rightarrow> config) \<Rightarrow> (string \<Rightarrow> string \<Rightarrow> string) \<Rightarrow>
    (string \<Rightarrow> 'd) \<Rightarrow> node_id \<Rightarrow> node_id \<Rightarrow> int \<Rightarrow>
    ('d db_manager \<times> (name \<times> handler) list \<times> string list) res" where
  "DBManager_init E mode load append_path open_db nid n win =
     res_bind (View_init mode load append_path nid (db_config_file n)) (\<lambda>(v, cmds).
     res_bind (Commo_init E (db_captain v win (uri_name E []))) (\<lambda>(nd, filters).
       Inr (\<lparr>db_node = nd, db_handle = open_db (db_name v)\<rparr>, filters, cmds)))"

text \<open>
  \<^verbatim>\<open>commit(sql)\<close>: the captain's commit with the default argument, the static \<open>dumName\<close>, which
  the name of an older value that goes first is written into.
\<close>

definition db_commit_captain :: "mode \<Rightarrow> string \<Rightarrow> 'n captain \<Rightarrow> ('n captain \<times> 'n call list) res" where
  "db_commit_captain mode sql c =
     (let c0 = next_value_id c;
          value = \<lparr>pv_id = value_id c0, pv_data = sql, pv_cmd = None, pv_integrity = None\<rparr>
      in if if_master (cap_view c0) then commit_value_dum value c0
         else commit mode sql (dumName c) c)"

definition db_commit :: "externals \<Rightarrow> mode \<Rightarrow> string \<Rightarrow> 'd db_manager \<Rightarrow> ('d db_manager \<times> effect list) res option" where
  "db_commit E mode sql M =
     map_option (map_sum id (map_prod (\<lambda>nd. M\<lparr>db_node := nd\<rparr>) id))
       (run_captain E (db_node M) (db_commit_captain mode sql (nd_captain (db_node M))))"

text \<open>
  \<^verbatim>\<open>count_exe_latency\<close>: the return code is only printed. The latency callback does nothing.
\<close>

definition count_exe_latency :: "('d \<Rightarrow> string \<Rightarrow> int \<times> 'd) \<Rightarrow> prop_value \<Rightarrow> 'd \<Rightarrow> 'd" where
  "count_exe_latency ex v d = snd (ex d (pv_data v))"

definition count_latency :: "slot_id \<Rightarrow> prop_value \<Rightarrow> int \<Rightarrow> 'd \<Rightarrow> 'd" where
  "count_latency s v tries d = d"

text \<open>What the calls of the captain do to the database.\<close>

fun run_db_calls :: "('d \<Rightarrow> string \<Rightarrow> int \<times> 'd) \<Rightarrow> 'n call list \<Rightarrow> 'd \<Rightarrow> 'd" where
  "run_db_calls ex [] d = d"
| "run_db_calls ex (call # calls) d = run_db_calls ex calls
     (case call of
        Run_callback_full s v n \<Rightarrow> count_exe_latency ex v d
      | Run_callback_latency s v tries \<Rightarrow> count_latency s v tries d
      | _ \<Rightarrow> d)"

section \<open>The database and the log\<close>

definition run_sql :: "('d \<Rightarrow> string \<Rightarrow> int \<times> 'd) \<Rightarrow> string list \<Rightarrow> 'd \<Rightarrow> 'd" where
  "run_sql ex stmts d = foldl (\<lambda>d s. snd (ex d s)) d stmts"

definition statements :: "'n captain \<Rightarrow> slot_id \<Rightarrow> slot_id \<Rightarrow> string list" where
  "statements c i j = map (\<lambda>s. pv_data (the (chosen_at c s))) [Suc i..<Suc j]"

lemma run_db_calls_append: "run_db_calls ex (xs @ ys) d = run_db_calls ex ys (run_db_calls ex xs d)"
  by (induction xs arbitrary: d) simp_all

lemma run_db_calls_callbacks: "run_db_calls ex (callbacks_of calls) d = run_db_calls ex calls d"
proof (induction calls arbitrary: d)
  case (Cons call calls)
  then show ?case by (cases call) (simp_all add: count_latency_def)
qed simp

lemma run_db_value:
  "has_callback_full c \<Longrightarrow> run_db_calls ex (value_callbacks s v c) d = snd (ex d (pv_data v))"
  by (simp add: value_callbacks_def count_exe_latency_def)

lemma run_db_log:
  assumes "has_callback_full c"
  shows "run_db_calls ex (callbacks_between c i j) d = run_sql ex (statements c i j) d"
proof -
  have "run_db_calls ex (concat (map (\<lambda>s. value_callbacks s (the (chosen_at c s)) c) ss)) d
      = run_sql ex (map (\<lambda>s. pv_data (the (chosen_at c s))) ss) d" for ss
    using assms by (induction ss arbitrary: d) (simp_all add: run_sql_def run_db_calls_append run_db_value)
  then show ?thesis
    by (simp only: callbacks_between_def statements_def)
qed

lemma statements_append: "i \<le> j \<Longrightarrow> j \<le> k \<Longrightarrow> statements c i k = statements c i j @ statements c j k"
  unfolding statements_def by (metis Suc_le_mono le_add_diff_inverse map_append upt_add_eq_append)

text \<open>In any run a manager has executed the statements of the filled prefix of its log, in order.\<close>

lemma db_follows_log:
  assumes "view_ok v" and "mode \<noteq> Mode_recover" and "\<forall>e \<in> set es. event_ok (host_count v) e"
  obtains c' calls where "captain_calls mode es (db_captain v win dum) = Inr (c', calls)" "captain_ok c'"
    "run_db_calls ex calls d = run_sql ex (statements c' 0 (max_chosen_without_hole c')) d"
proof -
  let ?c = "db_captain v win dum"
  have new: "captain_ok ?c" "max_chosen_without_hole ?c = 0" "has_callback_full ?c" "cap_view ?c = v"
    using captain_ok_new [OF assms(1), of win dum]
    by (simp_all add: db_captain_def captain_ok_def log_ok_def queue_ok_def, simp_all add: new_captain_def)
  obtain c' calls where r: "captain_calls mode es ?c = Inr (c', calls)" "captain_ok c'" "extends ?c c'"
    "callbacks_of calls = callbacks_between c' 0 (max_chosen_without_hole c')"
    using captain_calls_result [OF new(1) assms(2), of es] assms(3) new by auto
  have "has_callback_full c'"
    using r(3) new(3) by (simp add: extends_def)
  then have "run_db_calls ex calls d = run_sql ex (statements c' 0 (max_chosen_without_hole c')) d"
    using r(4) run_db_log run_db_calls_callbacks by metis
  then show thesis
    using that r(1,2) by blast
qed

text \<open>
  Replication: two managers run from the start on any messages and commits, in any order.
  If their logs agree where both are filled (which is what the protocol provides), the
  database of the one that is behind becomes that of the other by the statements of the slots
  it lacks, in order; and when both are at the same slot, the databases are equal.
\<close>

theorem replicas_agree:
  assumes "view_ok v1" and "\<forall>e \<in> set es1. event_ok (host_count v1) e"
    and "view_ok v2" and "\<forall>e \<in> set es2. event_ok (host_count v2) e"
    and "mode \<noteq> Mode_recover"
    and "captain_calls mode es1 (db_captain v1 win1 dum) = Inr (c1, calls1)"
    and "captain_calls mode es2 (db_captain v2 win2 dum) = Inr (c2, calls2)"
    and "max_chosen_without_hole c1 \<le> max_chosen_without_hole c2"
    and "\<forall>s. 0 < s \<and> s \<le> max_chosen_without_hole c1 \<longrightarrow> chosen_at c1 s = chosen_at c2 s"
  shows "run_db_calls ex calls2 d
      = run_sql ex (statements c2 (max_chosen_without_hole c1) (max_chosen_without_hole c2)) (run_db_calls ex calls1 d)
    \<and> (max_chosen_without_hole c1 = max_chosen_without_hole c2 \<longrightarrow> run_db_calls ex calls1 d = run_db_calls ex calls2 d)"
proof -
  let ?h1 = "max_chosen_without_hole c1" and ?h2 = "max_chosen_without_hole c2"
  have db1: "run_db_calls ex calls1 d = run_sql ex (statements c1 0 ?h1) d"
    using db_follows_log [OF assms(1,5,2), of win1 dum ex d] assms(6) by auto
  have db2: "run_db_calls ex calls2 d = run_sql ex (statements c2 0 ?h2) d"
    using db_follows_log [OF assms(3,5,4), of win2 dum ex d] assms(7) by auto
  have "statements c1 0 ?h1 = statements c2 0 ?h1"
    unfolding statements_def using assms(9) by (intro map_cong refl) auto
  moreover have "statements c2 0 ?h2 = statements c2 0 ?h1 @ statements c2 ?h1 ?h2"
    using assms(8) by (intro statements_append) simp_all
  ultimately have "run_db_calls ex calls2 d = run_sql ex (statements c2 ?h1 ?h2) (run_db_calls ex calls1 d)"
    by (simp add: db1 db2 run_sql_def)
  then show ?thesis
    by (auto simp: run_sql_def statements_def)
qed

text \<open>Node 1 learns slots 2 and 1, node 2 only slot 1; the database is the list of its statements.\<close>

definition taught :: "slot_id \<Rightarrow> prop_value \<Rightarrow> string captain_event" where
  "taught s v = Got_msg (Teach (Captain.msg_teach 0 s v)) []"

definition append_db :: "string list \<Rightarrow> string \<Rightarrow> int \<times> string list" where
  "append_db d s = (0, d @ [s])"

lemma taught_runs:
  "map_sum id (\<lambda>(c, calls). (max_chosen_without_hole c, chosen_at c 1, run_db_calls append_db calls []))
     (captain_calls Mode_default [taught 1 value_0] (db_captain (view_3 2) 1 [])) = Inr (1, Some value_0, [''y''])"
  "map_sum id (\<lambda>(c, calls). (max_chosen_without_hole c, chosen_at c 1, statements c 1 2))
     (captain_calls Mode_default [taught 2 value_1, taught 1 value_0] (db_captain (view_3 1) 1 []))
     = Inr (2, Some value_0, [''x''])"
  by code_simp+

theorem replicas_agree_witness:
  "\<exists>c2 calls2. captain_calls Mode_default [taught 2 value_1, taught 1 value_0] (db_captain (view_3 1) 1 [])
     = Inr (c2, calls2) \<and> run_db_calls append_db calls2 [] = [''y'', ''x'']"
proof -
  obtain c1 calls1 where one: "captain_calls Mode_default [taught 1 value_0] (db_captain (view_3 2) 1 []) = Inr (c1, calls1)"
    "max_chosen_without_hole c1 = 1" "chosen_at c1 1 = Some value_0" "run_db_calls append_db calls1 [] = [''y'']"
    using taught_runs(1) by (auto simp: map_sum_Inr_iff)
  obtain c2 calls2 where two: "captain_calls Mode_default [taught 2 value_1, taught 1 value_0] (db_captain (view_3 1) 1 [])
      = Inr (c2, calls2)" "max_chosen_without_hole c2 = 2" "chosen_at c2 1 = Some value_0" "statements c2 1 2 = [''x'']"
    using taught_runs(2) by (auto simp: map_sum_Inr_iff)
  have ok: "event_ok (host_count (view_3 me)) (taught s v)" for me s v
    by (simp add: taught_def msg_ok_def Captain.msg_teach_def set_msg_header_def view_3_def)
  have "s = 1" if "0 < s \<and> s \<le> max_chosen_without_hole c1" for s
    using that one(2) by simp
  then have agree: "\<forall>s. 0 < s \<and> s \<le> max_chosen_without_hole c1 \<longrightarrow> chosen_at c1 s = chosen_at c2 s"
    using one(3) two(3) by metis
  have "run_db_calls append_db calls2 []
      = run_sql append_db (statements c2 (max_chosen_without_hole c1) (max_chosen_without_hole c2)) (run_db_calls append_db calls1 [])"
    by (rule replicas_agree [OF _ _ _ _ _ one(1) two(1) _ agree, THEN conjunct1])
       (simp_all add: ok view_ok_view_3 one(2) two(2))
  then show ?thesis
    using two one by (simp add: run_sql_def append_db_def)
qed

end
