(* ===== verification/World_Props.thy ===== *)
theory World_Props
  imports World_Safety Cluster DBManager
begin

text \<open>What the nodes of a cluster promise together, and a run of three of them.\<close>

section \<open>Runs\<close>

text \<open>A list of events, up to the first that cannot happen.\<close>

fun world_run :: "mode \<Rightarrow> nat \<Rightarrow> 'n world_event list \<Rightarrow> 'n world \<Rightarrow> 'n world res" where
  "world_run mode n [] W = Inr W"
| "world_run mode n (e # es) W =
     (if world_can n e W then res_bind (world_do mode e W) (world_run mode n es) else Inr W)"

lemma world_run_reach:
  "world_reach mode views n W \<Longrightarrow> world_run mode n es W = Inr W' \<Longrightarrow> world_reach mode views n W'"
  by (induction es arbitrary: W) (auto simp: res_bind_Inr_iff split: if_splits intro: world_reach.world_step)

text \<open>
  Three nodes: the master commits a value, nodes 0 and 1 accept it (node 1 is asked twice), the
  master learns that it is chosen and proposes another, from whose request node 1 learns of the
  first, node 2 copies the first from the log, and the second is chosen as well.
\<close>

definition world_0 :: "string world" where
  "world_0 = \<lparr>w_captains = (\<lambda>k. (new_captain (view_3 k) 1 [])\<lparr>has_callback := True, has_callback_full := True\<rparr>),
     w_net = [], w_handed = [], w_told = (\<lambda>_. [])\<rparr>"

definition value_a :: prop_value where
  "value_a = \<lparr>pv_id = 65536, pv_data = ''a'', pv_cmd = None, pv_integrity = None\<rparr>"

definition value_b :: prop_value where
  "value_b = \<lparr>pv_id = 131072, pv_data = ''b'', pv_cmd = None, pv_integrity = None\<rparr>"

definition request_a :: msg_accept where
  "request_a = accept_request 0 1 (fast_info (view_3 0) value_a ''x'')"

definition request_b :: msg_accept where
  "request_b = (accept_request 0 2 (fast_info (view_3 0) value_b ''x''))
     \<lparr>acc_last_slot := Some 1, acc_last_value := Some 65536\<rparr>"

definition three_nodes :: "string world_event list" where
  "three_nodes =
     [W_commit 0 ''a'' ''x'', W_recv 0 (Accept request_a) ''x'', W_recv 1 (Accept request_a) ''x'',
      W_recv 1 (Accept request_a) ''x'', W_recv 0 (Ack_accept (grant_of 1 1)) ''x'',
      W_recv 0 (Ack_accept (grant_of 0 1)) ''x'', W_commit 0 ''b'' ''x'',
      W_recv 1 (Accept request_b) ''x'', W_log 2 0 1, W_recv 0 (Accept request_b) ''x'',
      W_recv 0 (Ack_accept (grant_of 0 2)) ''x'', W_recv 0 (Ack_accept (grant_of 1 2)) ''x'']"

lemma three_nodes_run:
  "map_sum id (\<lambda>W. (map (\<lambda>k. (chosen_at (w_captains W k) 1, has_callback (w_captains W k), has_callback_full (w_captains W k),
        max_chosen_without_hole (w_captains W k))) [0, 1, 2]))
      (world_run Mode_default 3 three_nodes world_0)
     = Inr [(Some value_a, True, True, 2), (Some value_a, True, True, 1), (Some value_a, True, True, 1)]"
  by code_simp

lemma one_master_3: "one_master view_3 3"
  using cluster_3 by (simp add: one_master_def view_3_def)

lemma world_init_0: "world_init view_3 world_0"
  unfolding world_init_def
proof (intro conjI allI)
  fix k
  have "w_captains world_0 k = (new_captain (view_3 k) 1 [])
      \<lparr>has_callback := True, has_callback_full := True, has_callback_latency := False\<rparr>"
    by (simp add: world_0_def new_captain_def)
  then show "\<exists>win dum b1 b2 b3. w_captains world_0 k = (new_captain (view_3 k) win dum)
      \<lparr>has_callback := b1, has_callback_full := b2, has_callback_latency := b3\<rparr>"
    by blast
qed (simp_all add: world_0_def)

lemma world_0_reach: "world_reach mode view_3 3 world_0"
  by (rule world_reach.world_start [OF world_init_0])

lemma three_nodes_reach:
  obtains W where "world_reach Mode_default view_3 3 W" "world_run Mode_default 3 three_nodes world_0 = Inr W"
    "\<forall>k \<in> {0, 1, 2}. chosen_at (w_captains W k) 1 = Some value_a \<and> has_callback (w_captains W k)
       \<and> has_callback_full (w_captains W k) \<and> max_chosen_without_hole (w_captains W k) = (if k = 0 then 2 else 1)"
proof -
  obtain W where "world_run Mode_default 3 three_nodes world_0 = Inr W"
      "map (\<lambda>k. (chosen_at (w_captains W k) 1, has_callback (w_captains W k), has_callback_full (w_captains W k),
        max_chosen_without_hole (w_captains W k))) [0, 1, 2]
        = [(Some value_a, True, True, 2), (Some value_a, True, True, 1), (Some value_a, True, True, 1)]"
    using three_nodes_run by (auto simp: map_sum_Inr_iff)
  then show thesis
    using that world_run_reach [OF world_0_reach] by auto
qed

section \<open>One log\<close>

text \<open>
  C6. Agreement of the whole cluster in the default build: whatever messages were lost, delayed,
  repeated or reordered, whichever nodes stopped, and however many values the nodes were asked
  to commit, two nodes that both have a value for a slot have the same value there, and it is
  one that was handed in by a commit.
\<close>

theorem nodes_agree:
  assumes "one_master views n" and "mode \<noteq> Mode_recover" and "world_reach mode views n W"
    and "unat j < n" and "unat k < n"
    and "chosen_at (w_captains W j) s = Some v" and "chosen_at (w_captains W k) s = Some w"
  shows "v = w \<and> v \<in> set (w_handed W)"
  using worlds_agree [OF world_reach_ok [OF assms(3,1,2)] assms(1,4-7)] by blast

theorem nodes_agree_witness:
  "\<exists>W. world_run Mode_default 3 three_nodes world_0 = Inr W \<and> chosen_at (w_captains W 2) 1 = Some value_a
    \<and> value_a \<in> set (w_handed W)"
proof -
  obtain W v where W: "world_reach Mode_default view_3 3 W" "world_run Mode_default 3 three_nodes world_0 = Inr W"
    "chosen_at (w_captains W 0) 1 = Some value_a" "chosen_at (w_captains W 2) 1 = Some v"
    using three_nodes_reach by (metis insertCI)
  then have "value_a = v \<and> value_a \<in> set (w_handed W)"
    by (intro nodes_agree [OF one_master_3 _ W(1)]) simp_all
  then show ?thesis
    using W by blast
qed

text \<open>Every step is one node's move; it takes nothing back and tells the application what is new.\<close>

lemma world_do_move:
  assumes "one_master views n" and "mode \<noteq> Mode_recover" and "world_ok views n W" and "world_can n e W"
    and run: "world_do mode e W = Inr W'"
  shows "\<exists>i c' calls. w_captains W' = (w_captains W)(i := c') \<and> w_told W' = (w_told W)(i := w_told W i @ calls)
    \<and> unat i < n \<and> extends (w_captains W i) c' \<and> callbacks_of calls
      = callbacks_between c' (max_chosen_without_hole (w_captains W i)) (max_chosen_without_hole c')"
proof -
  note host = world_host_count [OF assms(1,3)]
  have moved: "\<exists>i c' calls. w_captains W' = (w_captains W)(i := c') \<and> w_told W' = (w_told W)(i := w_told W i @ calls)
      \<and> unat i < n \<and> extends (w_captains W i) c' \<and> callbacks_of calls
        = callbacks_between c' (max_chosen_without_hole (w_captains W i)) (max_chosen_without_hole c')"
    if "acts i (Inr (c', calls)) V = Inr W'" "w_captains V = w_captains W" "w_told V = w_told W" "unat i < n"
      "extends (w_captains W i) c'" "callbacks_of calls
        = callbacks_between c' (max_chosen_without_hole (w_captains W i)) (max_chosen_without_hole c')" for i c' calls V
    using that by (intro exI [of _ i] exI [of _ c'] exI [of _ calls]) (auto simp: acts_def)
  show ?thesis
  proof (cases e)
    case (W_commit i data name)
    then have i: "unat i < n" "captain_ok (w_captains W i)"
      using host assms(4) by simp_all
    obtain c1 calls1 where r: "commit mode data name (w_captains W i) = Inr (c1, calls1)" "extends (w_captains W i) c1"
      "callbacks_of calls1 = callbacks_between c1 (max_chosen_without_hole (w_captains W i)) (max_chosen_without_hole c1)"
      using captain_step_tells [OF i(2) assms(2), of "Commit_string data name"]
      by (metis captain_step.simps(1) event_ok.simps(1))
    show ?thesis
      by (rule moved [where V = "W\<lparr>w_handed := w_handed W @ [new_value (w_captains W i) data]\<rparr>"])
        (use run W_commit r i(1) in simp_all)
  next
    case (W_recv i m name)
    then have i: "unat i < n" "captain_ok (w_captains W i)" and "arrived i m W"
      using host assms(4) by (simp_all add: arrived_def)
    then have "event_ok (host_count (cap_view (w_captains W i))) (Got_msg m name)"
      using host [of i] arrived_ok(1) [OF assms(3)] by simp
    then obtain c1 calls1 where r: "handle_msg m name (w_captains W i) = Inr (c1, calls1)" "extends (w_captains W i) c1"
      "callbacks_of calls1 = callbacks_between c1 (max_chosen_without_hole (w_captains W i)) (max_chosen_without_hole c1)"
      using captain_step_tells [OF i(2) assms(2), of "Got_msg m name"] by (metis captain_step.simps(2))
    show ?thesis
      by (rule moved [where V = W]) (use run W_recv r i(1) in simp_all)
  next
    case (W_log i j s)
    then obtain v where v: "chosen_at (w_captains W j) s = Some v" and i: "unat i < n" "captain_ok (w_captains W i)"
      using host assms(4) by auto
    then have log: "log_ok (w_captains W i)"
      by (simp add: captain_ok_def)
    obtain c1 where r: "add_chosen_value s (log_copy v) (w_captains W i)
        = Inr (c1, callbacks_between c1 (max_chosen_without_hole (w_captains W i)) (max_chosen_without_hole c1))"
        "extends (w_captains W i) c1"
      using add_chosen_value_extends [OF log] by metis
    show ?thesis
      by (rule moved [where V = W]) (use run W_log v r i(1) learn_tells [OF log r(1)] in simp_all)
  next
    case (W_crash i)
    have "extends (w_captains W i) (crash (w_captains W i))"
      by (simp add: crash_def extends_def chosen_at_def)
    then show ?thesis
      by (intro moved [of i "crash (w_captains W i)" "[]" W])
        (use run W_crash assms(4) in \<open>simp_all add: crash_def callbacks_of_def\<close>)
  qed
qed

lemma world_do_extends:
  assumes "one_master views n" and "mode \<noteq> Mode_recover" and "world_ok views n W" and "world_can n e W"
    and "world_do mode e W = Inr W'"
  shows "extends (w_captains W k) (w_captains W' k)"
  using world_do_move [OF assms] extends_refl by fastforce

text \<open>
  C7. Soundness of the cluster: from every state the cluster can reach, every event that can
  happen is handled by the code without a fault at any node; all nodes keep their invariant,
  and no node gives up or changes a value it has.
\<close>

theorem nodes_run_on:
  assumes "one_master views n" and "mode \<noteq> Mode_recover" and "world_reach mode views n W" and "world_can n e W"
  shows "\<exists>W'. world_do mode e W = Inr W' \<and> world_reach mode views n W'
    \<and> (\<forall>k. unat k < n \<longrightarrow> captain_ok (w_captains W' k)
         \<and> (\<forall>s v. chosen_at (w_captains W k) s = Some v \<longrightarrow> chosen_at (w_captains W' k) s = Some v))"
proof -
  have ok: "world_ok views n W"
    by (rule world_reach_ok [OF assms(3,1,2)])
  obtain W' where W': "world_do mode e W = Inr W'" "world_ok views n W'"
    using world_step_ok [OF assms(1,2) ok assms(4)] by blast
  moreover have "extends (w_captains W k) (w_captains W' k)" if "unat k < n" for k
    by (rule world_do_extends [OF assms(1,2) ok assms(4) W'(1)])
  ultimately show ?thesis
    using world_reach.world_step [OF assms(3,4)] by (auto simp: world_ok_def extends_def)
qed

theorem nodes_run_on_witness:
  "\<exists>W W'. world_run Mode_default 3 three_nodes world_0 = Inr W
    \<and> world_do Mode_default (W_log 1 2 1) W = Inr W' \<and> captain_ok (w_captains W' 1)"
proof -
  obtain W where W: "world_reach Mode_default view_3 3 W" "world_run Mode_default 3 three_nodes world_0 = Inr W"
    "chosen_at (w_captains W 2) 1 \<noteq> None"
    using three_nodes_reach by (metis insertCI option.distinct(1))
  have "world_can 3 (W_log 1 2 1) W"
    using W(3) by simp
  then obtain W' where "world_do Mode_default (W_log 1 2 1) W = Inr W'" "\<forall>k. unat k < 3 \<longrightarrow> captain_ok (w_captains W' k)"
    using nodes_run_on [OF one_master_3 _ W(1), of "W_log 1 2 1"] by blast
  then show ?thesis
    using W(2) by (intro exI [of _ W] exI [of _ W']) simp
qed

text \<open>The log of the cluster: what any node has.\<close>

definition cluster_log :: "nat \<Rightarrow> 'n world \<Rightarrow> slot_id \<Rightarrow> prop_value option" where
  "cluster_log n W s =
     (case filter (\<lambda>x. x \<noteq> None) (map (\<lambda>k. chosen_at (w_captains W (of_nat k)) s) [0..<n]) of
        [] \<Rightarrow> None
      | x # _ \<Rightarrow> x)"

lemma cluster_log_iff:
  assumes "one_master views n" and "world_ok views n W"
  shows "cluster_log n W s = Some v \<longleftrightarrow> (\<exists>k. unat k < n \<and> chosen_at (w_captains W k) s = Some v)"
proof -
  let ?known = "filter (\<lambda>x. x \<noteq> None) (map (\<lambda>k. chosen_at (w_captains W (of_nat k)) s) [0..<n])"
  have n: "n \<le> 65536"
    using assms(1) by (simp add: one_master_def cluster_def)
  have known: "x \<in> set ?known \<longleftrightarrow> x \<noteq> None \<and> (\<exists>k. unat k < n \<and> chosen_at (w_captains W k) s = x)" for x
  proof
    assume "x \<in> set ?known"
    then obtain i where "i < n" "chosen_at (w_captains W (of_nat i)) s = x" "x \<noteq> None" by auto
    then show "x \<noteq> None \<and> (\<exists>k. unat k < n \<and> chosen_at (w_captains W k) s = x)"
      using n by (intro conjI exI [of _ "of_nat i"]) simp_all
  next
    assume "x \<noteq> None \<and> (\<exists>k. unat k < n \<and> chosen_at (w_captains W k) s = x)"
    then obtain k where "x \<noteq> None" "unat k < n" "chosen_at (w_captains W k) s = x" by blast
    then show "x \<in> set ?known"
      by (auto intro!: image_eqI [of _ _ "unat k"])
  qed
  show ?thesis
  proof
    assume "cluster_log n W s = Some v"
    then have "Some v \<in> set ?known"
      unfolding cluster_log_def by (cases ?known) simp_all
    then show "\<exists>k. unat k < n \<and> chosen_at (w_captains W k) s = Some v"
      unfolding known by blast
  next
    assume have_v: "\<exists>k. unat k < n \<and> chosen_at (w_captains W k) s = Some v"
    then have "Some v \<in> set ?known"
      unfolding known by blast
    then obtain x xs where x: "?known = x # xs"
      using list.set_cases by metis
    then have "x \<in> set ?known" by simp
    then have "x = Some v"
      using have_v worlds_agree(1) [OF assms(2,1)] unfolding known by blast
    then show "cluster_log n W s = Some v"
      unfolding cluster_log_def x by simp
  qed
qed

text \<open>
  C9. The cluster refines one append-only log: taken together, the logs of the nodes are one
  partial map from slots to values that were handed in; no step changes or removes an entry,
  and the log of every node is a part of it.
\<close>

theorem cluster_refines_log:
  assumes "one_master views n" and "mode \<noteq> Mode_recover" and "world_reach mode views n W" and "world_can n e W"
    and "world_do mode e W = Inr W'"
  shows "cluster_log n W \<subseteq>\<^sub>m cluster_log n W' \<and> ran (cluster_log n W') \<subseteq> set (w_handed W')
    \<and> (\<forall>k. unat k < n \<longrightarrow> chosen_at (w_captains W' k) \<subseteq>\<^sub>m cluster_log n W')"
proof -
  have ok: "world_ok views n W"
    by (rule world_reach_ok [OF assms(3,1,2)])
  obtain W2 where "world_do mode e W = Inr W2" "world_ok views n W2"
    using world_step_ok [OF assms(1,2) ok assms(4)] by blast
  then have ok': "world_ok views n W'"
    using assms(5) by simp
  note log = cluster_log_iff [OF assms(1) ok] and log' = cluster_log_iff [OF assms(1) ok']
  have "chosen_at (w_captains W k) s = Some v \<Longrightarrow> chosen_at (w_captains W' k) s = Some v" for k s v
    using world_do_extends [OF assms(1,2) ok assms(4,5), of k] unfolding extends_def by blast
  then have "cluster_log n W' s = Some v" if "cluster_log n W s = Some v" for s v
    using that unfolding log log' by blast
  then have "cluster_log n W \<subseteq>\<^sub>m cluster_log n W'"
    by (auto simp: map_le_def)
  moreover have "ran (cluster_log n W') \<subseteq> set (w_handed W')"
    using log' worlds_agree(2) [OF ok' assms(1)] unfolding ran_def by blast
  moreover have "chosen_at (w_captains W' k) \<subseteq>\<^sub>m cluster_log n W'" if "unat k < n" for k
    unfolding map_le_def by (metis domIff log' not_None_eq that)
  ultimately show ?thesis by blast
qed

theorem cluster_refines_log_witness:
  "\<exists>W W'. world_run Mode_default 3 three_nodes world_0 = Inr W \<and> world_do Mode_default (W_log 1 2 1) W = Inr W'
    \<and> chosen_at (w_captains W' 1) \<subseteq>\<^sub>m cluster_log 3 W'"
proof -
  obtain W where W: "world_reach Mode_default view_3 3 W" "world_run Mode_default 3 three_nodes world_0 = Inr W"
    "chosen_at (w_captains W 2) 1 \<noteq> None"
    using three_nodes_reach by (metis insertCI option.distinct(1))
  have can: "world_can 3 (W_log 1 2 1) W"
    using W(3) by simp
  obtain W' where W': "world_do Mode_default (W_log 1 2 1) W = Inr W'"
    using world_step_ok [OF one_master_3 _ world_reach_ok [OF W(1) one_master_3] can] by auto
  have "chosen_at (w_captains W' 1) \<subseteq>\<^sub>m cluster_log 3 W'"
    using cluster_refines_log [OF one_master_3 _ W(1) can W'] by simp
  then show ?thesis
    using W(2) W' by blast
qed

section \<open>Applications\<close>

text \<open>An application has been told the filled prefix of its node's log.\<close>

lemma told_prefix:
  assumes "world_reach mode views n W" and "one_master views n" and "mode \<noteq> Mode_recover" and "unat k < n"
  shows "callbacks_of (w_told W k) = callbacks_between (w_captains W k) 0 (max_chosen_without_hole (w_captains W k))"
  using assms(1,4)
proof (induction arbitrary: k rule: world_reach.induct)
  case (world_start W)
  then have "max_chosen_without_hole (w_captains W k) = 0"
    by (auto simp: world_init_def new_captain_def dest!: spec [of _ k])
  then show ?case
    using world_start.hyps by (simp add: world_init_def)
next
  case (world_step W e W')
  have ok: "world_ok views n W"
    by (rule world_reach_ok [OF world_step.hyps(1) assms(2,3)])
  obtain i c' calls where r: "w_captains W' = (w_captains W)(i := c')" "w_told W' = (w_told W)(i := w_told W i @ calls)"
    "unat i < n" "extends (w_captains W i) c'" "callbacks_of calls
      = callbacks_between c' (max_chosen_without_hole (w_captains W i)) (max_chosen_without_hole c')"
    using world_do_move [OF assms(2,3) ok world_step.hyps(2,3)] by blast
  let ?c = "w_captains W i"
  show ?case
  proof (cases "k = i")
    case True
    have "callbacks_between ?c 0 (max_chosen_without_hole ?c) = callbacks_between c' 0 (max_chosen_without_hole ?c)"
      using ok r(3) log_ok_filled [of ?c] by (intro callbacks_between_extends [OF r(4)]) (auto simp: world_ok_def captain_ok_def)
    moreover have "callbacks_between c' 0 (max_chosen_without_hole c') = callbacks_between c' 0 (max_chosen_without_hole ?c)
        @ callbacks_between c' (max_chosen_without_hole ?c) (max_chosen_without_hole c')"
      using r(4) by (intro callbacks_between_append) (simp_all add: extends_def)
    ultimately show ?thesis
      using world_step.IH [OF r(3)] True r(1,2,5) by simp
  qed (use world_step r(1,2) in simp)
qed

lemma agreed_prefix:
  assumes "one_master views n" and "mode \<noteq> Mode_recover" and "world_reach mode views n W"
    and "unat j < n" and "unat k < n"
    and "max_chosen_without_hole (w_captains W j) \<le> max_chosen_without_hole (w_captains W k)"
    and "0 < s" and "s \<le> max_chosen_without_hole (w_captains W j)"
  shows "chosen_at (w_captains W k) s = chosen_at (w_captains W j) s"
proof -
  have ok: "world_ok views n W"
    by (rule world_reach_ok [OF assms(3,1,2)])
  then have logs: "log_ok (w_captains W j)" "log_ok (w_captains W k)"
    using assms(4,5) by (simp_all add: world_ok_def captain_ok_def)
  obtain v w where "chosen_at (w_captains W j) s = Some v" "chosen_at (w_captains W k) s = Some w"
    using log_ok_filled [OF logs(1), of s] log_ok_filled [OF logs(2), of s] assms(6-8) by auto
  then show ?thesis
    using worlds_agree(1) [OF ok assms(1,4,5), of s v w] by simp
qed

text \<open>
  C8. Replicated state machines: each application has been called once for every slot up to
  the first its node lacks, in slot order; and of two applications with the same callbacks,
  one has got the calls of the other and perhaps some more.
\<close>

theorem nodes_tell_alike:
  assumes "one_master views n" and "mode \<noteq> Mode_recover" and "world_reach mode views n W"
    and "unat j < n" and "unat k < n"
    and "has_callback (w_captains W j) = has_callback (w_captains W k)"
    and "has_callback_full (w_captains W j) = has_callback_full (w_captains W k)"
    and "max_chosen_without_hole (w_captains W j) \<le> max_chosen_without_hole (w_captains W k)"
  shows "callbacks_of (w_told W k) = callbacks_between (w_captains W k) 0 (max_chosen_without_hole (w_captains W k))
    \<and> (\<exists>more. callbacks_of (w_told W k) = callbacks_of (w_told W j) @ more)"
proof -
  let ?c = "w_captains W j" and ?d = "w_captains W k"
  let ?h = "max_chosen_without_hole ?c"
  note prefix = told_prefix [OF assms(3,1,2)]
  have "value_callbacks s (the (chosen_at ?d s)) ?d = value_callbacks s (the (chosen_at ?c s)) ?c"
    if "s \<in> set [Suc 0..<Suc ?h]" for s
  proof -
    have "chosen_at ?d s = chosen_at ?c s"
      using that by (intro agreed_prefix [OF assms(1-5,8)]) auto
    then show ?thesis
      using assms(6,7) by (simp add: value_callbacks_def)
  qed
  then have "callbacks_between ?d 0 ?h = callbacks_between ?c 0 ?h"
    unfolding callbacks_between_def by (intro arg_cong [where f = concat] map_cong refl)
  then show ?thesis
    using prefix [OF assms(4)] prefix [OF assms(5)] assms(8)
      callbacks_between_append [of 0 ?h "max_chosen_without_hole ?d" ?d] by auto
qed

theorem nodes_tell_alike_witness:
  "\<exists>W more. world_run Mode_default 3 three_nodes world_0 = Inr W
    \<and> callbacks_of (w_told W 0) = callbacks_of (w_told W 2) @ more"
proof -
  obtain W where W: "world_reach Mode_default view_3 3 W" "world_run Mode_default 3 three_nodes world_0 = Inr W"
    "\<forall>k \<in> {0, 1, 2}. chosen_at (w_captains W k) 1 = Some value_a \<and> has_callback (w_captains W k)
       \<and> has_callback_full (w_captains W k) \<and> max_chosen_without_hole (w_captains W k) = (if k = 0 then 2 else 1)"
    by (rule three_nodes_reach)
  have "\<exists>more. callbacks_of (w_told W 0) = callbacks_of (w_told W 2) @ more"
    by (rule nodes_tell_alike [OF one_master_3 _ W(1), THEN conjunct2]) (use W(3) in simp_all)
  then show ?thesis
    using W(2) by blast
qed

text \<open>
  C10. Replicated databases: nodes of the cluster run \<^verbatim>\<open>DBManager\<close>s on equal databases. The database
  of the node that is behind becomes the other node's by the statements of the slots it lacks,
  in order, and at the same slot the databases are equal.
\<close>

theorem databases_agree:
  assumes "one_master views n" and "mode \<noteq> Mode_recover" and "world_reach mode views n W"
    and "unat j < n" and "unat k < n"
    and "has_callback_full (w_captains W j)" and "has_callback_full (w_captains W k)"
    and "max_chosen_without_hole (w_captains W j) \<le> max_chosen_without_hole (w_captains W k)"
  shows "run_db_calls ex (w_told W k) d
    = run_sql ex (statements (w_captains W k) (max_chosen_without_hole (w_captains W j))
        (max_chosen_without_hole (w_captains W k))) (run_db_calls ex (w_told W j) d)"
proof -
  let ?c = "w_captains W j" and ?d = "w_captains W k"
  let ?h = "max_chosen_without_hole ?c" and ?h2 = "max_chosen_without_hole ?d"
  have db: "run_db_calls ex (w_told W i) d = run_sql ex (statements (w_captains W i) 0 (max_chosen_without_hole (w_captains W i))) d"
    if "unat i < n" "has_callback_full (w_captains W i)" for i
    using told_prefix [OF assms(3,1,2) that(1)] run_db_log [OF that(2)] run_db_calls_callbacks by metis
  have "statements ?d 0 ?h = statements ?c 0 ?h"
    unfolding statements_def using agreed_prefix [OF assms(1-5,8)] by (intro map_cong refl) auto
  moreover have "statements ?d 0 ?h2 = statements ?d 0 ?h @ statements ?d ?h ?h2"
    using assms(8) by (intro statements_append) simp_all
  ultimately show ?thesis
    by (simp add: db [OF assms(4,6)] db [OF assms(5,7)] run_sql_def)
qed

lemma three_nodes_db:
  "map_sum id (\<lambda>W. (statements (w_captains W 0) 1 2, run_db_calls append_db (w_told W 2) []))
      (world_run Mode_default 3 three_nodes world_0) = Inr ([''b''], [''a''])"
  by code_simp

theorem databases_agree_witness:
  "\<exists>W. world_run Mode_default 3 three_nodes world_0 = Inr W \<and> run_db_calls append_db (w_told W 0) [] = [''a'', ''b'']"
proof -
  obtain W where W: "world_reach Mode_default view_3 3 W" "world_run Mode_default 3 three_nodes world_0 = Inr W"
    "\<forall>k \<in> {0, 1, 2}. chosen_at (w_captains W k) 1 = Some value_a \<and> has_callback (w_captains W k)
       \<and> has_callback_full (w_captains W k) \<and> max_chosen_without_hole (w_captains W k) = (if k = 0 then 2 else 1)"
    by (rule three_nodes_reach)
  have hole: "max_chosen_without_hole (w_captains W 0) = 2" "max_chosen_without_hole (w_captains W 2) = 1"
    using W(3) by simp_all
  have "run_db_calls append_db (w_told W 0) []
    = run_sql append_db (statements (w_captains W 0) (max_chosen_without_hole (w_captains W 2))
        (max_chosen_without_hole (w_captains W 0))) (run_db_calls append_db (w_told W 2) [])"
    by (rule databases_agree [OF one_master_3 _ W(1)]) (use W(3) in simp_all)
  moreover have "statements (w_captains W 0) 1 2 = [''b'']" "run_db_calls append_db (w_told W 2) [] = [''a'']"
    using three_nodes_db unfolding W(2) by simp_all
  ultimately show ?thesis
    using W(2) unfolding hole by (simp add: run_sql_def append_db_def)
qed

end
