(* ===== verification/Programs.thy ===== *)
theory Programs
  imports DBManager Commo_Props
begin

text \<open>
  What remains around the modules: the program \<^verbatim>\<open>naxos.cpp\<close> that wires a node together, and
  the older transport \<^verbatim>\<open>producer.cpp\<close> and \<^verbatim>\<open>consumer.cpp\<close>, which the programs no longer use.
\<close>

section \<open>The node program\<close>

text \<open>
  \<^verbatim>\<open>NaxosD\<close>: the number of nodes and the kind of configuration select the file. The member
  \<^verbatim>\<open>node_num_\<close> is a \<^verbatim>\<open>node_id_t\<close>, so what is printed is the argument cut to 16 bits.
\<close>

definition naxos_config_file :: "int \<Rightarrow> int \<Rightarrow> string" where
  "naxos_config_file node_num local =
     ''config/'' @ (if local = 0 then ''localhost-'' else ''nodes-'') @ to_string_int (uint (of_int node_num :: node_id)) @ ''.yaml''"

lemma naxos_config_file_small:
  "0 \<le> node_num \<Longrightarrow> node_num < 65536 \<Longrightarrow> naxos_config_file node_num local =
     ''config/'' @ (if local = 0 then ''localhost-'' else ''nodes-'') @ to_string_int node_num @ ''.yaml''"
  "naxos_config_file (node_num + 65536) local = naxos_config_file node_num local"
proof -
  show "0 \<le> node_num \<Longrightarrow> node_num < 65536 \<Longrightarrow> naxos_config_file node_num local =
     ''config/'' @ (if local = 0 then ''localhost-'' else ''nodes-'') @ to_string_int node_num @ ''.yaml''"
    by (simp add: naxos_config_file_def uint_word_of_int_eq take_bit_eq_mod)
  have "(of_int (node_num + 65536) :: node_id) = of_int node_num"
    by (rule word_of_int_eq_iff [THEN iffD2]) (simp add: take_bit_eq_mod)
  then show "naxos_config_file (node_num + 65536) local = naxos_config_file node_num local"
    unfolding naxos_config_file_def by (rule arg_cong)
qed

definition NaxosD_init :: "externals \<Rightarrow> mode \<Rightarrow> (string \<Rightarrow> config) \<Rightarrow> (string \<Rightarrow> string \<Rightarrow> string) \<Rightarrow>
    node_id \<Rightarrow> int \<Rightarrow> int \<Rightarrow> int \<Rightarrow> (node \<times> (name \<times> handler) list \<times> string list) res" where
  "NaxosD_init E mode load append_path nid node_num win local =
     res_bind (View_init mode load append_path nid (naxos_config_file node_num local)) (\<lambda>(v, cmds).
     res_bind (my_hostname v) (\<lambda>_.
     res_bind (Commo_init E (new_captain v win (uri_name E []))) (\<lambda>(nd, filters).
       Inr (nd, filters, cmds))))"

text \<open>A node outside the quorum starts to follow the log; a negative window asks for nothing.\<close>

definition NaxosD_start :: "externals \<Rightarrow> int \<Rightarrow> node \<Rightarrow> node \<times> effect list" where
  "NaxosD_start E log_size nd =
     (if \<not> if_quorum (nd_view nd) then consume_log E (nat log_size) nd else (nd, []))"

lemma load_lease_hosts:
  "host_nodes (load_lease l v) = host_nodes v" "node_id (load_lease l v) = node_id v"
  by (simp_all add: load_lease_def split: option.splits)

lemma View_init_exists:
  assumes "cf \<noteq> []" and "unat nid < length (cfg_host (load cf))" and "length (cfg_host (load cf)) < 65536"
  shows "\<exists>v cmds. View_init mode load ap nid cf = Inr (v, cmds)"
proof -
  let ?v1 = "fst (load_hosts mode (length (cfg_host (load cf))) 0 (cfg_host (load cf))
    (fresh_view (load cf) nid, [''nfd-stop; nfd-start'']))"
  have hosts: "host_nodes ?v1 = cfg_host (load cf)" "node_id ?v1 = nid"
    using load_hosts_fresh [OF refl assms(3), of mode nid "[''nfd-stop; nfd-start'']"]
    by (simp_all add: fresh_view_def)
  then have "\<exists>v3. load_db ap (cfg_db (load cf)) (load_lease (cfg_lease (load cf)) ?v1) = Inr v3"
    using assms(2) by (simp add: load_db_def load_lease_hosts split: option.splits)
  then show ?thesis
    using assms(1) by (auto simp: View_init_def Let_def split: prod.splits)
qed

lemma naxos_config_file_nonempty: "naxos_config_file node_num local \<noteq> []"
  by (simp add: naxos_config_file_def)

text \<open>
  Given a configuration of \<open>n\<close> hosts, the node program of each of them starts without a
  fault, with the node invariant and an empty log; if the node is not in the quorum, the
  first half of the hosts, it has then asked for the slots 1 to \<open>log_size\<close> of the log, each
  once, and otherwise for none.
\<close>

lemma node_starts:
  assumes "length (cfg_host (load (naxos_config_file node_num local))) = n" and "n < 65536" and "unat nid < n"
  shows "\<exists>nd filters cmds. NaxosD_init E mode load append_path nid node_num win local = Inr (nd, filters, cmds)
    \<and> node_ok nd \<and> me_of (nd_captain nd) = nid \<and> max_chosen (nd_captain nd) = 0 \<and> log_counter nd = 0
    \<and> snd (NaxosD_start E log_size nd) =
        (if unat nid < quorum_of_size n then []
         else map (\<lambda>i. Log_interest (log_name nd @ [enc_number E i]) 20000) [1..<Suc (nat log_size)])"
proof -
  let ?cf = "naxos_config_file node_num local"
  have n0: "0 < n" using assms(3) by simp
  obtain v cmds where v: "View_init mode load append_path nid ?cf = Inr (v, cmds)"
    using View_init_exists [where load = load and cf = ?cf, OF naxos_config_file_nonempty] assms by metis
  have q: "quorum_of_size n \<le> n"
    using n0 by (rule quorum_of_size_bounds)
  have sel: "(if ?cf = [] then load ''config/localhost-1.yaml'' else load ?cf) = load ?cf"
    using naxos_config_file_nonempty by simp
  have view: "view_ok v" "quorums v = nodes_upto 0 (quorum_of_size n)" "node_id v = nid" "host_count v = n"
    "length (host_nodes v) = n"
  proof -
    show "view_ok v" "quorums v = nodes_upto 0 (quorum_of_size n)" "node_id v = nid" "host_count v = n"
      "length (host_nodes v) = n"
      by (rule View_init_cases [OF v sel [symmetric] assms(1) [symmetric] assms(2)];
          use view_ok_constructed [of v n] naxos_config_file_nonempty assms q in simp)+
  qed
  let ?c = "new_captain v win (uri_name E []) :: name captain"
  have c: "cap_view ?c = v" "max_chosen ?c = 0" "captain_ok ?c"
    using captain_ok_new [OF view(1)] by (simp_all add: new_captain_def)
  obtain nd filters where nd: "Commo_init E ?c = Inr (nd, filters)" "nd_captain nd = ?c"
    "length (consumer_names nd) = host_count v"
    using Commo_init_result [of ?c v _ E] view c assms(2) by auto
  then have log: "log_counter nd = 0"
    by (auto simp: Commo_init_def Let_def res_bind_Inr_iff)
  have "my_hostname v = Inr (host_name (host_nodes v ! unat nid))"
    using view assms by (simp add: my_hostname_def hostname_def)
  then have "NaxosD_init E mode load append_path nid node_num win local = Inr (nd, filters, cmds)"
    using v nd(1) by (simp add: NaxosD_init_def)
  moreover have "if_quorum (nd_view nd) \<longleftrightarrow> unat nid < quorum_of_size n"
    using view c(1) nd(2) q assms by (simp add: if_quorum_def set_find_def set_nodes_upto)
  ultimately show ?thesis
    using nd c view log by (intro exI [of _ nd]) (simp add: node_ok_def NaxosD_start_def consume_log_window whoami_def)
qed

lemma node_starts_example:
  "\<exists>nd filters cmds. NaxosD_init number_wire Mode_default (\<lambda>_. localhost_3) slash_append 2 3 1 0 = Inr (nd, filters, cmds)
     \<and> snd (NaxosD_start number_wire 2 nd)
       = [Log_interest (log_name nd @ [''1'']) 20000, Log_interest (log_name nd @ [''2'']) 20000]"
proof -
  have "length (cfg_host ((\<lambda>_. localhost_3) (naxos_config_file 3 0))) = 3"
    by (simp add: localhost_3_def)
  from node_starts [where log_size = 2 and E = number_wire and mode = Mode_default and append_path = slash_append
      and win = 1 and nid = 2 and node_num = 3 and local = 0, OF this]
  obtain nd filters cmds where r:
    "NaxosD_init number_wire Mode_default (\<lambda>_. localhost_3) slash_append 2 3 1 0 = Inr (nd, filters, cmds)"
    "snd (NaxosD_start number_wire 2 nd)
      = map (\<lambda>i. Log_interest (log_name nd @ [enc_number number_wire i]) 20000) [1..<Suc (nat 2)]"
    by (auto simp: quorum_of_size_def simp del: upt_Suc)
  moreover have "decimal 1 = ''1''" "decimal 2 = ''2''"
    by code_simp+
  moreover have "[1..<Suc (nat 2)] = [1, 2]"
    by (simp add: upt_rec)
  ultimately show ?thesis
    by (simp add: number_wire_def one_message_wire_def)
qed

section \<open>The older transport\<close>

text \<open>
  \<^verbatim>\<open>Producer::onInterest\<close>: a fixed data packet is put out first, then the message is handled, with
  the default argument as the name. \<^verbatim>\<open>Producer::deal_msg\<close> has the switch of \<^verbatim>\<open>Commo::deal_msg\<close>.
\<close>

definition producer_deal_msg :: "externals \<Rightarrow> string \<Rightarrow> name captain \<Rightarrow> (name captain \<times> name call list) res" where
  "producer_deal_msg E s c =
     (if s = [] then Inl Out_of_range
      else case msg_type_of_code (int (of_char (last s)) - 48) of
             None \<Rightarrow> Inl Null_deref
           | Some t \<Rightarrow> handle_msg (parse_as E t (butlast s)) (dumName c) c)"

definition producer_onInterest :: "externals \<Rightarrow> name \<Rightarrow> name captain \<Rightarrow>
    (effect \<times> (name captain \<times> name call list) res) res" where
  "producer_onInterest E nm c =
     res_bind (name_get nm 1) (\<lambda>s. Inr (Data_packet nm ''HELLO KITTY'' 10, producer_deal_msg E s c))"

definition producer_filter :: "name \<Rightarrow> name \<times> handler" where
  "producer_filter pre = (pre, On_interest)"

text \<open>\<^verbatim>\<open>Consumer\<close>: an interest with a lifetime of a second, whose answer is only logged.\<close>

definition consumer_consume :: "name \<Rightarrow> effect" where
  "consumer_consume nm = Interest nm 1000"

lemma producer_commo: "producer_deal_msg E s c = deal_msg E s (dumName c) c"
  by (simp add: producer_deal_msg_def deal_msg_def)

text \<open>A message sent through the older transport is handled as the one sent, under no name.\<close>

lemma producer_roundtrip:
  assumes "parse_as E (type_of_msg m) (serialize E m) = m"
  shows "producer_onInterest E (pre @ [encode_msg E m]) c
    = Inr (Data_packet (pre @ [encode_msg E m]) ''HELLO KITTY'' 10, handle_msg m (dumName c) c)"
  using deal_encoded [OF assms] by (simp add: producer_onInterest_def producer_commo name_get_def nth_append)

end
