(* ===== verification/Benchmark.thy ===== *)
theory Benchmark
  imports Programs Cluster "HOL-Library.Signed_Division"
begin

text \<open>
  \<^verbatim>\<open>test/1_node_1_win.cpp\<close>: the class \<^verbatim>\<open>Master\<close>, a node that is alone. Its main thread commits
  numbered values in a loop; what the captain broadcasts goes to the thread pool of \<^verbatim>\<open>Commo\<close>,
  whose one worker runs \<^verbatim>\<open>handle_myself\<close>. The window, the queue of waiting values, the log and
  the pool work together here. A whole commit of the main thread and a whole task of the worker are
  one step each, and the runs are all orders of these. The two threads of the code can also be in the
  captain at the same time; where its handlers have let go of the mutexes, or read \<^verbatim>\<open>proposers_\<close>
  without them, that is a data race. Such runs are not covered.
\<close>

section \<open>The program\<close>

text \<open>
  The pool with one worker runs its tasks one at a time in the order of their scheduling
  (\<open>Task_Pool_Props.one_worker_in_order\<close>), so it is a queue of messages. \<open>bm_start\<close> is
  \<^verbatim>\<open>start_\<close>, a reading of the clock in nanoseconds.
\<close>

record benchmark =
  bm_node :: node
  bm_tasks :: "msg list"
  bm_total :: int
  bm_counter :: nat
  bm_start :: int

text \<open>The number of nodes is printed from a \<^verbatim>\<open>node_id_t\<close>, cut to 16 bits.\<close>

definition benchmark_config_file :: "int \<Rightarrow> string" where
  "benchmark_config_file node_num = ''config/localhost-'' @ to_string_int (uint (of_int node_num :: node_id)) @ ''.yaml''"

text \<open>The captain of the benchmark has the latency callback set.\<close>

definition benchmark_captain :: "view \<Rightarrow> int \<Rightarrow> 'n \<Rightarrow> 'n captain" where
  "benchmark_captain v win dum = set_callback_latency (new_captain v win dum)"

text \<open>The vector \<^verbatim>\<open>starts_(total)\<close> cannot have a negative size.\<close>

definition Master_init :: "externals \<Rightarrow> mode \<Rightarrow> (string \<Rightarrow> config) \<Rightarrow> (string \<Rightarrow> string \<Rightarrow> string) \<Rightarrow>
    node_id \<Rightarrow> int \<Rightarrow> int \<Rightarrow> int \<Rightarrow> benchmark res" where
  "Master_init E mode load append_path nid node_num win tot =
     (if tot < 0 then Inl Std_exception
      else res_bind (View_init mode load append_path nid (benchmark_config_file node_num)) (\<lambda>(v, cmds).
           res_bind (my_hostname v) (\<lambda>_.
           res_bind (Commo_init E (benchmark_captain v win (uri_name E []))) (\<lambda>(nd, filters).
             Inr \<lparr>bm_node = nd, bm_tasks = [], bm_total = tot, bm_counter = 0, bm_start = 0\<rparr>))))"

text \<open>
  \<^verbatim>\<open>count_latency\<close>: at a multiple of 100000 commits the time since the last such report, in
  milliseconds, divides a constant. \<open>finish\<close> and \<open>restart\<close> are its two readings of the clock.
\<close>

definition report_latency :: "nat \<Rightarrow> int \<Rightarrow> int \<Rightarrow> int \<Rightarrow> int res" where
  "report_latency counter finish restart start =
     (if counter mod 100000 = 0
      then let period = of_int ((finish - start) sdiv 1000000) :: 64 word
           in if period = 0 then Inl Division_by_zero else Inr restart
      else Inr start)"

fun benchmark_callbacks :: "nat \<Rightarrow> int \<Rightarrow> int \<Rightarrow> effect list \<Rightarrow> int \<Rightarrow> int res" where
  "benchmark_callbacks counter finish restart [] start = Inr start"
| "benchmark_callbacks counter finish restart (e # es) start =
     (case e of
        Callback (Run_callback_latency s v tries) \<Rightarrow>
          res_bind (report_latency counter finish restart start) (benchmark_callbacks counter finish restart es)
      | _ \<Rightarrow> benchmark_callbacks counter finish restart es start)"

text \<open>What goes to the pool.\<close>

definition scheduled :: "effect list \<Rightarrow> msg list" where
  "scheduled effs = concat (map (\<lambda>e. case e of Schedule_self m \<Rightarrow> [m] | _ \<Rightarrow> []) effs)"

definition benchmark_value :: "nat \<Rightarrow> string \<Rightarrow> string" where
  "benchmark_value counter host = ''Commiting Value Time_'' @ decimal counter @ '' from '' @ host"

text \<open>The body of the loop of \<^verbatim>\<open>start_commit\<close>; the name is the default argument of \<^verbatim>\<open>commit\<close>.\<close>

definition commit_next :: "externals \<Rightarrow> mode \<Rightarrow> benchmark \<Rightarrow> benchmark res option" where
  "commit_next E mode B =
     (let counter = Suc (bm_counter B)
      in case my_hostname (nd_view (bm_node B)) of
           Inl f \<Rightarrow> Some (Inl f)
         | Inr host \<Rightarrow>
             map_option (map_sum id (\<lambda>(nd, effs). B\<lparr>bm_node := nd, bm_counter := counter,
                 bm_tasks := bm_tasks B @ scheduled effs\<rparr>))
               (run_captain E (bm_node B)
                 (db_commit_captain mode (benchmark_value counter host) (nd_captain (bm_node B)))))"

text \<open>The worker of the pool runs the first task, with the callback on its way.\<close>

definition run_task :: "externals \<Rightarrow> int \<Rightarrow> int \<Rightarrow> benchmark \<Rightarrow> benchmark res option" where
  "run_task E finish restart B =
     (case bm_tasks B of
        [] \<Rightarrow> None
      | m # ms \<Rightarrow>
          map_option (\<lambda>r. res_bind r (\<lambda>(nd, effs).
              res_bind (benchmark_callbacks (bm_counter B) finish restart effs (bm_start B)) (\<lambda>start.
                Inr (B\<lparr>bm_node := nd, bm_tasks := ms @ scheduled effs, bm_start := start\<rparr>))))
            (handle_myself E m (bm_node B)))"

text \<open>
  A run: the clock is read first; then the main thread goes on with its loop while it is not at
  its end, and the worker with its tasks.
\<close>

datatype benchmark_event = Commit_next | Run_task int int

definition start_clock :: "int \<Rightarrow> benchmark \<Rightarrow> benchmark" where
  "start_clock now B = B\<lparr>bm_start := now\<rparr>"

fun benchmark_do :: "externals \<Rightarrow> mode \<Rightarrow> benchmark_event \<Rightarrow> benchmark \<Rightarrow> benchmark res option" where
  "benchmark_do E mode Commit_next B = (if int (bm_counter B) < bm_total B then commit_next E mode B else None)"
| "benchmark_do E mode (Run_task finish restart) B = run_task E finish restart B"

fun benchmark_run :: "externals \<Rightarrow> mode \<Rightarrow> benchmark_event list \<Rightarrow> benchmark \<Rightarrow> benchmark res option" where
  "benchmark_run E mode [] B = Some (Inr B)"
| "benchmark_run E mode (e # es) B =
     (case benchmark_do E mode e B of
        None \<Rightarrow> None
      | Some (Inl f) \<Rightarrow> Some (Inl f)
      | Some (Inr B') \<Rightarrow> benchmark_run E mode es B')"

section \<open>A node that is alone\<close>

definition alone :: "name captain \<Rightarrow> bool" where
  "alone c \<longleftrightarrow> work c \<and> if_master (cap_view c) \<and> me_of c = 0 \<and> nodes_size (cap_view c) = 1 \<and> q_size (cap_view c) = 1
     \<and> 0 < window_size c \<and> has_callback_latency c \<and> \<not> has_callback c \<and> \<not> has_callback_full c"

text \<open>The proposers at work, one for each of the values \<open>us\<close>, from the slot after \<open>k\<close> on.\<close>

fun at_work :: "view \<Rightarrow> name \<Rightarrow> nat \<Rightarrow> prop_value list \<Rightarrow> (nat \<times> name proposer_info) list" where
  "at_work w name k [] = []"
| "at_work w name k (u # us) = (Suc k, fast_info w u name) # at_work w name (Suc k) us"

text \<open>The accept requests for them that are in the pool.\<close>

definition requests :: "nat \<Rightarrow> prop_value \<Rightarrow> msg \<Rightarrow> bool" where
  "requests s v msg \<longleftrightarrow> (\<exists>m. msg = Accept m \<and> hdr_slot (acc_header m) = s \<and> hdr_node (acc_header m) = 0
     \<and> acc_ballot m = 65536 \<and> acc_value m = v)"

fun all_requests :: "nat \<Rightarrow> prop_value list \<Rightarrow> msg list \<Rightarrow> bool" where
  "all_requests k [] ms \<longleftrightarrow> ms = []"
| "all_requests k (u # us) ms \<longleftrightarrow> (\<exists>m ms'. ms = m # ms' \<and> requests (Suc k) u m \<and> all_requests (Suc k) us ms')"

text \<open>
  The state between two steps: \<open>vs\<close> are chosen, \<open>us\<close> proposed and in the pool, \<open>qs\<close> in the queue.
\<close>

definition solo_open :: "prop_value list \<Rightarrow> prop_value list \<Rightarrow> prop_value list \<Rightarrow> name captain \<Rightarrow> msg list \<Rightarrow> bool" where
  "solo_open vs us qs c ms \<longleftrightarrow> alone c \<and> log_is vs c \<and> fresh_above (length vs) (acceptors c)
     \<and> last_slot c \<le> length vs \<and> max_slot c = length vs + length us
     \<and> proposers c = at_work (cap_view c) (dumName c) (length vs) us
     \<and> all_requests (length vs) us ms \<and> length us \<le> window_size c
     \<and> tocommit_values c = qs \<and> tocommit_clients c = replicate (length qs) (dumName c)
     \<and> (\<forall>v \<in> set (vs @ us @ qs). pv_cmd v = None)"

definition solo :: "prop_value list \<Rightarrow> prop_value list \<Rightarrow> prop_value list \<Rightarrow> name captain \<Rightarrow> msg list \<Rightarrow> bool" where
  "solo vs us qs c ms \<longleftrightarrow> solo_open vs us qs c ms \<and> (qs \<noteq> [] \<longrightarrow> length us = window_size c)"

lemma map_put_last: "\<forall>p \<in> set xs. fst p < k \<Longrightarrow> map_put k v xs = xs @ [(k, v)]"
  for k :: nat
  by (induction xs) auto

lemma at_work_append: "at_work w name k (us @ [v]) = at_work w name k us @ [(Suc (k + length us), fast_info w v name)]"
  by (induction us arbitrary: k) simp_all

lemma length_at_work [simp]: "length (at_work w name k us) = length us"
  by (induction us arbitrary: k) simp_all

lemma at_work_slots: "p \<in> set (at_work w name k us) \<Longrightarrow> k < fst p \<and> fst p \<le> k + length us"
  by (induction us arbitrary: k) fastforce+

lemma all_requests_append:
  "all_requests k us ms \<Longrightarrow> requests (Suc (k + length us)) v m \<Longrightarrow> all_requests k (us @ [v]) (ms @ [m])"
  by (induction us arbitrary: k ms) auto

text \<open>A value that is proposed: one more proposer, and one more request for the pool.\<close>

lemma solo_propose:
  assumes "solo_open vs us qs c ms" and "length us < window_size c" and "pv_cmd v = None"
  shows "\<exists>c' m. propose_fast v (dumName c) c = Inr (c', [Broadcast m]) \<and> solo_open vs (us @ [v]) qs c' (ms @ [m])
    \<and> window_size c' = window_size c \<and> dumName c' = dumName c \<and> cap_view c' = cap_view c"
proof -
  let ?s = "Suc (length vs + length us)"
  let ?info = "fast_info (cap_view c) v (dumName c)"
  let ?m = "accept_request 0 ?s ?info"
  let ?c1 = "c\<lparr>max_slot := ?s, proposers := proposers c @ [(?s, ?info)]\<rparr>"
  have solo: "alone c" "log_is vs c" "last_slot c \<le> length vs" "max_slot c = length vs + length us"
    "proposers c = at_work (cap_view c) (dumName c) (length vs) us" "all_requests (length vs) us ms"
    using assms(1) by (simp_all add: solo_open_def)
  have m: "requests ?s v (Accept (?m\<lparr>acc_last_slot := a, acc_last_value := b\<rparr>))" for a b
    using solo(1) by (simp add: requests_def accept_request_def fast_info_def proposer_ops msg_accept_def Let_def
        set_msg_header_def alone_def)
  have "map_put ?s ?info (proposers c) = proposers c @ [(?s, ?info)]"
    unfolding solo(5) using at_work_slots by (intro map_put_last) fastforce
  then have run: "propose_fast v (dumName c) c = res_bind (piggyback ?m ?c1) (\<lambda>(c2, m). Inr (c2, [Broadcast (Accept m)]))"
    using solo(1,4) by (simp add: propose_fast_def Let_def alone_def)
  have keeps: "solo_open vs (us @ [v]) qs (?c1\<lparr>last_slot := l\<rparr>) (ms @ [Accept (?m\<lparr>acc_last_slot := a, acc_last_value := b\<rparr>)])"
    if "l \<le> length vs" for l a b
    using assms that all_requests_append [OF solo(6) m]
    by (auto simp: solo_open_def alone_def log_is_def at_work_append)
  show ?thesis
  proof (cases "last_slot c < length vs")
    case True
    then obtain w where "vec_at (chosen_values ?c1) (Suc (last_slot c)) = Inr (Some w)"
      using solo(2) by (auto simp: log_is_def)
    then have "piggyback ?m ?c1 = Inr (?c1\<lparr>last_slot := Suc (last_slot c)\<rparr>,
        ?m\<lparr>acc_last_slot := Some (Suc (last_slot c)), acc_last_value := Some (pv_id w)\<rparr>)"
      using True solo(2) by (simp add: piggyback_def log_is_def)
    then show ?thesis
      using run keeps [of "Suc (last_slot c)"] True by auto
  next
    case False
    then have "piggyback ?m ?c1 = Inr (?c1, ?m)"
      using solo(2,3) by (simp add: piggyback_def log_is_def)
    then show ?thesis
      using run keeps [OF solo(3), where a = "acc_last_slot ?m" and b = "acc_last_value ?m"] by auto
  qed
qed

lemma solo_next_id: "solo vs us qs c ms \<Longrightarrow> solo vs us qs (next_value_id c) ms"
  by (simp add: solo_def solo_open_def alone_def log_is_def next_value_id_def)

text \<open>A commit: the value is proposed, or it waits.\<close>

lemma solo_commit:
  assumes "solo vs us qs c ms"
  shows "\<exists>c' calls us' qs' ms'. db_commit_captain mode data c = Inr (c', calls) \<and> solo vs us' qs' c' (ms @ ms')
    \<and> us' @ qs' = us @ qs @ [new_value c data] \<and> (calls = [] \<and> ms' = [] \<or> (\<exists>m. calls = [Broadcast m] \<and> ms' = [m]))
    \<and> cap_view c' = cap_view c"
proof -
  let ?c = "next_value_id c" and ?v = "new_value c data"
  have c: "if_master (cap_view c)" "length (proposers c) = length us" "tocommit_values c = qs"
    "tocommit_clients c = replicate (length qs) (dumName c)" "length us \<le> window_size c"
    "qs \<noteq> [] \<Longrightarrow> length us = window_size c"
    using assms by (simp_all add: solo_def solo_open_def alone_def)
  have same: "window_size ?c = window_size c" "proposers ?c = proposers c" "tocommit_values ?c = qs" "dumName ?c = dumName c"
    "tocommit_clients ?c = replicate (length qs) (dumName c)" "cap_view ?c = cap_view c"
    using c by (simp_all add: next_value_id_def)
  have run: "db_commit_captain mode data c = commit_value_dum ?v ?c"
    using c(1) same(6) by (simp add: db_commit_captain_def new_value_def)
  show ?thesis
  proof (cases "length us < window_size c")
    case True
    then have qs: "qs = []" using c(6) by auto
    obtain c' m where p: "propose_fast ?v (dumName ?c) ?c = Inr (c', [Broadcast m])" "solo_open vs (us @ [?v]) [] c' (ms @ [m])"
      "dumName c' = dumName c" "cap_view c' = cap_view c"
      using solo_propose [of vs us "[]" ?c ms ?v] solo_next_id [OF assms] True qs same by (auto simp: new_value_def solo_def)
    then have "commit_value_dum ?v ?c = Inr (c'\<lparr>dumName := dumName c\<rparr>, [Broadcast m])"
      using True c(2) same qs by (simp add: commit_value_dum_def commit_value_def)
    moreover have "c'\<lparr>dumName := dumName c\<rparr> = c'"
      using p(3) by simp
    ultimately show ?thesis
      using run p(2,4) qs by (intro exI [of _ c'] exI [of _ "[Broadcast m]"] exI [of _ "us @ [?v]"] exI [of _ "[]"]
          exI [of _ "[m]"]) (simp add: solo_def)
  next
    case False
    then have full: "length us = window_size c" using c(5) by simp
    let ?c' = "?c\<lparr>tocommit_values := qs @ [?v], tocommit_clients := replicate (length qs) (dumName c) @ [dumName c]\<rparr>"
    have "commit_value_dum ?v ?c = Inr (?c', [])"
      using full c(2) same by (simp add: commit_value_dum_def commit_value_def queue_push_def)
    moreover have "solo vs us (qs @ [?v]) ?c' (ms @ [])"
      using solo_next_id [OF assms] full
      by (auto simp: solo_def solo_open_def alone_def log_is_def new_value_def next_value_id_def replicate_append_same)
    ultimately show ?thesis
      using run same(6) by (intro exI [of _ ?c'] exI [of _ "[]"] exI [of _ us] exI [of _ "qs @ [?v]"]) auto
  qed
qed

text \<open>A task: its slot is chosen with the node's own vote, and the first value of the queue takes the place.\<close>

lemma own_vote_decides:
  assumes "quorum_size w = 1" and "whoami w = 0"
  shows "accepted_info 0 s (grant_of 0 s) (fast_info w v name)
    = Chosen ((running_info w v name [(0, grant_of 0 s)])\<lparr>pi_status := CHOSEN\<rparr>)"
  using assms
  by (simp add: accepted_info_def running_info_def fast_info_def proposer_ops handle_msg_accepted_def grant_of_def Let_def)

lemma solo_vote:
  assumes "solo vs (u # us) qs c (msg # ms)"
  shows "\<exists>c'. handle_msg msg nm c = Inr (c', [Send_self (Ack_accept (grant_of 0 (Suc (length vs))))])
    \<and> c' = c\<lparr>acceptors := acceptors c'\<rparr> \<and> fresh_above (Suc (length vs)) (acceptors c')"
proof -
  let ?k = "length vs" and ?as = "grow_acceptors (length (acceptors c)) (Suc (length vs)) (acceptors c)"
  obtain m where m: "msg = Accept m" "hdr_slot (acc_header m) = Suc ?k" "hdr_node (acc_header m) = 0" "acc_ballot m = 65536"
    using assms by (auto simp: solo_def solo_open_def requests_def)
  have c: "alone c" "fresh_above ?k (acceptors c)"
    using assms by (simp_all add: solo_def solo_open_def)
  obtain a where a: "vec_at ?as (Suc ?k) = Inr (Some a)" "max_proposed_ballot a \<le> 65536" "max_value a = None"
    "fresh_above (Suc ?k) (?as[Suc ?k := Some (vote_of (acc_value m))])"
    using fresh_above_grown [OF c(2) refl] by blast
  have "handle_msg_accept 0 m a = (vote_of (acc_value m), grant_of 0 (Suc ?k))"
    using accept_fresh [OF a(2,3) m(4)] m(2) by simp
  then have "handle_msg msg nm c = Inr (c\<lparr>acceptors := ?as[Suc ?k := Some (vote_of (acc_value m))]\<rparr>,
      [Send_self (Ack_accept (grant_of 0 (Suc ?k)))])"
    using c(1) a(1) m by (simp add: handle_msg_def handle_accept_def Let_def from_myself_def alone_def)
  then show ?thesis
    using a(4) by (intro exI [of _ "c\<lparr>acceptors := ?as[Suc ?k := Some (vote_of (acc_value m))]\<rparr>"]) simp
qed

lemma map_erase_at_work: "map_erase (Suc k) ((Suc k, info) # at_work w name (Suc k) us) = at_work w name (Suc k) us"
proof -
  have "fst p \<noteq> Suc k" if "p \<in> set (at_work w name (Suc k) us)" for p
    using at_work_slots [OF that] by simp
  then show ?thesis
    by (simp add: map_erase_def)
qed

text \<open>The rest of the \<open>CHOOSE\<close> branch when the slot is in the log.\<close>

lemma solo_from_queue:
  assumes "solo_open vs us qs c ms" and "length us < window_size c" and "qs \<noteq> [] \<longrightarrow> Suc (length us) = window_size c"
  shows "\<exists>c' calls us' qs' ms'. commit_from_queue c = Inr (c', calls) \<and> solo vs us' qs' c' (ms @ ms')
    \<and> us' @ qs' = us @ qs \<and> (calls = [] \<and> ms' = [] \<or> (\<exists>m. calls = [Broadcast m] \<and> ms' = [m])) \<and> cap_view c' = cap_view c"
proof (cases qs)
  case Nil
  then show ?thesis
    using assms by (intro exI [of _ c] exI [of _ "[]"] exI [of _ us] exI [of _ qs])
      (simp add: commit_from_queue_def solo_def solo_open_def)
next
  case (Cons q qs')
  let ?c = "c\<lparr>tocommit_values := qs', tocommit_clients := replicate (length qs') (dumName c)\<rparr>"
  have c: "tocommit_values c = q # qs'" "tocommit_clients c = replicate (Suc (length qs')) (dumName c)" "pv_cmd q = None"
    using assms(1) Cons by (simp_all add: solo_open_def)
  have "solo_open vs us qs' ?c ms"
    using assms(1) Cons by (simp add: solo_open_def alone_def log_is_def)
  then obtain c' m where p: "propose_fast q (dumName c) ?c = Inr (c', [Broadcast m])" "solo_open vs (us @ [q]) qs' c' (ms @ [m])"
    "window_size c' = window_size c" "cap_view c' = cap_view c"
    using solo_propose [of vs us qs' ?c ms q] assms(2) c(3) by auto
  have "commit_from_queue c = Inr (c', [Broadcast m])"
    using p(1) c(1,2) by (simp add: commit_from_queue_def queue_front_def queue_pop_def)
  then show ?thesis
    using p(2-4) assms(3) Cons by (intro exI [of _ c'] exI [of _ "[Broadcast m]"] exI [of _ "us @ [q]"] exI [of _ qs']
        exI [of _ "[m]"]) (simp add: solo_def)
qed

lemma solo_decides:
  assumes "solo vs (u # us) qs c (msg # ms)" and "c1 = c\<lparr>acceptors := acceptors c1\<rparr>"
    and "fresh_above (Suc (length vs)) (acceptors c1)"
  shows "\<exists>c' calls us' qs' ms'. handle_msg (Ack_accept (grant_of 0 (Suc (length vs)))) nm c1
      = Inr (c', [Inform_client (Suc (length vs)) 1 (dumName c), Run_callback_latency (Suc (length vs)) u 1] @ calls)
    \<and> solo (vs @ [u]) us' qs' c' (ms @ ms') \<and> us' @ qs' = us @ qs
    \<and> (calls = [] \<and> ms' = [] \<or> (\<exists>m. calls = [Broadcast m] \<and> ms' = [m])) \<and> cap_view c' = cap_view c"
proof -
  let ?s = "Suc (length vs)" and ?w = "cap_view c"
  let ?info = "(running_info ?w u (dumName c) [(0, grant_of 0 ?s)])\<lparr>pi_status := CHOSEN\<rparr>"
  let ?rest = "at_work ?w (dumName c) ?s us"
  let ?c2 = "c1\<lparr>proposers := (?s, ?info) # ?rest\<rparr>"
  let ?c3 = "(log_with (vs @ [u]) ?c2)\<lparr>proposers := ?rest\<rparr>"
  have solo: "alone c" "log_is vs c" "proposers c = at_work ?w (dumName c) (length vs) (u # us)" "pv_cmd u = None"
    "length (u # us) \<le> window_size c" "qs \<noteq> [] \<longrightarrow> length (u # us) = window_size c"
    using assms(1) by (simp_all add: solo_def solo_open_def)
  obtain accs where c1: "c1 = c\<lparr>acceptors := accs\<rparr>"
    using assms(2) by blast
  have info: "get_chosen_value (curr_proposer ?info) = Some u" "get_init_value (curr_proposer ?info) = u"
    "try_time ?info = 1" "client_name ?info = dumName c"
    by (simp_all add: running_info_def fast_info_def proposer_ops get_chosen_value_def get_init_value_def)
  have log: "log_is vs ?c2" and cb: "has_callback_latency ?c2" "value_callbacks ?s u ?c2 = []"
    using solo(1,2) by (simp_all add: c1 log_is_def alone_def value_callbacks_def)
  have freed: "solo_open (vs @ [u]) us qs ?c3 ms"
    using assms(1,3) unfolding solo_def solo_open_def
    by (auto simp: c1 alone_def log_is_def log_with_def)
  have c3: "length us < window_size ?c3" "qs \<noteq> [] \<longrightarrow> Suc (length us) = window_size ?c3" "cap_view ?c3 = ?w"
    using solo(5,6) by (simp_all add: c1 log_with_def)
  obtain c' calls us' qs' ms' where q: "commit_from_queue ?c3 = Inr (c', calls)" "solo (vs @ [u]) us' qs' c' (ms @ ms')"
    "us' @ qs' = us @ qs" "calls = [] \<and> ms' = [] \<or> (\<exists>m. calls = [Broadcast m] \<and> ms' = [m])" "cap_view c' = ?w"
    using solo_from_queue [OF freed c3(1,2)] unfolding c3(3) by blast
  have "map_erase ?s (proposers (log_with (vs @ [u]) ?c2)) = ?rest"
    by (simp add: log_with_def map_erase_at_work)
  moreover have "tell_client ?s ?info u c2 = [Inform_client ?s 1 (dumName c)] @ (if has_callback_latency c2 then [Run_callback_latency ?s u 1] else [])"
    "next_work ?info u nm c2 = commit_from_queue c2" for c2
    unfolding tell_client_def next_work_def info by simp_all
  ultimately have "finish_slot ?s ?info nm c1 = Inr (c', [Inform_client ?s 1 (dumName c), Run_callback_latency ?s u 1] @ calls)"
    unfolding finish_slot_def info using q(1) add_next_value [OF log solo(4)] cb solo(3)
    by (simp add: Let_def c1)
  moreover have "hdr_slot (acka_header (grant_of 0 ?s)) = ?s" "q_size ?w = 1" "whoami ?w = 0" "work c"
    using solo(1) by (simp_all add: grant_of_def alone_def)
  ultimately have "handle_msg (Ack_accept (grant_of 0 ?s)) nm c1
      = Inr (c', [Inform_client ?s 1 (dumName c), Run_callback_latency ?s u 1] @ calls)"
    using solo(3) own_vote_decides [of ?w ?s u "dumName c"]
    by (simp add: handle_msg_def handle_accepted_def Let_def map_find_def c1 quorum_size_def)
  then show ?thesis
    using q(2-5) by blast
qed

section \<open>The steps of the two threads\<close>

lemma exec_small:
  assumes "nodes_size (nd_view nd) = 1" and "calls = [] \<and> ms = [] \<or> (\<exists>m. calls = [Broadcast m] \<and> ms = [m])"
  shows "exec E calls nd effs = Some (Inr (nd, effs @ map Schedule_self ms))"
  using assms by (auto simp: exec.simps [of E "[]"] exec.simps [of E "[Broadcast m]" for m])

lemma scheduled_simps [simp]:
  "scheduled (map Schedule_self ms) = ms"
  "scheduled (Data_packet nm s t # effs) = scheduled effs"
  "scheduled (Callback cb # effs) = scheduled effs"
  by (induction ms) (simp_all add: scheduled_def)

definition running_benchmark :: "string \<Rightarrow> prop_value list \<Rightarrow> benchmark \<Rightarrow> bool" where
  "running_benchmark host vs B \<longleftrightarrow> my_hostname (nd_view (bm_node B)) = Inr host
     \<and> (\<exists>us qs. solo vs us qs (nd_captain (bm_node B)) (bm_tasks B)
          \<and> map pv_data (vs @ us @ qs) = map (\<lambda>k. benchmark_value (Suc k) host) [0..<bm_counter B])"

lemma commit_next_step:
  assumes "running_benchmark host vs B"
  shows "\<exists>B'. commit_next E mode B = Some (Inr B') \<and> running_benchmark host vs B' \<and> bm_counter B' = Suc (bm_counter B)
    \<and> bm_total B' = bm_total B"
proof -
  let ?nd = "bm_node B" and ?n = "Suc (bm_counter B)"
  obtain us qs where inv: "my_hostname (nd_view ?nd) = Inr host" "solo vs us qs (nd_captain ?nd) (bm_tasks B)"
    "map pv_data (vs @ us @ qs) = map (\<lambda>k. benchmark_value (Suc k) host) [0..<bm_counter B]"
    using assms by (auto simp: running_benchmark_def)
  let ?data = "benchmark_value ?n host"
  obtain c' calls us' qs' ms' where c: "db_commit_captain mode ?data (nd_captain ?nd) = Inr (c', calls)"
    "solo vs us' qs' c' (bm_tasks B @ ms')" "us' @ qs' = us @ qs @ [new_value (nd_captain ?nd) ?data]"
    "calls = [] \<and> ms' = [] \<or> (\<exists>m. calls = [Broadcast m] \<and> ms' = [m])" "cap_view c' = nd_view ?nd"
    using solo_commit [OF inv(2)] by blast
  let ?B = "B\<lparr>bm_node := ?nd\<lparr>nd_captain := c'\<rparr>, bm_counter := ?n, bm_tasks := bm_tasks B @ ms'\<rparr>"
  have "nodes_size (cap_view c') = 1"
    using c(2) by (simp add: solo_def solo_open_def alone_def)
  then have "commit_next E mode B = Some (Inr ?B)"
    using inv(1) c(1) exec_small [of "?nd\<lparr>nd_captain := c'\<rparr>" calls ms' E "[]", OF _ c(4)]
    by (simp add: commit_next_def Let_def run_captain_def)
  moreover have "running_benchmark host vs ?B"
  proof -
    have "map pv_data (vs @ us' @ qs') = map (\<lambda>k. benchmark_value (Suc k) host) [0..<?n]"
      using inv(3) unfolding c(3) by (simp add: new_value_def)
    then show ?thesis
      using inv(1) c(2,5) by (auto simp: running_benchmark_def simp del: map_append upt_Suc)
  qed
  ultimately show ?thesis by auto
qed

lemma run_task_step:
  assumes "running_benchmark host vs B" and "bm_tasks B \<noteq> []"
  shows "\<exists>B' u. run_task E finish restart B = Some (res_bind (report_latency (bm_counter B) finish restart (bm_start B))
        (\<lambda>start. Inr (B'\<lparr>bm_start := start\<rparr>)))
    \<and> running_benchmark host (vs @ [u]) B' \<and> bm_counter B' = bm_counter B \<and> bm_total B' = bm_total B"
proof -
  let ?nd = "bm_node B" and ?c = "nd_captain (bm_node B)" and ?s = "Suc (length vs)"
  obtain us0 qs where inv: "my_hostname (nd_view ?nd) = Inr host" "solo vs us0 qs ?c (bm_tasks B)"
    "map pv_data (vs @ us0 @ qs) = map (\<lambda>k. benchmark_value (Suc k) host) [0..<bm_counter B]"
    using assms(1) by (auto simp: running_benchmark_def)
  then obtain u us msg ms where us: "us0 = u # us" and ms: "bm_tasks B = msg # ms"
    using assms(2) by (cases us0) (auto simp: solo_def solo_open_def)
  have solo: "solo vs (u # us) qs ?c (msg # ms)"
    using inv(2) by (simp add: us ms)
  obtain c1 where c1: "handle_msg msg (dumName ?c) ?c = Inr (c1, [Send_self (Ack_accept (grant_of 0 ?s))])"
    "c1 = ?c\<lparr>acceptors := acceptors c1\<rparr>" "fresh_above ?s (acceptors c1)"
    using solo_vote [OF solo] by blast
  obtain c' calls us' qs' ms' where c: "handle_msg (Ack_accept (grant_of 0 ?s)) (dumName c1) c1
      = Inr (c', [Inform_client ?s 1 (dumName ?c), Run_callback_latency ?s u 1] @ calls)"
    "solo (vs @ [u]) us' qs' c' (ms @ ms')" "us' @ qs' = us @ qs"
    "calls = [] \<and> ms' = [] \<or> (\<exists>m. calls = [Broadcast m] \<and> ms' = [m])" "cap_view c' = nd_view ?nd"
    using solo_decides [OF solo c1(2,3)] by blast
  let ?effs = "[inform_client E ?s 1 (dumName ?c), Callback (Run_callback_latency ?s u 1)]"
  let ?B = "B\<lparr>bm_node := ?nd\<lparr>nd_captain := c'\<rparr>, bm_tasks := ms @ ms'\<rparr>"
  have "nodes_size (cap_view c') = 1"
    using c(2) by (simp add: solo_def solo_open_def alone_def)
  then have "handle_myself E msg ?nd = Some (Inr (?nd\<lparr>nd_captain := c'\<rparr>, ?effs @ map Schedule_self ms'))"
    using c1(1) c(1) exec_small [of "?nd\<lparr>nd_captain := c'\<rparr>" calls ms' E ?effs, OF _ c(4)]
    by (simp add: handle_myself_def run_captain_def exec.simps with_captain_def)
  moreover have "benchmark_callbacks n finish restart (map Schedule_self ms') start = Inr start" for n start
    by (induction ms') simp_all
  ultimately have "run_task E finish restart B = Some (res_bind (report_latency (bm_counter B) finish restart (bm_start B))
        (\<lambda>start. Inr (?B\<lparr>bm_start := start\<rparr>)))"
    by (cases "report_latency (bm_counter B) finish restart (bm_start B)")
       (simp_all add: run_task_def ms inform_client_def produce_def)
  moreover have "running_benchmark host (vs @ [u]) ?B"
  proof -
    have "map pv_data ((vs @ [u]) @ us' @ qs') = map (\<lambda>k. benchmark_value (Suc k) host) [0..<bm_counter B]"
      using inv(3) unfolding c(3) us by simp
    then show ?thesis
      using inv(1) c(2,5) by (auto simp: running_benchmark_def simp del: map_append)
  qed
  ultimately show ?thesis by fastforce
qed

section \<open>What the benchmark does\<close>

lemma running_benchmark_log:
  assumes "running_benchmark host vs B"
  shows "chosen_values (nd_captain (bm_node B)) = None # map Some vs" "length vs \<le> bm_counter B"
    "map pv_data vs = map (\<lambda>k. benchmark_value (Suc k) host) [0..<length vs]"
    "bm_tasks B = [] \<longleftrightarrow> length vs = bm_counter B"
proof -
  obtain us qs where inv: "solo vs us qs (nd_captain (bm_node B)) (bm_tasks B)"
    "map pv_data (vs @ us @ qs) = map (\<lambda>k. benchmark_value (Suc k) host) [0..<bm_counter B]"
    using assms by (auto simp: running_benchmark_def)
  show "chosen_values (nd_captain (bm_node B)) = None # map Some vs"
    using inv(1) by (simp add: solo_def solo_open_def log_is_def)
  have len: "length vs + length us + length qs = bm_counter B"
    using arg_cong [OF inv(2), of length] by simp
  then show le: "length vs \<le> bm_counter B" by simp
  have "take (length vs) (map pv_data (vs @ us @ qs)) = map (\<lambda>k. benchmark_value (Suc k) host) [0..<length vs]"
    unfolding inv(2) using le by (simp add: take_map)
  then show "map pv_data vs = map (\<lambda>k. benchmark_value (Suc k) host) [0..<length vs]"
    by simp
  have "0 < window_size (nd_captain (bm_node B))"
    using inv(1) by (simp add: solo_def solo_open_def alone_def)
  then have "us = [] \<longrightarrow> qs = []"
    using inv(1) by (auto simp: solo_def)
  moreover have "bm_tasks B = [] \<longleftrightarrow> us = []"
    using inv(1) by (cases us) (auto simp: solo_def solo_open_def)
  ultimately show "bm_tasks B = [] \<longleftrightarrow> length vs = bm_counter B"
    using len by auto
qed

lemma report_silent: "0 < n \<Longrightarrow> n < 100000 \<Longrightarrow> report_latency n finish restart start = Inr start"
  by (simp add: report_latency_def)

lemma running_start: "running_benchmark host vs (B\<lparr>bm_start := t\<rparr>) = running_benchmark host vs B"
  by (simp add: running_benchmark_def)

lemma small_task_step:
  assumes "running_benchmark host vs B" and "bm_counter B < 100000" and "bm_tasks B \<noteq> []"
  shows "\<exists>B' u. run_task E finish restart B = Some (Inr B') \<and> running_benchmark host (vs @ [u]) B'
    \<and> bm_counter B' = bm_counter B \<and> bm_total B' = bm_total B"
proof -
  have "0 < bm_counter B"
    using running_benchmark_log(2,4) [OF assms(1)] assms(3) by auto
  then have "report_latency (bm_counter B) finish restart (bm_start B) = Inr (bm_start B)"
    using report_silent assms(2) by blast
  then obtain B' u where "run_task E finish restart B = Some (Inr (B'\<lparr>bm_start := bm_start B\<rparr>))"
    "running_benchmark host (vs @ [u]) B'" "bm_counter B' = bm_counter B" "bm_total B' = bm_total B"
    using run_task_step [OF assms(1,3), of E finish restart] by auto
  then show ?thesis
    by (intro exI [of _ "B'\<lparr>bm_start := bm_start B\<rparr>"] exI [of _ u]) (simp add: running_start)
qed

lemma benchmark_run_keeps:
  assumes "running_benchmark host vs B" and "int (bm_counter B) \<le> bm_total B" and "bm_total B < 100000"
    and "benchmark_run E mode es B = Some r"
  shows "\<exists>B' vs'. r = Inr B' \<and> running_benchmark host vs' B' \<and> bm_counter B' < 100000"
  using assms
proof (induction es arbitrary: B vs)
  case Nil
  then show ?case by auto
next
  case (Cons e es)
  have "\<exists>B1 vs1. benchmark_do E mode e B = Some (Inr B1) \<and> running_benchmark host vs1 B1
      \<and> int (bm_counter B1) \<le> bm_total B1 \<and> bm_total B1 < 100000"
  proof (cases e)
    case Commit_next
    then have "int (bm_counter B) < bm_total B"
      using Cons.prems(4) by (auto split: if_splits)
    then show ?thesis
      using Commit_next commit_next_step [OF Cons.prems(1), of E mode] Cons.prems(3) by fastforce
  next
    case (Run_task finish restart)
    then have "bm_tasks B \<noteq> []"
      using Cons.prems(4) by (auto simp: run_task_def)
    moreover have "bm_counter B < 100000"
      using Cons.prems(2,3) by simp
    ultimately show ?thesis
      using Run_task small_task_step [OF Cons.prems(1), of E finish restart] Cons.prems(2,3) by fastforce
  qed
  then obtain B1 vs1 where B1: "benchmark_do E mode e B = Some (Inr B1)" "running_benchmark host vs1 B1"
    "int (bm_counter B1) \<le> bm_total B1" "bm_total B1 < 100000"
    by blast
  then show ?case
    using Cons.IH [OF B1(2-4)] Cons.prems(4) by simp
qed

lemma benchmark_drains:
  assumes "running_benchmark host vs B" and "bm_counter B < 100000" and "length vs + k = bm_counter B"
  shows "\<exists>B' vs'. benchmark_run E mode (replicate k (Run_task finish restart)) B = Some (Inr B')
    \<and> running_benchmark host vs' B' \<and> length vs' = bm_counter B"
  using assms
proof (induction k arbitrary: B vs)
  case (Suc k)
  then have "bm_tasks B \<noteq> []"
    using running_benchmark_log(4) [OF Suc.prems(1)] by simp
  then obtain B1 u where B1: "run_task E finish restart B = Some (Inr B1)" "running_benchmark host (vs @ [u]) B1"
    "bm_counter B1 = bm_counter B"
    using small_task_step [OF Suc.prems(1,2)] by metis
  have "bm_counter B1 < 100000" "length (vs @ [u]) + k = bm_counter B1"
    using Suc.prems(2,3) B1(3) by simp_all
  from Suc.IH [OF B1(2) this] show ?case
    using B1(1,3) by simp
qed auto

lemma View_init_master:
  assumes "View_init mode load ap nid cf = Inr (v, cmds)" and "cf \<noteq> []" and "length (cfg_host (load cf)) < 65536"
  shows "master_id v = (case cfg_lease (load cf) of None \<Rightarrow> 0 | Some l \<Rightarrow> of_int (lease_master_id l))"
proof -
  let ?v1 = "fst (load_hosts mode (length (cfg_host (load cf))) 0 (cfg_host (load cf))
    (fresh_view (load cf) nid, [''nfd-stop; nfd-start'']))"
  have v1: "master_id ?v1 = 0"
    using load_hosts_fresh [OF refl assms(3), of mode nid "[''nfd-stop; nfd-start'']"] by (simp add: fresh_view_def)
  obtain v3 where v3: "load_db ap (cfg_db (load cf)) (load_lease (cfg_lease (load cf)) ?v1) = Inr v3"
    and v: "v = (if length (cfg_host (load cf)) \<le> unat (node_id v3) then v3\<lparr>node_id := 0\<rparr> else v3)"
    using assms(1,2) unfolding View_init_def by (force simp: Let_def res_bind_Inr_iff split: prod.splits)
  obtain d where "v3 = (load_lease (cfg_lease (load cf)) ?v1)\<lparr>db_name := d\<rparr>"
    using load_db_sel [OF v3] by blast
  then show ?thesis
    using v v1 by (simp add: load_lease_def split: option.splits)
qed

lemma Master_starts:
  assumes "cfg_host (load (benchmark_config_file node_num)) = [h]"
    and "\<forall>l. cfg_lease (load (benchmark_config_file node_num)) = Some l \<longrightarrow> lease_master_id l = 0"
    and "0 < win" and "win < 2 ^ 63" and "0 \<le> tot"
  shows "\<exists>B. Master_init E mode load ap 0 node_num win tot = Inr B \<and> running_benchmark (host_name h) [] B
    \<and> bm_counter B = 0 \<and> bm_total B = tot"
proof -
  let ?cf = "benchmark_config_file node_num"
  have cf: "?cf \<noteq> []" by (simp add: benchmark_config_file_def)
  have n: "length (cfg_host (load ?cf)) = 1" by (simp add: assms(1))
  obtain v cmds where v: "View_init mode load ap 0 ?cf = Inr (v, cmds)"
    using View_init_exists [OF cf, of 0 load mode ap] n by auto
  have "length (cfg_host (load ?cf)) < 65536" using n by simp
  then have master: "master_id v = 0"
    using View_init_master [OF v cf] assms(2) by (auto split: option.splits)
  have sel: "load ?cf = (if ?cf = [] then load ''config/localhost-1.yaml'' else load ?cf)"
    using cf by simp
  have view: "q_size v = 1" "host_count v = 1" "host_nodes v = [h]" "node_id v = 0"
    by (rule View_init_cases [OF v sel n [symmetric]]; use assms(1) in \<open>simp add: quorum_of_size_def\<close>)+
  have ok: "view_ok v"
    using View_init_ok [OF v cf n [symmetric]] by simp
  let ?c = "benchmark_captain v win (uri_name E [])"
  have c: "cap_view ?c = v" "host_count (cap_view ?c) < 65536"
    using view by (simp_all add: benchmark_captain_def new_captain_def)
  obtain nd filters where nd: "Commo_init E ?c = Inr (nd, filters)" "nd_captain nd = ?c"
    using Commo_init_result [OF _ c(2) refl refl, of E] ok c(1) by auto
  have host: "my_hostname v = Inr (host_name h)"
    using view by (simp add: my_hostname_def hostname_def)
  let ?B = "\<lparr>bm_node = nd, bm_tasks = [], bm_total = tot, bm_counter = 0, bm_start = 0\<rparr>"
  have "Master_init E mode load ap 0 node_num win tot = Inr ?B"
    using assms(5) v host nd(1) by (simp add: Master_init_def)
  moreover have "solo [] [] [] ?c []"
    using view master window_positive [OF assms(3,4), of v "uri_name E []"] fresh_start [OF master, of win "uri_name E []"]
    by (simp add: solo_def solo_open_def alone_def log_is_def benchmark_captain_def new_captain_def if_master_def
        whoami_def nodes_size_def)
  then have "running_benchmark (host_name h) [] ?B"
    using host nd(2) c(1) by (auto simp: running_benchmark_def)
  ultimately show ?thesis by auto
qed

text \<open>
  The benchmark on a single node, for any window and fewer than 100000 values, when the commits of
  the main thread and the tasks of the worker come one after the other, in any order: none of them
  faults; the log always holds the
  values 1, 2, 3 and so on of the main thread, one per slot in the order of the commits; and
  after as many more tasks as there are values missing the log holds all that was committed.
\<close>

theorem benchmark_commits:
  assumes "cfg_host (load (benchmark_config_file node_num)) = [h]"
    and "\<forall>l. cfg_lease (load (benchmark_config_file node_num)) = Some l \<longrightarrow> lease_master_id l = 0"
    and "0 < win" and "win < 2 ^ 63" and "0 \<le> tot" and "tot < 100000"
  shows "\<exists>B0. Master_init E mode load ap 0 node_num win tot = Inr B0 \<and>
    (\<forall>es r. benchmark_run E mode es (start_clock now B0) = Some r \<longrightarrow>
      (\<exists>B B' vs ws. r = Inr B \<and> chosen_values (nd_captain (bm_node B)) = None # map Some vs
        \<and> map pv_data vs = map (\<lambda>k. benchmark_value (Suc k) (host_name h)) [0..<length vs]
        \<and> length vs \<le> bm_counter B
        \<and> benchmark_run E mode (replicate (bm_counter B - length vs) (Run_task finish restart)) B = Some (Inr B')
        \<and> chosen_values (nd_captain (bm_node B')) = None # map Some ws
        \<and> map pv_data ws = map (\<lambda>k. benchmark_value (Suc k) (host_name h)) [0..<bm_counter B]))"
proof -
  obtain B0 where B0: "Master_init E mode load ap 0 node_num win tot = Inr B0" "running_benchmark (host_name h) [] B0"
    "bm_counter B0 = 0" "bm_total B0 = tot"
    using Master_starts [where load = load and node_num = node_num and h = h, OF assms(1-5)] by blast
  have "\<exists>B B' vs ws. r = Inr B \<and> chosen_values (nd_captain (bm_node B)) = None # map Some vs
        \<and> map pv_data vs = map (\<lambda>k. benchmark_value (Suc k) (host_name h)) [0..<length vs]
        \<and> length vs \<le> bm_counter B
        \<and> benchmark_run E mode (replicate (bm_counter B - length vs) (Run_task finish restart)) B = Some (Inr B')
        \<and> chosen_values (nd_captain (bm_node B')) = None # map Some ws
        \<and> map pv_data ws = map (\<lambda>k. benchmark_value (Suc k) (host_name h)) [0..<bm_counter B]"
    if run: "benchmark_run E mode es (start_clock now B0) = Some r" for es r
  proof -
    have "running_benchmark (host_name h) [] (start_clock now B0)" "int (bm_counter (start_clock now B0)) \<le> bm_total (start_clock now B0)"
      "bm_total (start_clock now B0) < 100000"
      using B0(2-4) assms(5,6) by (simp_all add: start_clock_def running_start)
    then obtain B vs where B: "r = Inr B" "running_benchmark (host_name h) vs B" "bm_counter B < 100000"
      using benchmark_run_keeps [OF _ _ _ run] by blast
    note log = running_benchmark_log [OF B(2)]
    obtain B' ws where B': "benchmark_run E mode (replicate (bm_counter B - length vs) (Run_task finish restart)) B = Some (Inr B')"
      "running_benchmark (host_name h) ws B'" "length ws = bm_counter B"
      using benchmark_drains [where k = "bm_counter B - length vs" and E = E and mode = mode and finish = finish
          and restart = restart, OF B(2,3)] log(2) by auto
    then show ?thesis
      using B(1) log(1-3) running_benchmark_log(1,3) [OF B'(2)] by metis
  qed
  then show ?thesis
    using B0(1) by blast
qed

text \<open>A configuration as \<^verbatim>\<open>config/localhost-1.yaml\<close>, with a shorter lease.\<close>

definition localhost_1 :: config where
  "localhost_1 = \<lparr>cfg_prefix = ''/ndn/thu/naxos'', cfg_host = [\<lparr>host_name = ''node0'', host_addr = ''localhost''\<rparr>],
     cfg_lease = Some \<lparr>lease_master_id = 0, lease_period = 1000, lease_length = 2\<rparr>,
     cfg_db = Some (''ndndb'', ''gintama'')\<rparr>"

abbreviation master_1 :: "benchmark res" where
  "master_1 \<equiv> Master_init number_wire Mode_single (\<lambda>_. localhost_1) slash_append 0 1 1 3"

text \<open>A window of one, two commits before the worker runs, and then the worker.\<close>

theorem benchmark_commits_witness:
  "\<exists>B0 B B' ws. master_1 = Inr B0
     \<and> benchmark_run number_wire Mode_single [Commit_next, Commit_next] (start_clock 0 B0) = Some (Inr B)
     \<and> benchmark_run number_wire Mode_single (replicate 2 (Run_task 0 0)) B = Some (Inr B')
     \<and> chosen_values (nd_captain (bm_node B')) = None # map Some ws
     \<and> map pv_data ws = [benchmark_value 1 ''node0'', benchmark_value 2 ''node0'']"
proof -
  let ?h = "\<lparr>host_name = ''node0'', host_addr = ''localhost''\<rparr>"
  have cfg: "cfg_host ((\<lambda>_. localhost_1) (benchmark_config_file 1)) = [?h]"
    "\<forall>l. cfg_lease ((\<lambda>_. localhost_1) (benchmark_config_file 1)) = Some l \<longrightarrow> lease_master_id l = 0"
    by (simp_all add: localhost_1_def)
  let ?run = "benchmark_run number_wire Mode_single"
  let ?post = "\<lambda>r. \<exists>B B' vs ws. r = Inr B \<and> chosen_values (nd_captain (bm_node B)) = None # map Some vs
        \<and> map pv_data vs = map (\<lambda>k. benchmark_value (Suc k) (host_name ?h)) [0..<length vs] \<and> length vs \<le> bm_counter B
        \<and> ?run (replicate (bm_counter B - length vs) (Run_task 0 0)) B = Some (Inr B')
        \<and> chosen_values (nd_captain (bm_node B')) = None # map Some ws
        \<and> map pv_data ws = map (\<lambda>k. benchmark_value (Suc k) (host_name ?h)) [0..<bm_counter B]"
  obtain B0 where B0: "master_1 = Inr B0" and post: "\<forall>es r. ?run es (start_clock 0 B0) = Some r \<longrightarrow> ?post r"
    using benchmark_commits [where load = "\<lambda>_. localhost_1" and node_num = 1 and h = ?h and win = 1 and tot = 3
        and E = number_wire and mode = Mode_single and ap = slash_append and now = 0 and finish = 0 and restart = 0, OF cfg]
    by auto
  have start: "running_benchmark (host_name ?h) [] (start_clock 0 B0)" "bm_counter (start_clock 0 B0) = 0"
    "bm_total (start_clock 0 B0) = 3"
    using Master_starts [where load = "\<lambda>_. localhost_1" and node_num = 1 and h = ?h and win = 1 and tot = 3
        and E = number_wire and mode = Mode_single and ap = slash_append, OF cfg] B0
    by (auto simp: start_clock_def running_start)
  obtain B1 where B1: "commit_next number_wire Mode_single (start_clock 0 B0) = Some (Inr B1)"
    "running_benchmark (host_name ?h) [] B1" "bm_counter B1 = 1" "bm_total B1 = 3"
    using commit_next_step [OF start(1)] start(2,3) by fastforce
  obtain B where B: "commit_next number_wire Mode_single B1 = Some (Inr B)" "running_benchmark (host_name ?h) [] B"
    "bm_counter B = 2"
    using commit_next_step [OF B1(2)] B1(3) by fastforce
  have run: "?run [Commit_next, Commit_next] (start_clock 0 B0) = Some (Inr B)"
    using B1 B start by simp
  have "?post (Inr B)"
    using post run by blast
  then obtain B2 B' vs ws where B2: "(Inr B :: benchmark res) = Inr B2"
    and log: "chosen_values (nd_captain (bm_node B2)) = None # map Some vs"
    and rest: "?run (replicate (bm_counter B2 - length vs) (Run_task 0 0)) B2 = Some (Inr B')"
    and ws: "chosen_values (nd_captain (bm_node B')) = None # map Some ws"
      "map pv_data ws = map (\<lambda>k. benchmark_value (Suc k) (host_name ?h)) [0..<bm_counter B2]"
    by (elim exE conjE) (rule that)
  have "length vs = 0"
    using log B2 running_benchmark_log(1) [OF B(2)] by simp
  moreover have "[0..<2] = [0, Suc 0]"
    by (simp add: upt_rec)
  ultimately show ?thesis
    using B0 run rest ws B(3) B2 by (intro exI [of _ B0] exI [of _ B] exI [of _ B'] exI [of _ ws]) (simp add: numeral_2_eq_2)
qed

text \<open>
  \<^verbatim>\<open>count_latency\<close> divides by the milliseconds since its last report. While the commit counter is
  at a multiple of 100000, which is where it stays when \<open>total\<close> is one, two values that are
  chosen within a millisecond crash the program.
\<close>

lemma benchmark_divides_by_zero:
  assumes "running_benchmark host vs B" and "bm_counter B mod 100000 = 0" and "bm_tasks B \<noteq> []"
    and "run_task E f1 r1 B = Some (Inr B1)" and "bm_tasks B1 \<noteq> []" and "0 \<le> f2 - r1" and "f2 - r1 < 1000000"
  shows "run_task E f2 r2 B1 = Some (Inl Division_by_zero)"
proof -
  obtain B' u where B': "run_task E f1 r1 B = Some (res_bind (report_latency (bm_counter B) f1 r1 (bm_start B))
      (\<lambda>start. Inr (B'\<lparr>bm_start := start\<rparr>)))" "running_benchmark host (vs @ [u]) B'" "bm_counter B' = bm_counter B"
    using run_task_step [OF assms(1,3)] by blast
  then have B1: "running_benchmark host (vs @ [u]) B1" "bm_start B1 = r1" "bm_counter B1 = bm_counter B"
    using assms(2,4) by (auto simp: report_latency_def Let_def running_start split: if_splits)
  have "(f2 - r1) sdiv 1000000 = 0"
    using assms(6,7) by (simp add: signed_divide_int_def)
  then have "report_latency (bm_counter B1) f2 r2 (bm_start B1) = Inl Division_by_zero"
    using assms(2) B1(2,3) by (simp add: report_latency_def)
  then show ?thesis
    using run_task_step [OF B1(1) assms(5), of E f2 r2] by auto
qed

end
