(* ===== verification/Client.thy ===== *)
theory Client
  imports Commo_Props
begin

text \<open>
  \<^verbatim>\<open>client.hpp\<close> and \<^verbatim>\<open>client.cpp\<close>: the load generator. One thread sends the first window of
  requests (\<open>first_request\<close>) and measures; the thread of the face handles every reply by
  recording it (\<open>record_reply\<close>) and, until the end of the measurement, sending one more
  request (\<open>next_request\<close>). The two threads share the counters under two mutexes, so each
  critical section is one definition.

  Times are microseconds; the value of \<^verbatim>\<open>rand()\<close>, which may be any, is an argument.
\<close>

section \<open>State and construction\<close>

record client =
  cl_prefix :: name
  com_win :: int
  ratio :: int
  read_node :: int
  write_or_read :: nat
  commit_counter :: nat
  thr_counter :: nat
  rand_counter :: nat
  periods :: "int list"
  throughputs :: "nat list"
  starts :: "nat \<Rightarrow> int"
  recording :: bool
  finished :: bool

text \<open>The number of elements \<^verbatim>\<open>starts_\<close> is constructed with, all at the clock's epoch.\<close>

definition starts_size :: nat where
  "starts_size = 20000000"

definition new_client :: "name \<Rightarrow> int \<Rightarrow> int \<Rightarrow> int \<Rightarrow> client" where
  "new_client pre win rat node =
     \<lparr>cl_prefix = pre @ [''commit''], com_win = win, ratio = rat, read_node = node,
      write_or_read = (if rat = 10 then 1 else 0), commit_counter = 0, thr_counter = 0,
      rand_counter = 0, periods = [], throughputs = [], starts = (\<lambda>_. 0),
      recording = False, finished = False\<rparr>"

text \<open>\<^verbatim>\<open>ceil((read_node + 1) / 2.0)\<close>.\<close>

definition client_q_size :: "int \<Rightarrow> int" where
  "client_q_size node = (node + 2) div 2"

text \<open>
  The routes the constructor registers, in order: 0 for the write prefix or 1 for the read
  prefix, and the number of the node that it leads to.
\<close>

definition client_routes :: "mode \<Rightarrow> int \<Rightarrow> (nat \<times> int) list" where
  "client_routes mode node = (0, 0) #
     (if mode = Mode_recover
      then if node = 1 then [(1, 0)]
           else if node = 2 then [(1, 1)]
           else map (\<lambda>i. (1, i)) [client_q_size node..node - 1] @ [(1, 0)]
             @ map (\<lambda>i. (0, i)) [1..client_q_size node - 1]
      else [(1, node)])"

definition route_command :: "externals \<Rightarrow> (name \<Rightarrow> string) \<Rightarrow> name \<Rightarrow> nat \<times> int \<Rightarrow> string" where
  "route_command E uri pre r =
     ''nfdc register '' @ uri (pre @ [enc_number E (fst r)]) @ '' tcp://node'' @ to_string_int (snd r)"

definition Client_init :: "externals \<Rightarrow> mode \<Rightarrow> (name \<Rightarrow> string) \<Rightarrow> name \<Rightarrow> int \<Rightarrow> int \<Rightarrow> int \<Rightarrow>
    client \<times> string list" where
  "Client_init E mode uri pre win rat node =
     (let c = new_client pre win rat node
      in (c, ''nfd-stop; nfd-start'' # map (route_command E uri (cl_prefix c)) (client_routes mode node)))"

section \<open>Requests\<close>

definition value_text :: "nat \<Rightarrow> int \<Rightarrow> string" where
  "value_text counter i =
     ''Commiting Value Time_'' @ decimal counter @ '' from '' @ ''client_'' @ to_string_int i"

text \<open>An \<^verbatim>\<open>int\<close> as the \<^verbatim>\<open>uint64_t\<close> argument of \<^verbatim>\<open>appendNumber\<close>, and back from \<^verbatim>\<open>toNumber\<close>.\<close>

definition int_to_number :: "int \<Rightarrow> nat" where
  "int_to_number i = unat (of_int i :: 64 word)"

definition number_to_int :: "nat \<Rightarrow> int" where
  "number_to_int n = sint (of_nat n :: 32 word)"

definition set_start :: "int \<Rightarrow> client \<Rightarrow> client res" where
  "set_start now c =
     (if commit_counter c < starts_size then Inr (c\<lparr>starts := (starts c)(commit_counter c := now)\<rparr>)
      else Inl Out_of_range)"

text \<open>The loop body of \<^verbatim>\<open>start_commit\<close>, up to \<^verbatim>\<open>counter_mut_.unlock()\<close>; \<open>i\<close> is the loop counter.\<close>

definition first_request :: "externals \<Rightarrow> int \<Rightarrow> int \<Rightarrow> nat \<Rightarrow> client \<Rightarrow> (client \<times> name) res" where
  "first_request E i now r c =
     res_bind (set_start now c) (\<lambda>c1.
       let n = commit_counter c1;
           tail = [enc_number E (int_to_number i), enc_number E n, value_text n i];
           (c2, t) =
             (if ratio c1 < 100
              then if ratio c1 = 0 then (c1, 1)
                   else let c' = (if n mod 10 = 0 then c1\<lparr>rand_counter := n + r mod 10\<rparr> else c1)
                        in if n = rand_counter c' then (c', 1 - write_or_read c') else (c', write_or_read c')
              else (c1, write_or_read c1))
       in Inr (c2\<lparr>commit_counter := Suc n\<rparr>, cl_prefix c @ enc_number E t # tail))"

text \<open>What \<^verbatim>\<open>onData\<close> reads from the name of the interest.\<close>

definition reply_numbers :: "externals \<Rightarrow> name \<Rightarrow> (int \<times> int) res" where
  "reply_numbers E nm =
     res_bind (get_number E nm 2) (\<lambda>n. res_bind (get_number E nm 3) (\<lambda>k. res_bind (get_number E nm 4) (\<lambda>_.
       Inr (number_to_int n, number_to_int k))))"

text \<open>The first critical section of \<^verbatim>\<open>onData\<close>.\<close>

definition record_reply :: "int \<Rightarrow> int \<Rightarrow> client \<Rightarrow> client res" where
  "record_reply counter now c =
     (if recording c
      then if 0 \<le> counter \<and> nat counter < starts_size
           then Inr (c\<lparr>periods := periods c @ [now - starts c (nat counter)],
                       thr_counter := Suc (thr_counter c)\<rparr>)
           else Inl Out_of_range
      else Inr c)"

text \<open>The rest of \<^verbatim>\<open>onData\<close>: nothing more, or one more request of the same client.\<close>

definition next_request :: "externals \<Rightarrow> int \<Rightarrow> int \<Rightarrow> nat \<Rightarrow> client \<Rightarrow> (client \<times> name list) res" where
  "next_request E i now r c =
     (if finished c then Inr (c, [])
      else let n = commit_counter c;
               tail = [enc_number E (int_to_number i), enc_number E n, value_text n i];
               (c1, t) =
                 (if ratio c < 100
                  then if ratio c = 0 then (c, 1)
                       else let c' = (if n mod 10 = 0 then c\<lparr>rand_counter := n + r mod 10\<rparr> else c)
                            in if n = rand_counter c' then (c', 1 - write_or_read c') else (c', write_or_read c')
                  else (c, write_or_read c))
           in res_bind (set_start now c1) (\<lambda>c2.
                Inr (c2\<lparr>commit_counter := Suc n\<rparr>, [cl_prefix c @ enc_number E t # tail])))"

text \<open>\<^verbatim>\<open>Client::onData\<close> as a whole, when nothing comes in between.\<close>

definition client_onData :: "externals \<Rightarrow> name \<Rightarrow> int \<Rightarrow> int \<Rightarrow> nat \<Rightarrow> client \<Rightarrow> (client \<times> effect list) res" where
  "client_onData E nm seen now r c =
     res_bind (reply_numbers E nm) (\<lambda>(n, k).
     res_bind (record_reply n seen c) (\<lambda>c1.
     res_bind (next_request E k now r c1) (\<lambda>(c2, nms). Inr (c2, map (\<lambda>q. Interest q 1000) nms))))"

section \<open>The measurement\<close>

text \<open>What the recovery build sets before the loop, and does after each request.\<close>

definition recover_setup :: "client \<Rightarrow> client" where
  "recover_setup c = c\<lparr>com_win := 500 * 20, finished := True, recording := True\<rparr>"

definition punch :: "client \<Rightarrow> client" where
  "punch c = c\<lparr>throughputs := throughputs c @ [int_to_number (number_to_int (thr_counter c))]\<rparr>"

text \<open>The single build: switch recording on, twelve times count one second, switch off.\<close>

definition begin_recording :: "client \<Rightarrow> client" where
  "begin_recording c = c\<lparr>recording := True\<rparr>"

definition measure_second :: "nat \<Rightarrow> client \<Rightarrow> client" where
  "measure_second before c = c\<lparr>throughputs := throughputs c @ [thr_counter c - before]\<rparr>"

definition end_recording :: "client \<Rightarrow> client" where
  "end_recording c = c\<lparr>recording := False, finished := True\<rparr>"

text \<open>The two result files: their names and contents.\<close>

definition result_name :: "string \<Rightarrow> client \<Rightarrow> string" where
  "result_name kind c = ''results/naxos/N_'' @ kind @ ''_'' @ to_string_int (com_win c) @ ''_''
     @ to_string_int (ratio c) @ ''_'' @ to_string_int (read_node c) @ ''.txt''"

definition result_files :: "client \<Rightarrow> (string \<times> string) list" where
  "result_files c =
     [(result_name ''t'' c, concat (map (\<lambda>t. decimal t @ [char_of (10 :: nat)]) (throughputs c))),
      (result_name ''l'' c, concat (map (\<lambda>p. to_string_int p @ [char_of (10 :: nat)]) (periods c)))]"

end
