(* ===== verification/Client_Props.thy ===== *)
theory Client_Props
  imports Client
begin

text \<open>
  What holds of a client through a whole measurement: how the requests are numbered and what
  the server reads from them, the size of the window, the mix of reads and writes, and the
  end of the array of start times. A run interleaves the critical sections of the two threads
  with the answers and the losses of the network.
\<close>

section \<open>One request\<close>

text \<open>The rand counter and the type of the request numbered \<open>n\<close>.\<close>

definition mixed :: "client \<Rightarrow> bool" where
  "mixed c \<longleftrightarrow> ratio c < 100 \<and> ratio c \<noteq> 0"

definition rand_after :: "client \<Rightarrow> nat \<Rightarrow> nat" where
  "rand_after c r = (if mixed c \<and> commit_counter c mod 10 = 0 then commit_counter c + r mod 10 else rand_counter c)"

definition type_after :: "client \<Rightarrow> nat \<Rightarrow> nat" where
  "type_after c r = (if mixed c then if commit_counter c = rand_after c r then 1 - write_or_read c else write_or_read c
     else if ratio c = 0 then 1 else write_or_read c)"

definition request_name :: "externals \<Rightarrow> client \<Rightarrow> nat \<Rightarrow> int \<Rightarrow> nat \<Rightarrow> name" where
  "request_name E c t i n = cl_prefix c @ [enc_number E t, enc_number E (int_to_number i), enc_number E n, value_text n i]"

lemma first_request_eq:
  "first_request E i now r c = (if commit_counter c < starts_size
     then Inr (c\<lparr>commit_counter := Suc (commit_counter c), rand_counter := rand_after c r,
                 starts := (starts c)(commit_counter c := now)\<rparr>,
               request_name E c (type_after c r) i (commit_counter c))
     else Inl Out_of_range)"
  by (auto simp: first_request_def set_start_def request_name_def rand_after_def type_after_def mixed_def Let_def)

text \<open>
  C34. The two copies of the request code, in \<^verbatim>\<open>start_commit\<close> and in \<^verbatim>\<open>onData\<close>, do the same: after the
  end of the measurement \<^verbatim>\<open>onData\<close> sends nothing, before it the request \<^verbatim>\<open>start_commit\<close> would send
  for the same client, leaving the same state.
\<close>

theorem requests_agree:
  "next_request E i now r c = (if finished c then Inr (c, [])
     else res_bind (first_request E i now r c) (\<lambda>(c', nm). Inr (c', [nm])))"
  by (auto simp: next_request_def first_request_eq set_start_def request_name_def rand_after_def
      type_after_def mixed_def Let_def)

lemma next_request_eq:
  "next_request E i now r c = (if finished c then Inr (c, [])
     else if commit_counter c < starts_size
     then Inr (c\<lparr>commit_counter := Suc (commit_counter c), rand_counter := rand_after c r,
                 starts := (starts c)(commit_counter c := now)\<rparr>,
               [request_name E c (type_after c r) i (commit_counter c)])
     else Inl Out_of_range)"
  by (auto simp: next_request_def set_start_def request_name_def rand_after_def
      type_after_def mixed_def Let_def)

section \<open>Runs\<close>

text \<open>
  The client with the interests that are under way, the reply the face's thread is working
  on (the client id it read), and counts of the loop, of lost interests and of replies that
  came after the end.
\<close>

record client_run =
  cr_client :: client
  cr_issued :: nat
  cr_sent :: "name list"
  cr_pending :: "name list"
  cr_current :: "int option"
  cr_lost :: nat
  cr_retired :: nat

inductive client_step :: "externals \<Rightarrow> client_run \<Rightarrow> client_run \<Rightarrow> bool" for E :: externals where
  step_first: "int (cr_issued R) < com_win (cr_client R) \<Longrightarrow>
    first_request E (int (cr_issued R)) now r (cr_client R) = Inr (c, nm) \<Longrightarrow>
    client_step E R (R\<lparr>cr_client := c, cr_issued := Suc (cr_issued R), cr_sent := cr_sent R @ [nm],
      cr_pending := cr_pending R @ [nm]\<rparr>)"
| step_reply: "nm \<in> set (cr_pending R) \<Longrightarrow> cr_current R = None \<Longrightarrow> reply_numbers E nm = Inr (n, k) \<Longrightarrow>
    record_reply n seen (cr_client R) = Inr c \<Longrightarrow>
    client_step E R (R\<lparr>cr_client := c, cr_pending := remove1 nm (cr_pending R), cr_current := Some k\<rparr>)"
| step_next: "cr_current R = Some k \<Longrightarrow> next_request E k now r (cr_client R) = Inr (c, nms) \<Longrightarrow>
    client_step E R (R\<lparr>cr_client := c, cr_current := None, cr_sent := cr_sent R @ nms,
      cr_pending := cr_pending R @ nms, cr_retired := cr_retired R + (if nms = [] then 1 else 0)\<rparr>)"
| step_timeout: "nm \<in> set (cr_pending R) \<Longrightarrow>
    client_step E R (R\<lparr>cr_pending := remove1 nm (cr_pending R), cr_lost := Suc (cr_lost R)\<rparr>)"
| step_measure: "c \<in> {punch (cr_client R), begin_recording (cr_client R), measure_second b (cr_client R),
      end_recording (cr_client R)} \<Longrightarrow>
    client_step E R (R\<lparr>cr_client := c\<rparr>)"

inductive_cases client_step_cases: "client_step E R R'"

definition client_start :: "mode \<Rightarrow> client \<Rightarrow> client_run" where
  "client_start mode c = \<lparr>cr_client = (if mode = Mode_recover then recover_setup c else c), cr_issued = 0,
     cr_sent = [], cr_pending = [], cr_current = None, cr_lost = 0, cr_retired = 0\<rparr>"

abbreviation client_reach :: "externals \<Rightarrow> mode \<Rightarrow> client \<Rightarrow> client_run \<Rightarrow> bool" where
  "client_reach E mode c R \<equiv> (client_step E)\<^sup>*\<^sup>* (client_start mode c) R"

text \<open>
  The invariant. \<open>pick j\<close> is the request of the \<open>j\<close>-th block of ten that the random number
  chose to be of the other type.
\<close>

definition numbered :: "externals \<Rightarrow> client_run \<Rightarrow> bool" where
  "numbered E R \<longleftrightarrow> commit_counter (cr_client R) = length (cr_sent R) \<and> length (cr_sent R) \<le> starts_size
     \<and> (\<forall>k < length (cr_sent R). \<exists>t i. cr_sent R ! k = request_name E (cr_client R) t i k \<and> t \<le> 1)"

definition window_ok :: "client_run \<Rightarrow> bool" where
  "window_ok R \<longleftrightarrow> length (cr_pending R) + (if cr_current R = None then 0 else 1) + cr_lost R + cr_retired R = cr_issued R
     \<and> int (cr_issued R) \<le> max 0 (com_win (cr_client R)) \<and> length (periods (cr_client R)) = thr_counter (cr_client R)"

definition blocks_ok :: "externals \<Rightarrow> client_run \<Rightarrow> (nat \<Rightarrow> nat) \<Rightarrow> bool" where
  "blocks_ok E R pick \<longleftrightarrow> (\<forall>j. pick j div 10 = j)
     \<and> (cr_sent R \<noteq> [] \<longrightarrow> rand_counter (cr_client R) = pick ((length (cr_sent R) - 1) div 10))
     \<and> (\<forall>k < length (cr_sent R). \<exists>i. cr_sent R ! k = request_name E (cr_client R)
          (if k = pick (k div 10) then 1 - write_or_read (cr_client R) else write_or_read (cr_client R)) i k)"

lemma request_name_cong: "cl_prefix c' = cl_prefix c \<Longrightarrow> request_name E c' = request_name E c"
  by (simp add: request_name_def fun_eq_iff)

text \<open>What one step does to the parts the invariants read.\<close>

definition client_frame :: "client \<Rightarrow> client \<Rightarrow> bool" where
  "client_frame c c' \<longleftrightarrow> cl_prefix c' = cl_prefix c \<and> com_win c' = com_win c \<and> ratio c' = ratio c
     \<and> write_or_read c' = write_or_read c"

lemma client_step_frame:
  assumes "client_step E R R'"
  shows "client_frame (cr_client R) (cr_client R')"
    and "cr_sent R' = cr_sent R \<and> commit_counter (cr_client R') = commit_counter (cr_client R)
        \<and> rand_counter (cr_client R') = rand_counter (cr_client R)
      \<or> (\<exists>i r. cr_sent R' = cr_sent R @ [request_name E (cr_client R) (type_after (cr_client R) r) i (commit_counter (cr_client R))]
        \<and> commit_counter (cr_client R) < starts_size
        \<and> commit_counter (cr_client R') = Suc (commit_counter (cr_client R))
        \<and> rand_counter (cr_client R') = rand_after (cr_client R) r)"
  using assms
  by (cases rule: client_step.cases;
      force simp: client_frame_def first_request_eq next_request_eq record_reply_def punch_def begin_recording_def
        measure_second_def end_recording_def split: if_splits)+

lemma type_after_le: "write_or_read c \<le> 1 \<Longrightarrow> type_after c r \<le> 1"
  by (simp add: type_after_def)

lemma numbered_step:
  assumes "numbered E R" and "client_step E R R'" and "write_or_read (cr_client R) \<le> 1"
  shows "numbered E R'"
proof -
  have names: "request_name E (cr_client R') = request_name E (cr_client R)"
    using client_step_frame(1) [OF assms(2)] by (intro request_name_cong) (simp add: client_frame_def)
  show ?thesis
    using client_step_frame(2) [OF assms(2)]
  proof
    assume "\<exists>i r. cr_sent R' = cr_sent R @ [request_name E (cr_client R) (type_after (cr_client R) r) i (commit_counter (cr_client R))]
        \<and> commit_counter (cr_client R) < starts_size
        \<and> commit_counter (cr_client R') = Suc (commit_counter (cr_client R))
        \<and> rand_counter (cr_client R') = rand_after (cr_client R) r"
    then obtain i r where sent: "cr_sent R' = cr_sent R @ [request_name E (cr_client R) (type_after (cr_client R) r) i (commit_counter (cr_client R))]"
      and "commit_counter (cr_client R) < starts_size" "commit_counter (cr_client R') = Suc (commit_counter (cr_client R))"
      by blast
    moreover have "\<exists>t i. cr_sent R' ! k = request_name E (cr_client R) t i k \<and> t \<le> 1" if "k < length (cr_sent R')" for k
    proof (cases "k = length (cr_sent R)")
      case True
      then show ?thesis
        using assms(1) type_after_le [OF assms(3)] by (auto simp: sent numbered_def)
    next
      case False
      then show ?thesis
        using that assms(1) by (simp add: sent numbered_def nth_append)
    qed
    ultimately show ?thesis
      using assms(1) by (simp add: numbered_def names)
  qed (use assms(1) in \<open>simp add: numbered_def names\<close>)
qed

text \<open>Blocks of ten.\<close>

lemma block_add: "n mod 10 = 0 \<Longrightarrow> (n + r mod 10) div 10 = n div (10 :: nat)"
proof -
  assume "n mod 10 = 0"
  then obtain q where "n = 10 * q" by (metis mod_0_imp_dvd dvdE)
  then show ?thesis by simp
qed

lemma block_pred: "n mod 10 \<noteq> 0 \<Longrightarrow> (n - 1) div 10 = n div (10 :: nat)"
proof (rule div_nat_eqI)
  assume "n mod 10 \<noteq> 0"
  moreover have "n = 10 * (n div 10) + n mod 10" "n mod 10 < 10" by simp_all
  ultimately have "10 * (n div 10) \<le> n - 1" "n < 10 * (n div 10) + 10" by linarith+
  then show "10 * (n div 10) \<le> n - 1" "n - 1 < 10 * Suc (n div 10)" by simp_all
qed

lemma block_other: "n mod 10 = 0 \<Longrightarrow> k < n \<Longrightarrow> k div 10 \<noteq> n div (10 :: nat)"
proof
  assume "n mod 10 = 0" "k < n" "k div 10 = n div 10"
  moreover have "n = 10 * (n div 10) + n mod 10" "10 * (k div 10) \<le> k" by simp_all
  ultimately show False by linarith
qed

lemma block_pick_old:
  "k < n \<Longrightarrow> (if n mod 10 = 0 then pick(n div 10 := x) else pick) (k div 10) = pick (k div (10 :: nat))"
  using block_other [of n k] by auto

text \<open>The request that is sent is of the other type if it is the one that was picked for its block.\<close>

lemma block_pick_now:
  assumes "blocks_ok E R pick" and "commit_counter (cr_client R) = length (cr_sent R)" and "mixed (cr_client R)"
    and "n = length (cr_sent R)" and "pick' = (if n mod 10 = 0 then pick(n div 10 := n + r mod 10) else pick)"
  shows "rand_after (cr_client R) r = pick' (n div 10)" and "pick' j div 10 = j"
proof -
  show "pick' j div 10 = j"
    using assms(1) unfolding assms(5) by (simp add: blocks_ok_def block_add)
  show "rand_after (cr_client R) r = pick' (n div 10)"
  proof (cases "n mod 10 = 0")
    case False
    then have "cr_sent R \<noteq> []" "(n - 1) div 10 = n div 10"
      using block_pred [OF False] unfolding assms(4) by auto
    then show ?thesis
      using assms(1,2) False unfolding assms(4,5) by (simp add: rand_after_def blocks_ok_def)
  qed (use assms(2-5) in \<open>simp add: rand_after_def\<close>)
qed

lemma blocks_step:
  assumes "blocks_ok E R pick" and "numbered E R" and "client_step E R R'" and "mixed (cr_client R)"
  shows "\<exists>pick'. blocks_ok E R' pick'"
proof -
  let ?c = "cr_client R" and ?n = "length (cr_sent R)"
  have frame: "write_or_read (cr_client R') = write_or_read ?c" and pre: "cl_prefix (cr_client R') = cl_prefix ?c"
    using client_step_frame(1) [OF assms(3)] by (simp_all add: client_frame_def)
  note names = request_name_cong [OF pre, of E]
  have n: "commit_counter ?c = ?n"
    using assms(2) by (simp add: numbered_def)
  show ?thesis
    using client_step_frame(2) [OF assms(3)]
  proof
    assume "\<exists>i r. cr_sent R' = cr_sent R @ [request_name E ?c (type_after ?c r) i (commit_counter ?c)]
        \<and> commit_counter ?c < starts_size \<and> commit_counter (cr_client R') = Suc (commit_counter ?c)
        \<and> rand_counter (cr_client R') = rand_after ?c r"
    then obtain i r where sent: "cr_sent R' = cr_sent R @ [request_name E ?c (type_after ?c r) i ?n]"
      and rand: "rand_counter (cr_client R') = rand_after ?c r"
      using n by auto
    define pick' where "pick' = (if ?n mod 10 = 0 then pick(?n div 10 := ?n + r mod 10) else pick)"
    note now = block_pick_now [OF assms(1) n assms(4) refl pick'_def]
    have "\<exists>i. cr_sent R' ! k = request_name E ?c
        (if k = pick' (k div 10) then 1 - write_or_read ?c else write_or_read ?c) i k" if "k < Suc ?n" for k
    proof (cases "k = ?n")
      case True
      then show ?thesis
        using assms(4) n now(1) by (auto simp: sent type_after_def)
    next
      case False
      then have "k < ?n" using that by simp
      then show ?thesis
        using assms(1) block_pick_old [of k ?n pick] by (simp add: sent nth_append blocks_ok_def pick'_def split del: if_split)
    qed
    then have "blocks_ok E R' pick'"
      using now unfolding blocks_ok_def frame names by (simp add: sent rand split del: if_split)
    then show ?thesis by blast
  next
    assume "cr_sent R' = cr_sent R \<and> commit_counter (cr_client R') = commit_counter ?c
        \<and> rand_counter (cr_client R') = rand_counter ?c"
    then have "blocks_ok E R' pick"
      using assms(1) unfolding blocks_ok_def frame names by (simp split del: if_split)
    then show ?thesis by blast
  qed
qed

lemma length_remove1_in: "x \<in> set xs \<Longrightarrow> Suc (length (remove1 x xs)) = length xs"
  by (induction xs) auto

lemma window_step:
  assumes "window_ok R" and "client_step E R R'"
  shows "window_ok R'"
  using assms(2)
proof (cases rule: client_step.cases)
  case (step_first now r c nm)
  then have "com_win c = com_win (cr_client R)" "periods c = periods (cr_client R)" "thr_counter c = thr_counter (cr_client R)"
    by (auto simp: first_request_eq split: if_splits)
  then show ?thesis
    using step_first assms(1) by (auto simp: window_ok_def)
next
  case (step_reply nm n k seen c)
  then have "Suc (length (remove1 nm (cr_pending R))) = length (cr_pending R)"
    by (simp add: length_remove1_in)
  moreover have "com_win c = com_win (cr_client R)"
    "length (periods c) = thr_counter c \<longleftrightarrow> length (periods (cr_client R)) = thr_counter (cr_client R)"
    using step_reply(5) by (auto simp: record_reply_def split: if_splits)
  ultimately show ?thesis
    using step_reply assms(1) by (auto simp: window_ok_def)
next
  case (step_next k now r c nms)
  then have "com_win c = com_win (cr_client R)" "periods c = periods (cr_client R)" "thr_counter c = thr_counter (cr_client R)"
    "nms = [] \<or> length nms = 1"
    by (auto simp: next_request_eq split: if_splits)
  then show ?thesis
    using step_next assms(1) by (auto simp: window_ok_def)
next
  case (step_timeout nm)
  then have "Suc (length (remove1 nm (cr_pending R))) = length (cr_pending R)"
    by (simp add: length_remove1_in)
  then show ?thesis
    using step_timeout assms(1) by (auto simp: window_ok_def)
next
  case (step_measure c b)
  then show ?thesis
    using assms(1) by (auto simp: window_ok_def punch_def begin_recording_def measure_second_def end_recording_def)
qed

lemma client_reach_inv:
  assumes "client_reach E mode (new_client pre win rat node) R"
  shows "numbered E R \<and> window_ok R \<and> client_frame (cr_client (client_start mode (new_client pre win rat node))) (cr_client R)
    \<and> (mixed (cr_client R) \<longrightarrow> (\<exists>pick. blocks_ok E R pick))"
  using assms
proof (induction rule: rtranclp_induct)
  case base
  have "blocks_ok E (client_start mode (new_client pre win rat node)) (\<lambda>j. 10 * j)"
    by (simp add: blocks_ok_def client_start_def)
  then show ?case
    by (auto simp: numbered_def window_ok_def client_frame_def client_start_def new_client_def recover_setup_def)
next
  case (step R R')
  have "write_or_read (cr_client R) \<le> 1"
    using step.IH by (simp add: client_frame_def client_start_def new_client_def recover_setup_def split: if_splits)
  then have "numbered E R'"
    using numbered_step step by blast
  moreover have "window_ok R'"
    using window_step step by blast
  moreover note frame = client_step_frame(1) [OF step.hyps(2)]
  moreover have "\<exists>pick. blocks_ok E R' pick" if "mixed (cr_client R')"
  proof -
    have "mixed (cr_client R)"
      using that frame by (simp add: mixed_def client_frame_def)
    then show ?thesis
      using blocks_step step by blast
  qed
  ultimately show ?case
    using step.IH by (simp add: client_frame_def)
qed

section \<open>The theorems\<close>

lemma request_parts:
  assumes "number_codec_ok E" and "t < 2 ^ 64" and "n < 2 ^ 64"
  shows "name_get (request_name E c t i n) 1 = Inr (value_text n i)" "get_number E (request_name E c t i n) 2 = Inr n"
    "get_number E (request_name E c t i n) 3 = Inr (int_to_number i)" "get_number E (request_name E c t i n) 4 = Inr t"
proof -
  have "int_to_number i < 2 ^ 64"
    using unsigned_less [of "of_int i :: 64 word"] by (simp add: int_to_number_def)
  then show "name_get (request_name E c t i n) 1 = Inr (value_text n i)" "get_number E (request_name E c t i n) 2 = Inr n"
    "get_number E (request_name E c t i n) 3 = Inr (int_to_number i)" "get_number E (request_name E c t i n) 4 = Inr t"
    using assms by (simp_all add: request_name_def get_number_def name_get_def number_codec_ok_def nth_append nth_Cons')
qed


text \<open>
  C36. The window: the interests under way, with the reply being worked on, are the requests of
  the first window less one for every lost interest and every reply after the end. So there
  are never more than the window, and every loss makes the window smaller for good.
\<close>

theorem client_window:
  assumes "client_reach E mode (new_client pre win rat node) R"
  shows "length (cr_pending R) + (if cr_current R = None then 0 else 1) = cr_issued R - cr_lost R - cr_retired R
    \<and> cr_lost R + cr_retired R \<le> cr_issued R
    \<and> int (cr_issued R) \<le> max 0 (if mode = Mode_recover then 10000 else win)"
proof -
  have "window_ok R" "com_win (cr_client R) = (if mode = Mode_recover then 10000 else win)"
    using client_reach_inv [OF assms] by (auto simp: client_frame_def client_start_def new_client_def recover_setup_def)
  then show ?thesis
    by (auto simp: window_ok_def)
qed

text \<open>
  The mix: with a ratio below 100 other than 0, among any ten requests numbered \<open>10 j\<close> to
  \<open>10 j + 9\<close> exactly one is of the other type, whatever \<^verbatim>\<open>rand\<close> returns: one write for the ratio
  10, one read for any other ratio.
\<close>

theorem one_in_ten:
  assumes "number_codec_ok E" and "client_reach E mode (new_client pre win rat node) R"
    and "rat < 100" and "rat \<noteq> 0" and "10 * j + 10 \<le> length (cr_sent R)"
  shows "card {k \<in> {10 * j..<10 * j + 10}. get_number E (cr_sent R ! k) 4 = Inr (if rat = 10 then 0 else 1)} = 1
    \<and> card {k \<in> {10 * j..<10 * j + 10}. get_number E (cr_sent R ! k) 4 = Inr (if rat = 10 then 1 else 0)} = 9"
proof -
  have inv: "numbered E R" "ratio (cr_client R) = rat" "write_or_read (cr_client R) = (if rat = 10 then 1 else 0)"
    and "mixed (cr_client R) \<longrightarrow> (\<exists>pick. blocks_ok E R pick)"
    using client_reach_inv [OF assms(2)]
    by (auto simp: client_frame_def client_start_def new_client_def recover_setup_def)
  then obtain pick where pick: "blocks_ok E R pick"
    using assms(3,4) by (auto simp: mixed_def)
  let ?B = "{10 * j..<10 * j + 10}"
  have type: "get_number E (cr_sent R ! k) 4
      = Inr (if k = pick j then (if rat = 10 then 0 else 1) else (if rat = 10 then 1 else 0))" if "k \<in> ?B" for k
  proof -
    have "k div 10 = j"
      using that by (intro div_nat_eqI) auto
    moreover have k: "k < length (cr_sent R)" using that assms(5) by simp
    ultimately obtain i where at: "cr_sent R ! k = request_name E (cr_client R)
        (if k = pick j then 1 - write_or_read (cr_client R) else write_or_read (cr_client R)) i k"
      using pick unfolding blocks_ok_def by blast
    have "k < 2 ^ 64"
      using k inv(1) by (simp add: numbered_def starts_size_def)
    then show ?thesis
      unfolding at by (subst request_parts(4) [OF assms(1)]) (simp_all add: inv(3))
  qed
  have "pick j div 10 = j"
    using pick by (simp add: blocks_ok_def)
  then have mem: "pick j \<in> ?B"
    using div_mult_mod_eq [of "pick j" 10] by auto
  have "{k \<in> ?B. get_number E (cr_sent R ! k) 4 = Inr (if rat = 10 then 0 else 1)} = {pick j}"
    "{k \<in> ?B. get_number E (cr_sent R ! k) 4 = Inr (if rat = 10 then 1 else 0)} = ?B - {pick j}"
    using mem type by (auto split: if_splits)
  then show ?thesis
    using mem by simp
qed

text \<open>
  Request number 20000000 writes behind the end of \<^verbatim>\<open>starts_\<close>, from either thread: nothing in
  the code stops a client that has sent that many.
\<close>

theorem start_times_overrun:
  assumes "commit_counter c = starts_size"
  shows "first_request E i now r c = Inl Out_of_range
    \<and> (\<not> finished c \<longrightarrow> next_request E i now r c = Inl Out_of_range)"
  using assms by (simp add: first_request_eq next_request_eq)

section \<open>Witnesses\<close>

definition client_10 :: client where
  "client_10 = new_client [''p''] 2 90 0"

theorem start_times_overrun_witness:
  "first_request number_wire 0 5 7 (client_10\<lparr>commit_counter := starts_size\<rparr>) = Inl Out_of_range"
  using start_times_overrun [of "client_10\<lparr>commit_counter := starts_size\<rparr>" number_wire 0 5 7] by simp

lemma number_wire_ok: "number_codec_ok number_wire"
  by (simp add: number_codec_ok_def number_wire_def one_message_wire_def undecimal_decimal)

text \<open>The window of two, then replies that never come.\<close>

definition client_first :: "nat \<Rightarrow> client_run \<Rightarrow> client_run" where
  "client_first r R = (case first_request number_wire (int (cr_issued R)) 0 r (cr_client R) of
     Inl e \<Rightarrow> R
   | Inr (c, nm) \<Rightarrow> R\<lparr>cr_client := c, cr_issued := Suc (cr_issued R), cr_sent := cr_sent R @ [nm],
       cr_pending := cr_pending R @ [nm]\<rparr>)"

lemma client_first_step:
  assumes "int (cr_issued R) < com_win (cr_client R)" and "commit_counter (cr_client R) < starts_size"
  shows "client_step number_wire R (client_first r R)"
proof -
  obtain c nm where run: "first_request number_wire (int (cr_issued R)) 0 r (cr_client R) = Inr (c, nm)"
    using assms(2) by (simp add: first_request_eq)
  show ?thesis
    unfolding client_first_def run using client_step.step_first [OF assms(1) run] by simp
qed

lemma client_first_fields:
  assumes "commit_counter (cr_client R) < starts_size"
  shows "cr_issued (client_first r R) = Suc (cr_issued R)" "com_win (cr_client (client_first r R)) = com_win (cr_client R)"
    "commit_counter (cr_client (client_first r R)) = Suc (commit_counter (cr_client R))"
    "length (cr_sent (client_first r R)) = Suc (length (cr_sent R))"
  using assms by (simp_all add: client_first_def first_request_eq)

text \<open>Any number of requests of the first window, up to the size of the window.\<close>

lemma client_firsts:
  assumes "n \<le> starts_size" and "int n \<le> win" and "mode \<noteq> Mode_recover"
  shows "\<exists>R. client_reach number_wire mode (new_client pre win rat node) R \<and> length (cr_sent R) = n
    \<and> cr_issued R = n \<and> com_win (cr_client R) = win \<and> commit_counter (cr_client R) = n"
  using assms
proof (induction n)
  case 0
  then show ?case
    by (intro exI [of _ "client_start mode (new_client pre win rat node)"])
       (simp add: client_start_def new_client_def)
next
  case (Suc n)
  then obtain R where R: "client_reach number_wire mode (new_client pre win rat node) R" "length (cr_sent R) = n"
    "cr_issued R = n" "com_win (cr_client R) = win" "commit_counter (cr_client R) = n" by auto
  have "client_step number_wire R (client_first 3 R)"
    using Suc.prems R by (intro client_first_step) simp_all
  then have "client_reach number_wire mode (new_client pre win rat node) (client_first 3 R)"
    using R(1) by (rule rtranclp.rtrancl_into_rtrancl [rotated])
  then show ?case
    using client_first_fields [of R 3] R Suc.prems by (intro exI [of _ "client_first 3 R"]) simp
qed


theorem client_window_witness:
  "\<exists>R. client_reach number_wire Mode_default client_10 R \<and> cr_issued R = 2 \<and> length (cr_pending R) \<le> 2"
proof -
  obtain R where R: "client_reach number_wire Mode_default client_10 R" "cr_issued R = 2"
    using client_firsts [of 2 2 Mode_default "[''p'']" 90 0] by (auto simp: starts_size_def client_10_def)
  then show ?thesis
    using client_window [OF R(1) [unfolded client_10_def]] by (intro exI [of _ R]) auto
qed

theorem one_in_ten_witness:
  "\<exists>R. client_reach number_wire Mode_default (new_client [''p''] 20 10 0) R
     \<and> card {k \<in> {10..<20}. get_number number_wire (cr_sent R ! k) 4 = Inr 0} = 1"
proof -
  obtain R where R: "client_reach number_wire Mode_default (new_client [''p''] 20 10 0) R" "length (cr_sent R) = 20"
    using client_firsts [of 20 20 Mode_default "[''p'']" 10 0] by (auto simp: starts_size_def)
  then show ?thesis
    using one_in_ten [OF number_wire_ok R(1), of 1] by auto
qed

section \<open>Client and servers\<close>

text \<open>
  In the recovery build with the number of nodes as its last argument, every route the
  client registers leads to a node that has set a filter for it: the nodes that get writes are
  the master and the quorum, the nodes that get reads are the master and the others.
\<close>

theorem routes_are_served:
  assumes "(t, k) \<in> set (client_routes Mode_recover (int n))" and "0 < n" and "n < 65536"
    and "unat (node_id v) = nat k" and "master_id v = 0" and "host_count v = n"
    and "quorums v = nodes_upto 0 (quorum_of_size n)"
  shows "0 \<le> k \<and> nat k < n \<and> t \<le> 1
    \<and> (commit_nm @ [enc_number E t], On_interest_commit) \<in> set (interest_filters E v self log_nm commit_nm)"
proof -
  have q: "client_q_size (int n) = int (quorum_of_size n)"
    by (simp add: client_q_size_def quorum_of_size_def zdiv_int)
  have bounds: "quorum_of_size n \<le> n" "1 \<le> quorum_of_size n" "n = 2 \<Longrightarrow> quorum_of_size n = 2"
    using quorum_of_size_bounds [of n] assms(2) by (auto simp: quorum_of_size_def)
  have in_q: "if_quorum v \<longleftrightarrow> nat k < quorum_of_size n"
    using assms(3,4,7) bounds(1) by (auto simp: if_quorum_def set_find_def set_nodes_upto)
  have master: "if_master v \<longleftrightarrow> nat k = 0"
    using assms(4,5) unat_eq_zero [of "node_id v"] by (simp add: if_master_def)
  consider "t = 0" "k = 0" | "t = 1" "k = 0" | "t = 1" "n = 2" "k = 1"
    | "t = 1" "int (quorum_of_size n) \<le> k" "k < int n" | "t = 0" "1 \<le> k" "k < int (quorum_of_size n)"
    using assms(1) q by (auto simp: client_routes_def split: if_splits)
  then show ?thesis
  proof cases
    case 1
    then show ?thesis using master assms(2) by (simp add: interest_filters_def Let_def)
  next
    case 2
    then show ?thesis using master assms(2) by (simp add: interest_filters_def Let_def)
  next
    case 3
    then show ?thesis using master assms(6) by (simp add: interest_filters_def Let_def nodes_size_def)
  next
    case 4
    then show ?thesis using master in_q bounds by (auto simp: interest_filters_def Let_def)
  next
    case 5
    then show ?thesis using master in_q bounds by (auto simp: interest_filters_def Let_def)
  qed
qed

theorem routes_are_served_witness:
  "([''p'', ''commit'', decimal 1], On_interest_commit)
     \<in> set (interest_filters number_wire (view_3 2) [] [] [''p'', ''commit''])"
proof -
  have "(1, 2) \<in> set (client_routes Mode_recover (int 3))"
    by (simp add: client_routes_def client_q_size_def)
  moreover have "quorums (view_3 2) = nodes_upto 0 (quorum_of_size 3)"
    by (simp add: view_3_def quorum_of_size_def nodes_upto_def upt_rec)
  ultimately show ?thesis
    using routes_are_served [of 1 2 3 "view_3 2" "[''p'', ''commit'']" number_wire "[]" "[]"]
    by (simp add: view_3_def number_wire_def one_message_wire_def)
qed

end
