(* ===== verification/Main_Programs.thy ===== *)
theory Main_Programs
  imports Benchmark Client_Props
begin

text \<open>
  The \<^verbatim>\<open>main\<close> functions of \<^verbatim>\<open>test/naxos.cpp\<close>, \<^verbatim>\<open>test/clients.cpp\<close> and \<^verbatim>\<open>test/1_node_1_win.cpp\<close>: from the
  arguments of the command line to a running program. \<^verbatim>\<open>std::stoi\<close> and \<^verbatim>\<open>std::stoul\<close> are written out, as
  they decide which texts are numbers, and how large ones are cut.
\<close>

section \<open>Numbers in arguments\<close>

definition is_space :: "char \<Rightarrow> bool" where
  "is_space c \<longleftrightarrow> c \<in> {CHR '' '', CHR 0x09, CHR 0x0A, CHR 0x0B, CHR 0x0C, CHR 0x0D}"

definition is_digit :: "char \<Rightarrow> bool" where
  "is_digit c \<longleftrightarrow> (48 :: nat) \<le> of_char c \<and> of_char c \<le> (57 :: nat)"

text \<open>The sign and the digits of \<^verbatim>\<open>strtol\<close>: white space, one sign, and what comes after the digits is ignored.\<close>

definition sign_and_digits :: "string \<Rightarrow> (bool \<times> nat) option" where
  "sign_and_digits s =
     (let t = dropWhile is_space s;
          (neg, u) = (case t of
             [] \<Rightarrow> (False, [])
           | c # r \<Rightarrow> if c = CHR ''-'' then (True, r) else if c = CHR ''+'' then (False, r) else (False, t));
          ds = takeWhile is_digit u
      in if ds = [] then None else Some (neg, undecimal ds))"

definition stoi :: "string \<Rightarrow> int res" where
  "stoi s = (case sign_and_digits s of
       None \<Rightarrow> Inl Std_exception
     | Some (neg, n) \<Rightarrow>
         (let i = (if neg then - int n else int n)
          in if - (2 ^ 31) \<le> i \<and> i < 2 ^ 31 then Inr i else Inl Std_exception))"

text \<open>\<^verbatim>\<open>stoul\<close> takes a sign too: a negative number is taken modulo \<open>2 ^ 64\<close>.\<close>

definition stoul :: "string \<Rightarrow> 64 word res" where
  "stoul s = (case sign_and_digits s of
       None \<Rightarrow> Inl Std_exception
     | Some (neg, n) \<Rightarrow>
         if n < 2 ^ 64 then Inr (if neg then - of_nat n else of_nat n) else Inl Std_exception)"

lemma decimal_digits: "\<forall>c \<in> set (decimal n). is_digit c"
proof (induction n rule: decimal.induct)
  case (1 n)
  have "is_digit (char_of (48 + d))" if "d < 10" for d :: nat
    using that by (simp add: is_digit_def of_char_of)
  then show ?case
    using 1 by (subst decimal.simps) auto
qed

lemma decimal_nonempty: "decimal n \<noteq> []"
  by (subst decimal.simps) simp

lemma digit_plain: "is_digit c \<Longrightarrow> \<not> is_space c \<and> c \<noteq> CHR ''-'' \<and> c \<noteq> CHR ''+''"
  by (auto simp: is_digit_def is_space_def)

lemma sign_and_digits_decimal:
  "sign_and_digits (decimal n) = Some (False, n)" "sign_and_digits (''-'' @ decimal n) = Some (True, n)"
proof -
  obtain c r where d: "decimal n = c # r"
    using decimal_nonempty by (cases "decimal n") auto
  have digits: "takeWhile is_digit (decimal n) = decimal n"
    using decimal_digits by simp
  have "is_digit c"
    using decimal_digits [of n] d by simp
  then have "dropWhile is_space (decimal n) = decimal n" "c \<noteq> CHR ''-''" "c \<noteq> CHR ''+''"
    using digit_plain d by simp_all
  then show "sign_and_digits (decimal n) = Some (False, n)"
    using digits d undecimal_decimal [of n] by (simp add: sign_and_digits_def)
  have "\<not> is_space (CHR ''-'')"
    by (simp add: is_space_def)
  then show "sign_and_digits (''-'' @ decimal n) = Some (True, n)"
    using decimal_nonempty undecimal_decimal [of n]
    by (simp add: sign_and_digits_def Let_def digits del: takeWhile_eq_all_conv)
qed

text \<open>What \<^verbatim>\<open>to_string\<close> prints is read back.\<close>

lemma stoi_to_string:
  assumes "- (2 ^ 31) \<le> i" and "i < 2 ^ 31"
  shows "stoi (to_string_int i) = Inr i"
  using assms sign_and_digits_decimal(1) [of "nat i"] sign_and_digits_decimal(2) [of "nat (- i)"]
  by (cases "i < 0") (auto simp: stoi_def to_string_int_def)

lemma stoul_decimal: "n < 2 ^ 64 \<Longrightarrow> stoul (decimal n) = Inr (of_nat n)"
  by (simp add: stoul_def sign_and_digits_decimal(1))

section \<open>The node program\<close>

text \<open>
  \<open>None\<close> is the usage message. The number of the node is cut to 16 bits.
\<close>

definition naxos_main :: "externals \<Rightarrow> mode \<Rightarrow> (string \<Rightarrow> config) \<Rightarrow> (string \<Rightarrow> string \<Rightarrow> string) \<Rightarrow> string list \<Rightarrow>
    (node \<times> (name \<times> handler) list \<times> string list \<times> effect list) option res" where
  "naxos_main E mode load append_path argv =
     (if length argv < 6 then Inr None
      else res_bind (stoul (argv ! 1)) (\<lambda>id.
           res_bind (stoi (argv ! 2)) (\<lambda>node_num.
           res_bind (stoi (argv ! 3)) (\<lambda>win.
           res_bind (stoi (argv ! 4)) (\<lambda>local.
           res_bind (stoi (argv ! 5)) (\<lambda>log_size.
           res_bind (NaxosD_init E mode load append_path (ucast id) node_num win local) (\<lambda>(nd, filters, cmds).
             let (nd', effs) = NaxosD_start E log_size nd in Inr (Some (nd', filters, cmds, effs)))))))))"

definition client_main :: "externals \<Rightarrow> mode \<Rightarrow> (name \<Rightarrow> string) \<Rightarrow> string list \<Rightarrow> (client \<times> string list) option res" where
  "client_main E mode uri argv =
     (if length argv < 4 then Inr None
      else res_bind (stoi (argv ! 1)) (\<lambda>win.
           res_bind (stoi (argv ! 2)) (\<lambda>rat.
           res_bind (stoi (argv ! 3)) (\<lambda>node.
             Inr (Some (Client_init E mode uri (uri_name E ''/ndn/thu/naxos'') win rat node))))))"

definition benchmark_main :: "externals \<Rightarrow> mode \<Rightarrow> (string \<Rightarrow> config) \<Rightarrow> (string \<Rightarrow> string \<Rightarrow> string) \<Rightarrow> int \<Rightarrow> string list \<Rightarrow>
    benchmark option res" where
  "benchmark_main E mode load append_path now argv =
     (if length argv < 6 then Inr None
      else res_bind (stoul (argv ! 1)) (\<lambda>id.
           res_bind (stoi (argv ! 2)) (\<lambda>node_num.
           res_bind (stoi (argv ! 3)) (\<lambda>value_size.
           res_bind (stoi (argv ! 4)) (\<lambda>win.
           res_bind (stoi (argv ! 5)) (\<lambda>tot.
           res_bind (Master_init E mode load append_path (ucast id) node_num win tot) (\<lambda>B.
             Inr (Some (start_clock now B)))))))))"

text \<open>
  C33. A node is started as the configuration says: with the numbers printed in decimal, and a
  configuration of \<open>n\<close> hosts in the file that they select, every node below \<open>n\<close> comes up
  without a fault, under its own number, with its invariant and an empty log; outside the quorum
  it has then asked for the slots 1 to \<open>log_size\<close> of the log, each once, and otherwise for none.
\<close>

theorem naxos_main_starts:
  assumes "length (cfg_host (load (naxos_config_file node_num local))) = n" and "n < 65536" and "me < n"
    and "\<forall>i \<in> {node_num, win, local, log_size}. - (2 ^ 31) \<le> i \<and> i < 2 ^ 31"
    and "argv = prog # decimal me # map to_string_int [node_num, win, local, log_size]"
  shows "\<exists>nd filters cmds effs. naxos_main E mode load ap argv = Inr (Some (nd, filters, cmds, effs))
    \<and> node_ok nd \<and> unat (me_of (nd_captain nd)) = me \<and> max_chosen (nd_captain nd) = 0
    \<and> effs = (if me < quorum_of_size n then []
              else map (\<lambda>i. Log_interest (log_name nd @ [enc_number E i]) 20000) [1..<Suc (nat log_size)])"
proof -
  have nid: "unat (of_nat me :: node_id) = me"
    using assms(2,3) by simp
  have "unat (of_nat me :: node_id) < n"
    using assms(3) nid by simp
  from node_starts [where load = load and node_num = node_num and local = local and E = E and mode = mode
      and append_path = ap and win = win and log_size = log_size, OF assms(1,2) this]
  obtain nd filters cmds where r: "NaxosD_init E mode load ap (of_nat me) node_num win local = Inr (nd, filters, cmds)"
    "node_ok nd" "me_of (nd_captain nd) = of_nat me" "max_chosen (nd_captain nd) = 0"
    "snd (NaxosD_start E log_size nd) = (if me < quorum_of_size n then []
       else map (\<lambda>i. Log_interest (log_name nd @ [enc_number E i]) 20000) [1..<Suc (nat log_size)])"
    unfolding nid by blast
  have started: "nd_captain (fst (NaxosD_start E log_size nd)) = nd_captain nd"
    "log_name (fst (NaxosD_start E log_size nd)) = log_name nd"
    "consumer_names (fst (NaxosD_start E log_size nd)) = consumer_names nd"
    by (simp_all add: NaxosD_start_def consume_log_window)
  have "me < 2 ^ 64"
    using assms(2,3) by simp
  then have id: "stoul (decimal me) = Inr (of_nat me)"
    by (rule stoul_decimal)
  have cut: "ucast (of_nat me :: 64 word) = (of_nat me :: node_id)"
    using assms(2,3) by (simp add: unsigned_of_nat take_bit_nat_eq_self)
  have args: "stoi (argv ! 2) = Inr node_num" "stoi (argv ! 3) = Inr win" "stoi (argv ! 4) = Inr local"
    "stoi (argv ! 5) = Inr log_size" "argv ! 1 = decimal me" "length argv = 6"
    using assms(4) by (simp_all add: assms(5) stoi_to_string)
  have "naxos_main E mode load ap argv = Inr (Some (fst (NaxosD_start E log_size nd), filters, cmds, snd (NaxosD_start E log_size nd)))"
    using args id cut r(1) by (simp add: naxos_main_def Let_def split_def)
  then show ?thesis
    using r(2-5) started nid by (auto simp: node_ok_def)
qed

theorem naxos_main_starts_witness:
  "\<exists>nd filters cmds effs. naxos_main number_wire Mode_default (\<lambda>_. localhost_3) slash_append
      [''naxos'', decimal 2, ''3'', ''1'', ''0'', ''2''] = Inr (Some (nd, filters, cmds, effs)) \<and> length effs = 2"
proof -
  have "length (cfg_host ((\<lambda>_. localhost_3) (naxos_config_file 3 0))) = 3"
    by (simp add: localhost_3_def)
  moreover have "map to_string_int [3, 1, 0, 2] = [''3'', ''1'', ''0'', ''2'']"
    by code_simp
  ultimately show ?thesis
    using naxos_main_starts [where load = "\<lambda>_. localhost_3" and node_num = 3 and local = 0 and n = 3 and me = 2 and win = 1
        and log_size = 2 and prog = "''naxos''" and E = number_wire and mode = Mode_default and ap = slash_append]
    by (fastforce simp: quorum_of_size_def simp del: upt_Suc)
qed

text \<open>
  A number that names no host does not stop the program: it is cut to 16 bits. So 65536 starts
  a second node 0, the master.
\<close>

lemma naxos_main_cuts_number:
  assumes "k < 2 ^ 64"
  shows "naxos_main E mode load ap (prog # decimal k # args) = naxos_main E mode load ap (prog # decimal (k mod 65536) # args)"
proof -
  have "ucast (of_nat k :: 64 word) = (of_nat (k mod 65536) :: node_id)"
    using assms by (simp add: unsigned_of_nat take_bit_nat_eq_self word_of_nat_eq_iff take_bit_eq_mod)
  moreover have "ucast (of_nat (k mod 65536) :: 64 word) = (of_nat (k mod 65536) :: node_id)"
    by (simp add: unsigned_of_nat take_bit_nat_eq_self)
  moreover have "stoul (decimal k) = Inr (of_nat k)" "stoul (decimal (k mod 65536)) = Inr (of_nat (k mod 65536))"
    using assms by (intro stoul_decimal; simp)+
  ultimately show ?thesis
    by (simp add: naxos_main_def)
qed

lemma main_usage:
  "length argv < 6 \<Longrightarrow> naxos_main E mode load ap argv = Inr None"
  "length argv < 4 \<Longrightarrow> client_main E mode uri argv = Inr None"
  "length argv < 6 \<Longrightarrow> benchmark_main E mode load ap now argv = Inr None"
  by (simp_all add: naxos_main_def client_main_def benchmark_main_def)

lemma client_main_starts:
  assumes "\<forall>i \<in> {win, rat, node}. - (2 ^ 31) \<le> i \<and> i < 2 ^ 31"
  shows "client_main E mode uri (prog # map to_string_int [win, rat, node])
    = Inr (Some (Client_init E mode uri (uri_name E ''/ndn/thu/naxos'') win rat node))"
  using assms by (simp add: client_main_def stoi_to_string)

end
