(* ===== verification/Task_Schedulers.thy ===== *)
theory Task_Schedulers
  imports Std_Containers "HOL-Library.Multiset"
begin

text \<open>
  \<^verbatim>\<open>threadpool/task_adaptors.hpp\<close> and \<^verbatim>\<open>threadpool/scheduling_policies.hpp\<close>: the tasks of the thread
  pool and the three containers a pool can be built with. A scheduling policy is a template
  argument of the pool, so it is a record of operations here; \<open>task_scheduler\<close> states what
  the pool relies on, and each policy is an instance.
\<close>

section \<open>Task adaptors\<close>

text \<open>\<^verbatim>\<open>prio_task_func\<close>; an empty function object does nothing when it is called.\<close>

record 'f prio_task =
  prio :: "32 word"
  prio_function :: "'f option"

definition prio_less :: "'f prio_task \<Rightarrow> 'f prio_task \<Rightarrow> bool" where
  "prio_less a b \<longleftrightarrow> prio a < prio b"

definition prio_call :: "('f \<Rightarrow> 'st \<Rightarrow> 'st) \<Rightarrow> 'f prio_task \<Rightarrow> 'st \<Rightarrow> 'st" where
  "prio_call run t s = (case prio_function t of None \<Rightarrow> s | Some f \<Rightarrow> run f s)"

text \<open>
  \<^verbatim>\<open>looped_task_func\<close>: the break between two calls, in seconds and nanoseconds, all in
  \<^verbatim>\<open>unsigned int\<close>.
\<close>

record 'f looped_task =
  loop_function :: "'f option"
  break_s :: "32 word"
  break_ns :: "32 word"

definition new_looped :: "'f option \<Rightarrow> 32 word \<Rightarrow> 'f looped_task" where
  "new_looped f interval =
     (let s = interval div 1000
      in \<lparr>loop_function = f, break_s = s, break_ns = (interval - s * 1000) * 1000 * 1000\<rparr>)"

datatype loop_action = Sleep "32 word" "32 word" | Yield

definition loop_break :: "'f looped_task \<Rightarrow> loop_action" where
  "loop_break t = (if 0 < break_s t \<or> 0 < break_ns t then Sleep (break_s t) (break_ns t) else Yield)"

text \<open>
  The loop: the function is called until it returns false; \<open>run\<close> is what one call does to the
  state. The actions between the calls are collected.
\<close>

partial_function (option) looped_loop :: "('f \<Rightarrow> 'st \<Rightarrow> bool \<times> 'st) \<Rightarrow> 'f \<Rightarrow> 'f looped_task \<Rightarrow> 'st \<Rightarrow>
    loop_action list \<Rightarrow> ('st \<times> loop_action list) option" where
  "looped_loop run f t s acts =
     (case run f s of (go, s') \<Rightarrow>
        if go then looped_loop run f t s' (acts @ [loop_break t]) else Some (s', acts))"

definition looped_call :: "('f \<Rightarrow> 'st \<Rightarrow> bool \<times> 'st) \<Rightarrow> 'f looped_task \<Rightarrow> 'st \<Rightarrow>
    ('st \<times> loop_action list) option" where
  "looped_call run t s =
     (case loop_function t of
        None \<Rightarrow> Some (s, [])
      | Some f \<Rightarrow> looped_loop run f t s (if loop_break t = Yield then [] else [loop_break t]))"

section \<open>Scheduling policies\<close>

record ('t, 's) scheduler_ops =
  sch_push :: "'t \<Rightarrow> 's \<Rightarrow> 's \<times> bool"
  sch_pop :: "'s \<Rightarrow> 's res"
  sch_top :: "'s \<Rightarrow> 't res"
  sch_size :: "'s \<Rightarrow> nat"
  sch_empty :: "'s \<Rightarrow> bool"
  sch_clear :: "'s \<Rightarrow> 's"

text \<open>\<^verbatim>\<open>std::deque\<close>: reading or removing the front of an empty one is undefined.\<close>

definition deque_pop_front :: "'t list \<Rightarrow> 't list res" where
  "deque_pop_front q = (case q of [] \<Rightarrow> Inl Empty_front | _ # q' \<Rightarrow> Inr q')"

definition deque_front :: "'t list \<Rightarrow> 't res" where
  "deque_front q = (case q of [] \<Rightarrow> Inl Empty_front | t # _ \<Rightarrow> Inr t)"

definition fifo_scheduler :: "('t, 't list) scheduler_ops" where
  "fifo_scheduler = \<lparr>sch_push = (\<lambda>t q. (q @ [t], True)), sch_pop = deque_pop_front,
     sch_top = deque_front, sch_size = length, sch_empty = (\<lambda>q. q = []), sch_clear = (\<lambda>_. [])\<rparr>"

definition lifo_scheduler :: "('t, 't list) scheduler_ops" where
  "lifo_scheduler = \<lparr>sch_push = (\<lambda>t q. (t # q, True)), sch_pop = deque_pop_front,
     sch_top = deque_front, sch_size = length, sch_empty = (\<lambda>q. q = []), sch_clear = (\<lambda>_. [])\<rparr>"

text \<open>
  \<^verbatim>\<open>std::priority_queue\<close> with \<^verbatim>\<open>operator<\<close>: its top is an element that is not less than any
  other. It is kept here as a list in descending order. The standard leaves open which of
  several equal elements comes first; the model takes the oldest, and no theorem needs it.
\<close>

fun pqueue_push :: "'f prio_task \<Rightarrow> 'f prio_task list \<Rightarrow> 'f prio_task list" where
  "pqueue_push t [] = [t]"
| "pqueue_push t (u # q) = (if prio_less u t then t # u # q else u # pqueue_push t q)"

text \<open>\<^verbatim>\<open>clear\<close> of the priority policy pops until nothing is left.\<close>

fun pqueue_clear :: "'f prio_task list \<Rightarrow> 'f prio_task list" where
  "pqueue_clear [] = []"
| "pqueue_clear (t # q) = pqueue_clear q"

definition prio_scheduler :: "('f prio_task, 'f prio_task list) scheduler_ops" where
  "prio_scheduler = \<lparr>sch_push = (\<lambda>t q. (pqueue_push t q, True)), sch_pop = deque_pop_front,
     sch_top = deque_front, sch_size = length, sch_empty = (\<lambda>q. q = []), sch_clear = pqueue_clear\<rparr>"

section \<open>What a pool relies on\<close>

text \<open>
  A scheduler is a bag of tasks: a push adds one, the top is one of them and a pop removes
  exactly it. \<open>sok\<close> is the policy's own invariant, \<open>earlier\<close> its order.
\<close>

locale task_scheduler =
  fixes K :: "('t, 's) scheduler_ops"
    and sok :: "'s \<Rightarrow> bool"
    and bag :: "'s \<Rightarrow> 't multiset"
  assumes ok_push: "sok s \<Longrightarrow> sok (fst (sch_push K t s))"
    and push_accepts: "snd (sch_push K t s)"
    and bag_push: "bag (fst (sch_push K t s)) = add_mset t (bag s)"
    and empty_bag: "sch_empty K s \<longleftrightarrow> bag s = {#}"
    and size_bag: "sch_size K s = size (bag s)"
    and ok_clear: "sok (sch_clear K s)"
    and bag_clear: "bag (sch_clear K s) = {#}"
    and take_ex: "sok s \<Longrightarrow> bag s \<noteq> {#} \<Longrightarrow> \<exists>t s'. sch_top K s = Inr t \<and> sch_pop K s = Inr s'
      \<and> sok s' \<and> bag s = add_mset t (bag s')"
begin

text \<open>Taking everything that is there.\<close>

fun drain :: "nat \<Rightarrow> 's \<Rightarrow> 't list res" where
  "drain 0 s = Inr []"
| "drain (Suc n) s = res_bind (sch_top K s) (\<lambda>t. res_bind (sch_pop K s) (\<lambda>s'.
     res_bind (drain n s') (\<lambda>ts. Inr (t # ts))))"

text \<open>Every task that was pushed comes out exactly once, and nothing else does.\<close>

lemma drain_bag: "sok s \<Longrightarrow> \<exists>ts. drain (sch_size K s) s = Inr ts \<and> mset ts = bag s"
proof (induction "sch_size K s" arbitrary: s)
  case 0
  then show ?case by (simp add: size_bag)
next
  case (Suc n)
  then have "bag s \<noteq> {#}" by (auto simp: size_bag)
  then obtain t s' where take: "sch_top K s = Inr t" "sch_pop K s = Inr s'" "sok s'" "bag s = add_mset t (bag s')"
    using take_ex Suc.prems by blast
  then have "n = sch_size K s'"
    using Suc.hyps(2) by (simp add: size_bag)
  then obtain ts where "drain n s' = Inr ts" "mset ts = bag s'"
    using Suc.hyps(1) take(3) by blast
  then show ?case
    using Suc.hyps(2) [symmetric] take by simp
qed

end

lemma deque_simps [simp]:
  "deque_front (t # q) = Inr t" "deque_pop_front (t # q) = Inr q"
  "deque_front [] = Inl Empty_front" "deque_pop_front [] = Inl Empty_front"
  by (simp_all add: deque_front_def deque_pop_front_def)

interpretation fifo_sched: task_scheduler fifo_scheduler "\<lambda>_. True" mset
  by unfold_locales (auto simp: fifo_scheduler_def neq_Nil_conv)

interpretation lifo_sched: task_scheduler lifo_scheduler "\<lambda>_. True" mset
  by unfold_locales (auto simp: lifo_scheduler_def neq_Nil_conv)

definition descending :: "'f prio_task list \<Rightarrow> bool" where
  "descending q \<longleftrightarrow> sorted_wrt (\<lambda>a b. \<not> prio_less a b) q"

lemma descending_nil [simp]: "descending []"
  by (simp add: descending_def)

lemma mset_pqueue_push [simp]: "mset (pqueue_push t q) = add_mset t (mset q)"
  by (induction t q rule: pqueue_push.induct) auto

lemma set_pqueue_push: "set (pqueue_push t q) = insert t (set q)"
  by (induction t q rule: pqueue_push.induct) auto

lemma descending_push: "descending q \<Longrightarrow> descending (pqueue_push t q)"
  unfolding descending_def
  by (induction t q rule: pqueue_push.induct) (auto simp: set_pqueue_push prio_less_def)

lemma pqueue_clear_nil [simp]: "pqueue_clear q = []"
  by (induction q) simp_all

interpretation prio_sched: task_scheduler prio_scheduler descending mset
proof unfold_locales
  show "\<exists>t s'. sch_top prio_scheduler s = Inr t \<and> sch_pop prio_scheduler s = Inr s'
      \<and> descending s' \<and> mset s = add_mset t (mset s')" if "descending s" "mset s \<noteq> {#}" for s :: "'a prio_task list"
    using that by (cases s) (auto simp: prio_scheduler_def descending_def)
qed (auto simp: prio_scheduler_def descending_push)

section \<open>The order of each policy\<close>

text \<open>Pushing a list of tasks, then taking them all.\<close>

definition push_all :: "('t, 's) scheduler_ops \<Rightarrow> 't list \<Rightarrow> 's \<Rightarrow> 's" where
  "push_all K ts s = fold (\<lambda>t s. fst (sch_push K t s)) ts s"

fun take_all :: "('t, 's) scheduler_ops \<Rightarrow> nat \<Rightarrow> 's \<Rightarrow> 't list res" where
  "take_all K 0 s = Inr []"
| "take_all K (Suc n) s = res_bind (sch_top K s) (\<lambda>t. res_bind (sch_pop K s) (\<lambda>s'.
     res_bind (take_all K n s') (\<lambda>ts. Inr (t # ts))))"

lemma take_all_deque:
  "sch_top K = deque_front \<Longrightarrow> sch_pop K = deque_pop_front \<Longrightarrow> take_all K (length q) q = Inr q"
  by (induction q) auto

lemma push_all_prio:
  "descending q \<Longrightarrow> descending (push_all prio_scheduler ts q) \<and> mset (push_all prio_scheduler ts q) = mset ts + mset q"
  by (induction ts arbitrary: q) (simp_all add: push_all_def prio_scheduler_def descending_push)

lemma prio_sel: "sch_top prio_scheduler = deque_front" "sch_pop prio_scheduler = deque_pop_front"
  by (simp_all add: prio_scheduler_def)

text \<open>
  The three policies: tasks come out in the order they went in, in the opposite order, and
  by descending priority; in each case exactly the tasks that went in.
\<close>

theorem scheduler_orders:
  "take_all fifo_scheduler (length ts) (push_all fifo_scheduler ts []) = Inr ts
   \<and> take_all lifo_scheduler (length ts) (push_all lifo_scheduler ts []) = Inr (rev ts)
   \<and> (\<exists>us. take_all prio_scheduler (length ps) (push_all prio_scheduler ps []) = Inr us
        \<and> mset us = mset ps \<and> sorted_wrt (\<lambda>a b. \<not> prio a < prio b) us)"
proof (intro conjI)
  have fifo: "push_all fifo_scheduler ts q = q @ ts" for q
    by (induction ts arbitrary: q) (simp_all add: push_all_def fifo_scheduler_def)
  show "take_all fifo_scheduler (length ts) (push_all fifo_scheduler ts []) = Inr ts"
    unfolding fifo append_Nil by (rule take_all_deque) (simp_all add: fifo_scheduler_def)
  have lifo: "push_all lifo_scheduler ts q = rev ts @ q" for q
    by (induction ts arbitrary: q) (simp_all add: push_all_def lifo_scheduler_def)
  show "take_all lifo_scheduler (length ts) (push_all lifo_scheduler ts []) = Inr (rev ts)"
    using take_all_deque [of lifo_scheduler "rev ts"] unfolding lifo by (simp add: lifo_scheduler_def)
  let ?q = "push_all prio_scheduler ps []"
  have q: "descending ?q" "mset ?q = mset ps"
    using push_all_prio [of "[]" ps] by (simp_all add: descending_def)
  then have "length ?q = length ps"
    by (metis size_mset)
  then have "take_all prio_scheduler (length ps) ?q = Inr ?q"
    by (metis take_all_deque prio_sel)
  then show "\<exists>us. take_all prio_scheduler (length ps) ?q = Inr us
      \<and> mset us = mset ps \<and> sorted_wrt (\<lambda>a b. \<not> prio a < prio b) us"
    using q by (auto simp: descending_def prio_less_def)
qed

section \<open>The break of a looped task\<close>

text \<open>
  The break of a looped task is the interval it was given: the seconds and nanoseconds
  are computed without wrap-around for every \<^verbatim>\<open>unsigned int\<close> of milliseconds, and the
  nanoseconds stay below one second.
\<close>

theorem looped_break_exact:
  "unat (break_s (new_looped f interval)) * 1000 + unat (break_ns (new_looped f interval)) div 1000000 = unat interval
   \<and> unat (break_ns (new_looped f interval)) < 1000000000"
proof -
  let ?i = "unat interval" and ?s = "interval div 1000"
  have s: "unat ?s = ?i div 1000"
    by (simp add: unat_div)
  have "?i < 2 ^ 32"
    using unsigned_less [of interval] by simp
  then have m: "unat (?s * 1000) = ?i div 1000 * 1000"
    by (simp add: unat_word_ariths s)
  have d: "unat (interval - ?s * 1000) = ?i mod 1000"
    by (simp add: unat_mod minus_div_mult_eq_mod)
  have "unat (w * 1000 * 1000) = unat w * 1000000" if "unat w < 1000" for w :: "32 word"
    using that by (simp add: unat_word_ariths)
  from this [of "interval - ?s * 1000"]
  have "unat ((interval - ?s * 1000) * 1000 * 1000) = ?i mod 1000 * 1000000"
    by (simp only: d)
  then show ?thesis
    by (simp add: new_looped_def Let_def s)
qed

end
