(* ===== verification/Task_Pool.thy ===== *)
theory Task_Pool
  imports Task_Schedulers
begin

text \<open>
  \<^verbatim>\<open>threadpool/detail/pool_core.hpp\<close> with \<^verbatim>\<open>worker_thread.hpp\<close>, the size and shutdown policies
  and the front end \<^verbatim>\<open>pool.hpp\<close>: a monitor around a scheduler, and worker threads that take
  tasks from it. Each section under \<open>m_monitor\<close> is one definition; a worker's place in its
  run loop is its state. A condition variable is the set of workers that wait on it: a wait
  ends after a notification, or on its own, as the library allows.

  Four fields that the code does not have record what happened: the tasks accepted, taken,
  done and thrown away.
\<close>

section \<open>State\<close>

text \<open>
  Where a worker is: about to call \<open>execute_task\<close>, in the wait of the fetch loop (notified or
  not), running a task, between the end of its run loop and \<open>worker_destructed\<close>, or ended.
\<close>

datatype 't worker = Fetching | Waiting | Notified | Running 't | Leaving | Gone

record ('t, 's) pool =
  worker_count :: nat
  target_count :: nat
  active_count :: nat
  scheduler :: 's
  terminating :: bool
  terminated :: "nat list"
  workers :: "'t worker list"
  idle_signals :: nat
  accepted :: "'t list"
  taken :: "'t list"
  completed :: "'t list"
  failed :: "'t list"
  cleared :: "'t multiset"

definition new_core :: "('t, 's) scheduler_ops \<Rightarrow> 's \<Rightarrow> ('t, 's) pool" where
  "new_core K s = \<lparr>worker_count = 0, target_count = 0, active_count = 0, scheduler = sch_clear K s,
     terminating = False, terminated = [], workers = [], idle_signals = 0,
     accepted = [], taken = [], completed = [], failed = [], cleared = {#}\<rparr>"

section \<open>Condition variables\<close>

definition set_worker :: "nat \<Rightarrow> 't worker \<Rightarrow> ('t, 's) pool \<Rightarrow> ('t, 's) pool" where
  "set_worker w x P = P\<lparr>workers := (workers P)[w := x]\<rparr>"

definition is_waiting :: "'t worker \<Rightarrow> bool" where
  "is_waiting x = (case x of Waiting \<Rightarrow> True | _ \<Rightarrow> False)"

text \<open>
  \<^verbatim>\<open>m_task_or_terminate_workers_event\<close>: \<open>notify_one\<close> wakes one of the waiting workers, any of
  them (the choice is an argument), and is lost when there is none.
\<close>

definition notify_one :: "nat \<Rightarrow> ('t, 's) pool \<Rightarrow> ('t, 's) pool" where
  "notify_one w P = (if w < length (workers P) \<and> is_waiting (workers P ! w) then set_worker w Notified P else P)"

definition notify_all :: "('t, 's) pool \<Rightarrow> ('t, 's) pool" where
  "notify_all P = P\<lparr>workers := map (\<lambda>x. if is_waiting x then Notified else x) (workers P)\<rparr>"

text \<open>\<^verbatim>\<open>m_worker_idle_or_terminated_event.notify_all()\<close>, for the threads in \<^verbatim>\<open>wait\<close>: counted.\<close>

definition signal_idle :: "('t, 's) pool \<Rightarrow> ('t, 's) pool" where
  "signal_idle P = P\<lparr>idle_signals := Suc (idle_signals P)\<rparr>"

section \<open>Operations of the pool\<close>

definition pool_schedule :: "('t, 's) scheduler_ops \<Rightarrow> 't \<Rightarrow> nat \<Rightarrow> ('t, 's) pool \<Rightarrow> ('t, 's) pool \<times> bool" where
  "pool_schedule K t w P =
     (case sch_push K t (scheduler P) of (s, ok) \<Rightarrow>
        if ok then (notify_one w (P\<lparr>scheduler := s, accepted := accepted P @ [t]\<rparr>), True)
        else (P\<lparr>scheduler := s\<rparr>, False))"

definition pool_pending :: "('t, 's) scheduler_ops \<Rightarrow> ('t, 's) pool \<Rightarrow> nat" where
  "pool_pending K P = sch_size K (scheduler P)"

definition pool_empty :: "('t, 's) scheduler_ops \<Rightarrow> ('t, 's) pool \<Rightarrow> bool" where
  "pool_empty K P = sch_empty K (scheduler P)"

definition pool_clear :: "('t, 's) scheduler_ops \<Rightarrow> ('s \<Rightarrow> 't multiset) \<Rightarrow> ('t, 's) pool \<Rightarrow> ('t, 's) pool" where
  "pool_clear K bag P = P\<lparr>scheduler := sch_clear K (scheduler P), cleared := cleared P + bag (scheduler P)\<rparr>"

text \<open>The condition on which \<^verbatim>\<open>wait(task_threshold)\<close> returns.\<close>

definition pool_wait_over :: "('t, 's) scheduler_ops \<Rightarrow> nat \<Rightarrow> ('t, 's) pool \<Rightarrow> bool" where
  "pool_wait_over K threshold P =
     (if threshold = 0 then active_count P = 0 \<and> sch_empty K (scheduler P)
      else active_count P + sch_size K (scheduler P) \<le> threshold)"

text \<open>
  Both waits. A waiting thread sees the pool when it has the monitor, at first and after each
  wake-up; \<open>None\<close> is that it waits on. For the timed wait a wake-up is in time, or is the end of
  the time.
\<close>

fun pool_wait :: "('t, 's) scheduler_ops \<Rightarrow> nat \<Rightarrow> ('t, 's) pool \<Rightarrow> ('t, 's) pool list \<Rightarrow> ('t, 's) pool option" where
  "pool_wait K threshold P ws =
     (if pool_wait_over K threshold P then Some P
      else case ws of [] \<Rightarrow> None | P' # ws' \<Rightarrow> pool_wait K threshold P' ws')"

declare pool_wait.simps [simp del]

fun pool_timed_wait :: "('t, 's) scheduler_ops \<Rightarrow> nat \<Rightarrow> ('t, 's) pool \<Rightarrow> (('t, 's) pool \<times> bool) list \<Rightarrow>
    bool option" where
  "pool_timed_wait K threshold P ws =
     (if pool_wait_over K threshold P then Some True
      else case ws of [] \<Rightarrow> None
           | (P', in_time) # ws' \<Rightarrow> if in_time then pool_timed_wait K threshold P' ws' else Some False)"

declare pool_timed_wait.simps [simp del]

text \<open>
  \<^verbatim>\<open>resize\<close>: new workers start in \<open>Fetching\<close>. \<open>threads\<close> is how many threads the system can
  still give; the next one throws \<^verbatim>\<open>thread_resource_error\<close>.
\<close>

fun grow_workers :: "nat \<Rightarrow> ('t, 's) pool \<Rightarrow> ('t, 's) pool" where
  "grow_workers 0 P = P"
| "grow_workers (Suc k) P = grow_workers k
     (P\<lparr>workers := workers P @ [Fetching], worker_count := worker_count P + 1, active_count := active_count P + 1\<rparr>)"

definition pool_resize :: "nat \<Rightarrow> nat \<Rightarrow> ('t, 's) pool \<Rightarrow> ('t, 's) pool \<times> bool" where
  "pool_resize threads n P =
     (if terminating P then (P, False)
      else let P1 = P\<lparr>target_count := n\<rparr>
           in if worker_count P1 \<le> n
              then (grow_workers (min threads (n - worker_count P1)) P1, n - worker_count P1 \<le> threads)
              else (notify_all P1, True))"

text \<open>\<^verbatim>\<open>terminate_all_workers\<close>, before and after its wait.\<close>

definition terminate_begin :: "('t, 's) pool \<Rightarrow> ('t, 's) pool" where
  "terminate_begin P = notify_all (P\<lparr>terminating := True, target_count := 0\<rparr>)"

definition terminate_ready :: "('t, 's) pool \<Rightarrow> bool" where
  "terminate_ready P \<longleftrightarrow> active_count P = 0"

definition terminate_end :: "('t, 's) pool \<Rightarrow> ('t, 's) pool" where
  "terminate_end P = P\<lparr>terminated := []\<rparr>"

section \<open>Operations of a worker\<close>

text \<open>The fetch loop up to its next wait, or to the task it takes.\<close>

definition fetch_task :: "('t, 's) scheduler_ops \<Rightarrow> nat \<Rightarrow> ('t, 's) pool \<Rightarrow> ('t, 's) pool res" where
  "fetch_task K w P =
     (if sch_empty K (scheduler P)
      then if target_count P < worker_count P then Inr (set_worker w Leaving P)
           else Inr (set_worker w Waiting (signal_idle (P\<lparr>active_count := active_count P - 1\<rparr>)))
      else res_bind (sch_top K (scheduler P)) (\<lambda>t. res_bind (sch_pop K (scheduler P)) (\<lambda>s.
             Inr (set_worker w (Running t) (P\<lparr>scheduler := s, taken := taken P @ [t]\<rparr>)))))"

definition execute_task :: "('t, 's) scheduler_ops \<Rightarrow> nat \<Rightarrow> ('t, 's) pool \<Rightarrow> ('t, 's) pool res" where
  "execute_task K w P =
     (if target_count P < worker_count P then Inr (set_worker w Leaving P) else fetch_task K w P)"

text \<open>The end of a wait: the worker has the monitor again and goes on with the loop.\<close>

definition resume_worker :: "('t, 's) scheduler_ops \<Rightarrow> nat \<Rightarrow> ('t, 's) pool \<Rightarrow> ('t, 's) pool res" where
  "resume_worker K w P = fetch_task K w (P\<lparr>active_count := active_count P + 1\<rparr>)"

definition task_done :: "nat \<Rightarrow> 't \<Rightarrow> ('t, 's) pool \<Rightarrow> ('t, 's) pool" where
  "task_done w t P = set_worker w Fetching (P\<lparr>completed := completed P @ [t]\<rparr>)"

definition worker_destructed :: "nat \<Rightarrow> ('t, 's) pool \<Rightarrow> ('t, 's) pool" where
  "worker_destructed w P =
     (let P1 = signal_idle (set_worker w Gone
            (P\<lparr>worker_count := worker_count P - 1, active_count := active_count P - 1\<rparr>))
      in if terminating P then P1\<lparr>terminated := terminated P1 @ [w]\<rparr> else P1)"

text \<open>The size policy \<^verbatim>\<open>static_size\<close>: it replaces a worker that died.\<close>

definition static_worker_died :: "nat \<Rightarrow> nat \<Rightarrow> ('t, 's) pool \<Rightarrow> ('t, 's) pool" where
  "static_worker_died threads new_worker_count P = fst (pool_resize threads (new_worker_count + 1) P)"

text \<open>
  A task that throws ends its worker; the size policy replaces it, with
  \<^verbatim>\<open>resize(new_worker_count + 1)\<close>.
\<close>

definition held_list :: "'t worker \<Rightarrow> 't list" where
  "held_list x = (case x of Running t \<Rightarrow> [t] | _ \<Rightarrow> [])"

lemma held_list_simps [simp]:
  "held_list Fetching = []" "held_list Waiting = []" "held_list Notified = []" "held_list (Running t) = [t]"
  "held_list Leaving = []" "held_list Gone = []"
  by (simp_all add: held_list_def)

definition worker_at :: "('t, 's) pool \<Rightarrow> nat \<Rightarrow> 't worker" where
  "worker_at P w = (if w < length (workers P) then workers P ! w else Gone)"

definition worker_died :: "nat \<Rightarrow> nat \<Rightarrow> ('t, 's) pool \<Rightarrow> ('t, 's) pool" where
  "worker_died threads w P =
     (let P1 = signal_idle (set_worker w Gone
            (P\<lparr>worker_count := worker_count P - 1, active_count := active_count P - 1,
               failed := failed P @ held_list (worker_at P w)\<rparr>))
      in if terminating P then P1\<lparr>terminated := terminated P1 @ [w]\<rparr>
         else static_worker_died threads (worker_count P1) P1)"

text \<open>
  \<^verbatim>\<open>scope_guard.hpp\<close>: a function that is called at the end of a scope unless the guard has been
  disabled. The guard of \<^verbatim>\<open>worker_thread::run\<close> reports a worker whose loop ends by an exception;
  when the loop ends by itself the guard is disabled and the worker reports its own end.
\<close>

record 'p scope_guard =
  guard_function :: "('p \<Rightarrow> 'p) option"
  guard_active :: bool

definition new_guard :: "('p \<Rightarrow> 'p) option \<Rightarrow> 'p scope_guard" where
  "new_guard f = \<lparr>guard_function = f, guard_active = True\<rparr>"

definition guard_disable :: "'p scope_guard \<Rightarrow> 'p scope_guard" where
  "guard_disable g = g\<lparr>guard_active := False\<rparr>"

definition guard_exit :: "'p scope_guard \<Rightarrow> 'p \<Rightarrow> 'p" where
  "guard_exit g p = (if guard_active g then case guard_function g of None \<Rightarrow> p | Some f \<Rightarrow> f p else p)"

definition run_ends :: "bool \<Rightarrow> nat \<Rightarrow> nat \<Rightarrow> ('t, 's) pool \<Rightarrow> ('t, 's) pool" where
  "run_ends throws threads w P =
     (let notify_exception = new_guard (Some (worker_died threads w))
      in if throws then guard_exit notify_exception P
         else guard_exit (guard_disable notify_exception) (worker_destructed w P))"

lemma run_ends_simps [simp]:
  "run_ends True threads w P = worker_died threads w P"
  "run_ends False threads w P = worker_destructed w P"
  by (simp_all add: run_ends_def new_guard_def guard_disable_def guard_exit_def)

section \<open>Runs\<close>

datatype 't pool_event =
    Schedule 't nat
  | Clear_pool
  | Resize nat nat
  | Execute nat
  | Wake nat
  | Task_done nat
  | Task_throws nat nat
  | Destructed nat
  | Terminate
  | Terminated

text \<open>A step that is not possible in the state has no result; none of them faults.\<close>

fun pool_do :: "('t, 's) scheduler_ops \<Rightarrow> ('s \<Rightarrow> 't multiset) \<Rightarrow> 't pool_event \<Rightarrow> ('t, 's) pool \<Rightarrow>
    ('t, 's) pool res option" where
  "pool_do K bag (Schedule t w) P =
     (if (\<exists>x \<in> set (workers P). is_waiting x) \<longrightarrow> is_waiting (worker_at P w)
      then Some (Inr (fst (pool_schedule K t w P))) else None)"
| "pool_do K bag Clear_pool P = Some (Inr (pool_clear K bag P))"
| "pool_do K bag (Resize threads n) P = Some (Inr (fst (pool_resize threads n P)))"
| "pool_do K bag (Execute w) P = (case worker_at P w of Fetching \<Rightarrow> Some (execute_task K w P) | _ \<Rightarrow> None)"
| "pool_do K bag (Wake w) P =
     (case worker_at P w of Waiting \<Rightarrow> Some (resume_worker K w P) | Notified \<Rightarrow> Some (resume_worker K w P) | _ \<Rightarrow> None)"
| "pool_do K bag (Task_done w) P =
     (case worker_at P w of Running t \<Rightarrow> Some (Inr (task_done w t P)) | _ \<Rightarrow> None)"
| "pool_do K bag (Task_throws threads w) P =
     (case worker_at P w of Running t \<Rightarrow> Some (Inr (run_ends True threads w P)) | _ \<Rightarrow> None)"
| "pool_do K bag (Destructed w) P =
     (case worker_at P w of Leaving \<Rightarrow> Some (Inr (run_ends False 0 w P)) | _ \<Rightarrow> None)"
| "pool_do K bag Terminate P = Some (Inr (terminate_begin P))"
| "pool_do K bag Terminated P = (if terminate_ready P then Some (Inr (terminate_end P)) else None)"

fun pool_run :: "('t, 's) scheduler_ops \<Rightarrow> ('s \<Rightarrow> 't multiset) \<Rightarrow> 't pool_event list \<Rightarrow> ('t, 's) pool \<Rightarrow>
    ('t, 's) pool res option" where
  "pool_run K bag [] P = Some (Inr P)"
| "pool_run K bag (e # es) P =
     (case pool_do K bag e P of
        None \<Rightarrow> None
      | Some (Inl f) \<Rightarrow> Some (Inl f)
      | Some (Inr P') \<Rightarrow> pool_run K bag es P')"

text \<open>
  \<^verbatim>\<open>thread_pool\<close>: the constructor, and what its shutdown controller runs when the last
  reference goes: wait until nothing is left, then terminate.
\<close>

definition new_pool :: "('t, 's) scheduler_ops \<Rightarrow> 's \<Rightarrow> nat \<Rightarrow> nat \<Rightarrow> ('t, 's) pool" where
  "new_pool K s threads n = fst (pool_resize threads n (new_core K s))"

datatype shutdown_policy = Wait_for_all_tasks | Wait_for_active_tasks | Immediately

definition shutdown_begin :: "('t, 's) scheduler_ops \<Rightarrow> ('s \<Rightarrow> 't multiset) \<Rightarrow> shutdown_policy \<Rightarrow> ('t, 's) pool \<Rightarrow>
    ('t, 's) pool" where
  "shutdown_begin K bag policy P =
     (case policy of
        Wait_for_all_tasks \<Rightarrow> P
      | Wait_for_active_tasks \<Rightarrow> pool_clear K bag P
      | Immediately \<Rightarrow> pool_clear K bag P)"

text \<open>The second half, for the waiting policies once their \<^verbatim>\<open>wait()\<close> is over.\<close>

definition shutdown_terminate :: "('t, 's) scheduler_ops \<Rightarrow> shutdown_policy \<Rightarrow> ('t, 's) pool \<Rightarrow> ('t, 's) pool option" where
  "shutdown_terminate K policy P =
     (if policy = Immediately \<or> pool_wait_over K 0 P then Some (terminate_begin P) else None)"

end
