(* ===== verification/Task_Pool_Inv.thy ===== *)
theory Task_Pool_Inv
  imports Task_Pool
begin

text \<open>
  The invariant of the thread pool, for any scheduling policy: the counters count what they
  say, and every accepted task is in exactly one place. All operations keep it and none
  faults, whatever the order of their critical sections.
\<close>

section \<open>Sums over the workers\<close>

definition live :: "'t worker \<Rightarrow> nat" where
  "live x = (case x of Gone \<Rightarrow> 0 | _ \<Rightarrow> 1)"

definition busy :: "'t worker \<Rightarrow> nat" where
  "busy x = (case x of Fetching \<Rightarrow> 1 | Running t \<Rightarrow> 1 | Leaving \<Rightarrow> 1 | _ \<Rightarrow> 0)"

definition held :: "'t worker \<Rightarrow> 't multiset" where
  "held x = (case x of Running t \<Rightarrow> {#t#} | _ \<Rightarrow> {#})"

lemma worker_simps [simp]:
  "live Fetching = 1" "live Waiting = 1" "live Notified = 1" "live (Running t) = 1" "live Leaving = 1" "live Gone = 0"
  "busy Fetching = 1" "busy Waiting = 0" "busy Notified = 0" "busy (Running t) = 1" "busy Leaving = 1" "busy Gone = 0"
  "held Fetching = {#}" "held Waiting = {#}" "held Notified = {#}" "held (Running t) = {#t#}" "held Leaving = {#}"
  "held Gone = {#}" "is_waiting Waiting" "\<not> is_waiting Fetching" "\<not> is_waiting Notified" "\<not> is_waiting (Running t)"
  "\<not> is_waiting Leaving" "\<not> is_waiting Gone"
  by (simp_all add: live_def busy_def held_def is_waiting_def)

abbreviation tally :: "('t worker \<Rightarrow> 'a :: cancel_comm_monoid_add) \<Rightarrow> 't worker list \<Rightarrow> 'a" where
  "tally f ws \<equiv> sum_list (map f ws)"

lemma tally_update: "w < length ws \<Longrightarrow> tally f (ws[w := x]) + f (ws ! w) = tally f ws + f x"
  by (induction ws arbitrary: w) (auto simp: ac_simps split: nat.splits)

lemma tally_notify: "f Notified = f Waiting \<Longrightarrow> tally f (map (\<lambda>x. if is_waiting x then Notified else x) ws) = tally f ws"
proof (induction ws)
  case (Cons x ws)
  then show ?case by (cases x) simp_all
qed simp

lemma is_waiting_iff: "is_waiting x \<longleftrightarrow> x = Waiting"
  by (cases x) simp_all

section \<open>The invariant\<close>

definition counts_ok :: "('t, 's) pool \<Rightarrow> bool" where
  "counts_ok P \<longleftrightarrow> worker_count P = tally live (workers P) \<and> active_count P = tally busy (workers P)"

definition tasks_ok :: "('s \<Rightarrow> 't multiset) \<Rightarrow> ('t, 's) pool \<Rightarrow> bool" where
  "tasks_ok bag P \<longleftrightarrow>
     mset (accepted P) = mset (completed P) + mset (failed P) + tally held (workers P) + bag (scheduler P) + cleared P
   \<and> mset (taken P) = mset (completed P) + mset (failed P) + tally held (workers P)"

definition pool_inv :: "('s \<Rightarrow> bool) \<Rightarrow> ('s \<Rightarrow> 't multiset) \<Rightarrow> ('t, 's) pool \<Rightarrow> bool" where
  "pool_inv ok bag P \<longleftrightarrow> counts_ok P \<and> tasks_ok bag P \<and> ok (scheduler P)"

lemma set_worker_sel [simp]:
  "workers (set_worker w x P) = (workers P)[w := x]" "worker_count (set_worker w x P) = worker_count P"
  "target_count (set_worker w x P) = target_count P" "active_count (set_worker w x P) = active_count P"
  "scheduler (set_worker w x P) = scheduler P" "terminating (set_worker w x P) = terminating P"
  "terminated (set_worker w x P) = terminated P" "idle_signals (set_worker w x P) = idle_signals P"
  "accepted (set_worker w x P) = accepted P" "taken (set_worker w x P) = taken P"
  "completed (set_worker w x P) = completed P" "failed (set_worker w x P) = failed P"
  "cleared (set_worker w x P) = cleared P"
  by (simp_all add: set_worker_def)

lemma signal_idle_sel [simp]:
  "workers (signal_idle P) = workers P" "worker_count (signal_idle P) = worker_count P"
  "target_count (signal_idle P) = target_count P" "active_count (signal_idle P) = active_count P"
  "scheduler (signal_idle P) = scheduler P" "terminating (signal_idle P) = terminating P"
  "terminated (signal_idle P) = terminated P" "idle_signals (signal_idle P) = Suc (idle_signals P)"
  "accepted (signal_idle P) = accepted P" "taken (signal_idle P) = taken P"
  "completed (signal_idle P) = completed P" "failed (signal_idle P) = failed P" "cleared (signal_idle P) = cleared P"
  by (simp_all add: signal_idle_def)

lemma notify_all_sel [simp]:
  "worker_count (notify_all P) = worker_count P" "target_count (notify_all P) = target_count P"
  "active_count (notify_all P) = active_count P" "scheduler (notify_all P) = scheduler P"
  "terminating (notify_all P) = terminating P" "terminated (notify_all P) = terminated P"
  "accepted (notify_all P) = accepted P" "taken (notify_all P) = taken P" "idle_signals (notify_all P) = idle_signals P"
  "completed (notify_all P) = completed P" "failed (notify_all P) = failed P" "cleared (notify_all P) = cleared P"
  "length (workers (notify_all P)) = length (workers P)"
  by (simp_all add: notify_all_def)

lemma notify_all_total: "f Notified = f Waiting \<Longrightarrow> tally f (workers (notify_all P)) = tally f (workers P)"
  using tally_notify [of f "workers P"] by (simp add: notify_all_def comp_def)

lemma notify_one_cases:
  obtains "notify_one w P = P"
  | "w < length (workers P)" "workers P ! w = Waiting" "notify_one w P = set_worker w Notified P"
proof (cases "w < length (workers P) \<and> workers P ! w = Waiting")
  case True
  then show ?thesis by (intro that(2)) (simp_all add: notify_one_def is_waiting_iff)
next
  case False
  then show ?thesis by (intro that(1)) (auto simp: notify_one_def is_waiting_iff)
qed

lemma notify_one_total: "f Notified = f Waiting \<Longrightarrow> tally f (workers (notify_one w P)) = tally f (workers P)"
proof (cases rule: notify_one_cases [of w P])
  assume "f Notified = f Waiting" and "w < length (workers P)" "workers P ! w = Waiting"
    and "notify_one w P = set_worker w Notified P"
  then show ?thesis
    using tally_update [of w "workers P" f Notified] by (auto simp: list_update_same_conv)
qed simp

lemma notify_one_sel [simp]:
  "worker_count (notify_one w P) = worker_count P" "target_count (notify_one w P) = target_count P"
  "active_count (notify_one w P) = active_count P" "scheduler (notify_one w P) = scheduler P"
  "accepted (notify_one w P) = accepted P" "taken (notify_one w P) = taken P"
  "completed (notify_one w P) = completed P" "failed (notify_one w P) = failed P" "cleared (notify_one w P) = cleared P"
  "terminating (notify_one w P) = terminating P" "terminated (notify_one w P) = terminated P" "idle_signals (notify_one w P) = idle_signals P"
  by (simp_all add: notify_one_def)

lemma grow_workers_eq:
  "grow_workers k P = P\<lparr>workers := workers P @ replicate k Fetching, worker_count := worker_count P + k,
     active_count := active_count P + k\<rparr>"
proof (induction k arbitrary: P)
  case (Suc k)
  have "replicate k Fetching = Fetching # replicate k Fetching" if False using that by simp
  then show ?case
    by (simp add: Suc replicate_append_same [symmetric])
qed simp

lemma sum_replicate [simp]:
  "sum_list (replicate k (Suc 0)) = k" "sum_list (replicate k ({#} :: 'a multiset)) = {#}"
  by (induction k) simp_all

section \<open>Every operation keeps it\<close>

context task_scheduler
begin

abbreviation pinv :: "('t, 's) pool \<Rightarrow> bool" where
  "pinv \<equiv> pool_inv sok bag"

lemmas pinv_defs = pool_inv_def counts_ok_def tasks_ok_def

lemma pinv_resize: "pinv P \<Longrightarrow> pinv (fst (pool_resize threads n P))"
  by (auto simp: pool_resize_def Let_def pinv_defs grow_workers_eq notify_all_total)

lemma pinv_new: "pinv (new_pool K s threads n)"
  unfolding new_pool_def
  by (rule pinv_resize) (simp add: pinv_defs new_core_def bag_clear ok_clear)

lemma pinv_schedule: "pinv P \<Longrightarrow> pinv (fst (pool_schedule K t w P))"
  using ok_push push_accepts bag_push
  by (auto simp: pool_schedule_def pinv_defs notify_one_total split: prod.splits) (metis fst_conv snd_conv)+

lemma pinv_clear: "pinv P \<Longrightarrow> pinv (pool_clear K bag P)"
  by (auto simp: pool_clear_def pinv_defs bag_clear ok_clear)

lemma pinv_terminate: "pinv P \<Longrightarrow> pinv (terminate_begin P)" "pinv P \<Longrightarrow> pinv (terminate_end P)"
  by (auto simp: terminate_begin_def terminate_end_def pinv_defs notify_all_total)

text \<open>A worker in the fetch loop is counted as active but holds no task.\<close>

definition fetching :: "nat \<Rightarrow> ('t, 's) pool \<Rightarrow> bool" where
  "fetching w P \<longleftrightarrow> w < length (workers P) \<and> live (workers P ! w) = 1 \<and> held (workers P ! w) = {#}
     \<and> worker_count P = tally live (workers P) \<and> active_count P + busy (workers P ! w) = tally busy (workers P) + 1
     \<and> tasks_ok bag P \<and> sok (scheduler P)"

lemma set_worker_total:
  assumes "fetching w P" and "live x = 1"
  shows "tally live ((workers P)[w := x]) = tally live (workers P)"
    "tally busy ((workers P)[w := x]) + 1 = active_count P + busy x"
    "tally held ((workers P)[w := x]) = tally held (workers P) + held x"
  using assms tally_update [of w "workers P" live x] tally_update [of w "workers P" busy x]
    tally_update [of w "workers P" held x]
  by (auto simp: fetching_def)

lemma fetch_keeps:
  assumes "fetching w P"
  shows "\<exists>P'. fetch_task K w P = Inr P' \<and> pinv P'"
proof (cases "sch_empty K (scheduler P)")
  case True
  then show ?thesis
    using assms set_worker_total [OF assms, of Leaving] set_worker_total [OF assms, of Waiting]
    by (auto simp: fetch_task_def pinv_defs fetching_def)
next
  case False
  then obtain t s where take: "sch_top K (scheduler P) = Inr t" "sch_pop K (scheduler P) = Inr s" "sok s"
    "bag (scheduler P) = add_mset t (bag s)"
    using assms take_ex empty_bag unfolding fetching_def by blast
  then show ?thesis
    using assms False set_worker_total [OF assms, of "Running t"]
    by (auto simp: fetch_task_def pinv_defs fetching_def)
qed

lemma leave_keeps: "fetching w P \<Longrightarrow> pinv (set_worker w Leaving P)"
  using set_worker_total [of w P Leaving] by (auto simp: pinv_defs fetching_def)

lemma worker_at_cases: "worker_at P w = x \<Longrightarrow> x \<noteq> Gone \<Longrightarrow> w < length (workers P) \<and> workers P ! w = x"
  by (auto simp: worker_at_def split: if_splits)

lemma pinv_execute:
  assumes "pinv P" and "worker_at P w = Fetching"
  shows "\<exists>P'. execute_task K w P = Inr P' \<and> pinv P'"
proof -
  have "fetching w P"
    using assms worker_at_cases [of P w Fetching] by (simp add: fetching_def pinv_defs)
  then show ?thesis
    using fetch_keeps leave_keeps by (auto simp: execute_task_def)
qed

lemma pinv_resume:
  assumes "pinv P" and "worker_at P w = Waiting \<or> worker_at P w = Notified"
  shows "\<exists>P'. resume_worker K w P = Inr P' \<and> pinv P'"
proof -
  have "fetching w (P\<lparr>active_count := active_count P + 1\<rparr>)"
    using assms worker_at_cases [of P w Waiting] worker_at_cases [of P w Notified]
    by (auto simp: fetching_def pinv_defs)
  then show ?thesis
    unfolding resume_worker_def by (rule fetch_keeps)
qed

lemma pinv_done:
  assumes "pinv P" and "worker_at P w = Running t"
  shows "pinv (task_done w t P)"
proof -
  have w: "w < length (workers P)" "workers P ! w = Running t"
    using worker_at_cases [OF assms(2)] by simp_all
  have "tally live ((workers P)[w := Fetching]) = tally live (workers P)"
    "tally busy ((workers P)[w := Fetching]) = tally busy (workers P)"
    "add_mset t (tally held ((workers P)[w := Fetching])) = tally held (workers P)"
    using tally_update [OF w(1), of live Fetching] tally_update [OF w(1), of busy Fetching]
      tally_update [OF w(1), of held Fetching] by (simp_all add: w(2))
  then show ?thesis
    using assms(1) by (simp add: task_done_def pinv_defs flip: add_mset_add_single)
qed

lemma gone_total:
  assumes "w < length (workers P)" and "live (workers P ! w) = 1" and "busy (workers P ! w) = 1"
  shows "tally live ((workers P)[w := Gone]) = tally live (workers P) - 1"
    "tally busy ((workers P)[w := Gone]) = tally busy (workers P) - 1"
    "tally held ((workers P)[w := Gone]) + held (workers P ! w) = tally held (workers P)"
  using assms tally_update [OF assms(1), of live Gone] tally_update [OF assms(1), of busy Gone]
    tally_update [OF assms(1), of held Gone] by simp_all

lemma pinv_destructed:
  assumes "pinv P" and "worker_at P w = Leaving"
  shows "pinv (worker_destructed w P)"
proof -
  have w: "w < length (workers P)" "workers P ! w = Leaving"
    using worker_at_cases [OF assms(2)] by simp_all
  then show ?thesis
    using assms(1) gone_total [of w P] by (simp add: worker_destructed_def Let_def pinv_defs)
qed

lemma pinv_died:
  assumes "pinv P" and "worker_at P w = Running t"
  shows "pinv (worker_died threads w P)"
proof -
  have w: "w < length (workers P)" "workers P ! w = Running t"
    using worker_at_cases [OF assms(2)] by simp_all
  note g = gone_total [of w P, OF w(1)]
  let ?P1 = "signal_idle (set_worker w Gone
    (P\<lparr>worker_count := worker_count P - 1, active_count := active_count P - 1, failed := failed P @ held_list (worker_at P w)\<rparr>))"
  have "pinv ?P1"
    using assms g by (auto simp: pinv_defs w(2))
  moreover have "pinv (?P1\<lparr>terminated := xs\<rparr>)" for xs
    using calculation by (simp add: pinv_defs)
  ultimately show ?thesis
    using pinv_resize by (simp add: worker_died_def static_worker_died_def Let_def)
qed

lemma pinv_do:
  assumes "pinv P" and "pool_do K bag e P = Some r"
  shows "\<exists>P'. r = Inr P' \<and> pinv P'"
proof (cases e)
  case (Schedule t w)
  then show ?thesis
    using assms(2) pinv_schedule [OF assms(1), of t w] by (auto split: if_splits)
next
  case Clear_pool
  then show ?thesis
    using assms(2) pinv_clear [OF assms(1)] by auto
next
  case (Resize threads n)
  then show ?thesis
    using assms(2) pinv_resize [OF assms(1), of threads n] by auto
next
  case (Execute w)
  then show ?thesis
    using assms(2) pinv_execute [OF assms(1), of w] by (auto split: worker.splits)
next
  case (Wake w)
  then show ?thesis
    using assms(2) pinv_resume [OF assms(1), of w] by (auto split: worker.splits)
next
  case (Task_done w)
  then show ?thesis
    using assms(2) pinv_done [OF assms(1), of w] by (auto split: worker.splits)
next
  case (Task_throws threads w)
  then show ?thesis
    using assms(2) pinv_died [OF assms(1), of w _ threads] by (auto split: worker.splits)
next
  case (Destructed w)
  then show ?thesis
    using assms(2) pinv_destructed [OF assms(1), of w] by (auto split: worker.splits)
next
  case Terminate
  then show ?thesis
    using assms(2) pinv_terminate(1) [OF assms(1)] by auto
next
  case Terminated
  then show ?thesis
    using assms(2) pinv_terminate(2) [OF assms(1)] by (auto split: if_splits)
qed

lemma pinv_run:
  "pinv P \<Longrightarrow> pool_run K bag es P = Some r \<Longrightarrow> \<exists>P'. r = Inr P' \<and> pinv P'"
proof (induction es arbitrary: P)
  case (Cons e es)
  then obtain r' where r': "pool_do K bag e P = Some r'"
    by (auto split: option.splits)
  then obtain P' where "r' = Inr P'" "pinv P'"
    using pinv_do Cons.prems(1) by blast
  then show ?case
    using Cons r' by simp
qed auto

end

end
