(* ===== verification/Pool_Front.thy ===== *)
theory Pool_Front
  imports Task_Pool_Props
begin

text \<open>
  \<^verbatim>\<open>threadpool/pool.hpp\<close> and \<^verbatim>\<open>size_policies.hpp\<close>: the class \<^verbatim>\<open>thread_pool\<close>, whose objects are handles on
  one core. Handles are copied and destroyed; the end of the last one runs the shutdown policy,
  in the thread that drops it. Size controllers hold the core too, but do not keep it in use.
\<close>

section \<open>Handles\<close>

text \<open>
  Where the shutdown is: not begun, in \<^verbatim>\<open>wait()\<close>, in the wait of \<^verbatim>\<open>terminate_all_workers\<close>, over.
  The argument is the thread that runs it: a worker, inside the task it runs, or another one.
\<close>

datatype shutdown_stage = In_use | Waiting_tasks "nat option" | Terminating "nat option" | Shut

record ('t, 's) thread_pool =
  core :: "('t, 's) pool"
  handles :: nat
  controllers :: nat
  stage :: shutdown_stage

text \<open>\<^verbatim>\<open>static_size::init\<close> and the constructor.\<close>

definition static_size_init :: "nat \<Rightarrow> nat \<Rightarrow> ('t, 's) pool \<Rightarrow> ('t, 's) pool" where
  "static_size_init threads n P = fst (pool_resize threads n P)"

definition thread_pool_init :: "('t, 's) scheduler_ops \<Rightarrow> 's \<Rightarrow> nat \<Rightarrow> nat \<Rightarrow> ('t, 's) thread_pool" where
  "thread_pool_init K s threads n =
     \<lparr>core = static_size_init threads n (new_core K s), handles = 1, controllers = 0, stage = In_use\<rparr>"

text \<open>
  The implicit copy constructor and destructor. The last handle takes \<^verbatim>\<open>m_shutdown_controller\<close>
  with it, whose deleter is \<^verbatim>\<open>pool_core::shutdown\<close>.
\<close>

definition copy_handle :: "('t, 's) thread_pool \<Rightarrow> ('t, 's) thread_pool" where
  "copy_handle F = F\<lparr>handles := handles F + 1\<rparr>"

definition drop_handle :: "('t, 's) scheduler_ops \<Rightarrow> ('s \<Rightarrow> 't multiset) \<Rightarrow> shutdown_policy \<Rightarrow> nat option \<Rightarrow>
    ('t, 's) thread_pool \<Rightarrow> ('t, 's) thread_pool" where
  "drop_handle K bag policy thread F =
     (let F1 = F\<lparr>handles := handles F - 1\<rparr>
      in if handles F1 = 0 then F1\<lparr>core := shutdown_begin K bag policy (core F1), stage := Waiting_tasks thread\<rparr> else F1)"

text \<open>
  The rest of the shutdown. \<^verbatim>\<open>terminate_all_workers\<close> gives the monitor up only if it has to wait
  for active workers.
\<close>

definition shutdown_step :: "('t, 's) scheduler_ops \<Rightarrow> shutdown_policy \<Rightarrow> ('t, 's) thread_pool \<Rightarrow> ('t, 's) thread_pool option" where
  "shutdown_step K policy F =
     (case stage F of
        Waiting_tasks thread \<Rightarrow>
          (case shutdown_terminate K policy (core F) of
             None \<Rightarrow> None
           | Some P \<Rightarrow> Some (if policy = Immediately then F\<lparr>core := P, stage := Shut\<rparr>
                             else if terminate_ready P then F\<lparr>core := terminate_end P, stage := Shut\<rparr>
                             else F\<lparr>core := P, stage := Terminating thread\<rparr>))
      | Terminating thread \<Rightarrow>
          if terminate_ready (core F) then Some (F\<lparr>core := terminate_end (core F), stage := Shut\<rparr>) else None
      | _ \<Rightarrow> None)"

section \<open>The operations of a handle\<close>

text \<open>They are those of the core. \<^verbatim>\<open>resize\<close> goes through a size controller and the size policy.\<close>

definition front_schedule :: "('t, 's) scheduler_ops \<Rightarrow> 't \<Rightarrow> nat \<Rightarrow> ('t, 's) thread_pool \<Rightarrow> ('t, 's) thread_pool \<times> bool" where
  "front_schedule K t w F = (case pool_schedule K t w (core F) of (P, ok) \<Rightarrow> (F\<lparr>core := P\<rparr>, ok))"

text \<open>
  \<^verbatim>\<open>pool_adaptors.hpp\<close>: an object with a method \<^verbatim>\<open>run\<close>, a task, and a task for a pool behind a pointer. The
  first is written for pointers to pools, too.
\<close>

definition schedule_runnable :: "('t, 's) scheduler_ops \<Rightarrow> ('obj \<Rightarrow> 't) \<Rightarrow> 'obj \<Rightarrow> nat \<Rightarrow> ('t, 's) thread_pool option \<Rightarrow>
    (('t, 's) thread_pool \<times> bool) res" where
  "schedule_runnable K run obj w p = res_bind (deref p) (\<lambda>F. Inr (front_schedule K (run obj) w F))"

definition schedule_task :: "('t, 's) scheduler_ops \<Rightarrow> 't \<Rightarrow> nat \<Rightarrow> ('t, 's) thread_pool \<Rightarrow> ('t, 's) thread_pool \<times> bool" where
  "schedule_task K t w F = front_schedule K t w F"

definition schedule_task_ptr :: "('t, 's) scheduler_ops \<Rightarrow> 't \<Rightarrow> nat \<Rightarrow> ('t, 's) thread_pool option \<Rightarrow>
    (('t, 's) thread_pool \<times> bool) res" where
  "schedule_task_ptr K t w p = res_bind (deref p) (\<lambda>F. Inr (front_schedule K t w F))"

definition front_clear :: "('t, 's) scheduler_ops \<Rightarrow> ('s \<Rightarrow> 't multiset) \<Rightarrow> ('t, 's) thread_pool \<Rightarrow> ('t, 's) thread_pool" where
  "front_clear K bag F = F\<lparr>core := pool_clear K bag (core F)\<rparr>"

definition front_size :: "('t, 's) thread_pool \<Rightarrow> nat" where
  "front_size F = worker_count (core F)"

definition front_active :: "('t, 's) thread_pool \<Rightarrow> nat" where
  "front_active F = active_count (core F)"

definition front_pending :: "('t, 's) scheduler_ops \<Rightarrow> ('t, 's) thread_pool \<Rightarrow> nat" where
  "front_pending K F = pool_pending K (core F)"

definition front_empty :: "('t, 's) scheduler_ops \<Rightarrow> ('t, 's) thread_pool \<Rightarrow> bool" where
  "front_empty K F = pool_empty K (core F)"

definition front_wait :: "('t, 's) scheduler_ops \<Rightarrow> nat \<Rightarrow> ('t, 's) thread_pool \<Rightarrow> ('t, 's) thread_pool list \<Rightarrow>
    ('t, 's) pool option" where
  "front_wait K threshold F ws = pool_wait K threshold (core F) (map core ws)"

definition front_timed_wait :: "('t, 's) scheduler_ops \<Rightarrow> nat \<Rightarrow> ('t, 's) thread_pool \<Rightarrow>
    (('t, 's) thread_pool \<times> bool) list \<Rightarrow> bool option" where
  "front_timed_wait K threshold F ws = pool_timed_wait K threshold (core F) (map (map_prod core id) ws)"

definition get_controller :: "('t, 's) thread_pool \<Rightarrow> ('t, 's) thread_pool" where
  "get_controller F = F\<lparr>controllers := controllers F + 1\<rparr>"

definition static_size_resize :: "nat \<Rightarrow> nat \<Rightarrow> ('t, 's) pool \<Rightarrow> ('t, 's) pool \<times> bool" where
  "static_size_resize threads n P = pool_resize threads n P"

definition controller_resize :: "nat \<Rightarrow> nat \<Rightarrow> ('t, 's) thread_pool \<Rightarrow> ('t, 's) thread_pool \<times> bool" where
  "controller_resize threads n F = (case static_size_resize threads n (core F) of (P, ok) \<Rightarrow> (F\<lparr>core := P\<rparr>, ok))"

text \<open>
  Who holds the core: handles and controllers; the deleter of the shutdown controller, until it
  has run; every worker that has not ended; and the terminated workers that the core itself
  keeps, each of which has a pointer to its pool.
\<close>

definition core_refs :: "('t, 's) thread_pool \<Rightarrow> nat" where
  "core_refs F = handles F + controllers F + (if stage F = Shut then 0 else 1)
     + tally live (workers (core F)) + length (terminated (core F))"

section \<open>Runs\<close>

datatype 't front_event =
    Copy_handle
  | Drop_handle "nat option"
  | Front_schedule 't nat
  | Front_clear
  | Get_controller
  | Copy_controller
  | Drop_controller
  | Controller_resize nat nat
  | Worker "'t pool_event"
  | Shutdown_step

text \<open>A worker that runs the shutdown inside its task does not come to the end of the task before.\<close>

definition shutting_down :: "('t, 's) thread_pool \<Rightarrow> nat \<Rightarrow> bool" where
  "shutting_down F w \<longleftrightarrow> stage F = Waiting_tasks (Some w) \<or> stage F = Terminating (Some w)"

fun worker_can :: "'t pool_event \<Rightarrow> ('t, 's) thread_pool \<Rightarrow> bool" where
  "worker_can (Execute w) F = True"
| "worker_can (Wake w) F = True"
| "worker_can (Task_done w) F = (\<not> shutting_down F w)"
| "worker_can (Task_throws threads w) F = (\<not> shutting_down F w)"
| "worker_can (Destructed w) F = True"
| "worker_can e F = False"

definition thread_runs :: "nat option \<Rightarrow> ('t, 's) thread_pool \<Rightarrow> bool" where
  "thread_runs thread F = (case thread of None \<Rightarrow> True | Some w \<Rightarrow> held_list (worker_at (core F) w) \<noteq> [])"

definition on_core :: "('t, 's) scheduler_ops \<Rightarrow> ('s \<Rightarrow> 't multiset) \<Rightarrow> 't pool_event \<Rightarrow> ('t, 's) thread_pool \<Rightarrow>
    ('t, 's) thread_pool res option" where
  "on_core K bag e F = map_option (map_sum id (\<lambda>P. F\<lparr>core := P\<rparr>)) (pool_do K bag e (core F))"

fun front_do :: "('t, 's) scheduler_ops \<Rightarrow> ('s \<Rightarrow> 't multiset) \<Rightarrow> shutdown_policy \<Rightarrow> 't front_event \<Rightarrow> ('t, 's) thread_pool \<Rightarrow>
    ('t, 's) thread_pool res option" where
  "front_do K bag policy Copy_handle F = (if 0 < handles F then Some (Inr (copy_handle F)) else None)"
| "front_do K bag policy (Drop_handle thread) F =
     (if 0 < handles F \<and> thread_runs thread F then Some (Inr (drop_handle K bag policy thread F)) else None)"
| "front_do K bag policy (Front_schedule t w) F =
     (if 0 < handles F \<and> ((\<exists>x \<in> set (workers (core F)). is_waiting x) \<longrightarrow> is_waiting (worker_at (core F) w))
      then Some (Inr (fst (front_schedule K t w F))) else None)"
| "front_do K bag policy Front_clear F = (if 0 < handles F then Some (Inr (front_clear K bag F)) else None)"
| "front_do K bag policy Get_controller F = (if 0 < handles F then Some (Inr (get_controller F)) else None)"
| "front_do K bag policy Copy_controller F = (if 0 < controllers F then Some (Inr (get_controller F)) else None)"
| "front_do K bag policy Drop_controller F =
     (if 0 < controllers F then Some (Inr (F\<lparr>controllers := controllers F - 1\<rparr>)) else None)"
| "front_do K bag policy (Controller_resize threads n) F =
     (if 0 < controllers F then Some (Inr (fst (controller_resize threads n F))) else None)"
| "front_do K bag policy (Worker e) F = (if worker_can e F then on_core K bag e F else None)"
| "front_do K bag policy Shutdown_step F = map_option Inr (shutdown_step K policy F)"

fun front_run :: "('t, 's) scheduler_ops \<Rightarrow> ('s \<Rightarrow> 't multiset) \<Rightarrow> shutdown_policy \<Rightarrow> 't front_event list \<Rightarrow> ('t, 's) thread_pool \<Rightarrow>
    ('t, 's) thread_pool res option" where
  "front_run K bag policy [] F = Some (Inr F)"
| "front_run K bag policy (e # es) F =
     (case front_do K bag policy e F of
        None \<Rightarrow> None
      | Some (Inl f) \<Rightarrow> Some (Inl f)
      | Some (Inr F') \<Rightarrow> front_run K bag policy es F')"

section \<open>One step of the core\<close>

lemma held_list_nonempty: "held_list x \<noteq> [] \<longleftrightarrow> (\<exists>t. x = Running t)"
  by (cases x) simp_all

text \<open>A worker that is in a place other than the wait is moved by its own steps only.\<close>

lemma worker_at_set_worker: "i \<noteq> w \<Longrightarrow> worker_at (set_worker i x P) w = worker_at P w"
  by (simp add: worker_at_def)

lemma worker_at_updates [simp]:
  "worker_at (P\<lparr>scheduler := s\<rparr>) w = worker_at P w" "worker_at (P\<lparr>worker_count := k\<rparr>) w = worker_at P w"
  "worker_at (P\<lparr>active_count := k\<rparr>) w = worker_at P w" "worker_at (P\<lparr>target_count := k\<rparr>) w = worker_at P w"
  "worker_at (P\<lparr>terminating := b\<rparr>) w = worker_at P w" "worker_at (P\<lparr>terminated := l\<rparr>) w = worker_at P w"
  "worker_at (P\<lparr>accepted := ts\<rparr>) w = worker_at P w" "worker_at (P\<lparr>taken := ts\<rparr>) w = worker_at P w"
  "worker_at (P\<lparr>completed := ts\<rparr>) w = worker_at P w" "worker_at (P\<lparr>failed := ts\<rparr>) w = worker_at P w"
  "worker_at (P\<lparr>cleared := m\<rparr>) w = worker_at P w" "worker_at (signal_idle P) w = worker_at P w"
  by (simp_all add: worker_at_def)

lemma worker_at_notify:
  assumes "worker_at P w \<noteq> Waiting"
  shows "worker_at (notify_one i P) w = worker_at P w" "worker_at (notify_all P) w = worker_at P w"
  using assms by (auto simp: notify_one_def notify_all_def worker_at_def nth_list_update is_waiting_iff)

lemma worker_at_resize:
  assumes "worker_at P w \<noteq> Waiting" and "worker_at P w \<noteq> Gone"
  shows "worker_at (fst (pool_resize threads n P)) w = worker_at P w"
proof -
  have "worker_at (grow_workers k Q) w = worker_at Q w" if "worker_at Q w \<noteq> Gone" for k and Q :: "('a, 'b) pool"
    using that by (auto simp: grow_workers_eq worker_at_def nth_append split: if_splits)
  then show ?thesis
    using assms by (simp add: pool_resize_def Let_def worker_at_notify)
qed

lemma worker_at_fetch:
  "fetch_task K i P = Inr P' \<Longrightarrow> i \<noteq> w \<Longrightarrow> worker_at P' w = worker_at P w"
  by (auto simp: fetch_task_def res_bind_Inr_iff worker_at_set_worker split: if_splits)

lemma running_stays:
  assumes "pool_do K bag e P = Some (Inr P')" and t: "worker_at P w = Running t"
    and "e \<noteq> Task_done w" and "\<forall>threads. e \<noteq> Task_throws threads w"
  shows "worker_at P' w = Running t"
proof (cases e)
  case (Schedule u i)
  then show ?thesis
    using assms(1) t by (auto simp: pool_schedule_def worker_at_notify split: prod.splits if_splits)
next
  case Clear_pool
  then show ?thesis
    using assms(1) t by (auto simp: pool_clear_def)
next
  case (Resize threads n)
  then show ?thesis
    using assms(1) t worker_at_resize [of P w] by auto
next
  case (Execute i)
  then have "i \<noteq> w" "execute_task K i P = Inr P'"
    using assms(1) t by (auto split: worker.splits)
  then show ?thesis
    using t worker_at_fetch [of K i P P' w] by (auto simp: execute_task_def worker_at_set_worker split: if_splits)
next
  case (Wake i)
  then have "i \<noteq> w" "resume_worker K i P = Inr P'"
    using assms(1) t by (auto split: worker.splits)
  then show ?thesis
    using t by (auto simp: resume_worker_def dest!: worker_at_fetch [of K i _ P' w])
next
  case (Task_done i)
  then show ?thesis
    using assms t by (auto simp: task_done_def worker_at_set_worker split: worker.splits)
next
  case (Task_throws threads i)
  then have i: "i \<noteq> w" "P' = worker_died threads i P"
    using assms by (auto split: worker.splits)
  then show ?thesis
    using t by (auto simp: worker_died_def static_worker_died_def Let_def worker_at_resize worker_at_set_worker)
next
  case (Destructed i)
  then have "i \<noteq> w" "P' = worker_destructed i P"
    using assms t by (auto split: worker.splits)
  then show ?thesis
    using t by (simp add: worker_destructed_def Let_def worker_at_set_worker)
next
  case Terminate
  then show ?thesis
    using assms(1) t by (auto simp: terminate_begin_def worker_at_notify)
next
  case Terminated
  then show ?thesis
    using assms(1) t by (auto simp: terminate_end_def split: if_splits)
qed

lemma terminating_same:
  "pool_do K bag e P = Some (Inr P') \<Longrightarrow> e \<noteq> Terminate \<Longrightarrow> terminating P' = terminating P"
  by (cases e) (auto simp: pool_schedule_def pool_clear_def pool_resize_def Let_def grow_workers_eq execute_task_def
      resume_worker_def fetch_task_def res_bind_Inr_iff task_done_def worker_destructed_def worker_died_def
      static_worker_died_def terminate_end_def split: prod.splits if_splits worker.splits)

text \<open>The events of the core that a front can cause, outside the shutdown.\<close>

definition core_event :: "('t, 's) thread_pool \<Rightarrow> 't pool_event \<Rightarrow> bool" where
  "core_event F e \<longleftrightarrow> e \<noteq> Terminate \<and> e \<noteq> Terminated
     \<and> (stage F \<noteq> In_use \<longrightarrow> e \<noteq> Clear_pool \<and> (\<forall>t w. e \<noteq> Schedule t w))
     \<and> (\<forall>w. shutting_down F w \<longrightarrow> e \<noteq> Task_done w \<and> (\<forall>threads. e \<noteq> Task_throws threads w))"

lemma on_core_Inr:
  "on_core K bag e F = Some (Inr F') \<longleftrightarrow> (\<exists>P. pool_do K bag e (core F) = Some (Inr P) \<and> F' = F\<lparr>core := P\<rparr>)"
  by (auto simp: on_core_def map_sum_Inr_iff)

lemma on_core_Inl: "on_core K bag e F = Some (Inl f) \<Longrightarrow> pool_do K bag e (core F) = Some (Inl f)"
  by (auto simp: on_core_def map_sum_Inl_iff)

lemma shutdown_step_cases:
  assumes "shutdown_step K policy F = Some F'"
  obtains (terminate) thread where "stage F = Waiting_tasks thread"
    "policy = Immediately \<or> pool_wait_over K 0 (core F)" "handles F' = handles F"
    "core F' = terminate_begin (core F) \<and> (policy = Immediately \<and> stage F' = Shut \<or> stage F' = Terminating thread)
      \<or> core F' = terminate_end (terminate_begin (core F)) \<and> stage F' = Shut"
  | (finish) thread where "stage F = Terminating thread" "stage F' = Shut" "handles F' = handles F"
    "core F' = terminate_end (core F)"
  using assms
  by (auto simp: shutdown_step_def shutdown_terminate_def split: shutdown_stage.splits option.splits if_splits)

lemma front_do_cases:
  assumes "front_do K bag policy e F = Some (Inr F')" and "stage F = In_use \<longleftrightarrow> 0 < handles F"
  obtains (core_moves) e' where "core_event F e'" "pool_do K bag e' (core F) = Some (Inr (core F'))"
    "stage F' = stage F" "handles F' = handles F"
  | (core_rests) "core F' = core F" "stage F' = stage F" "0 < handles F' \<longleftrightarrow> 0 < handles F"
  | (shutdown_begins) thread where "stage F = In_use" "thread_runs thread F" "handles F' = 0"
    "core F' = shutdown_begin K bag policy (core F)" "stage F' = Waiting_tasks thread"
  | (shutdown_goes_on) "shutdown_step K policy F = Some F'"
proof (cases e)
  case (Drop_handle thread)
  then show thesis
    using assms that(2,3) by (auto simp: drop_handle_def Let_def split: if_splits)
next
  case (Front_schedule t w)
  then show thesis
    using assms that(1) [of "Schedule t w"]
    by (auto simp: core_event_def front_schedule_def shutting_down_def split: if_splits prod.splits)
next
  case Front_clear
  then show thesis
    using assms that(1) [of Clear_pool] by (auto simp: core_event_def front_clear_def shutting_down_def split: if_splits)
next
  case (Controller_resize threads n)
  then show thesis
    using assms that(1) [of "Resize threads n"]
    by (auto simp: core_event_def controller_resize_def static_size_resize_def split: if_splits prod.splits)
next
  case (Worker e')
  then have "worker_can e' F" "\<exists>P. pool_do K bag e' (core F) = Some (Inr P) \<and> F' = F\<lparr>core := P\<rparr>"
    using assms(1) by (auto simp: on_core_Inr split: if_splits)
  moreover have "core_event F e'"
    using calculation(1) by (cases e') (auto simp: core_event_def)
  ultimately show thesis
    using that(1) by auto
next
  case Shutdown_step
  then show thesis
    using assms(1) that(4) by auto
qed (use assms that(2) in \<open>auto simp: copy_handle_def get_controller_def split: if_splits\<close>)

end
