(* ===== verification/Pool_Front_Props.thy ===== *)
theory Pool_Front_Props
  imports Pool_Front
begin

text \<open>
  What the users of a pool see, whatever its handles, controllers and workers do: when the
  destructor of the last handle has returned all tasks have been run; it returns, unless it was
  called in a task; and the memory of the core is never given back if a worker is still there.
\<close>

section \<open>The invariant of the handles\<close>

text \<open>
  A pool is in use as long as it has a handle; a worker that runs the shutdown is in a task;
  and once the tasks have been waited for, or thrown away, there are none.
\<close>

definition no_tasks :: "('s \<Rightarrow> 't multiset) \<Rightarrow> ('t, 's) pool \<Rightarrow> bool" where
  "no_tasks bag P \<longleftrightarrow> bag (scheduler P) = {#} \<and> tally held (workers P) = {#}"

definition ending :: "('t, 's) thread_pool \<Rightarrow> bool" where
  "ending F \<longleftrightarrow> stage F = Shut \<or> (\<exists>thread. stage F = Terminating thread)"

definition front_inv :: "('s \<Rightarrow> bool) \<Rightarrow> ('s \<Rightarrow> 't multiset) \<Rightarrow> shutdown_policy \<Rightarrow> ('t, 's) thread_pool \<Rightarrow> bool" where
  "front_inv ok bag policy F \<longleftrightarrow> pool_inv ok bag (core F)
     \<and> (stage F = In_use \<longleftrightarrow> 0 < handles F)
     \<and> (\<forall>w. shutting_down F w \<longrightarrow> held_list (worker_at (core F) w) \<noteq> [])
     \<and> (terminating (core F) \<longleftrightarrow> ending F)
     \<and> (stage F \<noteq> In_use \<and> policy \<noteq> Wait_for_all_tasks \<longrightarrow> bag (scheduler (core F)) = {#})
     \<and> (ending F \<and> policy \<noteq> Immediately \<longrightarrow> no_tasks bag (core F))"

lemma ending_simps:
  "stage F = In_use \<Longrightarrow> \<not> ending F" "stage F = Waiting_tasks thread \<Longrightarrow> \<not> ending F"
  "stage F = Terminating thread \<Longrightarrow> ending F" "stage F = Shut \<Longrightarrow> ending F"
  by (auto simp: ending_def)

lemma no_task_running:
  assumes "tally held (workers P) = {#}"
  shows "worker_at P w \<noteq> Running t"
proof
  assume "worker_at P w = Running t"
  then have "w < length (workers P)" "workers P ! w = Running t"
    by (auto simp: worker_at_def split: if_splits)
  then show False
    using assms tally_update [of w "workers P" held Gone] by simp
qed

context task_scheduler
begin

abbreviation finv :: "shutdown_policy \<Rightarrow> ('t, 's) thread_pool \<Rightarrow> bool" where
  "finv \<equiv> front_inv sok bag"

text \<open>A pool without waiting tasks gets none but by a call of \<open>schedule\<close>.\<close>

lemma empty_stays:
  assumes "pinv P" and "pool_do K bag e P = Some (Inr P')" and "\<forall>t w. e \<noteq> Schedule t w" and "bag (scheduler P) = {#}"
  shows "bag (scheduler P') = {#}"
  using assms
  by (cases e) (auto simp: pool_clear_def bag_clear pool_resize_def Let_def grow_workers_eq execute_task_def
      resume_worker_def fetch_task_def empty_bag task_done_def worker_destructed_def worker_died_def static_worker_died_def
      terminate_begin_def terminate_end_def split: if_splits worker.splits)

lemma idle_stays:
  assumes "pinv P" and "pool_do K bag e P = Some (Inr P')" and "\<forall>t w. e \<noteq> Schedule t w" and "e \<noteq> Clear_pool"
    and "no_tasks bag P"
  shows "no_tasks bag P'"
proof -
  have "bag (scheduler P') = {#}"
    using empty_stays [OF assms(1-3)] assms(5) by (simp add: no_tasks_def)
  moreover have "worker_at P w \<noteq> Running t" for w t
    using assms(5) by (simp add: no_tasks_def no_task_running)
  then have "taken P' = taken P \<and> completed P' = completed P \<and> failed P' = failed P"
    using assms unfolding no_tasks_def
    by (cases e) (auto simp: pool_resize_def Let_def grow_workers_eq notify_all_def execute_task_def resume_worker_def
        fetch_task_def empty_bag worker_destructed_def terminate_begin_def terminate_end_def
        split: if_splits worker.splits)
  moreover have "pinv P'"
    using pinv_do [OF assms(1,2)] by simp
  ultimately show ?thesis
    using assms(1,5) by (simp add: no_tasks_def pinv_defs)
qed

lemma wait_over_no_tasks: "pinv P \<Longrightarrow> pool_wait_over K 0 P \<Longrightarrow> no_tasks bag P"
  using tally_busy_zero [of "workers P"] by (simp add: no_tasks_def pool_wait_over_def pinv_defs empty_bag)

lemma shutting_runs: "finv policy F \<Longrightarrow> shutting_down F w \<Longrightarrow> \<exists>t. worker_at (core F) w = Running t"
  unfolding front_inv_def held_list_nonempty by blast

lemma terminate_tasks:
  "terminating (terminate_begin P)" "terminating (terminate_end P) = terminating P"
  "scheduler (terminate_begin P) = scheduler P" "scheduler (terminate_end P) = scheduler P"
  "no_tasks bag (terminate_begin P) = no_tasks bag P" "no_tasks bag (terminate_end P) = no_tasks bag P"
  by (simp_all add: terminate_begin_def terminate_end_def no_tasks_def notify_all_total)

lemma terminate_held: "held_list (worker_at (terminate_begin P) w) = held_list (worker_at P w)"
  "held_list (worker_at (terminate_end P) w) = held_list (worker_at P w)"
  by (auto simp: terminate_begin_def terminate_end_def notify_all_def worker_at_def is_waiting_iff)

lemma finv_core:
  assumes "finv policy F" and "core_event F e" and "pool_do K bag e (core F) = Some (Inr (core F'))"
    and "stage F' = stage F" and "handles F' = handles F"
  shows "finv policy F'"
proof -
  have inv: "pinv (core F)" and e: "e \<noteq> Terminate"
    using assms(1,2) by (simp_all add: front_inv_def core_event_def)
  have quiet: "(\<forall>t w. e \<noteq> Schedule t w) \<and> e \<noteq> Clear_pool" if "stage F \<noteq> In_use"
    using assms(2) that by (simp add: core_event_def)
  have "held_list (worker_at (core F') w) \<noteq> []" if "shutting_down F w" for w
  proof -
    have "\<exists>t. worker_at (core F) w = Running t"
      by (rule shutting_runs [OF assms(1) that])
    then obtain t where "worker_at (core F) w = Running t" ..
    then show ?thesis
      using running_stays [OF assms(3)] assms(2) that by (auto simp: core_event_def)
  qed
  moreover have "bag (scheduler (core F')) = {#}" if "stage F \<noteq> In_use" "policy \<noteq> Wait_for_all_tasks"
    using empty_stays [OF inv assms(3)] quiet assms(1) that by (simp add: front_inv_def)
  moreover have "no_tasks bag (core F')" if "ending F" "policy \<noteq> Immediately"
    using idle_stays [OF inv assms(3)] quiet assms(1) that by (auto simp: front_inv_def ending_def)
  moreover have "pinv (core F')"
    using pinv_do [OF inv assms(3)] by simp
  ultimately show ?thesis
    using assms(1,4,5) terminating_same [OF assms(3) e]
    by (simp add: front_inv_def shutting_down_def ending_def)
qed

lemma finv_shutdown:
  assumes "finv policy F" and "shutdown_step K policy F = Some F'"
  shows "finv policy F'"
  using assms(2)
proof (cases rule: shutdown_step_cases)
  case (terminate thread)
  have "no_tasks bag (core F)" if "policy \<noteq> Immediately"
    using wait_over_no_tasks assms(1) terminate(2) that by (simp add: front_inv_def)
  then show ?thesis
    using assms(1) terminate pinv_terminate [of "core F"] pinv_terminate(2) [of "terminate_begin (core F)"]
    by (cases "policy = Immediately") (auto simp: front_inv_def ending_def shutting_down_def terminate_tasks terminate_held)
next
  case (finish thread)
  then show ?thesis
    using assms(1) pinv_terminate(2) [of "core F"]
    by (auto simp: front_inv_def ending_def shutting_down_def terminate_tasks terminate_held)
qed

lemma finv_begins:
  assumes "finv policy F" and "stage F = In_use" and "thread_runs thread F"
    and "handles F' = 0" "core F' = shutdown_begin K bag policy (core F)" "stage F' = Waiting_tasks thread"
  shows "finv policy F'"
proof -
  have begins: "pinv (core F')" "terminating (core F') = terminating (core F)" "workers (core F') = workers (core F)"
    "policy \<noteq> Wait_for_all_tasks \<Longrightarrow> bag (scheduler (core F')) = {#}"
    using assms(1,5) pinv_clear [of "core F"]
    by (cases policy; simp add: shutdown_begin_def pool_clear_def bag_clear front_inv_def)+
  have "held_list (worker_at (core F') w) \<noteq> []" if "thread = Some w" for w
    using assms(3) that begins(3) by (auto simp: thread_runs_def worker_at_def split: if_splits)
  then show ?thesis
    using assms begins by (auto simp: front_inv_def shutting_down_def ending_simps)
qed

lemma finv_do:
  assumes "finv policy F" and "front_do K bag policy e F = Some r"
  shows "\<exists>F'. r = Inr F' \<and> finv policy F'"
proof (cases r)
  case (Inl f)
  then have "\<exists>e'. pool_do K bag e' (core F) = Some (Inl f)"
    using assms(2) by (cases e) (auto split: if_splits option.splits dest: on_core_Inl)
  moreover have "pinv (core F)"
    using assms(1) by (simp add: front_inv_def)
  ultimately show ?thesis
    using pinv_do by blast
next
  case (Inr F')
  have "stage F = In_use \<longleftrightarrow> 0 < handles F"
    using assms(1) by (simp add: front_inv_def)
  with assms(2) [unfolded Inr] show ?thesis
  proof (cases rule: front_do_cases)
    case (core_moves e')
    then show ?thesis using finv_core [OF assms(1)] Inr by blast
  next
    case core_rests
    then show ?thesis using assms(1) Inr by (auto simp: front_inv_def shutting_down_def ending_def)
  next
    case (shutdown_begins thread)
    then show ?thesis using finv_begins [OF assms(1)] Inr by blast
  next
    case shutdown_goes_on
    then show ?thesis using finv_shutdown [OF assms(1)] Inr by blast
  qed
qed

lemma finv_run:
  "finv policy F \<Longrightarrow> front_run K bag policy es F = Some r \<Longrightarrow> \<exists>F'. r = Inr F' \<and> finv policy F'"
proof (induction es arbitrary: F)
  case (Cons e es)
  then obtain r' where r': "front_do K bag policy e F = Some r'"
    by (auto split: option.splits)
  then obtain F1 where "r' = Inr F1" "finv policy F1"
    using finv_do Cons.prems(1) by blast
  then show ?case
    using Cons r' by simp
qed auto

lemma finv_init: "finv policy (thread_pool_init K s threads n)"
proof -
  have "pinv (core (thread_pool_init K s threads n))"
    using pinv_new [of s threads n] by (simp add: thread_pool_init_def static_size_init_def new_pool_def)
  moreover have "\<not> terminating (core (thread_pool_init K s threads n))"
    by (auto simp: thread_pool_init_def static_size_init_def pool_resize_def Let_def grow_workers_eq new_core_def)
  ultimately show ?thesis
    by (simp add: front_inv_def thread_pool_init_def shutting_down_def ending_def)
qed

end

section \<open>What a user of a pool is promised\<close>

abbreviation fifo_front :: "shutdown_policy \<Rightarrow> 't front_event list \<Rightarrow> ('t, 't list) thread_pool \<Rightarrow>
    ('t, 't list) thread_pool res option" where
  "fifo_front \<equiv> front_run fifo_scheduler mset"

text \<open>
  C21. The life of a pool, with any number of handles and size controllers, used by any threads: no
  operation faults; the shutdown begins when the last handle goes, and not before; from the
  moment \<^verbatim>\<open>terminate_all_workers\<close> is called a size controller can change nothing; and with a policy
  that waits, every task that was accepted has then run exactly once or was cleared. So when
  the destructor of the last handle has returned, nothing of the work is left.
\<close>

theorem pool_shutdown_complete:
  assumes "fifo_front policy es (thread_pool_init fifo_scheduler [] threads n) = Some r"
  shows "\<exists>F. r = Inr F \<and> (stage F = In_use \<longleftrightarrow> 0 < handles F)
    \<and> (ending F \<longrightarrow> controller_resize k m F = (F, False))
    \<and> (ending F \<and> policy \<noteq> Immediately \<longrightarrow>
        mset (accepted (core F)) = mset (completed (core F)) + mset (failed (core F)) + cleared (core F))"
proof -
  obtain F where F: "r = Inr F" "fifo_sched.finv policy F"
    using fifo_sched.finv_run [OF fifo_sched.finv_init assms] by blast
  then have "ending F \<Longrightarrow> controller_resize k m F = (F, False)"
    by (simp add: front_inv_def controller_resize_def static_size_resize_def pool_resize_def)
  moreover have "mset (accepted (core F)) = mset (completed (core F)) + mset (failed (core F)) + cleared (core F)"
    if "ending F" "policy \<noteq> Immediately"
    using F(2) that by (simp add: front_inv_def no_tasks_def pool_inv_def tasks_ok_def)
  ultimately show ?thesis
    using F by (auto simp: front_inv_def)
qed

text \<open>Two handles, one task, and the end of both handles while the task runs.\<close>

definition short_life :: "string front_event list" where
  "short_life = [Copy_handle, Front_schedule ''a'' 0, Worker (Execute 0), Drop_handle None, Drop_handle None,
     Worker (Task_done 0), Worker (Execute 0), Shutdown_step]"

definition front_1 :: "(string, string list) thread_pool" where
  "front_1 = thread_pool_init fifo_scheduler [] 1 1"

lemma short_life_run:
  "map_option (map_sum id (\<lambda>F. (stage F, completed (core F), failed (core F), cleared (core F) = {#}, workers (core F))))
     (fifo_front Wait_for_all_tasks short_life front_1) = Some (Inr (Shut, [''a''], [], True, [Notified]))"
  by code_simp

lemma short_life_ends:
  obtains F where "fifo_front Wait_for_all_tasks short_life front_1 = Some (Inr F)" "stage F = Shut"
    "completed (core F) = [''a'']" "failed (core F) = []" "cleared (core F) = {#}" "workers (core F) = [Notified]"
proof -
  obtain r where r: "fifo_front Wait_for_all_tasks short_life front_1 = Some r"
    "map_sum id (\<lambda>F. (stage F, completed (core F), failed (core F), cleared (core F) = {#}, workers (core F))) r
       = Inr (Shut, [''a''], [], True, [Notified])"
    using short_life_run by (auto simp: map_option_eq_Some)
  then show thesis
    using that by (cases r) auto
qed

theorem pool_shutdown_complete_witness:
  "\<exists>F. fifo_front Wait_for_all_tasks short_life front_1 = Some (Inr F) \<and> mset (accepted (core F)) = {#''a''#}"
proof -
  obtain F where F: "fifo_front Wait_for_all_tasks short_life front_1 = Some (Inr F)" "stage F = Shut"
    "completed (core F) = [''a'']" "failed (core F) = []" "cleared (core F) = {#}"
    by (rule short_life_ends)
  then show ?thesis
    using pool_shutdown_complete [OF F(1) [unfolded front_1_def]] by (auto simp: ending_def)
qed

section \<open>The destructor returns\<close>


lemma fifo_wait_over_Nil: "pool_wait_over fifo_scheduler 0 P \<longleftrightarrow> active_count P = 0 \<and> scheduler P = []"
  by (simp add: pool_wait_over_def)









section \<open>Where it does not\<close>

text \<open>
  A task may hold the last handle. The shutdown then runs in the worker that runs the task, and
  waits for this very task: the destructor never returns.
\<close>

lemma hang_step:
  assumes "fifo_sched.finv policy F" and "policy \<noteq> Immediately" and "stage F = Waiting_tasks (Some w)"
    and "front_do fifo_scheduler mset policy e F = Some (Inr F')"
  shows "stage F' = Waiting_tasks (Some w)"
proof -
  have "\<exists>t. worker_at (core F) w = Running t"
    by (rule fifo_sched.shutting_runs [OF assms(1)]) (simp add: shutting_down_def assms(3))
  then obtain t where "w < length (workers (core F))" "workers (core F) ! w = Running t"
    by (auto simp: worker_at_def split: if_splits)
  then have "0 < active_count (core F)"
    using assms(1) tally_update [of w "workers (core F)" busy Gone]
    by (simp add: front_inv_def pool_inv_def counts_ok_def)
  then have "shutdown_step fifo_scheduler policy F = None"
    using assms(2,3) by (simp add: shutdown_step_def shutdown_terminate_def fifo_wait_over_Nil)
  moreover have "stage F = In_use \<longleftrightarrow> 0 < handles F"
    using assms(1) by (simp add: front_inv_def)
  ultimately show ?thesis
    using assms(3) by (cases rule: front_do_cases [OF assms(4)]) simp_all
qed

theorem destructor_in_task_hangs:
  assumes "fifo_front policy es (thread_pool_init fifo_scheduler [] threads n) = Some (Inr F)"
    and "policy \<noteq> Immediately" and "stage F = Waiting_tasks (Some w)"
    and "fifo_front policy fs F = Some (Inr F')"
  shows "stage F' = Waiting_tasks (Some w)"
proof -
  have "fifo_sched.finv policy F"
    using fifo_sched.finv_run [OF fifo_sched.finv_init assms(1)] by auto
  then show ?thesis
    using assms(3,4)
  proof (induction fs arbitrary: F)
    case (Cons e es)
    then obtain F1 where F1: "front_do fifo_scheduler mset policy e F = Some (Inr F1)" "fifo_front policy es F1 = Some (Inr F')"
      by (auto split: option.splits sum.splits)
    then show ?case
      using Cons hang_step [OF Cons.prems(1) assms(2) Cons.prems(2) F1(1)] fifo_sched.finv_do [OF Cons.prems(1) F1(1)] by auto
  qed simp
qed

fun no_front_resize :: "'t front_event \<Rightarrow> bool" where
  "no_front_resize (Controller_resize threads n) = False"
| "no_front_resize e = True"

text \<open>
  C40. Nor does it return for a pool that was resized to no workers while a task waits: without another
  resize, \<^verbatim>\<open>wait()\<close> is never over, and no handle is left by which the task could be thrown away.
\<close>

theorem destructor_without_workers:
  assumes "handles F = 0" and "stage F = Waiting_tasks None" and "\<forall>x \<in> set (workers (core F)). x = Gone"
    and "scheduler (core F) \<noteq> []" and "list_all no_front_resize es"
    and "fifo_front Wait_for_all_tasks es F = Some r"
  shows "\<exists>F'. r = Inr F' \<and> stage F' = Waiting_tasks None \<and> scheduler (core F') = scheduler (core F)"
  using assms
proof (induction es arbitrary: F)
  case (Cons e es)
  have gone: "worker_at (core F) w = Gone" for w
    using Cons.prems(3) by (simp add: worker_at_def)
  have "front_do fifo_scheduler mset Wait_for_all_tasks e F = None
      \<or> (\<exists>k. front_do fifo_scheduler mset Wait_for_all_tasks e F = Some (Inr (F\<lparr>controllers := k\<rparr>)))"
  proof (cases e)
    case (Worker e')
    then show ?thesis
      by (cases e') (simp_all add: on_core_def gone)
  next
    case Shutdown_step
    then show ?thesis
      using Cons.prems(2,4) by (simp add: shutdown_step_def shutdown_terminate_def fifo_wait_over_Nil)
  qed (use Cons.prems(1,5) in \<open>auto simp: get_controller_def\<close>)
  then obtain k where "front_do fifo_scheduler mset Wait_for_all_tasks e F = Some (Inr (F\<lparr>controllers := k\<rparr>))"
    using Cons.prems(6) by auto
  then show ?case
    using Cons.IH [of "F\<lparr>controllers := k\<rparr>"] Cons.prems by simp
qed auto

definition resized_to_none :: "string front_event list" where
  "resized_to_none = [Get_controller, Controller_resize 0 0, Worker (Execute 0), Worker (Destructed 0), Drop_controller,
     Front_schedule ''a'' 0, Drop_handle None]"

theorem destructor_without_workers_witness:
  "\<exists>F. fifo_front Wait_for_all_tasks resized_to_none front_1 = Some (Inr F)
     \<and> (\<forall>es r. list_all no_front_resize es \<longrightarrow> fifo_front Wait_for_all_tasks es F = Some r
          \<longrightarrow> (\<exists>F'. r = Inr F' \<and> stage F' = Waiting_tasks None))"
proof -
  have "map_option (map_sum id (\<lambda>F. (handles F, stage F, workers (core F), scheduler (core F))))
      (fifo_front Wait_for_all_tasks resized_to_none front_1) = Some (Inr (0, Waiting_tasks None, [Gone], [''a'']))"
    by code_simp
  then obtain r where r: "fifo_front Wait_for_all_tasks resized_to_none front_1 = Some r"
    "map_sum id (\<lambda>F. (handles F, stage F, workers (core F), scheduler (core F))) r
       = Inr (0, Waiting_tasks None, [Gone], [''a''])"
    by (auto simp: map_option_eq_Some)
  then obtain F where F: "r = Inr F" "handles F = 0" "stage F = Waiting_tasks None" "workers (core F) = [Gone]"
    "scheduler (core F) = [''a'']"
    by (cases r) auto
  have "\<exists>F'. r' = Inr F' \<and> stage F' = Waiting_tasks None"
    if "list_all no_front_resize es" "fifo_front Wait_for_all_tasks es F = Some r'" for es r'
    using destructor_without_workers [OF F(2,3) _ _ that] F(4,5) by auto
  then show ?thesis
    using r(1) F(1) by blast
qed

text \<open>
  A worker that has not ended when the shutdown is over puts itself into the list of terminated
  workers of the core, and holds the core: a cycle of pointers. The core is never freed, even
  when no handle, no controller and no thread is left.
\<close>

definition clings :: "nat \<Rightarrow> ('t, 's) pool \<Rightarrow> bool" where
  "clings w P \<longleftrightarrow> worker_at P w \<noteq> Gone \<or> w \<in> set (terminated P)"

lemma clings_refs:
  assumes "clings w (core F)"
  shows "0 < core_refs F"
proof (cases "worker_at (core F) w = Gone")
  case False
  then have w: "w < length (workers (core F))" "live (workers (core F) ! w) = 1"
    by (auto simp: worker_at_def live_def split: if_splits worker.splits)
  then show ?thesis
    using tally_update [OF w(1), of live Gone] by (simp add: core_refs_def)
qed (use assms in \<open>auto simp: clings_def core_refs_def\<close>)

lemma worker_at_set_worker_if:
  "worker_at (set_worker i x P) w = (if i = w \<and> w < length (workers P) then x else worker_at P w)"
  by (simp add: worker_at_def)

lemma worker_at_notify_Gone:
  "worker_at (notify_one i P) w = Gone \<longleftrightarrow> worker_at P w = Gone" "worker_at (notify_all P) w = Gone \<longleftrightarrow> worker_at P w = Gone"
  by (auto simp: notify_one_def notify_all_def worker_at_def nth_list_update is_waiting_iff)

lemma worker_at_fetch_Gone:
  "fetch_task K i P = Inr P' \<Longrightarrow> worker_at P w \<noteq> Gone \<Longrightarrow> worker_at P' w \<noteq> Gone"
  "fetch_task K i P = Inr P' \<Longrightarrow> terminated P' = terminated P"
  by (auto simp: fetch_task_def res_bind_Inr_iff worker_at_set_worker_if split: if_splits)

lemma clings_do:
  assumes "clings w P" and "terminating P" and "e \<noteq> Terminated" and "pool_do K bag e P = Some (Inr P')"
  shows "clings w P'"
proof (cases e)
  case (Execute i)
  then have "execute_task K i P = Inr P'"
    using assms(4) by (auto split: worker.splits)
  then show ?thesis
    using assms(1) worker_at_fetch_Gone [of K i P P'] by (auto simp: clings_def execute_task_def worker_at_set_worker_if split: if_splits)
next
  case (Wake i)
  then have "fetch_task K i (P\<lparr>active_count := active_count P + 1\<rparr>) = Inr P'"
    using assms(4) by (auto simp: resume_worker_def split: worker.splits)
  then show ?thesis
    using assms(1) worker_at_fetch_Gone [of K i "P\<lparr>active_count := active_count P + 1\<rparr>" P'] by (auto simp: clings_def)
next
  case (Task_throws threads i)
  then show ?thesis
    using assms by (auto simp: clings_def worker_died_def static_worker_died_def Let_def pool_resize_def worker_at_set_worker_if
        split: worker.splits if_splits)
next
  case (Destructed i)
  then show ?thesis
    using assms by (auto simp: clings_def worker_destructed_def Let_def worker_at_set_worker_if split: worker.splits if_splits)
qed (use assms in \<open>auto simp: clings_def pool_schedule_def pool_clear_def pool_resize_def task_done_def terminate_begin_def
    worker_at_set_worker_if worker_at_notify_Gone split: prod.splits if_splits worker.splits\<close>)

lemma clings_step:
  assumes "fifo_sched.finv policy F" and "stage F = Shut" and "clings w (core F)"
    and "front_do fifo_scheduler mset policy e F = Some (Inr F')"
  shows "stage F' = Shut \<and> clings w (core F')"
proof -
  have inv: "stage F = In_use \<longleftrightarrow> 0 < handles F" "terminating (core F)"
    using assms(1,2) by (simp_all add: front_inv_def ending_def)
  from assms(4) inv(1) show ?thesis
  proof (cases rule: front_do_cases)
    case (core_moves e')
    then show ?thesis
      using clings_do [OF assms(3) inv(2) _ core_moves(2)] assms(2) by (simp add: core_event_def)
  qed (use assms(2,3) in \<open>auto simp: shutdown_step_def\<close>)
qed

theorem core_leaks:
  assumes "fifo_front policy es (thread_pool_init fifo_scheduler [] threads n) = Some (Inr F)"
    and "stage F = Shut" and "worker_at (core F) w \<noteq> Gone"
    and "fifo_front policy fs F = Some (Inr F')"
  shows "0 < core_refs F'"
proof -
  have "fifo_sched.finv policy F"
    using fifo_sched.finv_run [OF fifo_sched.finv_init assms(1)] by auto
  moreover have "clings w (core F)"
    using assms(3) by (simp add: clings_def)
  ultimately have "clings w (core F')"
    using assms(2,4)
  proof (induction fs arbitrary: F)
    case (Cons e es)
    then obtain F1 where F1: "front_do fifo_scheduler mset policy e F = Some (Inr F1)" "fifo_front policy es F1 = Some (Inr F')"
      by (auto split: option.splits sum.splits)
    then show ?case
      using Cons clings_step [OF Cons.prems(1,3,2) F1(1)] fifo_sched.finv_do [OF Cons.prems(1) F1(1)] by auto
  qed simp
  then show ?thesis
    by (rule clings_refs)
qed

text \<open>So it is with the default policy in the plainest use: one worker, one task, one handle.\<close>

lemma leak_in_plain_use:
  "map_option (map_sum id (\<lambda>F. (stage F, handles F, controllers F, workers (core F), core_refs F)))
     (fifo_front Wait_for_all_tasks (short_life @ [Worker (Wake 0), Worker (Destructed 0)]) front_1)
     = Some (Inr (Shut, 0, 0, [Gone], 1))"
  by code_simp

lemma hang_in_task:
  "map_option (map_sum id (\<lambda>F. (stage F, handles F, workers (core F))))
     (fifo_front Wait_for_all_tasks [Front_schedule ''a'' 0, Worker (Execute 0), Drop_handle (Some 0)] front_1)
     = Some (Inr (Waiting_tasks (Some 0), 0, [Running ''a'']))"
  by code_simp

end
