(* ===== verification/Task_Future.thy ===== *)
theory Task_Future
  imports Task_Schedulers
begin

text \<open>
  \<^verbatim>\<open>threadpool/detail/future.hpp\<close> with its front \<^verbatim>\<open>threadpool/future.hpp\<close>: the result of a task that
  a pool runs, and the task that stores it. Each access to the fields, or section under
  \<open>m_monitor\<close>, is one step; a run interleaves the steps of the task with cancellations by
  other threads.
\<close>

section \<open>The future\<close>

record 'r future_impl =
  m_ready :: bool
  m_result :: 'r
  m_is_cancelled :: bool
  m_executing :: bool

text \<open>
  The constructor sets two of the flags; the result is value-less and \<open>m_executing\<close> is left
  uninitialised: \<open>r0\<close> and \<open>b0\<close> are what is in the memory.
\<close>

definition new_future :: "'r \<Rightarrow> bool \<Rightarrow> 'r future_impl" where
  "new_future r0 b0 = \<lparr>m_ready = False, m_result = r0, m_is_cancelled = False, m_executing = b0\<rparr>"

definition set_value :: "'r \<Rightarrow> 'r future_impl \<Rightarrow> 'r future_impl" where
  "set_value r F = (if \<not> m_ready F \<and> \<not> m_is_cancelled F then F\<lparr>m_result := r, m_ready := True\<rparr> else F)"

text \<open>
  \<^verbatim>\<open>cancel()\<close> does not take the monitor: it reads the two flags, and only then writes the third.
\<close>

definition cancel_allowed :: "'r future_impl \<Rightarrow> bool" where
  "cancel_allowed F \<longleftrightarrow> \<not> m_ready F \<or> m_executing F"

definition cancel_write :: "'r future_impl \<Rightarrow> 'r future_impl" where
  "cancel_write F = F\<lparr>m_is_cancelled := True\<rparr>"

definition cancel_future :: "'r future_impl \<Rightarrow> 'r future_impl \<times> bool" where
  "cancel_future F = (if cancel_allowed F then (cancel_write F, True) else (F, False))"

definition set_execution_status :: "bool \<Rightarrow> 'r future_impl \<Rightarrow> 'r future_impl" where
  "set_execution_status b F = F\<lparr>m_executing := b\<rparr>"

text \<open>
  The waits. A waiter sees the future when it gets the monitor, at first and after each
  wake-up; \<open>None\<close> is that it waits on. For the timed wait a wake-up is in time or is the end
  of the time.
\<close>

fun get_value :: "'r future_impl \<Rightarrow> 'r future_impl list \<Rightarrow> 'r option" where
  "get_value F ws =
     (if m_ready F then Some (m_result F)
      else case ws of [] \<Rightarrow> None | F' # ws' \<Rightarrow> get_value F' ws')"

declare get_value.simps [simp del]

fun timed_wait :: "'r future_impl \<Rightarrow> ('r future_impl \<times> bool) list \<Rightarrow> bool option" where
  "timed_wait F ws =
     (if m_ready F then Some True
      else case ws of [] \<Rightarrow> None
           | (F', in_time) # ws' \<Rightarrow> if in_time then timed_wait F' ws' else Some False)"

declare timed_wait.simps [simp del]

section \<open>The task of a future\<close>

text \<open>
  \<^verbatim>\<open>future_impl_task_func::operator()\<close> by its steps: the function object may be empty; the
  execution status is set, the cancellation is read, the function is called, its result is
  stored, the status is reset.
\<close>

datatype 'r task_place = Not_called | Executing | Checked | Computed 'r | Stored | Returned

text \<open>
  The threads: the task, and those that are inside \<^verbatim>\<open>cancel()\<close> after a test that succeeded, of
  which only the number counts. Each of them is going to write and to return true.
\<close>

record 'r future_threads =
  place :: "'r task_place"
  shared :: "'r future_impl"
  cancelling :: nat

datatype 'r future_event = Call bool | Check | Compute 'r | Store | Finish | Cancel_test | Cancel_write

definition at_place :: "'r task_place \<Rightarrow> ('r future_impl \<Rightarrow> 'r future_impl) \<Rightarrow> 'r future_threads \<Rightarrow> 'r future_threads option" where
  "at_place p f S = Some (S\<lparr>place := p, shared := f (shared S)\<rparr>)"

definition future_do :: "'r future_event \<Rightarrow> 'r future_threads \<Rightarrow> 'r future_threads option" where
  "future_do e S =
     (case (e, place S) of
        (Call True, Not_called) \<Rightarrow> at_place Executing (set_execution_status True) S
      | (Call False, Not_called) \<Rightarrow> at_place Returned id S
      | (Check, Executing) \<Rightarrow> at_place (if \<not> m_is_cancelled (shared S) then Checked else Stored) id S
      | (Compute r, Checked) \<Rightarrow> at_place (Computed r) id S
      | (Store, Computed r) \<Rightarrow> at_place Stored (set_value r) S
      | (Finish, Stored) \<Rightarrow> at_place Returned (set_execution_status False) S
      | (Cancel_test, _) \<Rightarrow> Some (if cancel_allowed (shared S) then S\<lparr>cancelling := cancelling S + 1\<rparr> else S)
      | (Cancel_write, _) \<Rightarrow>
          if 0 < cancelling S
          then Some (S\<lparr>cancelling := cancelling S - 1, shared := cancel_write (shared S)\<rparr>) else None
      | _ \<Rightarrow> None)"

fun future_run :: "'r future_event list \<Rightarrow> 'r future_threads \<Rightarrow> 'r future_threads option" where
  "future_run [] S = Some S"
| "future_run (e # es) S = (case future_do e S of None \<Rightarrow> None | Some S' \<Rightarrow> future_run es S')"

text \<open>\<^verbatim>\<open>schedule\<close> of \<^verbatim>\<open>future.hpp\<close>: a new future, and a task for it that no worker has called yet.\<close>

definition schedule_future :: "'r \<Rightarrow> bool \<Rightarrow> 'r future_threads" where
  "schedule_future r0 b0 = \<lparr>place = Not_called, shared = new_future r0 b0, cancelling = 0\<rparr>"

section \<open>The results of a run\<close>

definition computed :: "'r future_event list \<Rightarrow> 'r list" where
  "computed es = concat (map (\<lambda>e. case e of Compute r \<Rightarrow> [r] | _ \<Rightarrow> []) es)"

definition task_called :: "'r future_event list \<Rightarrow> bool" where
  "task_called es \<longleftrightarrow> (\<exists>e \<in> set es. case e of Call b \<Rightarrow> b | _ \<Rightarrow> False)"

definition cancelled_in :: "'r future_event list \<Rightarrow> bool" where
  "cancelled_in es \<longleftrightarrow> (\<exists>e \<in> set es. case e of Cancel_write \<Rightarrow> True | _ \<Rightarrow> False)"

text \<open>
  Where the task is says what the future holds. The flag \<open>m_executing\<close> is known from the call
  on; before, the future is not ready and \<^verbatim>\<open>cancel()\<close> does not look at it.
\<close>

definition result_kept :: "'r future_event list \<Rightarrow> 'r future_impl \<Rightarrow> bool" where
  "result_kept es F \<longleftrightarrow> (m_ready F \<longrightarrow> computed es = [m_result F]) \<and> (m_ready F \<or> m_is_cancelled F)"

definition future_inv :: "'r future_event list \<Rightarrow> 'r future_threads \<Rightarrow> bool" where
  "future_inv es S \<longleftrightarrow>
     (m_is_cancelled (shared S) \<longrightarrow> cancelled_in es)
     \<and> (case place S of
          Not_called \<Rightarrow> \<not> m_ready (shared S) \<and> computed es = [] \<and> \<not> task_called es
        | Executing \<Rightarrow> \<not> m_ready (shared S) \<and> computed es = [] \<and> task_called es \<and> m_executing (shared S)
        | Checked \<Rightarrow> \<not> m_ready (shared S) \<and> computed es = [] \<and> task_called es \<and> m_executing (shared S)
        | Computed r \<Rightarrow> \<not> m_ready (shared S) \<and> computed es = [r] \<and> task_called es \<and> m_executing (shared S)
        | Stored \<Rightarrow> result_kept es (shared S) \<and> length (computed es) \<le> 1 \<and> task_called es \<and> m_executing (shared S)
        | Returned \<Rightarrow>
            if task_called es then result_kept es (shared S) \<and> length (computed es) \<le> 1 \<and> \<not> m_executing (shared S)
            else \<not> m_ready (shared S) \<and> computed es = [])"

lemma run_results_snoc [simp]:
  "computed (es @ [e]) = computed es @ (case e of Compute r \<Rightarrow> [r] | _ \<Rightarrow> [])"
  "task_called (es @ [e]) \<longleftrightarrow> task_called es \<or> (case e of Call b \<Rightarrow> b | _ \<Rightarrow> False)"
  "cancelled_in (es @ [e]) \<longleftrightarrow> cancelled_in es \<or> (case e of Cancel_write \<Rightarrow> True | _ \<Rightarrow> False)"
  by (auto simp: computed_def task_called_def cancelled_in_def)

lemma run_results_nil [simp]: "computed [] = []" "\<not> task_called []" "\<not> cancelled_in []"
  by (simp_all add: computed_def task_called_def cancelled_in_def)

lemmas future_defs = result_kept_def at_place_def set_value_def set_execution_status_def cancel_allowed_def cancel_write_def

lemma future_inv_new: "future_inv [] (schedule_future r0 b0)"
  by (simp add: future_inv_def schedule_future_def new_future_def future_defs)

lemma future_inv_step:
  assumes "future_inv es S" and "future_do e S = Some S'"
  shows "future_inv (es @ [e]) S'"
  using assms unfolding future_do_def future_inv_def
  by (cases e; cases "place S") (auto simp: future_defs split: bool.splits if_splits)

lemma future_inv_run:
  "future_inv es0 S \<Longrightarrow> future_run es S = Some S' \<Longrightarrow> future_inv (es0 @ es) S'"
proof (induction es arbitrary: es0 S)
  case (Cons e es)
  then obtain S1 where "future_do e S = Some S1" "future_run es S1 = Some S'"
    by (auto split: option.splits)
  then show ?case
    using Cons.IH [of "es0 @ [e]" S1] future_inv_step [OF Cons.prems(1)] by simp
qed simp

section \<open>Properties\<close>

text \<open>
  In every run, with any number of cancellations at any time and whatever is in the
  uninitialised memory: the function is called at most once; a future that is ready holds the
  value this call returned, and no step changes it or its readiness after that; when a task
  with a function has returned, the future is ready or was cancelled.
\<close>

theorem future_value:
  assumes "future_run es (schedule_future r0 b0) = Some S"
  shows "length (computed es) \<le> 1
    \<and> (m_ready (shared S) \<longrightarrow> computed es = [m_result (shared S)])
    \<and> (place S = Returned \<and> task_called es \<longrightarrow> m_ready (shared S) \<or> cancelled_in es)
    \<and> (m_ready (shared S) \<and> future_run fs S = Some S' \<longrightarrow>
         m_ready (shared S') \<and> m_result (shared S') = m_result (shared S))"
proof -
  have inv: "future_inv es S"
    using future_inv_run [OF future_inv_new assms] by simp
  have "m_ready (shared S') \<and> m_result (shared S') = m_result (shared S)"
    if "m_ready (shared S)" "future_run fs S = Some S'" for fs S S'
    using that
  proof (induction fs arbitrary: S)
    case (Cons e fs)
    then obtain S1 where S1: "future_do e S = Some S1" "future_run fs S1 = Some S'"
      by (auto split: option.splits)
    then have "m_ready (shared S1) \<and> m_result (shared S1) = m_result (shared S)"
      using Cons.prems(1) unfolding future_do_def
      by (cases e; cases "place S") (auto simp: future_defs split: bool.splits if_splits)
    then show ?case using Cons.IH [OF _ S1(2)] by simp
  qed simp
  then show ?thesis
    using inv unfolding future_inv_def
    by (cases "place S") (auto simp: result_kept_def split: if_splits)
qed

text \<open>The states a waiting thread can see: those of a continuation of the run.\<close>

fun futures_of :: "'r future_event list \<Rightarrow> 'r future_threads \<Rightarrow> 'r future_impl list" where
  "futures_of [] S = []"
| "futures_of (e # es) S =
     (case future_do e S of None \<Rightarrow> [] | Some S' \<Rightarrow> shared S' # futures_of es S')"

lemma cancelled_step:
  assumes "m_is_cancelled (shared S)" and "\<not> m_ready (shared S)" and "future_do e S = Some S'"
  shows "m_is_cancelled (shared S') \<and> \<not> m_ready (shared S')"
  using assms unfolding future_do_def
  by (cases e; cases "place S") (auto simp: future_defs split: bool.splits if_splits)

text \<open>
  A future that is cancelled before its value is stored is never ready: whatever happens
  after that, even when its task runs to its end, no state is one in which \<^verbatim>\<open>wait()\<close> or \<^verbatim>\<open>get()\<close> returns
  to a thread that waits, so it waits for ever.
\<close>

theorem cancelled_future_blocks:
  assumes "m_is_cancelled (shared S)" and "\<not> m_ready (shared S)"
  shows "get_value (shared S) (futures_of es S) = None
    \<and> list_all (\<lambda>F. \<not> m_ready F) (futures_of es S)"
  using assms
proof (induction es arbitrary: S)
  case Nil
  then show ?case by (simp add: get_value.simps)
next
  case (Cons e es)
  show ?case
  proof (cases "future_do e S")
    case None
    then show ?thesis using Cons.prems by (simp add: get_value.simps)
  next
    case (Some S')
    then show ?thesis
      using Cons.IH [of S'] cancelled_step [OF Cons.prems Some] Cons.prems(2) by (simp add: get_value.simps)
  qed
qed

definition cancelled_early :: "nat future_threads" where
  "cancelled_early = schedule_future 0 True \<lparr>shared := cancel_write (new_future 0 True)\<rparr>"

theorem cancelled_future_blocks_witness:
  "future_run [Cancel_test, Cancel_write] (schedule_future 0 True) = Some cancelled_early
   \<and> map_option place (future_run [Call True, Check, Finish] cancelled_early) = Some Returned
   \<and> get_value (shared cancelled_early) (futures_of [Call True, Check, Finish] cancelled_early) = None"
proof (intro conjI)
  show "get_value (shared cancelled_early) (futures_of [Call True, Check, Finish] cancelled_early) = None"
    using cancelled_future_blocks [of cancelled_early "[Call True, Check, Finish]"]
    by (simp add: cancelled_early_def cancel_write_def new_future_def)
qed (simp_all add: cancelled_early_def schedule_future_def future_do_def future_defs new_future_def)

theorem future_value_witness:
  "\<exists>S :: nat future_threads. future_run [Call True, Check, Cancel_test, Compute 7, Store, Cancel_write, Finish] (schedule_future 0 False)
     = Some S \<and> m_ready (shared S) \<and> m_result (shared S) = 7"
proof -
  let ?es = "[Call True, Check, Cancel_test, Compute 7, Store, Cancel_write, Finish] :: nat future_event list"
  obtain S where S: "future_run ?es (schedule_future 0 False) = Some S" "m_ready (shared S)"
    by (simp add: schedule_future_def future_do_def future_defs new_future_def)
  then have "computed ?es = [m_result (shared S)]"
    using future_value [OF S(1)] by blast
  then show ?thesis
    using S by (intro exI [of _ S]) (simp add: computed_def)
qed

text \<open>
  \<^verbatim>\<open>cancel()\<close> returning true does not mean that there is no value: a thread may test before the
  value is stored and write after, and until the task has returned the test succeeds anyway.
\<close>

lemma cancel_succeeds_with_value:
  "map_option (\<lambda>S. (m_ready (shared S), m_is_cancelled (shared S), snd (cancel_future (shared S))))
     (future_run [Call True, Check, Compute 7, Cancel_test, Store, Cancel_write] (schedule_future (0 :: nat) b0))
   = Some (True, True, True)"
  by (simp add: schedule_future_def future_do_def future_defs new_future_def cancel_future_def)

end
