(* ===== verification/Pool_Futures.thy ===== *)
theory Pool_Futures
  imports Pool_Front_Props Task_Future
begin

text \<open>
  Futures on a pool: the function \<^verbatim>\<open>schedule\<close> of \<^verbatim>\<open>threadpool/future.hpp\<close> hands the task of a future to a
  FIFO pool, whose workers take the steps of \<^verbatim>\<open>future_impl_task_func\<close> between fetching the task
  and being done with it, while other threads cancel futures, clear, resize or end the pool.
\<close>

section \<open>The composition\<close>

text \<open>
  The tasks of the pool are numbers of futures. \<open>values\<close> are what the functions return, if they
  are called and return.
\<close>

record 'r future_pool =
  fp_pool :: "(nat, nat list) pool"
  fp_futures :: "'r future_threads list"
  fp_values :: "'r list"

definition future_pool_init :: "nat \<Rightarrow> nat \<Rightarrow> 'r future_pool" where
  "future_pool_init threads n = \<lparr>fp_pool = fifo_pool threads n, fp_futures = [], fp_values = []\<rparr>"

text \<open>\<^verbatim>\<open>schedule(pool, task)\<close>: \<open>r0\<close> and \<open>b0\<close> are in the uninitialised memory of the new future.\<close>

definition schedule_on_pool :: "'r \<Rightarrow> bool \<Rightarrow> 'r \<Rightarrow> nat \<Rightarrow> 'r future_pool \<Rightarrow> 'r future_pool" where
  "schedule_on_pool r0 b0 r w S =
     S\<lparr>fp_pool := fst (pool_schedule fifo_scheduler (length (fp_futures S)) w (fp_pool S)),
       fp_futures := fp_futures S @ [schedule_future r0 b0], fp_values := fp_values S @ [r]\<rparr>"

text \<open>
  The class \<^verbatim>\<open>future\<close> is a handle on the shared state, here the number of the future. The states a
  waiting thread sees are given, as for the waits of \<open>future_impl\<close>.
\<close>

definition future_at :: "'r future_pool \<Rightarrow> nat \<Rightarrow> 'r future_impl" where
  "future_at S i = shared (fp_futures S ! i)"

definition future_ready :: "nat \<Rightarrow> 'r future_pool \<Rightarrow> bool" where
  "future_ready i S = m_ready (future_at S i)"

definition future_is_cancelled :: "nat \<Rightarrow> 'r future_pool \<Rightarrow> bool" where
  "future_is_cancelled i S = m_is_cancelled (future_at S i)"

definition future_wait :: "nat \<Rightarrow> 'r future_pool \<Rightarrow> 'r future_pool list \<Rightarrow> unit option" where
  "future_wait i S Ss = map_option (\<lambda>_. ()) (get_value (future_at S i) (map (\<lambda>S. future_at S i) Ss))"

definition future_cancel :: "nat \<Rightarrow> 'r future_pool \<Rightarrow> 'r future_pool \<times> bool" where
  "future_cancel i S = (case cancel_future (future_at S i) of
     (F, ok) \<Rightarrow> (S\<lparr>fp_futures := (fp_futures S)[i := (fp_futures S ! i)\<lparr>shared := F\<rparr>]\<rparr>, ok))"

definition future_get :: "nat \<Rightarrow> 'r future_pool \<Rightarrow> 'r future_pool list \<Rightarrow> 'r option" where
  "future_get i S Ss = get_value (future_at S i) (map (\<lambda>S. future_at S i) Ss)"

definition future_timed_wait :: "nat \<Rightarrow> 'r future_pool \<Rightarrow> ('r future_pool \<times> bool) list \<Rightarrow> bool option" where
  "future_timed_wait i S Ss = timed_wait (future_at S i) (map (map_prod (\<lambda>S. future_at S i) id) Ss)"

lemmas future_handle_defs = future_at_def future_ready_def future_is_cancelled_def future_get_def future_timed_wait_def

text \<open>
  What can happen: a future is scheduled, a worker or the pool takes a step, a task in a worker
  takes a step, some thread is in \<open>cancel\<close>. A worker is done with a task when the task has
  returned, and a task throws only out of its function.
\<close>

datatype 'r future_pool_event =
    Schedule_future 'r bool 'r nat
  | Pool_step "nat pool_event"
  | Task_step nat "'r future_event"
  | Cancel_step nat bool

definition runs_future :: "'r future_pool \<Rightarrow> nat \<Rightarrow> nat \<Rightarrow> bool" where
  "runs_future S w i \<longleftrightarrow> worker_at (fp_pool S) w = Running i \<and> i < length (fp_futures S)"

fun pool_step_can :: "nat pool_event \<Rightarrow> 'r future_pool \<Rightarrow> bool" where
  "pool_step_can (Schedule t w) S = False"
| "pool_step_can (Task_done w) S = (case worker_at (fp_pool S) w of Running i \<Rightarrow> place (fp_futures S ! i) = Returned | _ \<Rightarrow> False)"
| "pool_step_can (Task_throws threads w) S =
     (case worker_at (fp_pool S) w of Running i \<Rightarrow> place (fp_futures S ! i) = Checked | _ \<Rightarrow> False)"
| "pool_step_can e S = True"

fun task_step_can :: "'r \<Rightarrow> 'r future_event \<Rightarrow> bool" where
  "task_step_can r (Call b) = b"
| "task_step_can r (Compute r') = (r' = r)"
| "task_step_can r Cancel_test = False"
| "task_step_can r Cancel_write = False"
| "task_step_can r e = True"

definition future_step :: "nat \<Rightarrow> 'r future_event \<Rightarrow> 'r future_pool \<Rightarrow> 'r future_pool option" where
  "future_step i e S = map_option (\<lambda>T. S\<lparr>fp_futures := (fp_futures S)[i := T]\<rparr>) (future_do e (fp_futures S ! i))"

fun future_pool_do :: "'r future_pool_event \<Rightarrow> 'r future_pool \<Rightarrow> 'r future_pool res option" where
  "future_pool_do (Schedule_future r0 b0 r w) S =
     (if (\<exists>x \<in> set (workers (fp_pool S)). is_waiting x) \<longrightarrow> is_waiting (worker_at (fp_pool S) w)
      then Some (Inr (schedule_on_pool r0 b0 r w S)) else None)"
| "future_pool_do (Pool_step e) S =
     (if pool_step_can e S then map_option (map_sum id (\<lambda>P. S\<lparr>fp_pool := P\<rparr>)) (pool_do fifo_scheduler mset e (fp_pool S))
      else None)"
| "future_pool_do (Task_step w e) S =
     (case worker_at (fp_pool S) w of
        Running i \<Rightarrow> if task_step_can (fp_values S ! i) e then map_option Inr (future_step i e S) else None
      | _ \<Rightarrow> None)"
| "future_pool_do (Cancel_step i test) S =
     (if i < length (fp_futures S) then map_option Inr (future_step i (if test then Cancel_test else Cancel_write) S) else None)"

fun future_pool_run :: "'r future_pool_event list \<Rightarrow> 'r future_pool \<Rightarrow> 'r future_pool res option" where
  "future_pool_run [] S = Some (Inr S)"
| "future_pool_run (e # es) S =
     (case future_pool_do e S of
        None \<Rightarrow> None
      | Some (Inl f) \<Rightarrow> Some (Inl f)
      | Some (Inr S') \<Rightarrow> future_pool_run es S')"

section \<open>The invariant\<close>

text \<open>A future by itself: it is ready only after its task has stored, and then holds the value.\<close>

definition future_ok :: "'r \<Rightarrow> 'r future_threads \<Rightarrow> bool" where
  "future_ok r T \<longleftrightarrow>
     (m_ready (shared T) \<longrightarrow> m_result (shared T) = r \<and> place T \<in> {Stored, Returned})
     \<and> (place T \<in> {Stored, Returned} \<longrightarrow> m_ready (shared T) \<or> m_is_cancelled (shared T))
     \<and> (\<forall>r'. place T = Computed r' \<longrightarrow> r' = r)"

text \<open>Where a future is, by where the pool has its task.\<close>

definition future_pool_inv :: "'r future_pool \<Rightarrow> bool" where
  "future_pool_inv S \<longleftrightarrow>
     fifo_sched.pinv (fp_pool S)
     \<and> mset (accepted (fp_pool S)) = mset_set {0..<length (fp_futures S)}
     \<and> length (fp_values S) = length (fp_futures S)
     \<and> (\<forall>i < length (fp_futures S). future_ok (fp_values S ! i) (fp_futures S ! i)
          \<and> (i \<notin> set (taken (fp_pool S)) \<longrightarrow> place (fp_futures S ! i) = Not_called)
          \<and> (i \<in> set (failed (fp_pool S)) \<longrightarrow> place (fp_futures S ! i) = Checked)
          \<and> (i \<in> set (completed (fp_pool S)) \<longrightarrow> place (fp_futures S ! i) = Returned))"

lemma future_ok_new: "future_ok r (schedule_future r0 b0)" "place (schedule_future r0 b0) = Not_called"
  by (simp_all add: future_ok_def schedule_future_def new_future_def)

lemma future_ok_task:
  "future_ok r T \<Longrightarrow> task_step_can r e \<Longrightarrow> future_do e T = Some T' \<Longrightarrow> future_ok r T'"
  unfolding future_do_def
  by (cases e; cases "place T") (auto simp: future_ok_def future_defs split: bool.splits if_splits)

lemma future_ok_cancel:
  "future_ok r T \<Longrightarrow> future_do (if test then Cancel_test else Cancel_write) T = Some T' \<Longrightarrow> future_ok r T' \<and> place T' = place T"
  unfolding future_do_def
  by (cases test; cases "place T") (auto simp: future_ok_def future_defs split: if_splits)

lemma future_pool_init_inv: "future_pool_inv (future_pool_init threads n)"
proof -
  have "accepted (fifo_pool threads n) = []"
    by (auto simp: new_pool_def new_core_def pool_resize_def Let_def grow_workers_eq)
  then show ?thesis
    by (simp add: future_pool_inv_def future_pool_init_def fifo_sched.pinv_new)
qed

lemma running_held:
  assumes "worker_at P w = Running i"
  shows "i \<in># tally held (workers P)"
proof -
  have w: "w < length (workers P)" "workers P ! w = Running i"
    using assms by (auto simp: worker_at_def split: if_splits)
  have "tally held (workers P) = tally held ((workers P)[w := Gone]) + {#i#}"
    using tally_update [OF w(1), of held Gone] w(2) by simp
  then show ?thesis by simp
qed

lemma future_pool_invD:
  assumes "future_pool_inv S"
  shows "fifo_sched.pinv (fp_pool S)" "mset (accepted (fp_pool S)) = mset_set {0..<length (fp_futures S)}"
    "mset (accepted (fp_pool S)) = mset (completed (fp_pool S)) + mset (failed (fp_pool S)) + tally held (workers (fp_pool S))
       + mset (scheduler (fp_pool S)) + cleared (fp_pool S)"
    "mset (taken (fp_pool S)) = mset (completed (fp_pool S)) + mset (failed (fp_pool S)) + tally held (workers (fp_pool S))"
    "i < length (fp_futures S) \<Longrightarrow> future_ok (fp_values S ! i) (fp_futures S ! i)"
  using assms unfolding future_pool_inv_def pool_inv_def tasks_ok_def by blast+

text \<open>A task that runs is in no other place.\<close>

lemma running_once:
  assumes "future_pool_inv S" and "worker_at (fp_pool S) w = Running i"
  shows "i < length (fp_futures S)" "i \<in> set (taken (fp_pool S))" "i \<notin> set (failed (fp_pool S))"
    "i \<notin> set (completed (fp_pool S))"
proof -
  let ?P = "fp_pool S"
  have held: "i \<in># tally held (workers ?P)"
    by (rule running_held [OF assms(2)])
  note inv = future_pool_invD [OF assms(1)]
  have "i \<in># mset_set {0..<length (fp_futures S)}"
    unfolding inv(2) [symmetric] inv(3) using held by simp
  then show "i < length (fp_futures S)" by simp
  show "i \<in> set (taken ?P)"
    using held inv(4) by (metis set_mset_mset union_iff)
  have "count (mset (accepted ?P)) i \<le> 1"
    unfolding inv(2) by (simp add: count_mset_set')
  then have "count (mset (completed ?P)) i + count (mset (failed ?P)) i + count (tally held (workers ?P)) i \<le> 1"
    unfolding inv(3) by simp
  moreover have "0 < count (tally held (workers ?P)) i"
    using held by simp
  ultimately have "count (mset (completed ?P)) i = 0" "count (mset (failed ?P)) i = 0"
    by linarith+
  then show "i \<notin> set (failed ?P)" "i \<notin> set (completed ?P)"
    by (simp_all add: count_eq_zero_iff)
qed

lemma inv_task_step:
  assumes "future_pool_inv S" and "future_pool_do (Task_step w e) S = Some (Inr S')"
  shows "future_pool_inv S'"
proof -
  obtain i T where i: "worker_at (fp_pool S) w = Running i" "task_step_can (fp_values S ! i) e"
    "future_do e (fp_futures S ! i) = Some T" "S' = S\<lparr>fp_futures := (fp_futures S)[i := T]\<rparr>"
    using assms(2) by (auto simp: future_step_def split: worker.splits if_splits)
  note once = running_once [OF assms(1) i(1)]
  have "future_ok (fp_values S ! i) T"
    by (rule future_ok_task [OF future_pool_invD(5) [OF assms(1) once(1)] i(2,3)])
  then show ?thesis
    using assms(1) once unfolding i(4) future_pool_inv_def by (auto simp: nth_list_update)
qed

lemma inv_cancel_step:
  assumes "future_pool_inv S" and "future_pool_do (Cancel_step i test) S = Some (Inr S')"
  shows "future_pool_inv S'"
proof -
  obtain T where i: "i < length (fp_futures S)" "S' = S\<lparr>fp_futures := (fp_futures S)[i := T]\<rparr>"
    "future_do (if test then Cancel_test else Cancel_write) (fp_futures S ! i) = Some T"
    using assms(2) by (auto simp: future_step_def split: if_splits)
  have "future_ok (fp_values S ! i) T \<and> place T = place (fp_futures S ! i)"
    by (rule future_ok_cancel [OF future_pool_invD(5) [OF assms(1) i(1)] i(3)])
  then show ?thesis
    using assms(1) i(1) unfolding i(2) future_pool_inv_def by (auto simp: nth_list_update)
qed

lemma inv_schedule:
  assumes "future_pool_inv S"
  shows "future_pool_inv (schedule_on_pool r0 b0 r w S)"
proof -
  let ?n = "length (fp_futures S)"
  let ?P = "fst (pool_schedule fifo_scheduler ?n w (fp_pool S))"
  have P: "accepted ?P = accepted (fp_pool S) @ [?n]" "taken ?P = taken (fp_pool S)"
    "completed ?P = completed (fp_pool S)" "failed ?P = failed (fp_pool S)"
    by (simp_all add: pool_schedule_def)
  have "set (accepted (fp_pool S)) = {0..<?n}"
    using future_pool_invD(2) [OF assms] by (metis finite_atLeastLessThan finite_set_mset_mset_set set_mset_mset)
  moreover have "mset (taken (fp_pool S)) \<subseteq># mset (accepted (fp_pool S))"
    "mset (completed (fp_pool S)) \<subseteq># mset (taken (fp_pool S))" "mset (failed (fp_pool S)) \<subseteq># mset (taken (fp_pool S))"
    unfolding future_pool_invD(3,4) [OF assms] by simp_all
  ultimately have "?n \<notin> set (taken (fp_pool S))" "?n \<notin> set (completed (fp_pool S))" "?n \<notin> set (failed (fp_pool S))"
    by (metis atLeastLessThan_iff less_irrefl mset_subset_eqD set_mset_mset)+
  then show ?thesis
    using assms fifo_sched.pinv_schedule [of "fp_pool S" ?n w] P
    by (auto simp: future_pool_inv_def schedule_on_pool_def nth_append less_Suc_eq future_ok_new
        atLeast0_lessThan_Suc)
qed

text \<open>A step of the pool itself moves a task to the ones done or failed only from a worker.\<close>

lemma pool_step_tasks:
  assumes "fifo_sched.pinv P" and "pool_do fifo_scheduler mset e P = Some (Inr P')" and "\<forall>t w. e \<noteq> Schedule t w"
  shows "accepted P' = accepted P" "set (taken P) \<subseteq> set (taken P')"
    "i \<in> set (completed P') \<Longrightarrow> i \<in> set (completed P) \<or> (\<exists>w. e = Task_done w \<and> worker_at P w = Running i)"
    "i \<in> set (failed P') \<Longrightarrow> i \<in> set (failed P) \<or> (\<exists>w threads. e = Task_throws threads w \<and> worker_at P w = Running i)"
  using assms(2,3)
  by (cases e; auto simp: pool_clear_def pool_resize_def Let_def grow_workers_eq execute_task_def
      resume_worker_def fetch_task_def res_bind_Inr_iff task_done_def worker_destructed_def worker_died_def
      static_worker_died_def terminate_begin_def terminate_end_def split: if_splits worker.splits)+

lemma inv_pool_step:
  assumes "future_pool_inv S" and "future_pool_do (Pool_step e) S = Some (Inr S')"
  shows "future_pool_inv S'"
proof -
  obtain P where P: "pool_step_can e S" "pool_do fifo_scheduler mset e (fp_pool S) = Some (Inr P)" "S' = S\<lparr>fp_pool := P\<rparr>"
    using assms(2) by (auto simp: map_sum_Inr_iff split: if_splits)
  have e: "\<forall>t w. e \<noteq> Schedule t w"
    using P(1) by auto
  note inv = future_pool_invD [OF assms(1)] and tasks = pool_step_tasks [OF future_pool_invD(1) [OF assms(1)] P(2) e]
  have "fifo_sched.pinv P"
    using fifo_sched.pinv_do [OF inv(1) P(2)] by simp
  moreover have "place (fp_futures S ! i) = Returned"
    if "i \<in> set (completed P)" "i < length (fp_futures S)" for i
    using tasks(3) [OF that(1)] that(2) P(1) assms(1) by (auto simp: future_pool_inv_def)
  moreover have "place (fp_futures S ! i) = Checked"
    if "i \<in> set (failed P)" "i < length (fp_futures S)" for i
    using tasks(4) [OF that(1)] that(2) P(1) assms(1) by (auto simp: future_pool_inv_def)
  ultimately show ?thesis
    using assms(1) tasks(1,2) unfolding P(3) future_pool_inv_def by auto
qed

lemma future_pool_do_inv:
  assumes "future_pool_inv S" and "future_pool_do e S = Some r"
  shows "\<exists>S'. r = Inr S' \<and> future_pool_inv S'"
proof (cases r)
  case (Inl f)
  then have "\<exists>e'. pool_do fifo_scheduler mset e' (fp_pool S) = Some (Inl f)"
    using assms(2) by (cases e) (auto simp: map_sum_Inl_iff split: if_splits worker.splits)
  then show ?thesis
    using fifo_sched.pinv_do [OF future_pool_invD(1) [OF assms(1)]] by blast
next
  case (Inr S')
  have "future_pool_inv S'"
  proof (cases e)
    case (Schedule_future r0 b0 v w)
    then have "S' = schedule_on_pool r0 b0 v w S"
      using assms(2) Inr by (auto split: if_splits)
    then show ?thesis using inv_schedule [OF assms(1)] by simp
  next
    case (Pool_step e')
    show ?thesis by (rule inv_pool_step [OF assms(1) assms(2) [unfolded Pool_step Inr]])
  next
    case (Task_step w e')
    show ?thesis by (rule inv_task_step [OF assms(1) assms(2) [unfolded Task_step Inr]])
  next
    case (Cancel_step i test)
    show ?thesis by (rule inv_cancel_step [OF assms(1) assms(2) [unfolded Cancel_step Inr]])
  qed
  then show ?thesis using Inr by blast
qed

lemma future_pool_run_inv:
  "future_pool_inv S \<Longrightarrow> future_pool_run es S = Some r \<Longrightarrow> \<exists>S'. r = Inr S' \<and> future_pool_inv S'"
proof (induction es arbitrary: S)
  case (Cons e es)
  then obtain r' where r': "future_pool_do e S = Some r'"
    by (auto split: option.splits)
  then obtain S1 where "r' = Inr S1" "future_pool_inv S1"
    using future_pool_do_inv Cons.prems(1) by blast
  then show ?case
    using Cons r' by simp
qed auto

section \<open>What is promised\<close>

text \<open>
  C24. Futures on a pool, whatever the workers, the cancelling threads and the pool's users do:
  nothing faults, and when \<^verbatim>\<open>wait()\<close> of the pool returns, then every future that nobody cancelled
  gives the value of its function to \<^verbatim>\<open>get()\<close> at once if its task was run to its end, and is not
  ready if its task threw or was cleared; there is no other case. A future that is ready holds
  the value of its own function at any time.
\<close>

theorem futures_after_wait:
  assumes "future_pool_run es (future_pool_init threads n) = Some r"
  shows "\<exists>S. r = Inr S \<and> (\<forall>i < length (fp_futures S).
      (future_ready i S \<longrightarrow> future_get i S [] = Some (fp_values S ! i))
    \<and> (pool_wait_over fifo_scheduler 0 (fp_pool S) \<and> \<not> future_is_cancelled i S \<longrightarrow>
        (if i \<in> set (completed (fp_pool S)) then future_get i S [] = Some (fp_values S ! i)
         else \<not> future_ready i S \<and> (i \<in> set (failed (fp_pool S)) \<or> i \<in># cleared (fp_pool S)))))"
proof -
  obtain S where S: "r = Inr S" "future_pool_inv S"
    using future_pool_run_inv [OF future_pool_init_inv assms] by blast
  note inv = future_pool_invD [OF S(2)]
  let ?P = "fp_pool S"
  have "(if i \<in> set (completed ?P) then get_value (shared (fp_futures S ! i)) [] = Some (fp_values S ! i)
      else \<not> m_ready (shared (fp_futures S ! i)) \<and> (i \<in> set (failed ?P) \<or> i \<in># cleared ?P))"
    if i: "i < length (fp_futures S)" and over: "pool_wait_over fifo_scheduler 0 ?P"
      and kept: "\<not> m_is_cancelled (shared (fp_futures S ! i))" for i
  proof -
    have "mset (accepted ?P) = mset (completed ?P) + mset (failed ?P) + cleared ?P"
      "mset (taken ?P) = mset (completed ?P) + mset (failed ?P)"
      using fifo_sched.wait_over_no_tasks [OF inv(1) over] inv(3,4) by (simp_all add: no_tasks_def)
    moreover have "i \<in># mset (accepted ?P)"
      unfolding inv(2) using i by simp
    ultimately have "i \<in> set (completed ?P) \<or> i \<in> set (failed ?P) \<or> i \<in># cleared ?P"
      "i \<in> set (taken ?P) \<longleftrightarrow> i \<in> set (completed ?P) \<or> i \<in> set (failed ?P)"
      by (metis set_mset_mset union_iff)+
    then show ?thesis
      using S(2) i kept unfolding future_pool_inv_def future_ok_def by (auto simp: get_value.simps)
  qed
  moreover have "future_get i S [] = Some (fp_values S ! i)" if "i < length (fp_futures S)" "future_ready i S" for i
    using inv(5) [OF that(1)] that(2) by (simp add: future_handle_defs future_ok_def get_value.simps)
  ultimately show ?thesis
    using S(1) unfolding future_handle_defs list.map by blast
qed

text \<open>Two futures on one worker: the first is computed, the second cleared.\<close>

definition two_futures :: "int future_pool_event list" where
  "two_futures = [Pool_step (Execute 0), Schedule_future 0 True 7 0, Pool_step (Wake 0), Schedule_future 0 False 8 0,
     Task_step 0 (Call True), Task_step 0 Check, Task_step 0 (Compute 7), Pool_step Clear_pool, Task_step 0 Store,
     Task_step 0 Finish, Pool_step (Task_done 0), Pool_step (Execute 0)]"

lemma two_futures_run:
  "map_option (map_sum id (\<lambda>S. (length (fp_futures S), fp_values S, map (m_is_cancelled \<circ> shared) (fp_futures S),
       active_count (fp_pool S), scheduler (fp_pool S), completed (fp_pool S))))
     (future_pool_run two_futures (future_pool_init 1 1)) = Some (Inr (2, [7, 8], [False, False], 0, [], [0]))"
  by code_simp

theorem futures_after_wait_witness:
  "\<exists>S. future_pool_run two_futures (future_pool_init 1 1) = Some (Inr S)
     \<and> future_get 0 S [] = Some 7 \<and> \<not> future_ready 1 S"
proof -
  obtain r where r: "future_pool_run two_futures (future_pool_init 1 1) = Some r"
    "map_sum id (\<lambda>S. (length (fp_futures S), fp_values S, map (m_is_cancelled \<circ> shared) (fp_futures S),
       active_count (fp_pool S), scheduler (fp_pool S), completed (fp_pool S))) r
       = Inr (2, [7, 8], [False, False], 0, [], [0])"
    using two_futures_run by (auto simp: map_option_eq_Some)
  then obtain S where S: "r = Inr S" "length (fp_futures S) = 2" "fp_values S = [7, 8]"
    "map (m_is_cancelled \<circ> shared) (fp_futures S) = [False, False]"
    "pool_wait_over fifo_scheduler 0 (fp_pool S)" "completed (fp_pool S) = [0]"
    by (cases r) (auto simp: fifo_wait_over_Nil)
  then have "\<not> future_is_cancelled i S" if "i < 2" for i
    using that arg_cong [OF S(4), of "\<lambda>l. l ! i"] by (auto simp: less_2_cases_iff future_handle_defs)
  then show ?thesis
    using futures_after_wait [OF r(1)] S r(1) by force
qed

end
