(* ===== verification/Pipeline.thy ===== *)
theory Pipeline
  imports Cluster
begin

text \<open>
  A master and the other member of its quorum at full load: several slots are open at once, more
  values wait for a place in the window, and the accept requests and votes are on their way. What
  each handler does then, on links that keep their order and lose nothing.
\<close>

section \<open>The master\<close>

text \<open>The proposers at work, from the slot after \<open>k\<close> on. The master's own votes are counted.\<close>

fun own_voted :: "view \<Rightarrow> nat \<Rightarrow> (prop_value \<times> 'n) list \<Rightarrow> (nat \<times> 'n proposer_info) list" where
  "own_voted w k [] = []"
| "own_voted w k ((u, name) # us) = (Suc k, running_info w u name [(0, grant_of 0 (Suc k))]) # own_voted w (Suc k) us"

text \<open>
  The state between two handlers: \<open>vs\<close> are chosen, \<open>us\<close> proposed, \<open>qs\<close> in the queue, the latter two
  with their clients; the first \<open>r\<close> decisions have been sent on with accept requests.
\<close>

definition pipe_open :: "prop_value list \<Rightarrow> (prop_value \<times> 'n) list \<Rightarrow> (prop_value \<times> 'n) list \<Rightarrow> nat \<Rightarrow> 'n captain \<Rightarrow> bool" where
  "pipe_open vs us qs r c \<longleftrightarrow> work c \<and> if_master (cap_view c) \<and> me_of c = 0 \<and> quorums (cap_view c) = [0, 1]
     \<and> q_size (cap_view c) = 2 \<and> 0 < window_size c \<and> log_is vs c \<and> last_slot c = r \<and> r \<le> length vs
     \<and> max_slot c = length vs + length us \<and> fresh_above (length vs + length us) (acceptors c)
     \<and> proposers c = own_voted (cap_view c) (length vs) us \<and> length us \<le> window_size c
     \<and> tocommit_values c = map fst qs \<and> tocommit_clients c = map snd qs
     \<and> (\<forall>v \<in> set (vs @ map fst (us @ qs)). pv_cmd v = None)"

definition pipe :: "prop_value list \<Rightarrow> (prop_value \<times> 'n) list \<Rightarrow> (prop_value \<times> 'n) list \<Rightarrow> nat \<Rightarrow> 'n captain \<Rightarrow> bool" where
  "pipe vs us qs r c \<longleftrightarrow> pipe_open vs us qs r c \<and> (qs \<noteq> [] \<longrightarrow> length us = window_size c)"

text \<open>
  The accept request for the slot after \<open>a\<close>, to a member that knows the first \<open>t\<close> decisions: it may
  carry the next one.
\<close>

definition request_at :: "prop_value list \<Rightarrow> nat \<Rightarrow> nat \<Rightarrow> msg_accept \<Rightarrow> bool" where
  "request_at ws t a m \<longleftrightarrow> hdr_slot (acc_header m) = Suc a \<and> hdr_node (acc_header m) = 0 \<and> acc_ballot m = 65536
     \<and> a < length ws \<and> acc_value m = ws ! a
     \<and> (acc_last_slot m = None \<or> t < a \<and> acc_last_slot m = Some (Suc t) \<and> acc_last_value m = Some (pv_id (ws ! t)))"

definition known_after :: "nat \<Rightarrow> msg_accept \<Rightarrow> nat" where
  "known_after t m = (case acc_last_slot m of None \<Rightarrow> t | Some _ \<Rightarrow> Suc t)"

lemma request_at_mono: "request_at ws t a m \<Longrightarrow> request_at (ws @ xs) t a m"
  by (auto simp: request_at_def nth_append)

lemma map_put_end: "\<forall>p \<in> set xs. fst p < k \<Longrightarrow> map_put k v xs = xs @ [(k, v)]"
  for k :: nat
  by (induction xs) auto

lemma map_put_again: "\<forall>p \<in> set xs. fst p < k \<Longrightarrow> map_put k v (xs @ [(k, u)]) = xs @ [(k, v)]"
  for k :: nat
  by (induction xs) auto

lemma own_voted_append:
  "own_voted w k (us @ [(v, name)]) = own_voted w k us @ [(Suc (k + length us), running_info w v name [(0, grant_of 0 (Suc (k + length us)))])]"
  by (induction us arbitrary: k) auto

lemma length_own_voted [simp]: "length (own_voted w k us) = length us"
  by (induction us arbitrary: k) auto

lemma own_voted_slots: "p \<in> set (own_voted w k us) \<Longrightarrow> k < fst p \<and> fst p \<le> k + length us"
  by (induction us arbitrary: k) fastforce+

text \<open>
  A value is proposed: the request goes to the quorum, the master handles its own copy and its own
  vote on the spot.
\<close>

definition votes_itself :: "'n captain \<Rightarrow> msg_accept \<Rightarrow> 'n captain \<Rightarrow> bool" where
  "votes_itself c m c' \<longleftrightarrow> (\<exists>c1 s. cap_view c = cap_view c' \<and> cap_view c1 = cap_view c'
     \<and> (\<forall>nm. handle_msg (Accept m) nm c = Inr (c1, [Send_self (Ack_accept (grant_of 0 s))]))
     \<and> (\<forall>nm. handle_msg (Ack_accept (grant_of 0 s)) nm c1 = Inr (c', [])))"

lemma pipe_piggyback:
  assumes "pipe_open vs us qs r c" and "log_is vs c1" and "last_slot c1 = last_slot c" and "m0 = accept_request 0 (Suc a) info"
    and "a = length vs + length us" and "info = fast_info (cap_view c) v name"
  shows "\<exists>m. piggyback m0 c1 = Inr (c1\<lparr>last_slot := known_after r m\<rparr>, m) \<and> request_at (vs @ map fst us @ [v]) r a m
    \<and> known_after r m \<le> length vs"
proof -
  have c: "me_of c = 0" "last_slot c = r" "r \<le> length vs"
    using assms(1) by (simp_all add: pipe_open_def)
  have m0: "hdr_slot (acc_header m0) = Suc a" "hdr_node (acc_header m0) = 0" "acc_ballot m0 = 65536" "acc_value m0 = v"
    "acc_last_slot m0 = None"
    using c(1) by (simp_all add: assms(4,6) accept_request_def fast_info_def proposer_ops msg_accept_def Let_def set_msg_header_def)
  have at: "(vs @ map fst us @ [v]) ! a = v"
    by (simp add: assms(5) nth_append)
  show ?thesis
  proof (cases "r < length vs")
    case True
    let ?m = "m0\<lparr>acc_last_slot := Some (Suc r), acc_last_value := Some (pv_id (vs ! r))\<rparr>"
    have "piggyback m0 c1 = Inr (c1\<lparr>last_slot := Suc r\<rparr>, ?m)"
      using True assms(2,3) c(2) by (simp add: piggyback_def log_is_def)
    moreover have "request_at (vs @ map fst us @ [v]) r a ?m"
      using True m0 at by (simp add: request_at_def assms(5) nth_append)
    ultimately show ?thesis
      using True by (intro exI [of _ ?m]) (simp add: known_after_def)
  next
    case False
    then have "piggyback m0 c1 = Inr (c1, m0)" "c1\<lparr>last_slot := r\<rparr> = c1"
      using assms(2,3) c(2,3) by (simp_all add: piggyback_def log_is_def)
    moreover have "request_at (vs @ map fst us @ [v]) r a m0"
      using m0 at by (simp add: request_at_def assms(5))
    ultimately show ?thesis
      using c(3) m0(5) by (intro exI [of _ m0]) (simp add: known_after_def)
  qed
qed

lemma pipe_propose:
  assumes "pipe_open vs us qs r c" and "length us < window_size c" and "pv_cmd v = None"
  shows "\<exists>c1 m c'. propose_fast v name c = Inr (c1, [Broadcast (Accept m)]) \<and> votes_itself c1 m c'
    \<and> pipe_open vs (us @ [(v, name)]) qs (known_after r m) c' \<and> request_at (vs @ map fst us @ [v]) r (length vs + length us) m
    \<and> window_size c' = window_size c \<and> cap_view c' = cap_view c"
proof -
  let ?a = "length vs + length us" and ?w = "cap_view c"
  let ?s = "Suc ?a" and ?info = "fast_info ?w v name"
  let ?ps = "proposers c @ [(?s, ?info)]"
  let ?c0 = "c\<lparr>max_slot := ?s, proposers := ?ps\<rparr>"
  have c: "work c" "if_master ?w" "me_of c = 0" "q_size ?w = 2" "log_is vs c" "max_slot c = ?a" "fresh_above ?a (acceptors c)"
    "proposers c = own_voted ?w (length vs) us"
    using assms(1) by (simp_all add: pipe_open_def)
  have old: "\<forall>p \<in> set (proposers c). fst p < ?s"
    unfolding c(8) using own_voted_slots by fastforce
  have log: "log_is vs ?c0"
    using c(5) by (simp add: log_is_def)
  obtain m where m: "piggyback (accept_request 0 ?s ?info) ?c0 = Inr (?c0\<lparr>last_slot := known_after r m\<rparr>, m)"
    "request_at (vs @ map fst us @ [v]) r ?a m" "known_after r m \<le> length vs"
    using pipe_piggyback [OF assms(1) log _ refl refl refl, of v name] by auto
  let ?c1 = "?c0\<lparr>last_slot := known_after r m\<rparr>"
  have run: "propose_fast v name c = Inr (?c1, [Broadcast (Accept m)])"
    using m(1) c(3,6) by (simp add: propose_fast_def Let_def map_put_end [OF old])
  let ?as = "grow_acceptors (length (acceptors c)) ?s (acceptors c)"
  obtain b where b: "vec_at ?as ?s = Inr (Some b)" "max_proposed_ballot b \<le> 65536" "max_value b = None"
    "fresh_above ?s (?as[?s := Some (vote_of v)])"
    using fresh_above_grown [OF c(7) refl] by blast
  have req: "hdr_slot (acc_header m) = ?s" "hdr_node (acc_header m) = 0" "acc_ballot m = 65536" "acc_value m = v"
    using m(2) by (simp_all add: request_at_def nth_append)
  have vote: "handle_msg_accept 0 m b = (vote_of v, grant_of 0 ?s)"
    using accept_fresh [OF b(2,3) req(3)] req(1,4) by simp
  let ?c2 = "?c1\<lparr>acceptors := ?as[?s := Some (vote_of v)]\<rparr>"
  have voted: "handle_msg (Accept m) nm ?c1 = Inr (?c2, [Send_self (Ack_accept (grant_of 0 ?s))])" for nm
    using c(1,3) b(1) req vote by (simp add: handle_msg_def handle_accept_def Let_def from_myself_def)
  let ?info2 = "running_info ?w v name [(0, grant_of 0 ?s)]"
  let ?c3 = "?c2\<lparr>proposers := proposers c @ [(?s, ?info2)]\<rparr>"
  have "map_of (proposers c) ?s = None"
    unfolding map_of_eq_None_iff using old by auto
  then have find: "map_find ?ps ?s = Some ?info"
    by (simp add: map_find_def map_add_def)
  have put: "map_put ?s x ?ps = proposers c @ [(?s, x)]" for x
    by (rule map_put_again [OF old])
  have "accepted_info 0 ?s (grant_of 0 ?s) ?info = Still ?info2"
    using running_info_accepted(1) [of ?w ?s v name] c(3,4) by (simp add: running_info_nil quorum_size_def)
  moreover have "hdr_slot (acka_header (grant_of 0 ?s)) = ?s"
    by (simp add: grant_of_def)
  ultimately have counted: "handle_msg (Ack_accept (grant_of 0 ?s)) nm ?c2 = Inr (?c3, [])" for nm
    using c(1,3) find put by (simp add: handle_msg_def handle_accepted_def Let_def)
  have "votes_itself ?c1 m ?c3"
    unfolding votes_itself_def using voted counted by (intro exI [of _ ?c2] exI [of _ ?s]) simp
  moreover have "pipe_open vs (us @ [(v, name)]) qs (known_after r m) ?c3"
    using assms m(3) b(4) c by (auto simp: pipe_open_def log_is_def own_voted_append)
  ultimately show ?thesis
    using run m(2) by (intro exI [of _ ?c1] exI [of _ m] exI [of _ ?c3]) simp
qed

text \<open>A commit: the value is proposed, or it waits.\<close>

lemma pipe_commit:
  assumes "pipe vs us qs r c"
  shows "(\<exists>c'. commit mode data name c = Inr (c', []) \<and> pipe vs us (qs @ [(new_value c data, name)]) r c' \<and> cap_view c' = cap_view c)
    \<or> (qs = [] \<and> (\<exists>c1 m c'. commit mode data name c = Inr (c1, [Broadcast (Accept m)]) \<and> votes_itself c1 m c'
        \<and> pipe vs (us @ [(new_value c data, name)]) [] (known_after r m) c'
        \<and> request_at (vs @ map fst us @ [new_value c data]) r (length vs + length us) m \<and> cap_view c' = cap_view c))"
proof -
  let ?c = "next_value_id c" and ?v = "new_value c data"
  have cmd: "pv_cmd ?v = None"
    by (simp add: new_value_def)
  have c: "if_master (cap_view c)" "length (proposers c) = length us" "tocommit_values c = map fst qs" "length us \<le> window_size c"
    "qs \<noteq> [] \<Longrightarrow> length us = window_size c" "tocommit_clients c = map snd qs"
    using assms by (simp_all add: pipe_def pipe_open_def)
  have same: "window_size ?c = window_size c" "proposers ?c = proposers c" "tocommit_values ?c = map fst qs"
    "tocommit_clients ?c = map snd qs" "cap_view ?c = cap_view c"
    using c by (simp_all add: next_value_id_def)
  have op: "pipe_open vs us qs r ?c"
    using assms by (simp add: pipe_def pipe_open_def log_is_def next_value_id_def)
  have run: "commit mode data name c = res_bind (commit_value ?v name ?c) (\<lambda>(c', calls, _). Inr (c', calls))"
    by (rule commit_master_eq [OF c(1)])
  show ?thesis
  proof (cases "length us < window_size c")
    case True
    then have qs: "qs = []" using c(5) by auto
    obtain c1 m c' where p: "propose_fast ?v name ?c = Inr (c1, [Broadcast (Accept m)])" "votes_itself c1 m c'"
      "pipe_open vs (us @ [(?v, name)]) qs (known_after r m) c'" "request_at (vs @ map fst us @ [?v]) r (length vs + length us) m"
      "cap_view c' = cap_view ?c"
      using pipe_propose [OF op _ cmd, of name] True same(1) by auto
    have "commit_value ?v name ?c = Inr (c1, [Broadcast (Accept m)], name)"
      using p(1) True c(2) same qs by (simp add: commit_value_def)
    then have "commit mode data name c = Inr (c1, [Broadcast (Accept m)])"
      by (simp add: run)
    then show ?thesis
      using p(2-5) qs same(5) by (auto simp: pipe_def)
  next
    case False
    then have full: "length us = window_size c" using c(4) by simp
    let ?c' = "?c\<lparr>tocommit_values := map fst (qs @ [(?v, name)]), tocommit_clients := map snd (qs @ [(?v, name)])\<rparr>"
    have "commit_value ?v name ?c = Inr (?c', [], name)"
      using full c(2) same by (simp add: commit_value_def queue_push_def)
    then have "commit mode data name c = Inr (?c', [])"
      by (simp add: run)
    moreover have "pipe vs us (qs @ [(?v, name)]) r ?c'"
      using op full same(1) cmd by (simp add: pipe_def pipe_open_def log_is_def)
    ultimately show ?thesis
      using same(5) by simp
  qed
qed

text \<open>
  The vote of the other member decides the first open slot; its client is told, and the first value
  of the queue takes the place.
\<close>

definition calls_back :: "'n call \<Rightarrow> bool" where
  "calls_back call = (case call of Run_callback _ _ \<Rightarrow> True | Run_callback_full _ _ _ \<Rightarrow> True
     | Run_callback_latency _ _ _ \<Rightarrow> True | _ \<Rightarrow> False)"

lemma calls_back_callbacks: "call \<in> set (value_callbacks s v c) \<Longrightarrow> calls_back call"
  by (auto simp: value_callbacks_def calls_back_def split: if_splits)

lemma map_erase_own_voted: "map_erase (Suc k) ((Suc k, info) # own_voted w (Suc k) us) = own_voted w (Suc k) us"
proof -
  have "fst p \<noteq> Suc k" if "p \<in> set (own_voted w (Suc k) us)" for p
    using own_voted_slots [OF that] by simp
  then show ?thesis
    by (simp add: map_erase_def)
qed

lemma pipe_from_queue:
  assumes "pipe_open vs us qs r c" and "length us < window_size c" and "qs \<noteq> [] \<longrightarrow> Suc (length us) = window_size c"
  shows "(qs = [] \<and> commit_from_queue c = Inr (c, []) \<and> pipe vs us [] r c)
    \<or> (\<exists>q name qs' c1 m c'. qs = (q, name) # qs' \<and> commit_from_queue c = Inr (c1, [Broadcast (Accept m)]) \<and> votes_itself c1 m c'
        \<and> pipe vs (us @ [(q, name)]) qs' (known_after r m) c' \<and> request_at (vs @ map fst us @ [q]) r (length vs + length us) m
        \<and> cap_view c' = cap_view c)"
proof (cases qs)
  case Nil
  then show ?thesis
    using assms(1) by (simp add: commit_from_queue_def pipe_def pipe_open_def)
next
  case (Cons x qs')
  obtain q name where x: "x = (q, name)" by (cases x)
  let ?c = "c\<lparr>tocommit_values := map fst qs', tocommit_clients := map snd qs'\<rparr>"
  have c: "tocommit_values c = q # map fst qs'" "tocommit_clients c = name # map snd qs'" "pv_cmd q = None"
    using assms(1) Cons x by (simp_all add: pipe_open_def)
  have "pipe_open vs us qs' r ?c"
    using assms(1) Cons by (simp add: pipe_open_def log_is_def)
  then obtain c1 m c' where p: "propose_fast q name ?c = Inr (c1, [Broadcast (Accept m)])" "votes_itself c1 m c'"
    "pipe_open vs (us @ [(q, name)]) qs' (known_after r m) c'" "request_at (vs @ map fst us @ [q]) r (length vs + length us) m"
    "window_size c' = window_size c" "cap_view c' = cap_view c"
    using pipe_propose [of vs us qs' r ?c q name] assms(2) c(3) by auto
  have "commit_from_queue c = Inr (c1, [Broadcast (Accept m)])"
    using p(1) c(1,2) by (simp add: commit_from_queue_def queue_front_def queue_pop_def)
  then show ?thesis
    using p(2-6) assms(3) Cons x by (auto simp: pipe_def)
qed

lemma pipe_decides:
  assumes "pipe vs ((u, client) # us) qs r c"
  shows "\<exists>c2 rest tl. handle_msg (Ack_accept (grant_of 1 (Suc (length vs)))) nm c
      = Inr (c2, Inform_client (Suc (length vs)) 1 client # rest @ tl) \<and> (\<forall>call \<in> set rest. calls_back call)
    \<and> ((qs = [] \<and> tl = [] \<and> pipe (vs @ [u]) us [] r c2 \<and> cap_view c2 = cap_view c)
     \<or> (\<exists>q name qs' m c'. qs = (q, name) # qs' \<and> tl = [Broadcast (Accept m)] \<and> votes_itself c2 m c'
          \<and> pipe (vs @ [u]) (us @ [(q, name)]) qs' (known_after r m) c'
          \<and> request_at (vs @ u # map fst us @ [q]) r (Suc (length vs + length us)) m \<and> cap_view c' = cap_view c))"
proof -
  let ?s = "Suc (length vs)" and ?w = "cap_view c"
  let ?info = "(running_info ?w u client [(0, grant_of 0 ?s), (1, grant_of 1 ?s)])\<lparr>pi_status := CHOSEN\<rparr>"
  let ?rest = "own_voted ?w ?s us"
  let ?c2 = "c\<lparr>proposers := (?s, ?info) # ?rest\<rparr>"
  let ?c3 = "(log_with (vs @ [u]) ?c2)\<lparr>proposers := ?rest\<rparr>"
  define cbs where "cbs = (if has_callback_latency c then [Run_callback_latency ?s u 1] else []) @ value_callbacks ?s u ?c2"
  have c: "work c" "me_of c = 0" "q_size ?w = 2" "log_is vs c" "proposers c = own_voted ?w (length vs) ((u, client) # us)"
    "pv_cmd u = None" "length us < window_size c" "qs \<noteq> [] \<longrightarrow> Suc (length us) = window_size c"
    using assms by (simp_all add: pipe_def pipe_open_def)
  have info: "get_chosen_value (curr_proposer ?info) = Some u" "get_init_value (curr_proposer ?info) = u"
    "try_time ?info = 1" "client_name ?info = client"
    by (simp_all add: running_info_def fast_info_def proposer_ops get_chosen_value_def get_init_value_def)
  have log: "log_is vs ?c2"
    using c(4) by (simp add: log_is_def)
  have freed: "pipe_open (vs @ [u]) us qs r ?c3"
    using assms unfolding pipe_def pipe_open_def by (auto simp: log_is_def log_with_def)
  have c3: "length us < window_size ?c3" "qs \<noteq> [] \<longrightarrow> Suc (length us) = window_size ?c3" "cap_view ?c3 = ?w"
    using c(7,8) by (simp_all add: log_with_def)
  have "map_erase ?s (proposers (log_with (vs @ [u]) ?c2)) = ?rest"
    by (simp add: log_with_def map_erase_own_voted)
  moreover have "tell_client ?s ?info u c2 = Inform_client ?s 1 client # (if has_callback_latency c2 then [Run_callback_latency ?s u 1] else [])"
    "next_work ?info u nm c2 = commit_from_queue c2" for c2
    unfolding tell_client_def next_work_def info by simp_all
  ultimately have fin: "finish_slot ?s ?info nm c = res_bind (commit_from_queue ?c3) (\<lambda>(c4, calls).
      Inr (c4, Inform_client ?s 1 client # cbs @ calls))"
    unfolding finish_slot_def info cbs_def using add_next_value [OF log c(6)] c(5) by (simp add: Let_def)
  have "hdr_slot (acka_header (grant_of 1 ?s)) = ?s"
    by (simp add: grant_of_def)
  then have run: "handle_msg (Ack_accept (grant_of 1 ?s)) nm c = finish_slot ?s ?info nm c"
    using c(1-3,5) running_info_accepted(2) [of ?w ?s u client]
    by (simp add: handle_msg_def handle_accepted_def Let_def map_find_def quorum_size_def)
  have cbs: "\<forall>call \<in> set cbs. calls_back call"
    using calls_back_callbacks by (auto simp: calls_back_def cbs_def)
  from pipe_from_queue [OF freed c3(1,2)] show ?thesis
  proof (elim disjE exE conjE)
    assume "qs = []" "commit_from_queue ?c3 = Inr (?c3, [])" "pipe (vs @ [u]) us [] r ?c3"
    then show ?thesis
      unfolding run fin using cbs c3(3) by - (rule exI [of _ ?c3], rule exI [of _ cbs], rule exI [of _ "[]"], simp)
  next
    fix q name qs' c1 m c'
    assume *: "qs = (q, name) # qs'" "commit_from_queue ?c3 = Inr (c1, [Broadcast (Accept m)])" "votes_itself c1 m c'"
      "pipe (vs @ [u]) (us @ [(q, name)]) qs' (known_after r m) c'"
      "request_at ((vs @ [u]) @ map fst us @ [q]) r (length (vs @ [u]) + length us) m" "cap_view c' = cap_view ?c3"
    then show ?thesis
      unfolding run fin using cbs c3(3) by - (rule exI [of _ c1], rule exI [of _ cbs], rule exI [of _ "[Broadcast (Accept m)]"], auto)
  qed
qed

section \<open>The other member\<close>

text \<open>It has voted for the first \<open>a\<close> values and knows the first \<open>t\<close> decisions.\<close>

definition member :: "prop_value list \<Rightarrow> nat \<Rightarrow> nat \<Rightarrow> 'n captain \<Rightarrow> bool" where
  "member ws a t c \<longleftrightarrow> work c \<and> me_of c = 1 \<and> t \<le> a \<and> a \<le> length ws \<and> log_is (take t ws) c \<and> fresh_above a (acceptors c)
     \<and> (\<forall>s. t < s \<and> s \<le> a \<longrightarrow> s < length (acceptors c) \<and> acceptors c ! s = Some (vote_of (ws ! (s - 1))))"

text \<open>Its own proposals and its view stay as they are.\<close>

definition same_work :: "'n captain \<Rightarrow> 'n captain \<Rightarrow> bool" where
  "same_work c c' \<longleftrightarrow> cap_view c' = cap_view c \<and> max_slot c' = max_slot c \<and> proposers c' = proposers c
     \<and> tocommit_values c' = tocommit_values c \<and> window_size c' = window_size c"

lemma member_mono: "member ws a t c \<Longrightarrow> member (ws @ xs) a t c"
  by (auto simp: member_def nth_append)

lemma member_votes:
  assumes "member ws a t c" and "request_at ws t a m" and "\<forall>u \<in> set ws. pv_cmd u = None"
  shows "\<exists>c' calls. handle_msg (Accept m) nm c = Inr (c', calls @ [Reply_to (Ack_accept (grant_of 1 (Suc a))) 0 nm])
    \<and> member ws (Suc a) (known_after t m) c' \<and> (\<forall>call \<in> set calls. calls_back call \<or> (\<exists>s v. call = Produce_log s v)) \<and> same_work c c'"
proof -
  let ?as = "grow_acceptors (length (acceptors c)) (Suc a) (acceptors c)" and ?v = "ws ! a"
  let ?c = "c\<lparr>acceptors := ?as[Suc a := Some (vote_of ?v)]\<rparr>"
  let ?reply = "Reply_to (Ack_accept (grant_of 1 (Suc a))) 0 nm"
  have f: "work c" "me_of c = 1" "log_is (take t ws) c" "fresh_above a (acceptors c)" "t \<le> a"
    "\<forall>s. t < s \<and> s \<le> a \<longrightarrow> s < length (acceptors c) \<and> acceptors c ! s = Some (vote_of (ws ! (s - 1)))"
    using assms(1) by (simp_all add: member_def)
  obtain b where b: "vec_at ?as (Suc a) = Inr (Some b)" "max_proposed_ballot b \<le> 65536" "max_value b = None"
    "Suc a < length ?as" "fresh_above (Suc a) (?as[Suc a := Some (vote_of ?v)])"
    "\<forall>i < length (acceptors c). ?as ! i = acceptors c ! i"
    using fresh_above_grown [OF f(4) refl] by blast
  have m: "hdr_slot (acc_header m) = Suc a" "hdr_node (acc_header m) = 0" "sender (acc_header m) = 0" "acc_value m = ?v"
    "acc_ballot m = 65536" "a < length ws"
    using assms(2) by (simp_all add: request_at_def sender_def)
  have vote: "handle_msg_accept 1 m b = (vote_of ?v, grant_of 1 (Suc a))"
    using accept_fresh [OF b(2,3) m(5)] m(1,4) by simp
  have run: "handle_msg (Accept m) nm c =
      (case acc_last_slot m of
         None \<Rightarrow> Inr (?c, [?reply])
       | Some ds \<Rightarrow> res_bind (learn_piggyback ds (case acc_last_value m of None \<Rightarrow> 0 | Some vid \<Rightarrow> vid) 0 ?c)
           (\<lambda>r. case r of None \<Rightarrow> Inr (?c, []) | Some (c2, calls) \<Rightarrow> Inr (c2, calls @ [?reply])))"
    using f(1,2) b(1) m vote by (auto simp: handle_msg_def handle_accept_def Let_def from_myself_def split: option.splits)
  have votes: "s < length (acceptors ?c) \<and> acceptors ?c ! s = Some (vote_of (ws ! (s - 1)))" if "t < s" "s \<le> Suc a" for s
  proof (cases "s = Suc a")
    case False
    then have "s < length (acceptors c)" "acceptors c ! s = Some (vote_of (ws ! (s - 1)))"
      using f(6) that by simp_all
    then show ?thesis
      using b(4,6) that False by simp
  qed (use b(4) in simp)
  have one: "member ws (Suc a) t ?c"
    using f b(5) m(6) votes by (simp add: member_def log_is_def)
  show ?thesis
  proof (cases "acc_last_slot m")
    case None
    then show ?thesis
      using run one by (intro exI [of _ ?c] exI [of _ "[]"]) (simp add: known_after_def same_work_def)
  next
    case (Some ds)
    then have ds: "t < a" "ds = Suc t" "acc_last_value m = Some (pv_id (ws ! t))"
      using assms(2) by (simp_all add: request_at_def)
    let ?u = "ws ! t"
    have len: "length (take t ws) = t" "t < length ws" and more: "take t ws @ [?u] = take (Suc t) ws"
      using ds(1) m(6) by (simp_all add: take_Suc_conv_app_nth)
    have cmd: "pv_cmd ?u = None"
      using assms(3) len(2) nth_mem by blast
    have log: "log_is (take t ws) ?c"
      using f(3) by (simp add: log_is_def)
    have vote: "Suc t < length (acceptors ?c)" "acceptors ?c ! Suc t = Some (vote_of ?u)"
      using votes [of "Suc t"] ds(1) by simp_all
    have "learn_piggyback (Suc (length (take t ws))) (pv_id ?u) 0 ?c = Inr (Some (log_with (take t ws @ [?u]) ?c,
        value_callbacks (Suc (length (take t ws))) ?u ?c @ [Produce_log (Suc (length (take t ws))) ?u]))"
      by (rule follower_learns [OF log _ _ cmd]) (simp_all only: len vote)
    then have learned: "handle_msg (Accept m) nm c = Inr (log_with (take (Suc t) ws) ?c,
        (value_callbacks (Suc t) ?u ?c @ [Produce_log (Suc t) ?u]) @ [?reply])"
      unfolding len more using run Some ds by simp
    have "member ws (Suc a) (Suc t) (log_with (take (Suc t) ws) ?c)"
      using one ds(1) by (simp add: member_def)
    moreover have "\<forall>call \<in> set (value_callbacks (Suc t) ?u ?c @ [Produce_log (Suc t) ?u]). calls_back call \<or> (\<exists>s v. call = Produce_log s v)"
      using calls_back_callbacks by auto
    ultimately show ?thesis
      using learned Some
      by - (rule exI [of _ "log_with (take (Suc t) ws) ?c"], rule exI [of _ "value_callbacks (Suc t) ?u ?c @ [Produce_log (Suc t) ?u]"],
        simp add: known_after_def same_work_def)
  qed
qed

section \<open>The requests on their way\<close>

text \<open>
  The requests on a link, to a member that has voted for \<open>a\<close> values and knows \<open>t\<close> decisions: after
  them it has voted for \<open>a'\<close> and knows \<open>t'\<close>.
\<close>

fun on_link :: "prop_value list \<Rightarrow> nat \<Rightarrow> nat \<Rightarrow> msg_accept list \<Rightarrow> nat \<Rightarrow> nat \<Rightarrow> bool" where
  "on_link ws t a [] t' a' \<longleftrightarrow> t' = t \<and> a' = a"
| "on_link ws t a (m # ms) t' a' \<longleftrightarrow> request_at ws t a m \<and> on_link ws (known_after t m) (Suc a) ms t' a'"

lemma on_link_append:
  "on_link ws t a ms t' a' \<Longrightarrow> request_at ws t' a' m \<Longrightarrow> on_link ws t a (ms @ [m]) (known_after t' m) (Suc a')"
  by (induction ms arbitrary: t a) auto

lemma on_link_mono: "on_link ws t a ms t' a' \<Longrightarrow> on_link (ws @ xs) t a ms t' a'"
  by (induction ms arbitrary: t a) (auto intro: request_at_mono)

lemma on_link_length: "on_link ws t a ms t' a' \<Longrightarrow> a' = a + length ms"
  by (induction ms arbitrary: t a) fastforce+

end
