(* ===== verification/Takeover.thy ===== *)
theory Takeover
  imports Pipeline
begin

text \<open>
  What goes wrong in the recovery build, with nothing lost, when a second node becomes the master.
\<close>

section \<open>The takeover\<close>














end
