(* ===== verification/Owners.thy ===== *)
theory Owners
  imports World_Nodes
begin

text \<open>
  Whose value is in which slot. In the default build only node 0 proposes, and it gives every
  slot once: to a value and to the name of the client's request it came with. The map of these
  pairs is not in the code; this theory shows that every handler can be followed in it, so that
  the value a node votes for, stores or reports for a slot is the one the slot was given to, and
  the client that is told of a slot is the one whose value it is.
\<close>

section \<open>Slots and their owners\<close>

type_synonym 'n owners = "slot_id \<Rightarrow> (prop_value \<times> 'n) option"

definition in_slot :: "'n owners \<Rightarrow> slot_id \<Rightarrow> prop_value option \<Rightarrow> bool" where
  "in_slot A s ov \<longleftrightarrow> (\<forall>v. ov = Some v \<longrightarrow> (\<exists>nm. A s = Some (v, nm)))"

lemma in_slot_simps [simp]:
  "in_slot A s None" "in_slot A s (Some v) \<longleftrightarrow> (\<exists>nm. A s = Some (v, nm))"
  by (simp_all add: in_slot_def)

lemma map_le_Some: "A \<subseteq>\<^sub>m A' \<Longrightarrow> A s = Some x \<Longrightarrow> A' s = Some x"
  by (metis domI map_le_def)

lemma in_slot_mono: "in_slot A s ov \<Longrightarrow> A \<subseteq>\<^sub>m A' \<Longrightarrow> in_slot A' s ov"
  by (cases ov) (auto dest: map_le_Some)

text \<open>A promise reports a vote for the slot's own value, and one if it reports a ballot.\<close>

definition promise_owned :: "'n owners \<Rightarrow> slot_id \<Rightarrow> msg_ack_prepare \<Rightarrow> bool" where
  "promise_owned A s ack \<longleftrightarrow> in_slot A s (ackp_max_value ack)
     \<and> (ackp_reply ack \<longrightarrow> ackp_max_ballot ack \<noteq> 0 \<longrightarrow> ackp_max_value ack \<noteq> None)"

definition info_owned :: "'n owners \<Rightarrow> slot_id \<Rightarrow> 'n proposer_info \<Rightarrow> bool" where
  "info_owned A s info \<longleftrightarrow> A s = Some (init_value (curr_proposer info), client_name info)
     \<and> in_slot A s (curr_value (curr_proposer info)) \<and> in_slot A s (max_prop (curr_proposer info))
     \<and> (\<forall>e \<in> set (ack_prepares (curr_proposer info)). promise_owned A s (snd e))"

definition captain_owned :: "'n owners \<Rightarrow> 'n captain \<Rightarrow> bool" where
  "captain_owned A c \<longleftrightarrow> (\<forall>s info. map_find (proposers c) s = Some info \<longrightarrow> info_owned A s info)
     \<and> (\<forall>s. in_slot A s (max_value (acc_at c s)))
     \<and> (\<forall>s. in_slot A s (chosen_at c s))"

text \<open>The messages of the default build about slots. A forwarded value is about none.\<close>

fun msg_owned :: "'n owners \<Rightarrow> msg \<Rightarrow> bool" where
  "msg_owned A (Prepare p) = True"
| "msg_owned A (Ack_prepare ack) = promise_owned A (hdr_slot (ackp_header ack)) ack"
| "msg_owned A (Accept r) = in_slot A (hdr_slot (acc_header r)) (Some (acc_value r))"
| "msg_owned A (Ack_accept ack) = True"
| "msg_owned A m = False"

lemma promise_owned_mono: "promise_owned A s ack \<Longrightarrow> A \<subseteq>\<^sub>m A' \<Longrightarrow> promise_owned A' s ack"
  by (auto simp: promise_owned_def intro: in_slot_mono)

lemma info_owned_mono: "info_owned A s info \<Longrightarrow> A \<subseteq>\<^sub>m A' \<Longrightarrow> info_owned A' s info"
  by (auto simp: info_owned_def intro: in_slot_mono promise_owned_mono map_le_Some)

lemma captain_owned_mono: "captain_owned A c \<Longrightarrow> A \<subseteq>\<^sub>m A' \<Longrightarrow> captain_owned A' c"
  unfolding captain_owned_def by (metis in_slot_mono info_owned_mono)

lemma msg_owned_mono: "msg_owned A m \<Longrightarrow> A \<subseteq>\<^sub>m A' \<Longrightarrow> msg_owned A' m"
  by (cases m) (auto intro: promise_owned_mono dest: map_le_Some)

section \<open>One acceptor, one proposer\<close>

lemma handle_msg_prepare_owned:
  assumes "in_slot A s (max_value a)" and "acceptor_ok a" and "handle_msg_prepare k p a = (a', ack)"
    and "s = hdr_slot (pre_header p)"
  shows "in_slot A s (max_value a')" "msg_owned A (Ack_prepare ack)"
  using assms by (auto simp: handle_msg_prepare_def Let_def promise_owned_def acceptor_ok_def split: if_splits)

lemma handle_msg_accept_owned:
  assumes "in_slot A s (max_value a)" and "handle_msg_accept k r a = (a', ack)"
    and "msg_owned A (Accept r)" and "s = hdr_slot (acc_header r)"
  shows "in_slot A s (max_value a')"
  using assms by (auto simp: handle_msg_accept_def Let_def split: if_splits option.splits)

lemma promise_loop_owned:
  assumes "promise_loop xs (mb, mv, n) = (mb', mv', n')" and "in_slot A s mv"
    and "\<forall>e \<in> set xs. promise_owned A s (snd e)"
  shows "in_slot A s mv'"
proof -
  have "mv' = mv \<or> (\<exists>e \<in> set xs. ackp_reply (snd e) \<and> mb < ackp_max_ballot (snd e) \<and> mv' = Some (reported_value (snd e)))"
    using promise_loop_result [OF assms(1)] by auto
  then show ?thesis
  proof
    assume "\<exists>e \<in> set xs. ackp_reply (snd e) \<and> mb < ackp_max_ballot (snd e) \<and> mv' = Some (reported_value (snd e))"
    then obtain e where e: "e \<in> set xs" "ackp_reply (snd e)" "mb < ackp_max_ballot (snd e)"
      "mv' = Some (reported_value (snd e))" by blast
    then have "promise_owned A s (snd e)" "ackp_max_ballot (snd e) \<noteq> 0"
      using assms(3) by auto
    then show ?thesis
      using e by (auto simp: promise_owned_def reported_value_def)
  qed (use assms(2) in simp)
qed

lemma set_map_put: "set (map_put k v xs) \<subseteq> insert (k, v) (set xs)"
  by (induction k v xs rule: map_put.induct) auto

lemma handle_msg_promise_owned:
  assumes "handle_msg_promise ack p = (p', t)" and "A s = Some (init_value p, nm)"
    and "in_slot A s (curr_value p)" and "in_slot A s (max_prop p)"
    and "\<forall>e \<in> set (ack_prepares p). promise_owned A s (snd e)" and "promise_owned A s ack"
  shows "init_value p' = init_value p" "in_slot A s (curr_value p')" "in_slot A s (max_prop p')"
    "\<forall>e \<in> set (ack_prepares p'). promise_owned A s (snd e)"
proof -
  let ?acks = "map_put (sender (ackp_header ack)) ack (ack_prepares p)"
  have acks: "\<forall>e \<in> set ?acks. promise_owned A s (snd e)"
    using assms(5,6) set_map_put [of "sender (ackp_header ack)" ack "ack_prepares p"] by auto
  obtain mb mv n where loop: "promise_loop ?acks (max_ballot p, max_prop p, 0) = (mb, mv, n)"
    by (cases "promise_loop ?acks (max_ballot p, max_prop p, 0)") auto
  have "in_slot A s mv"
    by (rule promise_loop_owned [OF loop assms(4) acks])
  moreover have "p' = p \<or> p' = p\<lparr>ack_prepares := ?acks\<rparr>
      \<or> p' = p\<lparr>ack_prepares := ?acks, max_ballot := mb, max_prop := mv\<rparr>
      \<or> p' = p\<lparr>ack_prepares := ?acks, max_ballot := mb, max_prop := mv,
           curr_value := (case mv of Some v \<Rightarrow> Some v | None \<Rightarrow> Some (init_value p))\<rparr>"
    using assms(1) loop by (cases mv) (auto simp: handle_msg_promise_def Let_def split: if_splits)
  ultimately show "init_value p' = init_value p" "in_slot A s (curr_value p')" "in_slot A s (max_prop p')"
    "\<forall>e \<in> set (ack_prepares p'). promise_owned A s (snd e)"
    using assms(2-5) acks by (auto split: option.splits)
qed

lemma restart_info_owned:
  assumes "info_owned A s info" and "restart_info me s info = (info', m)"
  shows "info_owned A s info'" "hdr_node (pre_header m) = ucast me"
proof -
  have "info' = info\<lparr>curr_proposer := fst (restart_msg_prepare me (curr_proposer info)), pi_status := INIT\<rparr>"
    "m = prepare_request s (snd (restart_msg_prepare me (curr_proposer info)))"
    using assms(2) by (auto simp: restart_info_def split: prod.splits)
  then show "info_owned A s info'" "hdr_node (pre_header m) = ucast me"
    using assms(1) by (simp_all add: info_owned_def restart_msg_prepare_def Proposer.msg_prepare_def
        curr_ballot_gen_next prepare_request_def Let_def)
qed

text \<open>A request a node sends by itself.\<close>

definition own_msg :: "node_id \<Rightarrow> 'n owners \<Rightarrow> msg \<Rightarrow> bool" where
  "own_msg me A m \<longleftrightarrow> msg_owned A m \<and> hdr_node (header_of_msg m) = ucast me"

lemma promise_info_owned:
  assumes "info_owned A s info" and "promise_owned A s ack" and "promise_info me s ack info = (info', om)"
  shows "info_owned A s info'" "\<And>m. om = Some m \<Longrightarrow> own_msg me A m"
proof -
  obtain p t where run: "handle_msg_promise ack (curr_proposer info) = (p, t)"
    by (cases "handle_msg_promise ack (curr_proposer info)")
  let ?info1 = "info\<lparr>pi_status := PHASEI, curr_proposer := p\<rparr>"
  note owned = assms(1) [unfolded info_owned_def]
  have p: "init_value p = init_value (curr_proposer info)" "in_slot A s (curr_value p)" "in_slot A s (max_prop p)"
    "\<forall>e \<in> set (ack_prepares p). promise_owned A s (snd e)"
    using handle_msg_promise_owned [OF run _ _ _ _ assms(2)] owned by blast+
  have one: "info_owned A s ?info1"
    using p owned by (simp add: info_owned_def)
  obtain info2 m where re: "restart_info me s ?info1 = (info2, m)"
    by (cases "restart_info me s ?info1")
  note two = restart_info_owned [OF one re]
  have acc: "own_msg me A (Accept (accept_request me s (?info1\<lparr>pi_status := x\<rparr>)))" "own_msg me A (Accept (accept_request me s ?info1))"
    if "curr_value p \<noteq> None" for x
    using that p(2) by (auto simp: own_msg_def accept_request_def Proposer.msg_accept_def Let_def)
  have cont: "curr_value p \<noteq> None" if "t = CONTINUE"
    using run that by (auto simp: handle_msg_promise_def Let_def split: if_splits prod.splits option.splits)
  have "info_owned A s info' \<and> (\<forall>m. om = Some m \<longrightarrow> own_msg me A m)"
  proof (cases "pi_status info = INIT \<or> pi_status info = PHASEI")
    case False
    then show ?thesis
      using assms by (simp add: promise_info_def)
  next
    case True
    then have eq: "promise_info me s ack info = (case t of
                CONTINUE \<Rightarrow> (?info1\<lparr>pi_status := PHASEII\<rparr>, Some (Accept (accept_request me s ?info1)))
              | RESTART \<Rightarrow> (case restart_info me s ?info1 of (info2, m) \<Rightarrow> (info2, Some (Prepare m)))
              | _ \<Rightarrow> (?info1, None))"
      using run by (cases t) (auto simp: promise_info_def Let_def)
    show ?thesis
      using assms(3) one two re acc(2) cont unfolding eq
      by (cases t) (auto simp: info_owned_def own_msg_def)
  qed
  then show "info_owned A s info'" "\<And>m. om = Some m \<Longrightarrow> own_msg me A m" by blast+
qed

lemma accepted_info_owned:
  assumes "info_owned A s info"
  shows "case accepted_info me s ack info of
      Still info' \<Rightarrow> info_owned A s info'
    | Chosen info' \<Rightarrow> info_owned A s info'
    | Restarted info' m \<Rightarrow> info_owned A s info' \<and> hdr_node (pre_header m) = ucast me"
proof -
  obtain p t where run: "handle_msg_accepted ack (curr_proposer info) = (p, t)"
    by (cases "handle_msg_accepted ack (curr_proposer info)")
  let ?info1 = "info\<lparr>curr_proposer := p\<rparr>"
  have "init_value p = init_value (curr_proposer info)" "curr_value p = curr_value (curr_proposer info)"
    "max_prop p = max_prop (curr_proposer info)" "ack_prepares p = ack_prepares (curr_proposer info)"
    using run by (auto simp: handle_msg_accepted_def Let_def split: if_splits)
  then have one: "info_owned A s ?info1"
    using assms by (simp add: info_owned_def)
  obtain info2 m where re: "restart_info me s ?info1 = (info2, m)"
    by (cases "restart_info me s ?info1")
  have "info_owned A s (?info1\<lparr>pi_status := CHOSEN\<rparr>)"
    using one by (simp add: info_owned_def)
  then show ?thesis
    using assms one restart_info_owned [OF one re] run re by (cases t) (simp_all add: accepted_info_def)
qed

section \<open>A node\<close>

text \<open>
  The master has given out the slots up to its last, and its waiting values belong to requests
  of \<open>Q\<close>; the other nodes propose nothing.
\<close>

definition node_owned :: "'n owners \<Rightarrow> (prop_value \<times> 'n) set \<Rightarrow> 'n captain \<Rightarrow> bool" where
  "node_owned A Q c \<longleftrightarrow> captain_owned A c
     \<and> (if if_master (cap_view c)
         then set (zip (tocommit_values c) (tocommit_clients c)) \<subseteq> Q \<and> dom A = {0<..max_slot c}
         else proposers c = [])"

definition plain_owners :: "'n owners \<Rightarrow> bool" where
  "plain_owners A \<longleftrightarrow> (\<forall>s v nm. A s = Some (v, nm) \<longrightarrow> pv_cmd v = None)"

text \<open>What a node may call; \<open>K\<close> holds of the names it may answer under.\<close>

fun call_owned :: "('n \<Rightarrow> bool) \<Rightarrow> 'n owners \<Rightarrow> 'n captain \<Rightarrow> 'n call \<Rightarrow> bool" where
  "call_owned K A c (Send_self m) = own_msg (me_of c) A m"
| "call_owned K A c (Send_to m d) = own_msg (me_of c) A m"
| "call_owned K A c (Broadcast m) = own_msg (me_of c) A m"
| "call_owned K A c (Reply_to m d nm) = (own_msg (me_of c) A m \<and> K nm)"
| "call_owned K A c (Produce_log s v) = in_slot A s (Some v)"
| "call_owned K A c (Inform_client s t nm) =
     (if_master (cap_view c) \<and> (\<exists>v. A s = Some (v, nm) \<and> chosen_at c s = Some v))"
| "call_owned K A c Wait_commit_ok = False"
| "call_owned K A c call = True"

lemma own_msg_mono: "own_msg me A m \<Longrightarrow> A \<subseteq>\<^sub>m A' \<Longrightarrow> own_msg me A' m"
  by (auto simp: own_msg_def intro: msg_owned_mono)

lemma call_owned_mono:
  "call_owned K A c call \<Longrightarrow> A \<subseteq>\<^sub>m A' \<Longrightarrow> extends c c' \<Longrightarrow> cap_view c' = cap_view c \<Longrightarrow> call_owned K A' c' call"
  by (cases call) (auto simp: extends_def intro: own_msg_mono dest: map_le_Some)

lemma callback_owned: "is_callback call \<Longrightarrow> call_owned K A c call"
  by (cases call) (simp_all add: is_callback_def)

text \<open>An operation of a node: more slots may be given, all calls are in order.\<close>

definition owned_move :: "('n \<Rightarrow> bool) \<Rightarrow> 'n owners \<Rightarrow> (prop_value \<times> 'n) set \<Rightarrow> 'n captain \<Rightarrow> 'n captain \<Rightarrow>
    'n call list \<Rightarrow> 'n owners \<Rightarrow> bool" where
  "owned_move K A Q c c' calls A' \<longleftrightarrow> A \<subseteq>\<^sub>m A' \<and> ran A' \<subseteq> ran A \<union> Q \<and> node_owned A' Q c' \<and> cap_view c' = cap_view c
     \<and> (\<not> if_master (cap_view c) \<longrightarrow> A' = A) \<and> (\<forall>call \<in> set calls. call_owned K A' c' call)"

lemma owned_stay:
  "node_owned A Q c' \<Longrightarrow> cap_view c' = cap_view c \<Longrightarrow> \<forall>call \<in> set calls. call_owned K A c' call \<Longrightarrow> owned_move K A Q c c' calls A"
  by (simp add: owned_move_def)

lemma node_owned_plain: "plain_owners A \<Longrightarrow> captain_owned A c \<Longrightarrow> chosen_at c s = Some v \<Longrightarrow> pv_cmd v = None"
  unfolding plain_owners_def captain_owned_def by (metis in_slot_simps(2))

lemma acc_at_same: "acceptors c' = acceptors c \<Longrightarrow> acc_at c' = acc_at c"
  by (simp add: fun_eq_iff acc_at_def acceptor_at_def)

lemma captain_owned_same:
  assumes "captain_owned A c" and "acceptors c' = acceptors c" and "chosen_values c' = chosen_values c"
    and "\<And>s info. map_find (proposers c') s = Some info \<Longrightarrow> map_find (proposers c) s = Some info \<or> info_owned A s info"
  shows "captain_owned A c'"
proof -
  have chosen: "chosen_at c' = chosen_at c"
    using assms(3) by (simp add: chosen_at_def fun_eq_iff)
  show ?thesis
    using assms(1,4) unfolding captain_owned_def acc_at_same [OF assms(2)] chosen by blast
qed

section \<open>Voting and learning\<close>

lemma acceptor_owned:
  assumes "node_owned A Q c" and "acceptors_ok (acceptors c)" and "0 < s" and "in_slot A s (max_value a)"
  shows "node_owned A Q (c\<lparr>acceptors := (grow_acceptors (length (acceptors c)) s (acceptors c))[s := Some a]\<rparr>)"
proof -
  let ?c = "c\<lparr>acceptors := (grow_acceptors (length (acceptors c)) s (acceptors c))[s := Some a]\<rparr>"
  have "acc_at ?c t = (if t = s then a else acc_at c t)" for t
    by (rule grown_acceptors(2) [OF assms(2,3) refl])
  then show ?thesis
    using assms(1,4) by (simp add: node_owned_def captain_owned_def)
qed

lemma handle_prepare_owned:
  assumes "node_owned A Q c" and "core_ok c" and "0 < hdr_slot (pre_header p)"
    and run: "handle_prepare p nm c = Inr (c', calls)" and "K nm \<or> hdr_node (pre_header p) = ucast (me_of c)"
  shows "owned_move K A Q c c' calls A"
proof -
  let ?s = "hdr_slot (pre_header p)"
  have as: "acceptors_ok (acceptors c)"
    using assms(2) by (simp add: core_ok_def)
  obtain a ack where a: "handle_msg_prepare (me_of c) p (acc_at c ?s) = (a, ack)"
    by (cases "handle_msg_prepare (me_of c) p (acc_at c ?s)")
  have res: "c' = c\<lparr>acceptors := (grow_acceptors (length (acceptors c)) ?s (acceptors c))[?s := Some a]\<rparr>"
    "calls = (if from_myself (pre_header p) c then [Send_self (Ack_prepare ack)]
       else [Reply_to (Ack_prepare ack) (sender (pre_header p)) nm])"
    using run grown_acceptors(1) [OF as assms(3) refl] a by (auto simp: handle_prepare_def Let_def split: if_splits)
  have "in_slot A ?s (max_value (acc_at c ?s))"
    using assms(1) by (simp add: node_owned_def captain_owned_def)
  note vote = handle_msg_prepare_owned [OF this acc_at_ok [OF as assms(3)] a refl]
  have "hdr_node (ackp_header ack) = ucast (me_of c)"
    using a by (auto simp: handle_msg_prepare_def Let_def split: if_splits)
  then show ?thesis
    using vote(2) assms(5) acceptor_owned [OF assms(1) as assms(3) vote(1)]
    by (intro owned_stay) (auto simp: res own_msg_def from_myself_def)
qed

lemma learned_owned:
  assumes "node_owned A Q c" and "learned s v c c'" and "in_slot A s (Some v)"
  shows "node_owned A Q c'"
proof -
  have "acc_at c' t = acc_at c t" for t
    using assms(2) by (simp add: learned_def same_rest_def acc_at_def acceptor_at_def)
  moreover have "in_slot A t (chosen_at c' t)" for t
    using assms by (simp add: learned_def node_owned_def captain_owned_def)
  ultimately show ?thesis
    using assms(1,2) by (simp add: learned_def same_rest_def node_owned_def captain_owned_def)
qed

lemma add_chosen_value_owned:
  assumes "node_owned A Q c" and "log_ok c" and "plain_owners A" and "in_slot A s (Some v)"
    and "add_chosen_value s v c = Inr (c', calls)"
  shows "owned_move K A Q c c' calls A" "chosen_at c' s = Some v" "learned s v c c'"
proof -
  have cap: "captain_owned A c"
    using assms(1) by (simp add: node_owned_def)
  have cmds: "\<forall>t w. chosen_at c t = Some w \<longrightarrow> pv_cmd w = None" "pv_cmd v = None"
    using node_owned_plain [OF assms(3) cap] assms(3,4) by (auto simp: plain_owners_def)
  show l: "learned s v c c'"
    by (rule add_chosen_value_learned(1) [OF assms(2,5) cmds])
  have "\<forall>call \<in> set calls. is_callback call"
    using add_chosen_value_callback [OF assms(2,5)] by blast
  then show "owned_move K A Q c c' calls A"
    using learned_owned [OF assms(1) l assms(4)] l by (intro owned_stay) (auto simp: learned_def callback_owned)
  have "in_slot A s (chosen_at c s)"
    using cap by (simp add: captain_owned_def)
  then show "chosen_at c' s = Some v"
    using l assms(4) by (cases "chosen_at c s") (auto simp: learned_def)
qed

text \<open>One operation after another.\<close>

lemma owned_move_trans:
  assumes "owned_move K A Q c c1 calls1 A1" and "owned_move K A1 Q c1 c2 calls2 A2" and "extends c1 c2"
  shows "owned_move K A Q c c2 (calls1 @ calls2) A2"
proof -
  note one = assms(1) [unfolded owned_move_def] and two = assms(2) [unfolded owned_move_def]
  have "\<forall>call \<in> set calls1. call_owned K A2 c2 call"
    using one two assms(3) call_owned_mono by metis
  moreover have "A \<subseteq>\<^sub>m A2" "ran A2 \<subseteq> ran A \<union> Q"
    using one two map_le_trans by blast+
  ultimately show ?thesis
    using one two by (auto simp: owned_move_def)
qed

lemma learn_piggyback_owned:
  assumes "node_owned A Q c" and "core_ok c" and "plain_owners A" and "0 < s"
    and run: "learn_piggyback s vid j c = Inr (Some (c', calls))"
  shows "owned_move K A Q c c' calls A"
proof -
  have ok: "log_ok c" "acceptors_ok (acceptors c)"
    using assms(2) by (simp_all add: core_ok_def)
  obtain ov where here: "accepted_here s vid c = Inr ov"
    using accepted_here_result [OF ok(2) assms(4)] by blast
  show ?thesis
  proof (cases ov)
    case None
    then have "c' = c" "calls = []"
      using run here by (auto simp: learn_piggyback_def already_chosen_result [OF ok(1)] split: if_splits)
    then show ?thesis
      using assms(1) by (intro owned_stay) simp_all
  next
    case (Some v)
    then have "max_value (acc_at c s) = Some v"
      using here unfolding accepted_here_result [OF ok(2) assms(4)]
      by (auto simp: acc_at_def split: option.splits if_splits)
    then have v: "in_slot A s (Some v)"
      using assms(1) unfolding node_owned_def captain_owned_def by metis
    obtain calls1 w where add: "add_chosen_value s v c = Inr (c', calls1)" "calls = calls1 @ [Produce_log s w]"
      "vec_at (chosen_values c') s = Inr (Some w)"
      using run here Some by (auto simp: learn_piggyback_def already_chosen_result [OF ok(1)] add_learn_value_def
          res_bind_Inr_iff deref_Inr_iff split: if_splits)
    note moved = add_chosen_value_owned [OF assms(1) ok(1) assms(3) v add(1)]
    have "w = v"
      using moved(2) add(3) by (auto simp: chosen_at_def vec_at_Inr_iff)
    then show ?thesis
      using moved(1) [of K] v by (simp add: add(2) owned_move_def)
  qed
qed

lemma handle_accept_owned:
  assumes "node_owned A Q c" and "core_ok c" and "plain_owners A" and "0 < hdr_slot (acc_header r)"
    and "acc_last_slot r \<noteq> Some 0" and "msg_owned A (Accept r)"
    and run: "handle_accept r nm c = Inr (c', calls)" and "K nm \<or> hdr_node (acc_header r) = ucast (me_of c)"
  shows "owned_move K A Q c c' calls A"
proof -
  let ?s = "hdr_slot (acc_header r)"
  have as: "acceptors_ok (acceptors c)"
    using assms(2) by (simp add: core_ok_def)
  obtain a ack where a: "handle_msg_accept (me_of c) r (acc_at c ?s) = (a, ack)"
    by (cases "handle_msg_accept (me_of c) r (acc_at c ?s)")
  let ?c1 = "c\<lparr>acceptors := (grow_acceptors (length (acceptors c)) ?s (acceptors c))[?s := Some a]\<rparr>"
  have "in_slot A ?s (max_value (acc_at c ?s))"
    using assms(1) by (simp add: node_owned_def captain_owned_def)
  from handle_msg_accept_owned [OF this a assms(6) refl]
  have one: "node_owned A Q ?c1"
    by (rule acceptor_owned [OF assms(1) as assms(4)])
  have ack: "own_msg (me_of c) A (Ack_accept ack)"
    using a by (auto simp: own_msg_def handle_msg_accept_def Let_def split: if_splits)
  note at = grown_acceptors(1) [OF as assms(4) refl]
  show ?thesis
  proof (cases "from_myself (acc_header r) c")
    case True
    then have "c' = ?c1" "calls = [Send_self (Ack_accept ack)]"
      using run at a by (simp_all add: handle_accept_def Let_def)
    then show ?thesis
      using one ack by (intro owned_stay) simp_all
  next
    case other: False
    then have name: "K nm"
      using assms(8) by (simp add: from_myself_def)
    let ?reply = "Reply_to (Ack_accept ack) (sender (acc_header r)) nm"
    have "core_ok ?c1"
      using assms(2) acceptor_ok_accept [OF acc_at_ok [OF as assms(4)], of "me_of c" r] a acceptors_ok_update [OF acceptors_ok_grow(1) [OF as] assms(4)]
      by (simp add: core_ok_def)
    show ?thesis
    proof (cases "acc_last_slot r")
      case None
      then have "c' = ?c1" "calls = [?reply]"
        using run at a other by (simp_all add: handle_accept_def Let_def)
      then show ?thesis
        using one ack name by (intro owned_stay) simp_all
    next
      case (Some ds)
      obtain p where p: "learn_piggyback ds (case acc_last_value r of None \<Rightarrow> 0 | Some vid \<Rightarrow> vid) (sender (acc_header r)) ?c1 = Inr p"
          "case p of None \<Rightarrow> c' = ?c1 \<and> calls = [] | Some (c2, calls2) \<Rightarrow> c' = c2 \<and> calls = calls2 @ [?reply]"
        using run Some other at a by (auto simp: handle_accept_def Let_def res_bind_Inr_iff split: option.splits)
      show ?thesis
      proof (cases p)
        case None
        then show ?thesis
          using p(2) one by (intro owned_stay) simp_all
      next
        case (Some q)
        obtain c2 calls2 where q: "p = Some (c2, calls2)" "c' = c2" "calls = calls2 @ [?reply]"
          using p(2) Some by (cases q) auto
        have "0 < ds"
          using assms(5) \<open>acc_last_slot r = Some ds\<close> by simp
        from learn_piggyback_owned [OF one \<open>core_ok ?c1\<close> assms(3) this p(1) [unfolded q(1)], of K]
        show ?thesis
          using ack name by (simp add: owned_move_def q(2,3))
      qed
    qed
  qed
qed

section \<open>Proposing\<close>

lemma info_put_owned:
  assumes "node_owned A Q c" and "core_ok c" and "map_find (proposers c) s = Some info" and "info_owned A s info'"
  shows "node_owned A Q (c\<lparr>proposers := map_put s info' (proposers c)\<rparr>)"
proof -
  have ps: "map_ok (proposers c)" "proposers c \<noteq> []"
    using assms(2,3) by (auto simp: core_ok_def proposers_ok_def map_find_def)
  have "captain_owned A c"
    using assms(1) by (simp add: node_owned_def)
  then have "captain_owned A (c\<lparr>proposers := map_put s info' (proposers c)\<rparr>)"
    by (rule captain_owned_same) (use assms(4) ps(1) in \<open>auto split: if_splits\<close>)
  then show ?thesis
    using assms(1) ps(2) by (auto simp: node_owned_def split: if_splits)
qed

lemma handle_promise_owned:
  assumes "node_owned A Q c" and "core_ok c" and "msg_owned A (Ack_prepare ack)"
    and run: "handle_promise ack c = (c', calls)"
  shows "owned_move K A Q c c' calls A"
proof (cases "map_find (proposers c) (hdr_slot (ackp_header ack))")
  case None
  then show ?thesis
    using run assms(1) by (intro owned_stay) (auto simp: handle_promise_def Let_def)
next
  case (Some info)
  let ?s = "hdr_slot (ackp_header ack)"
  obtain info' om where p: "promise_info (me_of c) ?s ack info = (info', om)"
    by (cases "promise_info (me_of c) ?s ack info")
  have "info_owned A ?s info" "promise_owned A ?s ack"
    using assms(1,3) Some by (simp_all add: node_owned_def captain_owned_def)
  note owned = promise_info_owned [OF this p]
  have "c' = c\<lparr>proposers := map_put ?s info' (proposers c)\<rparr>" "calls = (case om of None \<Rightarrow> [] | Some m \<Rightarrow> [Broadcast m])"
    using run Some p by (auto simp: handle_promise_def Let_def)
  then show ?thesis
    using info_put_owned [OF assms(1,2) Some owned(1)] owned(2)
    by (intro owned_stay) (auto split: option.splits)
qed

lemma propose_fast_owned:
  assumes "node_owned A Q c" and "core_ok c" and "if_master (cap_view c)" and "(v, nm) \<in> Q"
    and run: "propose_fast v nm c = Inr (c', calls)"
  shows "owned_move K A Q c c' calls (A(Suc (max_slot c) \<mapsto> (v, nm)))" "extends c c'"
proof -
  let ?s = "Suc (max_slot c)" and ?info = "fast_info (cap_view c) v nm"
  let ?A = "A(?s \<mapsto> (v, nm))"
  obtain m where m: "calls = [Broadcast (Accept m)]" "hdr_slot (acc_header m) = ?s" "hdr_node (acc_header m) = ucast (me_of c)"
    "acc_value m = v" "max_slot c' = ?s" "proposers c' = map_put ?s ?info (proposers c)"
    "tocommit_values c' = tocommit_values c" "tocommit_clients c' = tocommit_clients c" "cap_view c' = cap_view c"
    "acceptors c' = acceptors c" "chosen_values c' = chosen_values c" "extends c c'"
    using propose_fast_result [OF assms(2), of v nm] run by auto
  have cap: "captain_owned A c" and dom: "dom A = {0<..max_slot c}"
      and queue: "set (zip (tocommit_values c) (tocommit_clients c)) \<subseteq> Q"
    using assms(1,3) by (simp_all add: node_owned_def)
  have "A ?s = None"
    using dom by (metis domIff greaterThanAtMost_iff not_less_eq_eq order_refl)
  then have le: "A \<subseteq>\<^sub>m ?A"
    by (auto simp: map_le_def)
  have "map_ok (proposers c)"
    using assms(2) by (simp add: core_ok_def proposers_ok_def)
  moreover have "info_owned ?A ?s ?info"
    by (simp add: info_owned_def fast_info_def proposer_ops)
  ultimately have "captain_owned ?A c'"
    by (intro captain_owned_same [OF captain_owned_mono [OF cap le]]) (auto simp: m split: if_splits)
  moreover have "dom ?A = {0<..?s}"
    using dom by auto
  ultimately have "node_owned ?A Q c'"
    using assms(3) queue m by (simp add: node_owned_def)
  moreover have "own_msg (me_of c') ?A (Accept m)"
    using m by (simp add: own_msg_def)
  moreover have "ran ?A \<subseteq> ran A \<union> Q"
    using assms(4) by (auto simp: ran_def)
  ultimately show "owned_move K A Q c c' calls ?A"
    using le m assms(3) by (simp add: owned_move_def)
  show "extends c c'"
    by (rule m(12))
qed

lemma commit_from_queue_owned:
  assumes "node_owned A Q c" and "core_ok c" and "if_master (cap_view c)"
    and "length (tocommit_values c) = length (tocommit_clients c)" and run: "commit_from_queue c = Inr (c', calls)"
  shows "\<exists>A'. owned_move K A Q c c' calls A'" "extends c c'"
proof -
  have "(\<exists>A'. owned_move K A Q c c' calls A') \<and> extends c c'"
  proof (cases "tocommit_values c")
    case Nil
    then have "c' = c" "calls = []"
      using run by (simp_all add: commit_from_queue_def)
    then show ?thesis
      using assms(1) owned_stay [of A Q c c "[]" K] by (auto simp: extends_refl)
  next
    case (Cons v vs)
    then obtain nm ns where ns: "tocommit_clients c = nm # ns"
      using assms(4) by (cases "tocommit_clients c") auto
    let ?c = "c\<lparr>tocommit_values := vs, tocommit_clients := ns\<rparr>"
    have "(v, nm) \<in> Q" and rest: "set (zip vs ns) \<subseteq> Q" and cap: "captain_owned A c" and "dom A = {0<..max_slot c}"
      using assms(1,3) Cons ns by (simp_all add: node_owned_def)
    moreover have "captain_owned A ?c"
      by (rule captain_owned_same [OF cap]) simp_all
    ultimately have owned: "node_owned A Q ?c"
      using assms(3) by (simp add: node_owned_def)
    have "propose_fast v nm ?c = Inr (c', calls)"
      using run Cons ns by (simp add: commit_from_queue_def)
    note moved = propose_fast_owned [OF owned _ _ \<open>(v, nm) \<in> Q\<close> this]
    have "owned_move K A Q ?c c' calls (A(Suc (max_slot ?c) \<mapsto> (v, nm)))" "extends ?c c'"
      using assms(2,3) by (intro moved; simp)+
    then show ?thesis by (auto simp: owned_move_def extends_def chosen_at_def)
  qed
  then show "\<exists>A'. owned_move K A Q c c' calls A'" "extends c c'" by blast+
qed

text \<open>A slot is finished with its own value: the client is the owner, and no value is proposed again.\<close>

lemma finish_slot_owned:
  assumes "node_owned A Q c" and ok: "captain_ok c" and "plain_owners A" and at: "map_find (proposers c) s = Some info"
    and "info_owned A s info'" and chosen: "curr_value (curr_proposer info') = Some v"
    and run: "finish_slot s info' nm c = Inr (c', calls)"
  shows "\<exists>A'. owned_move K A Q c c' calls A'"
proof -
  let ?c1 = "c\<lparr>proposers := map_put s info' (proposers c)\<rparr>"
  have core: "core_ok c" and master: "if_master (cap_view c)"
    using ok assms(1) at by (auto simp: captain_ok_core node_owned_def map_find_def split: if_splits)
  note one = info_put_owned [OF assms(1) core at assms(5)]
  have v: "in_slot A s (Some v)" and init: "A s = Some (get_init_value (curr_proposer info'), client_name info')"
    using assms(5) chosen by (auto simp: info_owned_def get_init_value_def)
  then have same: "v = get_init_value (curr_proposer info')" by auto
  obtain c2 calls2 c3 where parts: "add_chosen_value s v ?c1 = Inr (c2, calls2)"
    "c3 = c2\<lparr>proposers := map_erase s (proposers c2)\<rparr>" "core_ok c3" "same_rest (c\<lparr>proposers := proposers c3\<rparr>) c3"
    "finish_slot s info' nm c = res_bind (next_work info' v nm c3) (\<lambda>(c4, calls4).
       Inr (c4, tell_client s info' v c @ calls2 @ calls4))"
    by (rule finish_slot_parts [OF ok at chosen, where name = nm and n = "host_count (cap_view c)"])
  obtain calls4 where rest: "commit_from_queue c3 = Inr (c', calls4)" "calls = tell_client s info' v c @ calls2 @ calls4"
    using run same unfolding parts(5) by (auto simp: next_work_def res_bind_Inr_iff)
  have "log_ok ?c1"
    using core by (simp add: core_ok_def)
  note two = add_chosen_value_owned [OF one this assms(3) v parts(1)]
  have three: "node_owned A Q c3"
  proof -
    have c2: "node_owned A Q c2"
      using two(1) by (simp add: owned_move_def)
    then have "captain_owned A c2"
      by (simp add: node_owned_def)
    then have "captain_owned A c3"
      by (rule captain_owned_same) (auto simp: parts(2) map_find_erase split: if_splits)
    then show ?thesis
      using c2 by (simp add: node_owned_def parts(2) map_erase_def split: if_splits)
  qed
  have view: "cap_view c3 = cap_view c"
    using two(3) by (simp add: learned_def parts(2))
  have "queue_ok c"
    using ok by (simp add: captain_ok_core)
  then have queue: "length (tocommit_values c3) = length (tocommit_clients c3)"
    using parts(4) by (simp add: same_rest_def queue_ok_def)
  obtain A' where A': "owned_move K A Q c3 c' calls4 A'" "extends c3 c'"
    using commit_from_queue_owned [OF three parts(3) _ queue rest(1)] master view by metis
  have "chosen_at c3 s = Some v"
    using two(2) by (simp add: parts(2) chosen_at_def)
  then have "\<forall>call \<in> set (tell_client s info' v c). call_owned K A c3 call"
    using init same master view by (auto simp: tell_client_def)
  moreover have "\<forall>call \<in> set calls2. call_owned K A c3 call"
    using two(1) [of K] by (auto simp: owned_move_def parts(2) extends_def chosen_at_def intro: call_owned_mono [of K A c2])
  ultimately have "owned_move K A Q c c3 (tell_client s info' v c @ calls2) A"
    using three view by (intro owned_stay) auto
  from owned_move_trans [OF this A'] show ?thesis
    by (auto simp: rest(2))
qed

lemma handle_accepted_owned:
  assumes "node_owned A Q c" and "captain_ok c" and "plain_owners A"
    and run: "handle_accepted ack nm c = Inr (c', calls)"
  shows "\<exists>A'. owned_move K A Q c c' calls A'"
proof (cases "map_find (proposers c) (hdr_slot (acka_header ack))")
  case None
  then have "c' = c" "calls = []"
    using run by (simp_all add: handle_accepted_def Let_def)
  then show ?thesis
    using assms(1) owned_stay [of A Q c c "[]" K] by auto
next
  case (Some info)
  let ?s = "hdr_slot (acka_header ack)"
  have core: "core_ok c" and "info_owned A ?s info" and ok: "info_ok (q_size (cap_view c)) info"
    using assms(1,2) Some proposers_ok_at [OF _ Some]
    by (auto simp: captain_ok_core core_ok_def node_owned_def captain_owned_def)
  note owned = accepted_info_owned [OF this(2), where me = "me_of c" and ack = ack]
    and fine = accepted_info_ok [OF ok, where me = "me_of c" and s = ?s and ack = ack]
  show ?thesis
  proof (cases "accepted_info (me_of c) ?s ack info")
    case (Still info')
    then have "c' = c\<lparr>proposers := map_put ?s info' (proposers c)\<rparr>" "calls = []"
      using run Some by (auto simp: handle_accepted_def Let_def)
    then show ?thesis
      using info_put_owned [OF assms(1) core Some] owned Still by (intro exI [of _ A] owned_stay) simp_all
  next
    case (Restarted info' m)
    then have "c' = c\<lparr>proposers := map_put ?s info' (proposers c)\<rparr>" "calls = [Broadcast (Prepare m)]"
      using run Some by (auto simp: handle_accepted_def Let_def)
    then show ?thesis
      using info_put_owned [OF assms(1) core Some] owned Restarted
      by (intro exI [of _ A] owned_stay) (simp_all add: own_msg_def)
  next
    case (Chosen info')
    then obtain v where v: "curr_value (curr_proposer info') = Some v"
      using fine by auto
    have "finish_slot ?s info' nm c = Inr (c', calls)" "info_owned A ?s info'"
      using run Some Chosen owned by (simp_all add: handle_accepted_def Let_def)
    then show ?thesis
      by (intro finish_slot_owned [OF assms(1-3) Some _ v])
  qed
qed

section \<open>Every operation of a node\<close>

lemma handle_msg_owned:
  assumes "node_owned A Q c" and "captain_ok c" and "plain_owners A" and "msg_ok n m" and "msg_owned A m"
    and run: "handle_msg m nm c = Inr (c', calls)" and "K nm \<or> hdr_node (header_of_msg m) = ucast (me_of c)"
  shows "\<exists>A'. owned_move K A Q c c' calls A'"
proof (cases "work c")
  case False
  then have "c' = c" "calls = []"
    using run by (simp_all add: handle_msg_def)
  then show ?thesis
    using assms(1) owned_stay [of A Q c c "[]" K] by auto
next
  case True
  have core: "core_ok c"
    using assms(2) by (simp add: captain_ok_core)
  show ?thesis
  proof (cases m)
    case (Prepare p)
    then have "owned_move K A Q c c' calls A"
      using assms(4,7) run True by (intro handle_prepare_owned [OF assms(1) core]) (simp_all add: msg_ok_def handle_msg_def)
    then show ?thesis by blast
  next
    case (Ack_prepare ack)
    then have "owned_move K A Q c c' calls A"
      using assms(5) run True by (intro handle_promise_owned [OF assms(1) core]) (simp_all add: handle_msg_def)
    then show ?thesis by blast
  next
    case (Accept r)
    then have "owned_move K A Q c c' calls A"
      using assms(4,5,7) run True
      by (intro handle_accept_owned [OF assms(1) core assms(3)]) (simp_all add: msg_ok_def handle_msg_def)
    then show ?thesis by blast
  next
    case (Ack_accept ack)
    then show ?thesis
      using run True by (intro handle_accepted_owned [OF assms(1-3)]) (simp add: handle_msg_def)
  qed (use assms(5) in simp_all)
qed

lemma node_owned_fields:
  "node_owned A Q (c\<lparr>value_id := i\<rparr>) = node_owned A Q c" "node_owned A Q (c\<lparr>work := b\<rparr>) = node_owned A Q c"
  "node_owned A Q (c\<lparr>commit_ok := b\<rparr>) = node_owned A Q c"
  by (simp_all add: node_owned_def captain_owned_def acc_at_def acceptor_at_def chosen_at_def)

lemma node_owned_mono:
  "node_owned A Q c \<Longrightarrow> Q \<subseteq> Q' \<Longrightarrow> node_owned A Q' c"
  "node_owned A Q c \<Longrightarrow> A \<subseteq>\<^sub>m A' \<Longrightarrow> \<not> if_master (cap_view c) \<Longrightarrow> node_owned A' Q c"
  by (auto simp: node_owned_def intro: captain_owned_mono split: if_splits)

text \<open>A request at the master: its value waits, or gets the next slot.\<close>

lemma commit_owned:
  assumes "node_owned A Q c" and "captain_ok c" and "if_master (cap_view c)" and "(new_value c data, nm) \<in> Q"
    and run: "commit mode data nm c = Inr (c', calls)"
  shows "\<exists>A'. owned_move K A Q c c' calls A'"
proof -
  let ?v = "new_value c data" and ?c = "next_value_id c"
  have c: "node_owned A Q ?c" "core_ok ?c" "queue_ok ?c"
    using assms(1,2) by (simp_all add: next_value_id_def node_owned_fields captain_ok_core queue_ok_def)
  obtain nm' where commit: "commit_value ?v nm ?c = Inr (c', calls, nm')"
    using run by (auto simp: commit_master_eq [OF assms(3)] res_bind_Inr_iff)
  have view: "cap_view ?c = cap_view c"
    by (simp add: next_value_id_def)
  from queue_ok_cases [OF c(3)] show ?thesis
  proof
    assume "length (proposers ?c) = window_size ?c"
    from commit_value_full [OF c(3) this] commit
    have res: "c' = ?c\<lparr>tocommit_values := tocommit_values ?c @ [?v], tocommit_clients := tocommit_clients ?c @ [nm]\<rparr>" "calls = []"
      by auto
    have "length (tocommit_values ?c) = length (tocommit_clients ?c)"
      using c(3) by (simp add: queue_ok_def)
    moreover have "captain_owned A ?c"
      using c(1) by (simp add: node_owned_def)
    then have "captain_owned A c'"
      by (rule captain_owned_same) (simp_all add: res(1))
    ultimately have "node_owned A Q c'"
      using c(1) assms(3,4) by (simp add: node_owned_def view res(1))
    then show ?thesis
      using owned_stay [of A Q c' c "[]" K] by (auto simp: res view)
  next
    assume "length (proposers ?c) < window_size ?c"
    from commit_value_free [OF c(3) this] commit have "propose_fast ?v nm ?c = Inr (c', calls)"
      by (auto simp: res_bind_Inr_iff)
    then have "owned_move K A Q ?c c' calls (A(Suc (max_slot ?c) \<mapsto> (?v, nm)))"
      using assms(3,4) view by (intro propose_fast_owned(1) [OF c(1,2)]) simp_all
    then show ?thesis
      by (auto simp: owned_move_def view)
  qed
qed

text \<open>At the start no slot has an owner.\<close>

lemma node_owned_new:
  fixes Q :: "(prop_value \<times> 'n) set"
  shows "node_owned (\<lambda>_. None) Q (new_captain v win dum)"
proof -
  have "in_slot (\<lambda>_. None :: (prop_value \<times> 'n) option) s (max_value (acc_at (new_captain v win dum) s))" for s
    by (auto simp: acc_at_def acceptor_at_def new_captain_def update_max_proposed_def new_acceptor_def nth_Cons' split: option.splits)
  moreover have "chosen_at (new_captain v win dum) s = None" for s
    by (simp add: new_captain_def chosen_at_def)
  moreover have "proposers (new_captain v win dum) = []" "tocommit_values (new_captain v win dum) = []"
    "max_slot (new_captain v win dum) = 0"
    by (simp_all add: new_captain_def)
  ultimately show ?thesis
    by (simp add: node_owned_def captain_owned_def map_find_def)
qed

end
