(* ===== verification/Service_Node.thy ===== *)
theory Service_Node
  imports Owners
begin

text \<open>
  What a node of the default build gives out. The nodes have the names \<open>pre/host\<close> under one
  prefix; everything a node sends, answers or puts into its log is in order with the owners of
  the slots, with all that a packet leads to inside the node.
\<close>

section \<open>Names and effects\<close>

definition node_named :: "name \<Rightarrow> string list \<Rightarrow> node \<Rightarrow> bool" where
  "node_named pre hs nd \<longleftrightarrow> consumer_names nd = map (\<lambda>h. pre @ [h]) hs
     \<and> log_name nd = pre @ [''log''] \<and> commit_name nd = pre @ [''commit'']"

text \<open>The names of messages between nodes.\<close>

definition host_packet :: "name \<Rightarrow> string list \<Rightarrow> name \<Rightarrow> bool" where
  "host_packet pre hs nm \<longleftrightarrow> (\<exists>h x. h \<in> set hs \<and> nm = pre @ [h, x])"

text \<open>
  The data packets of a node with captain \<open>c\<close>: a reply to another node, a decision for the
  followers of the log, the slot for the client that owns it, and the answer to a read.
\<close>

definition data_owned :: "externals \<Rightarrow> name \<Rightarrow> string list \<Rightarrow> name owners \<Rightarrow> name captain \<Rightarrow> name \<Rightarrow> string \<Rightarrow> bool" where
  "data_owned E pre hs A c q content \<longleftrightarrow>
     (host_packet pre hs q \<and> (\<exists>m. content = encode_msg E m \<and> msg_owned A m \<and> msg_ok (length hs) m))
   \<or> (\<exists>s v nm. A s = Some (v, nm) \<and> q = pre @ [''log'', enc_number E s, enc_number E (unat (pv_id v))] \<and> content = pv_data v)
   \<or> (\<exists>s v nm. A s = Some (v, nm) \<and> q = nm @ [enc_number E s] \<and> if_master (cap_view c) \<and> chosen_at c s = Some v)
   \<or> (\<exists>t rest. q = pre @ [''commit'', t] @ rest \<and> length rest = 3 \<and> dec_number E t \<noteq> Some 0 \<and> content = ''Need to change here'')"

lemma data_ownedI:
  "host_packet pre hs q \<Longrightarrow> content = encode_msg E m \<Longrightarrow> msg_owned A m \<Longrightarrow> msg_ok (length hs) m \<Longrightarrow>
     data_owned E pre hs A c q content"
  "A s = Some (v, nm) \<Longrightarrow> data_owned E pre hs A c (pre @ [''log'', enc_number E s, enc_number E (unat (pv_id v))]) (pv_data v)"
  "A s = Some (v, nm) \<Longrightarrow> if_master (cap_view c) \<Longrightarrow> chosen_at c s = Some v \<Longrightarrow>
     data_owned E pre hs A c (nm @ [enc_number E s]) content"
  unfolding data_owned_def by blast+

fun effect_owned :: "externals \<Rightarrow> name \<Rightarrow> string list \<Rightarrow> name owners \<Rightarrow> name captain \<Rightarrow> effect \<Rightarrow> bool" where
  "effect_owned E pre hs A c (Interest nm life) =
     (\<exists>h m. h \<in> set hs \<and> nm = pre @ [h, encode_msg E m] \<and> (own_msg (me_of c) A m \<or> (\<exists>r. m = Commit r)) \<and> msg_ok (length hs) m)"
| "effect_owned E pre hs A c (Log_interest nm life) = (\<exists>j < 2 ^ 64. nm = pre @ [''log'', enc_number E j])"
| "effect_owned E pre hs A c (Data_packet q content fresh) = data_owned E pre hs A c q content"
| "effect_owned E pre hs A c (Schedule_self m) = (own_msg (me_of c) A m \<and> msg_ok (length hs) m)"
| "effect_owned E pre hs A c (Callback call) = True"
| "effect_owned E pre hs A c Wait_for_commit = False"
| "effect_owned E pre hs A c Blocked_forever = False"

lemma data_owned_mono:
  assumes "data_owned E pre hs A c q content" and "A \<subseteq>\<^sub>m A'" and "extends c c'" and "cap_view c' = cap_view c"
  shows "data_owned E pre hs A' c' q content"
proof -
  have "chosen_at c s = Some v \<Longrightarrow> chosen_at c' s = Some v" for s v
    using assms(3) by (auto simp: extends_def)
  note mono = this msg_owned_mono [OF _ assms(2)] map_le_Some [OF assms(2)]
  from assms(1) show ?thesis
    unfolding data_owned_def assms(4) by (elim disjE) (use mono in blast)+
qed

lemma effect_owned_mono:
  "effect_owned E pre hs A c e \<Longrightarrow> A \<subseteq>\<^sub>m A' \<Longrightarrow> extends c c' \<Longrightarrow> cap_view c' = cap_view c \<Longrightarrow>
     effect_owned E pre hs A' c' e"
  by (cases e) (auto intro: data_owned_mono own_msg_mono)

section \<open>One node\<close>

definition node_fit :: "name \<Rightarrow> string list \<Rightarrow> name owners \<Rightarrow> (prop_value \<times> name) set \<Rightarrow> node \<Rightarrow> bool" where
  "node_fit pre hs A Q nd \<longleftrightarrow> node_ok nd \<and> node_named pre hs nd \<and> host_count (nd_view nd) = length hs
     \<and> node_owned A Q (nd_captain nd)"

text \<open>The node went on, giving out \<open>effs\<close>, and slots became owned.\<close>

definition node_goes :: "externals \<Rightarrow> name \<Rightarrow> string list \<Rightarrow> name owners \<Rightarrow> (prop_value \<times> name) set \<Rightarrow> node \<Rightarrow>
    node \<Rightarrow> effect list \<Rightarrow> name owners \<Rightarrow> bool" where
  "node_goes E pre hs A Q nd nd' effs A' \<longleftrightarrow> A \<subseteq>\<^sub>m A' \<and> ran A' \<subseteq> ran A \<union> Q \<and> (\<not> if_master (nd_view nd) \<longrightarrow> A' = A)
     \<and> node_fit pre hs A' Q nd' \<and> extends (nd_captain nd) (nd_captain nd') \<and> nd_view nd' = nd_view nd
     \<and> (\<forall>e \<in> set effs. effect_owned E pre hs A' (nd_captain nd') e)"

lemma node_goes_refl: "node_fit pre hs A Q nd \<Longrightarrow> node_goes E pre hs A Q nd nd [] A"
  by (simp add: node_goes_def extends_refl)

lemma node_goes_trans:
  assumes "node_goes E pre hs A Q nd nd1 effs1 A1" and "node_goes E pre hs A1 Q nd1 nd2 effs2 A2"
  shows "node_goes E pre hs A Q nd nd2 (effs1 @ effs2) A2"
proof -
  note one = assms(1) [unfolded node_goes_def] and two = assms(2) [unfolded node_goes_def]
  have "\<forall>e \<in> set effs1. effect_owned E pre hs A2 (nd_captain nd2) e"
    using one two effect_owned_mono by metis
  moreover have "A \<subseteq>\<^sub>m A2" "extends (nd_captain nd) (nd_captain nd2)" "ran A2 \<subseteq> ran A \<union> Q"
    using one two map_le_trans extends_trans by blast+
  ultimately show ?thesis
    using one two by (auto simp: node_goes_def)
qed

text \<open>A captain operation, before its calls are carried out.\<close>

lemma captain_moves:
  assumes "node_fit pre hs A Q nd" and "keeps (nd_captain nd) (Inr (c', calls))"
    and "owned_move K A Q (nd_captain nd) c' calls A'"
  shows "node_goes E pre hs A Q nd (nd\<lparr>nd_captain := c'\<rparr>) [] A'"
    "\<forall>call \<in> set calls. call_owned K A' c' call \<and> call_ok (length hs) call"
proof -
  have "node_after nd (nd\<lparr>nd_captain := c'\<rparr>)"
    using assms(1,2) by (intro node_after_captain) (simp_all add: node_fit_def)
  then show "node_goes E pre hs A Q nd (nd\<lparr>nd_captain := c'\<rparr>) [] A'"
    using assms by (simp add: node_goes_def node_fit_def node_after_def node_named_def owned_move_def)
  show "\<forall>call \<in> set calls. call_owned K A' c' call \<and> call_ok (length hs) call"
    using assms by (simp add: node_fit_def keeps_def owned_move_def)
qed

abbreviation fits :: "name \<Rightarrow> string list \<Rightarrow> name owners \<Rightarrow> name captain \<Rightarrow> name call \<Rightarrow> bool" where
  "fits pre hs A c call \<equiv> call_owned (host_packet pre hs) A c call \<and> call_ok (length hs) call"

text \<open>One call: what it gives out, and the calls of the handler it runs.\<close>

lemma call_step_owned:
  assumes fit: "node_fit pre hs A Q nd" and plain: "plain_owners A" and call: "fits pre hs A (nd_captain nd) call"
    and run: "call_step E call nd = Inr (nd', new, calls)"
  shows "\<exists>A'. node_goes E pre hs A Q nd nd' new A' \<and> (\<forall>call \<in> set calls. fits pre hs A' (nd_captain nd') call)"
proof -
  let ?c = "nd_captain nd" and ?n = "length hs"
  have ok: "captain_ok ?c" "host_count (cap_view ?c) = ?n" "length (consumer_names nd) = ?n"
    and named: "node_named pre hs nd"
    using fit by (simp_all add: node_fit_def node_ok_def)
  have gives: "\<exists>A'. node_goes E pre hs A Q nd nd' new A' \<and> (\<forall>call \<in> set calls. fits pre hs A' (nd_captain nd') call)"
    if "nd' = nd" "calls = []" "\<forall>e \<in> set new. effect_owned E pre hs A ?c e"
    using that fit by (intro exI [of _ A]) (simp add: node_goes_def extends_refl)
  show ?thesis
  proof (cases call)
    case (Send_self m)
    then obtain c' where r: "handle_msg m (dumName ?c) ?c = Inr (c', calls)" "nd' = nd\<lparr>nd_captain := c'\<rparr>" "new = []"
      using run by (auto simp: with_captain_def res_bind_Inr_iff)
    have m: "msg_ok ?n m" "msg_owned A m" "hdr_node (header_of_msg m) = ucast (me_of ?c)"
      using call Send_self by (simp_all add: own_msg_def)
    have owned: "node_owned A Q ?c"
      using fit by (simp add: node_fit_def)
    obtain A' where "owned_move (host_packet pre hs) A Q ?c c' calls A'"
      using handle_msg_owned [OF owned ok(1) plain m(1,2) r(1), of "host_packet pre hs"] m(3) by auto
    moreover have "keeps ?c (Inr (c', calls))"
      using handle_msg_keeps_rel [OF ok(1), of m "dumName ?c"] m(1) ok(2) r(1) by simp
    ultimately have "node_goes E pre hs A Q nd (nd\<lparr>nd_captain := c'\<rparr>) [] A'" "\<forall>call \<in> set calls. fits pre hs A' c' call"
      by (rule captain_moves [OF fit, rotated])+
    then show ?thesis
      by (intro exI [of _ A']) (simp add: r(2,3))
  next
    case (Send_to m d)
    then have "unat d < ?n" "own_msg (me_of ?c) A m" "msg_ok ?n m"
      using call by simp_all
    moreover have "nd' = nd" "calls = []" "new = [consume (pre @ [hs ! unat d, encode_msg E m])]"
      using run Send_to \<open>unat d < ?n\<close> named ok(3)
      by (auto simp: send_one_msg_def res_bind_Inr_iff vec_at_Inr_iff node_named_def)
    ultimately show ?thesis
      by (intro gives) (auto simp: consume_def intro!: exI [of _ "hs ! unat d"] exI [of _ m])
  next
    case (Reply_to m d nm)
    then show ?thesis
      using run call by (intro gives) (auto simp: reply_one_msg_def produce_def own_msg_def intro: data_ownedI(1))
  next
    case (Broadcast m)
    then have m: "own_msg (me_of ?c) A m" "msg_ok ?n m"
      using call by simp_all
    show ?thesis
    proof (cases "nodes_size (nd_view nd) = 1")
      case True
      then show ?thesis
        using run Broadcast m by (intro gives) auto
    next
      case False
      then have res: "nd' = nd" "new = []" "calls = broadcast_calls m (nd_view nd)"
        using run Broadcast by auto
      have "\<forall>i \<in> set (quorums (nd_view nd)). unat i < ?n"
        using ok(1,2) view_ok_quorum_member unfolding captain_ok_def by metis
      then have "\<forall>call \<in> set calls. fits pre hs A ?c call"
        using m by (auto simp: res(3) broadcast_calls_def)
      then show ?thesis
        using node_goes_refl [OF fit] by (auto simp: res)
    qed
  next
    case (Produce_log s v)
    then show ?thesis
      using run call named
      by (intro gives) (auto simp: produce_log_def produce_def node_named_def intro: data_ownedI(2))
  next
    case (Inform_client s t nm)
    then show ?thesis
      using run call by (intro gives) (auto simp: inform_client_def produce_def intro: data_ownedI(3))
  next
    case Wait_commit_ok
    then show ?thesis using call by simp
  qed (use run in \<open>intro gives; force\<close>)+
qed

text \<open>All calls, with those of the handlers they run.\<close>

lemma plain_owners_goes:
  assumes "node_goes E pre hs A Q nd nd' effs A'" and "plain_owners A" and "\<forall>(v, nm) \<in> Q. pv_cmd v = None"
  shows "plain_owners A'"
proof -
  have "ran A' \<subseteq> ran A \<union> Q"
    using assms(1) by (simp add: node_goes_def)
  then show ?thesis
    using assms(2,3) unfolding plain_owners_def ran_def by blast
qed

lemma exec_owned:
  assumes "exec E calls nd effs = Some r" and "r = Inr (nd', effs')"
    and "node_fit pre hs A Q nd" and "plain_owners A" and "\<forall>(v, nm) \<in> Q. pv_cmd v = None"
    and "\<forall>call \<in> set calls. fits pre hs A (nd_captain nd) call"
  shows "\<exists>A' new. effs' = effs @ new \<and> node_goes E pre hs A Q nd nd' new A'"
  using assms
proof (induction arbitrary: A rule: exec.raw_induct [rotated, consumes 1, case_names call])
  case (call exec E calls nd effs r)
  note fit = call.prems(2) and plain = call.prems(3,4) and all_fit = call.prems(5)
  show ?case
  proof (cases calls)
    case Nil
    then show ?thesis
      using call.hyps(1) call.prems(1) node_goes_refl [OF fit] by auto
  next
    case (Cons call rest)
    then obtain nd1 new1 calls1 where step: "call_step E call nd = Inr (nd1, new1, calls1)"
      and more: "exec E (calls1 @ rest) nd1 (effs @ new1) = Some r"
      using call.hyps(1) call.prems(1) by (auto split: sum.splits)
    obtain A1 where A1: "node_goes E pre hs A Q nd nd1 new1 A1" "\<forall>call \<in> set calls1. fits pre hs A1 (nd_captain nd1) call"
      using call_step_owned [OF fit plain(1) _ step] all_fit Cons by auto
    have "\<forall>call \<in> set (calls1 @ rest). fits pre hs A1 (nd_captain nd1) call"
      using A1 all_fit Cons unfolding node_goes_def by (auto intro: call_owned_mono)
    moreover have "node_fit pre hs A1 Q nd1"
      using A1(1) by (simp add: node_goes_def)
    ultimately obtain A2 new2 where "effs' = (effs @ new1) @ new2" "node_goes E pre hs A1 Q nd1 nd' new2 A2"
      using call.IH [OF more call.prems(1) _ plain_owners_goes [OF A1(1) plain] plain(2)] by blast
    then show ?thesis
      using node_goes_trans [OF A1(1)] by auto
  qed
qed

lemma run_captain_owned:
  assumes "run_captain E nd (Inr (c', calls)) = Some (Inr (nd', effs))" and fit: "node_fit pre hs A Q nd"
    and "plain_owners A" and "\<forall>(v, nm) \<in> Q. pv_cmd v = None" and "keeps (nd_captain nd) (Inr (c', calls))"
    and "owned_move (host_packet pre hs) A Q (nd_captain nd) c' calls A1"
  shows "\<exists>A'. node_goes E pre hs A Q nd nd' effs A'"
proof -
  let ?nd = "nd\<lparr>nd_captain := c'\<rparr>"
  note moved = captain_moves [OF fit assms(5,6)]
  have "node_fit pre hs A1 Q ?nd"
    using moved(1) [of E] by (simp add: node_goes_def)
  moreover have "exec E calls ?nd [] = Some (Inr (nd', effs))"
    using assms(1) by (simp add: run_captain_def)
  moreover have "\<forall>call \<in> set calls. fits pre hs A1 (nd_captain ?nd) call"
    using moved(2) by simp
  ultimately obtain A' where "node_goes E pre hs A1 Q ?nd nd' effs A'"
    using exec_owned [OF _ refl _ plain_owners_goes [OF moved(1) assms(3,4)] assms(4), of E calls ?nd "[]" nd' effs pre hs] by auto
  then show ?thesis
    using node_goes_trans [OF moved(1)] by fastforce
qed

section \<open>Packets\<close>

text \<open>A message that arrives, under any name that a reply may have.\<close>

lemma message_owned:
  assumes "run_captain E nd (handle_msg m nm (nd_captain nd)) = Some (Inr (nd', effs))" and fit: "node_fit pre hs A Q nd"
    and "plain_owners A" and "\<forall>(v, nm) \<in> Q. pv_cmd v = None" and "msg_owned A m" and "msg_ok (length hs) m"
    and "host_packet pre hs nm \<or> hdr_node (header_of_msg m) = ucast (me_of (nd_captain nd))"
  shows "\<exists>A'. node_goes E pre hs A Q nd nd' effs A'"
proof -
  let ?c = "nd_captain nd"
  have ok: "captain_ok ?c" "host_count (cap_view ?c) = length hs" "node_owned A Q ?c"
    using fit by (simp_all add: node_fit_def node_ok_def)
  have keeps: "keeps ?c (handle_msg m nm ?c)"
    using handle_msg_keeps_rel [OF ok(1), of m nm] assms(6) ok(2) by simp
  then obtain c' calls where r: "handle_msg m nm ?c = Inr (c', calls)"
    by (auto simp: keeps_def)
  obtain A1 where "owned_move (host_packet pre hs) A Q ?c c' calls A1"
    using handle_msg_owned [where K = "host_packet pre hs", OF ok(3,1) assms(3,6,5) r] assms(7) by blast
  then show ?thesis
    using run_captain_owned [OF _ fit assms(3,4)] assms(1) keeps unfolding r by blast
qed

text \<open>The decoders read what the encoders write, and no host is called like a part of the service.\<close>

definition wire_ok :: "externals \<Rightarrow> string list \<Rightarrow> bool" where
  "wire_ok E hs \<longleftrightarrow> number_codec_ok E \<and> ''log'' \<notin> set hs \<and> ''commit'' \<notin> set hs
     \<and> (\<forall>m. type_of_msg m \<in> {PREPARE, PROMISE, ACCEPT, ACCEPTED, COMMIT} \<longrightarrow> parse_as E (type_of_msg m) (serialize E m) = m)"

definition owners_ok :: "name \<Rightarrow> name owners \<Rightarrow> bool" where
  "owners_ok pre A \<longleftrightarrow> (\<forall>s v nm. A s = Some (v, nm) \<longrightarrow> s < 2 ^ 64 \<and> pv_cmd v = None \<and> pv_integrity v = None
     \<and> (\<exists>rest. nm = pre @ [''commit''] @ rest \<and> length rest = 4))"

lemma wire_msg:
  "wire_ok E hs \<Longrightarrow> msg_owned A m \<Longrightarrow> parse_as E (type_of_msg m) (serialize E m) = m"
  "wire_ok E hs \<Longrightarrow> parse_as E (type_of_msg (Commit r)) (serialize E (Commit r)) = Commit r"
  by (cases m) (simp_all add: wire_ok_def)

lemma owners_plain: "owners_ok pre A \<Longrightarrow> plain_owners A"
  unfolding owners_ok_def plain_owners_def by blast

text \<open>Data for an interest in another node, and for one in the log, are of their kinds.\<close>

lemma data_for_host:
  assumes "data_owned E pre hs A c q content" and "take (length nm) q = nm" and "nm = pre @ [h, x]" and "h \<in> set hs"
    and "wire_ok E hs" and "owners_ok pre A"
  shows "\<exists>m. content = encode_msg E m \<and> msg_owned A m \<and> msg_ok (length hs) m"
proof -
  obtain rest where q: "q = pre @ h # x # rest"
    using assms(2,3) by (metis append_Cons append_assoc append_self_conv2 append_take_drop_id)
  have "h \<noteq> ''log''" "h \<noteq> ''commit''"
    using assms(4,5) by (auto simp: wire_ok_def)
  then show ?thesis
    using assms(1,6) unfolding data_owned_def q owners_ok_def by fastforce
qed

lemma data_for_log:
  assumes "data_owned E pre hs A c q content" and "take (length nm) q = nm" and "nm = pre @ [''log'', x]"
    and "wire_ok E hs" and "owners_ok pre A"
  shows "\<exists>s v nm. A s = Some (v, nm) \<and> q = pre @ [''log'', enc_number E s, enc_number E (unat (pv_id v))] \<and> content = pv_data v"
proof -
  obtain rest where q: "q = pre @ ''log'' # x # rest"
    using assms(2,3) by (metis append_Cons append_assoc append_self_conv2 append_take_drop_id)
  have "\<not> host_packet pre hs q"
    using assms(4) by (auto simp: wire_ok_def host_packet_def q)
  then show ?thesis
    using assms(1,5) unfolding data_owned_def owners_ok_def by (fastforce simp: q)
qed

text \<open>The handlers of packets from other nodes.\<close>

lemma onInterest_owned:
  assumes "onInterest E nm nd = Some (Inr (nd', effs))" and "node_fit pre hs A Q nd" and "owners_ok pre A"
    and "\<forall>(v, nm) \<in> Q. pv_cmd v = None" and "wire_ok E hs"
    and "nm = pre @ [h, encode_msg E m]" and "h \<in> set hs" and "msg_owned A m" and "msg_ok (length hs) m"
  shows "\<exists>A'. node_goes E pre hs A Q nd nd' effs A'"
proof -
  have "onInterest E nm nd = run_captain E nd (handle_msg m nm (nd_captain nd))"
    using deal_encoded [OF wire_msg(1) [OF assms(5,8)]] by (simp add: onInterest_def assms(6) name_get_def nth_append)
  moreover have "host_packet pre hs nm"
    using assms(6,7) by (auto simp: host_packet_def)
  ultimately show ?thesis
    using message_owned [OF _ assms(2) owners_plain [OF assms(3)] assms(4,8,9)] assms(1) by simp
qed

lemma onData_owned:
  assumes "onData E nm content nd = Some (Inr (nd', effs))" and "node_fit pre hs A Q nd" and "owners_ok pre A"
    and "\<forall>(v, nm) \<in> Q. pv_cmd v = None" and "wire_ok E hs"
    and "nm = pre @ [h, x]" and "h \<in> set hs" and "data_owned E pre hs A c q content" and "take (length nm) q = nm"
  shows "\<exists>A'. node_goes E pre hs A Q nd nd' effs A'"
proof -
  obtain m where m: "content = encode_msg E m" "msg_owned A m" "msg_ok (length hs) m"
    using data_for_host [OF assms(8,9,6,7,5,3)] by blast
  have "onData E nm content nd = run_captain E nd (handle_msg m nm (nd_captain nd))"
    using deal_encoded [OF wire_msg(1) [OF assms(5) m(2)]] by (simp add: onData_def m(1))
  moreover have "host_packet pre hs nm"
    using assms(6,7) by (auto simp: host_packet_def)
  ultimately show ?thesis
    using message_owned [OF _ assms(2) owners_plain [OF assms(3)] assms(4) m(2,3)] assms(1) by simp
qed

text \<open>A forwarded value that reaches a node other than the master is dropped.\<close>

lemma onInterest_forwarded:
  assumes fit: "node_fit pre hs A Q nd" and "\<not> if_master (nd_view nd)" and "wire_ok E hs" and "nm = pre @ [h, encode_msg E (Commit r)]"
  shows "\<exists>nd'. onInterest E nm nd = Some (Inr (nd', [])) \<and> node_goes E pre hs A Q nd nd' [] A"
proof -
  let ?c = "nd_captain nd"
  have run: "onInterest E nm nd = run_captain E nd (handle_msg (Commit r) nm ?c)"
    using deal_encoded [OF wire_msg(2) [OF assms(3)]] by (simp add: onInterest_def assms(4) name_get_def nth_append)
  show ?thesis
  proof (cases "work ?c")
    case False
    then have "onInterest E nm nd = Some (Inr (nd, []))"
      unfolding run by (simp add: run_captain_def handle_msg_def exec.simps)
    then show ?thesis
      using node_goes_refl [OF fit] by blast
  next
    case True
    then have "onInterest E nm nd = Some (Inr (nd\<lparr>nd_captain := ?c\<lparr>commit_ok := True\<rparr>\<rparr>, []))"
      using assms(2) unfolding run by (simp add: run_captain_def handle_msg_def handle_commit_def exec.simps)
    moreover have "node_goes E pre hs A Q nd (nd\<lparr>nd_captain := ?c\<lparr>commit_ok := True\<rparr>\<rparr>) [] A"
      using fit by (simp add: node_goes_def node_fit_def node_named_def node_owned_fields node_ok_def extends_def
          captain_ok_def log_ok_def queue_ok_def chosen_at_def)
    ultimately show ?thesis
      by blast
  qed
qed

lemma handle_myself_owned:
  assumes "handle_myself E m nd = Some (Inr (nd', effs))" and "node_fit pre hs A Q nd" and "owners_ok pre A"
    and "\<forall>(v, nm) \<in> Q. pv_cmd v = None" and "own_msg (me_of (nd_captain nd)) A m" and "msg_ok (length hs) m"
  shows "\<exists>A'. node_goes E pre hs A Q nd nd' effs A'"
  using message_owned [OF _ assms(2) owners_plain [OF assms(3)] assms(4) _ assms(6), of E "dumName (nd_captain nd)" nd' effs] assms(1,5)
  by (simp add: handle_myself_def own_msg_def)

lemma onInterestLog_owned:
  assumes "onInterestLog E nm nd = Inr effs" and fit: "node_fit pre hs A Q nd" and "wire_ok E hs"
    and nm: "nm = pre @ [''log'', enc_number E j]" and "j < 2 ^ 64"
  shows "node_goes E pre hs A Q nd nd effs A"
proof -
  let ?c = "nd_captain nd"
  have log: "log_ok ?c" and owned: "in_slot A j (chosen_at ?c j)"
    using fit by (auto simp: node_fit_def node_ok_def captain_ok_def node_owned_def captain_owned_def)
  have j: "get_number E nm 1 = Inr j"
    using assms(3,5) by (simp add: get_number_def name_get_def nm nth_append wire_ok_def number_codec_ok_def)
  obtain ov where ov: "get_chosen_value_at j ?c = Inr ov"
      "effs = (case ov of None \<Rightarrow> [] | Some v \<Rightarrow> [produce (pv_data v) (nm @ [enc_number E (unat (pv_id v))]) 10000])"
    using assms(1) unfolding onInterestLog_def j by (auto simp: res_bind_Inr_iff)
  have "ov = chosen_at ?c j"
    using ov(1) log by (auto simp: get_chosen_value_at_def chosen_at_def log_ok_def vec_at_Inr_iff split: if_splits)
  then have "effect_owned E pre hs A ?c e" if "e \<in> set effs" for e
    using that owned \<open>ov = chosen_at ?c j\<close>
    by (cases "chosen_at ?c j") (auto simp: ov(2) nm produce_def intro: data_ownedI(2))
  then show ?thesis
    using fit by (simp add: node_goes_def extends_refl)
qed

lemma consume_log_next_owned:
  assumes "consume_log_next E nd = (nd', effs)" and "node_fit pre hs A Q nd" and "log_counter nd' < 2 ^ 64"
  shows "node_goes E pre hs A Q nd nd' effs A"
  using assms
  by (auto simp: consume_log_next_def Let_def node_goes_def node_fit_def node_ok_def node_named_def extends_refl
      intro!: exI [of _ "Suc (log_counter nd)"] split: if_splits)

lemma onDataLog_owned:
  assumes "onDataLog E q content nd = Some (Inr (nd', effs))" and fit: "node_fit pre hs A Q nd" and "owners_ok pre A"
    and Q: "\<forall>(v, nm) \<in> Q. pv_cmd v = None" and "wire_ok E hs"
    and "nm = pre @ [''log'', x]" and "data_owned E pre hs A c q content" and "take (length nm) q = nm"
    and counter: "log_counter nd' < 2 ^ 64"
  shows "\<exists>A'. node_goes E pre hs A Q nd nd' effs A'"
proof -
  let ?c = "nd_captain nd"
  obtain s v nm' where v: "A s = Some (v, nm')" "q = pre @ [''log'', enc_number E s, enc_number E (unat (pv_id v))]" "content = pv_data v"
    using data_for_log [OF assms(7,8,6,5,3)] by blast
  have "s < 2 ^ 64" "pv_cmd v = None" "pv_integrity v = None"
    using assms(3) v(1) by (auto simp: owners_ok_def)
  moreover have "unat (pv_id v) < 2 ^ 64"
    using unsigned_less [of "pv_id v"] by simp
  ultimately have nums: "res_bind (get_number E q 2) (\<lambda>s. res_bind (get_number E q 1) (\<lambda>i. Inr (s, i))) = Inr (s, unat (pv_id v))"
      and copy: "\<lparr>pv_id = of_nat (unat (pv_id v)), pv_data = content, pv_cmd = None, pv_integrity = None\<rparr> = v"
    using assms(5) by (simp_all add: v(2,3) get_number_def name_get_def wire_ok_def number_codec_ok_def nth_append)
  have ok: "captain_ok ?c" "log_ok ?c" "node_owned A Q ?c"
    using fit by (simp_all add: node_fit_def node_ok_def captain_ok_def)
  have keeps: "keeps ?c (add_chosen_value s v ?c)"
    by (rule add_chosen_value_keeps [OF ok(1)])
  then obtain c' calls where r: "add_chosen_value s v ?c = Inr (c', calls)"
    by (auto simp: keeps_def)
  have "in_slot A s (Some v)"
    using v(1) by simp
  note moved = add_chosen_value_owned(1) [OF ok(3,2) owners_plain [OF assms(3)] this r]
  note one = captain_moves(1) [OF fit keeps [unfolded r] moved]
  have "\<forall>call \<in> set calls. is_callback call"
    using add_chosen_value_callback [OF ok(2) r] by blast
  from callbacks_run [OF this] have run: "run_captain E nd (add_chosen_value s v ?c) = Some (Inr (nd\<lparr>nd_captain := c'\<rparr>, map Callback calls))"
    by (simp add: run_captain_def r)
  have res: "effs = map Callback calls @ snd (consume_log_next E (nd\<lparr>nd_captain := c'\<rparr>))"
      "nd' = fst (consume_log_next E (nd\<lparr>nd_captain := c'\<rparr>))"
    using assms(1) unfolding onDataLog_def nums sum.case prod.case copy run option.case
    by (auto split: prod.splits)
  have "node_goes E pre hs A Q nd (nd\<lparr>nd_captain := c'\<rparr>) (map Callback calls) A"
    using one [of E] by (simp add: node_goes_def)
  moreover have "node_goes E pre hs A Q (nd\<lparr>nd_captain := c'\<rparr>) nd' (snd (consume_log_next E (nd\<lparr>nd_captain := c'\<rparr>))) A"
    using one [of E] counter by (intro consume_log_next_owned) (simp_all add: res(2) node_goes_def)
  ultimately show ?thesis
    using node_goes_trans unfolding res(1) by blast
qed

text \<open>The requests of clients: names of the five parts the client makes, whose values come in with them.\<close>

definition request_shape :: "externals \<Rightarrow> name \<Rightarrow> name \<Rightarrow> bool" where
  "request_shape E pre nm \<longleftrightarrow> (\<exists>t i k val. t \<le> 1 \<and> i < 2 ^ 64 \<and> k < 2 ^ 64
     \<and> nm = pre @ [''commit'', enc_number E t, enc_number E i, enc_number E k, val])"

definition requested :: "externals \<Rightarrow> name set \<Rightarrow> (prop_value \<times> name) set" where
  "requested E N = {(v, nm). nm \<in> N \<and> get_number E nm 4 = Inr 0 \<and> pv_data v = comp_uri E (last nm)
     \<and> pv_cmd v = None \<and> pv_integrity v = None}"

lemma request_shape_parts:
  assumes "number_codec_ok E" and "nm = pre @ [''commit'', enc_number E t, enc_number E i, enc_number E k, val]"
    and "t < 2 ^ 64" and "i < 2 ^ 64" and "k < 2 ^ 64"
  shows "name_get nm 1 = Inr val" "get_number E nm 2 = Inr k" "get_number E nm 3 = Inr i" "get_number E nm 4 = Inr t"
  using assms(1,3-5) by (simp_all add: assms(2) get_number_def name_get_def number_codec_ok_def nth_append nth_Cons')

lemma onInterestCommit_read:
  assumes "number_codec_ok E" and "nm = pre @ [''commit'', enc_number E 1, enc_number E i, enc_number E k, val]"
    and "i < 2 ^ 64" and "k < 2 ^ 64"
  shows "onInterestCommit E mode nm nd = Some (Inr (nd, [produce ''Need to change here'' nm 0]))"
proof -
  have one: "(1 :: nat) < 2 ^ 64" by simp
  note parts = request_shape_parts [OF assms(1,2) one assms(3,4)]
  show ?thesis
    unfolding onInterestCommit_def parts by simp
qed

lemma onInterestCommit_write:
  assumes "number_codec_ok E" and "nm = pre @ [''commit'', enc_number E 0, enc_number E i, enc_number E k, val]"
    and "i < 2 ^ 64" and "k < 2 ^ 64"
  shows "onInterestCommit E mode nm nd = run_captain E nd (commit mode (comp_uri E val) nm (nd_captain nd))"
proof -
  have zero: "(0 :: nat) < 2 ^ 64" by simp
  note parts = request_shape_parts [OF assms(1,2) zero assms(3,4)]
  show ?thesis
    unfolding onInterestCommit_def parts by simp
qed

lemma commit_keeps_master:
  fixes c :: "name captain"
  assumes "captain_ok c" and "if_master (cap_view c)"
  shows "keeps c (commit mode data nm c)"
proof -
  have ok: "captain_ok (next_value_id c)"
    using assms(1) by simp
  have "extends c (next_value_id c)"
    by (simp add: extends_def next_value_id_def chosen_at_def)
  then show ?thesis
    using commit_value_keeps [OF ok, of "new_value c data" nm] extends_trans
    by (fastforce simp: commit_master_eq [OF assms(2)] keeps_def)
qed

lemma onInterestCommit_owned:
  assumes "onInterestCommit E mode nm nd = Some (Inr (nd', effs))" and fit: "node_fit pre hs A (requested E N) nd" and "owners_ok pre A"
    and "wire_ok E hs" and "request_shape E pre nm" and "nm \<in> N" and "get_number E nm 4 = Inr 0 \<Longrightarrow> if_master (nd_view nd)"
  shows "\<exists>A'. node_goes E pre hs A (requested E N) nd nd' effs A'"
proof -
  have codec: "number_codec_ok E"
    using assms(4) by (simp add: wire_ok_def)
  obtain t i k val where nm: "t \<le> 1" "i < 2 ^ 64" "k < 2 ^ 64"
      "nm = pre @ [''commit'', enc_number E t, enc_number E i, enc_number E k, val]"
    using assms(5) by (auto simp: request_shape_def)
  then have t: "t < 2 ^ 64" by simp
  note parts = request_shape_parts [OF codec nm(4) t nm(2,3)]
  show ?thesis
  proof (cases "t = 0")
    case False
    then have nm1: "nm = pre @ [''commit'', enc_number E 1, enc_number E i, enc_number E k, val]"
      using nm(1,4) by (simp add: le_Suc_eq)
    have "nd' = nd" "effs = [produce ''Need to change here'' nm 0]"
      using assms(1) unfolding onInterestCommit_read [OF codec nm1 nm(2,3)] by simp_all
    moreover have "dec_number E (enc_number E 1) \<noteq> Some 0"
      using codec by (simp add: number_codec_ok_def)
    then have "data_owned E pre hs A (nd_captain nd) nm ''Need to change here''"
      unfolding data_owned_def nm1 by (intro disjI2 exI [of _ "enc_number E 1"] exI [of _ "[enc_number E i, enc_number E k, val]"]) simp
    ultimately show ?thesis
      using fit by (intro exI [of _ A]) (simp add: node_goes_def extends_refl produce_def)
  next
    case True
    let ?c = "nd_captain nd" and ?d = "comp_uri E val"
    have ok: "captain_ok ?c" "node_owned A (requested E N) ?c" and master: "if_master (cap_view ?c)"
      using fit parts(4) True assms(7) by (simp_all add: node_fit_def node_ok_def)
    have run: "run_captain E nd (commit mode ?d nm ?c) = Some (Inr (nd', effs))"
      using assms(1) onInterestCommit_write [OF codec _ nm(2,3)] nm(4) True by simp
    have keeps: "keeps ?c (commit mode ?d nm ?c)"
      by (rule commit_keeps_master [OF ok(1) master])
    then obtain c' calls where r: "commit mode ?d nm ?c = Inr (c', calls)"
      by (auto simp: keeps_def)
    have "(new_value ?c ?d, nm) \<in> requested E N"
      using assms(6) parts(4) True by (simp add: requested_def new_value_def nm(4))
    then obtain A1 where "owned_move (host_packet pre hs) A (requested E N) ?c c' calls A1"
      using commit_owned [OF ok(2,1) master _ r] by blast
    then show ?thesis
      using run_captain_owned [OF _ fit owners_plain [OF assms(3)]] run keeps unfolding r by (fastforce simp: requested_def)
  qed
qed

text \<open>
  A write request at another node than the master: the value is forwarded to a name that the master
  has set no filter for, and the thread waits.
\<close>

lemma onInterestCommit_elsewhere:
  assumes fit: "node_fit pre hs A Q nd" and "\<not> if_master (nd_view nd)" and to: "unat (master_id (nd_view nd)) < length hs"
    and "number_codec_ok E" and "mode \<noteq> Mode_recover" and "request_shape E pre nm" and zero: "get_number E nm 4 = Inr 0"
  shows "\<exists>nd' e. onInterestCommit E mode nm nd = Some (Inr (nd', [e, Wait_for_commit])) \<and> node_goes E pre hs A Q nd nd' [e] A"
proof -
  obtain t i k val where nm: "t \<le> 1" "i < 2 ^ 64" "k < 2 ^ 64"
      "nm = pre @ [''commit'', enc_number E t, enc_number E i, enc_number E k, val]"
    using assms(6) by (auto simp: request_shape_def)
  then have "t = 0"
    using request_shape_parts(4) [OF assms(4) nm(4) _ nm(2,3)] zero by simp
  then have asked: "onInterestCommit E mode nm nd = run_captain E nd (commit mode (comp_uri E val) nm (nd_captain nd))"
    using onInterestCommit_write [OF assms(4) _ nm(2,3)] nm(4) by simp
  let ?c = "nd_captain nd" and ?d = "hs ! unat (master_id (nd_view nd))"
  let ?c1 = "next_value_id ?c"
  let ?m = "Commit (Captain.msg_commit (me_of ?c) (new_value ?c (comp_uri E val)))"
  let ?e = "consume (pre @ [?d, encode_msg E ?m])" and ?nd = "nd\<lparr>nd_captain := begin_wait ?c1\<rparr>"
  have "commit mode (comp_uri E val) nm ?c = Inr (?c1, [Send_to ?m (master_id (nd_view nd)), Wait_commit_ok])"
    using assms(2,5) by (simp add: commit_def Let_def new_value_def next_value_id_def)
  moreover have "send_one_msg E ?m (master_id (nd_view nd)) (nd\<lparr>nd_captain := ?c1\<rparr>) = Inr ?e"
    using fit to by (simp add: send_one_msg_def vec_at_def node_fit_def node_named_def)
  ultimately have "onInterestCommit E mode nm nd = Some (Inr (?nd, [?e, Wait_for_commit]))"
    by (simp add: asked run_captain_def exec.simps [of E "Send_to m d # r" for m d r] exec.simps [of E "Wait_commit_ok # r" for r]
        exec.simps [of E "[]"])
  moreover have "node_goes E pre hs A Q nd ?nd [] A"
    using fit by (simp add: node_goes_def node_fit_def node_named_def begin_wait_def next_value_id_def node_owned_fields node_ok_def
        extends_def captain_ok_def log_ok_def queue_ok_def chosen_at_def)
  moreover have "msg_ok (length hs) ?m"
    using fit captain_ok_me [of ?c] by (simp add: node_fit_def node_ok_def msg_ok_def Captain.msg_commit_def)
  then have "effect_owned E pre hs A (nd_captain ?nd) ?e"
    using nth_mem [OF to] by (auto simp: consume_def)
  ultimately show ?thesis
    by (intro exI [of _ ?nd] exI [of _ ?e]) (simp add: node_goes_def)
qed

lemma crash_owned:
  assumes "node_fit pre hs A Q nd"
  shows "node_goes E pre hs A Q nd (nd\<lparr>nd_captain := crash (nd_captain nd)\<rparr>) [] A"
  using assms by (simp add: node_goes_def node_fit_def node_named_def crash_def node_owned_fields node_ok_def extends_def
      captain_ok_def log_ok_def queue_ok_def chosen_at_def)

end
