(* ===== verification/Service.thy ===== *)
theory Service
  imports Service_Node Main_Programs
begin

text \<open>
  The service as a whole: the processes of all nodes and of the client, started from their command
  lines, and the NDN network between them, at the level of names, interests and data packets. The
  network may lose packets, deliver them late, in any order and more than once; a node may stop at
  any moment; the threads of the client interleave in any way. The network is not code of the
  repository: it brings an interest to any handler whose filter is a prefix of its name, and data to
  an interest whose name is a prefix of the data's. A handler is one step; where there is a single
  host, whose pool runs the tasks in a second thread, that is coarser than the code.
\<close>

section \<open>A deployment\<close>

text \<open>What the operator chooses, and the outside world.\<close>

record deployment =
  dp_wire :: externals
  dp_mode :: mode
  dp_load :: "string \<Rightarrow> config"
  dp_append :: "string \<Rightarrow> string \<Rightarrow> string"
  dp_uri :: "name \<Rightarrow> string"
  dp_nodes :: int
  dp_window :: int
  dp_local :: int
  dp_log_size :: int
  dp_client_window :: int
  dp_ratio :: int
  dp_read_node :: int

definition dp_config :: "deployment \<Rightarrow> config" where
  "dp_config D = dp_load D (naxos_config_file (dp_nodes D) (dp_local D))"

definition dp_hosts :: "deployment \<Rightarrow> string list" where
  "dp_hosts D = map host_name (cfg_host (dp_config D))"

definition dp_prefix :: "deployment \<Rightarrow> name" where
  "dp_prefix D = uri_name (dp_wire D) ''/ndn/thu/naxos''"

text \<open>The command lines.\<close>

definition node_args :: "deployment \<Rightarrow> node_id \<Rightarrow> string list" where
  "node_args D k = ''naxos'' # decimal (unat k) # map to_string_int [dp_nodes D, dp_window D, dp_local D, dp_log_size D]"

definition client_args :: "deployment \<Rightarrow> string list" where
  "client_args D = ''clients'' # map to_string_int [dp_client_window D, dp_ratio D, dp_read_node D]"

text \<open>
  The deployments the theorems are about: the default build, a configuration with the prefix that
  is fixed in the client and with node 0 as the master, and numbers that fit an \<^verbatim>\<open>int\<close>.
\<close>

definition fits_int :: "int \<Rightarrow> bool" where
  "fits_int i \<longleftrightarrow> - (2 ^ 31) \<le> i \<and> i < 2 ^ 31"

definition deployment_ok :: "deployment \<Rightarrow> bool" where
  "deployment_ok D \<longleftrightarrow> dp_mode D = Mode_default \<and> wire_ok (dp_wire D) (dp_hosts D)
     \<and> 0 < length (dp_hosts D) \<and> length (dp_hosts D) < 65536 \<and> cfg_prefix (dp_config D) = ''/ndn/thu/naxos''
     \<and> (case cfg_lease (dp_config D) of None \<Rightarrow> True | Some l \<Rightarrow> lease_master_id l = 0)
     \<and> (\<forall>i \<in> {dp_nodes D, dp_window D, dp_local D, dp_log_size D, dp_client_window D, dp_ratio D, dp_read_node D}. fits_int i)"

section \<open>The system\<close>

record service =
  sv_nodes :: "node_id \<Rightarrow> node"
  sv_filters :: "node_id \<Rightarrow> (name \<times> handler) list"
  sv_out :: "node_id \<Rightarrow> effect list"
  sv_run :: client_run
  sv_answers :: "(name \<times> name \<times> string) list"

definition service_start :: "deployment \<Rightarrow> service \<Rightarrow> bool" where
  "service_start D S \<longleftrightarrow>
     (\<forall>k. unat k < length (dp_hosts D) \<longrightarrow> (\<exists>cmds. naxos_main (dp_wire D) (dp_mode D) (dp_load D) (dp_append D) (node_args D k)
        = Inr (Some (sv_nodes S k, sv_filters S k, cmds, sv_out S k))))
     \<and> (\<exists>c cmds. client_main (dp_wire D) (dp_mode D) (dp_uri D) (client_args D) = Inr (Some (c, cmds))
          \<and> sv_run S = client_start (dp_mode D) c)
     \<and> sv_answers S = []"

text \<open>
  What can happen at a node: an interest of the client or of another node reaches one of its
  handlers, an answer or a negative acknowledgement comes to an interest of its own, its pool runs
  a task, or it stops. An interest that nobody answers makes a node do nothing at all.
\<close>

datatype service_event =
    Client_asks node_id name handler
  | Node_asks node_id node_id name handler
  | Node_answers node_id node_id name name string
  | Log_answers node_id node_id name name string
  | Node_nacked node_id name
  | Own_task node_id msg
  | Node_stops node_id

definition prefix_of :: "name \<Rightarrow> name \<Rightarrow> bool" where
  "prefix_of p nm \<longleftrightarrow> take (length p) nm = p"

text \<open>The client's routes: each leads the names under one prefix to one node.\<close>

definition routed :: "deployment \<Rightarrow> client \<Rightarrow> name \<Rightarrow> node_id \<Rightarrow> bool" where
  "routed D c nm k \<longleftrightarrow> (\<exists>(t, i) \<in> set (client_routes (dp_mode D) (read_node c)).
     i = int (unat k) \<and> prefix_of (cl_prefix c @ [enc_number (dp_wire D) t]) nm)"

definition asks :: "name \<Rightarrow> effect list \<Rightarrow> bool" where
  "asks nm effs \<longleftrightarrow> (\<exists>e \<in> set effs. case e of Interest nm' life \<Rightarrow> nm' = nm | _ \<Rightarrow> False)"

definition asks_log :: "name \<Rightarrow> effect list \<Rightarrow> bool" where
  "asks_log nm effs \<longleftrightarrow> (\<exists>e \<in> set effs. case e of Log_interest nm' life \<Rightarrow> nm' = nm | _ \<Rightarrow> False)"

definition offers :: "name \<Rightarrow> string \<Rightarrow> effect list \<Rightarrow> bool" where
  "offers q content effs \<longleftrightarrow> (\<exists>e \<in> set effs. case e of Data_packet q' content' fresh \<Rightarrow> q' = q \<and> content' = content | _ \<Rightarrow> False)"

text \<open>
  A node whose thread waits in \<^verbatim>\<open>commit\<close> for the master's reply handles nothing more: the one thread of
  the face runs all handlers. (The pool of a node runs a task only where there is one host, the master.)
\<close>

definition awake :: "service \<Rightarrow> node_id \<Rightarrow> bool" where
  "awake S k \<longleftrightarrow> Wait_for_commit \<notin> set (sv_out S k)"

text \<open>
  The client's requests may reach every node with a filter for them, whatever its routes are, for
  the filters are routes as well: the daemons of the network announce them to each other.
\<close>

fun service_can :: "deployment \<Rightarrow> service_event \<Rightarrow> service \<Rightarrow> bool" where
  "service_can D (Client_asks k nm h) S =
     (unat k < length (dp_hosts D) \<and> awake S k \<and> nm \<in> set (cr_sent (sv_run S))
      \<and> h \<in> set (handlers_of (sv_filters S k) nm))"
| "service_can D (Node_asks j k nm h) S =
     (unat j < length (dp_hosts D) \<and> unat k < length (dp_hosts D) \<and> awake S k \<and> (asks nm (sv_out S j) \<or> asks_log nm (sv_out S j))
      \<and> h \<in> set (handlers_of (sv_filters S k) nm))"
| "service_can D (Node_answers j k nm q content) S =
     (unat j < length (dp_hosts D) \<and> unat k < length (dp_hosts D) \<and> awake S k \<and> asks nm (sv_out S k) \<and> offers q content (sv_out S j)
      \<and> prefix_of nm q)"
| "service_can D (Log_answers j k nm q content) S =
     (unat j < length (dp_hosts D) \<and> unat k < length (dp_hosts D) \<and> awake S k \<and> asks_log nm (sv_out S k) \<and> offers q content (sv_out S j)
      \<and> prefix_of nm q)"
| "service_can D (Node_nacked k nm) S = (unat k < length (dp_hosts D) \<and> awake S k \<and> asks nm (sv_out S k))"
| "service_can D (Own_task k m) S = (unat k < length (dp_hosts D) \<and> awake S k \<and> Schedule_self m \<in> set (sv_out S k))"
| "service_can D (Node_stops k) S = (unat k < length (dp_hosts D))"

text \<open>A write request that comes to a node other than the master.\<close>

definition write_elsewhere :: "deployment \<Rightarrow> service_event \<Rightarrow> bool" where
  "write_elsewhere D e \<longleftrightarrow> (case e of Client_asks k nm h \<Rightarrow> k \<noteq> 0 \<and> get_number (dp_wire D) nm 4 = Inr 0 | _ \<Rightarrow> False)"

text \<open>The node it happens to, and what the node does: the handlers the constructor has bound.\<close>

fun event_node :: "service_event \<Rightarrow> node_id" where
  "event_node (Client_asks k nm h) = k"
| "event_node (Node_asks j k nm h) = k"
| "event_node (Node_answers j k nm q content) = k"
| "event_node (Log_answers j k nm q content) = k"
| "event_node (Node_nacked k nm) = k"
| "event_node (Own_task k m) = k"
| "event_node (Node_stops k) = k"

definition face_calls :: "externals \<Rightarrow> mode \<Rightarrow> handler \<Rightarrow> name \<Rightarrow> node \<Rightarrow> (node \<times> effect list) res option" where
  "face_calls E mode h nm nd = (case h of
       On_interest \<Rightarrow> onInterest E nm nd
     | On_interest_log \<Rightarrow> Some (res_bind (onInterestLog E nm nd) (\<lambda>effs. Inr (nd, effs)))
     | On_interest_commit \<Rightarrow> onInterestCommit E mode nm nd)"

fun event_runs :: "deployment \<Rightarrow> service_event \<Rightarrow> node \<Rightarrow> (node \<times> effect list) res option" where
  "event_runs D (Client_asks k nm h) nd = face_calls (dp_wire D) (dp_mode D) h nm nd"
| "event_runs D (Node_asks j k nm h) nd = face_calls (dp_wire D) (dp_mode D) h nm nd"
| "event_runs D (Node_answers j k nm q content) nd = onData (dp_wire D) nm content nd"
| "event_runs D (Log_answers j k nm q content) nd = onDataLog (dp_wire D) q content nd"
| "event_runs D (Node_nacked k nm) nd = Some (onNack (dp_wire D) (dp_mode D) nm nd)"
| "event_runs D (Own_task k m) nd = handle_myself (dp_wire D) m nd"
| "event_runs D (Node_stops k) nd = Some (Inr (nd\<lparr>nd_captain := crash (nd_captain nd)\<rparr>, []))"

definition node_did_now :: "node_id \<Rightarrow> node \<Rightarrow> effect list \<Rightarrow> service \<Rightarrow> service" where
  "node_did_now k nd effs S = S\<lparr>sv_nodes := (sv_nodes S)(k := nd), sv_out := (sv_out S)(k := sv_out S k @ effs)\<rparr>"

text \<open>The slots of the master and the log counters stay below the range of a \<^verbatim>\<open>uint64_t\<close>.\<close>

definition counters_fit :: "deployment \<Rightarrow> service \<Rightarrow> bool" where
  "counters_fit D S \<longleftrightarrow> max_slot (nd_captain (sv_nodes S 0)) < 2 ^ 64
     \<and> (\<forall>k. unat k < length (dp_hosts D) \<longrightarrow> log_counter (sv_nodes S k) < 2 ^ 64)"

text \<open>
  The client: its threads go on by themselves, except that a reply comes only with a data packet
  of a node for an interest that is still pending.
\<close>

inductive service_step :: "deployment \<Rightarrow> service \<Rightarrow> service \<Rightarrow> bool" for D :: deployment where
  step_node: "service_can D e S \<Longrightarrow> event_runs D e (sv_nodes S (event_node e)) = Some (Inr (nd, effs)) \<Longrightarrow>
    counters_fit D (node_did_now (event_node e) nd effs S) \<Longrightarrow>
    service_step D S (node_did_now (event_node e) nd effs S)"
| step_client: "client_step (dp_wire D) (sv_run S) R \<Longrightarrow> (cr_current (sv_run S) = None \<longrightarrow> cr_current R = None) \<Longrightarrow>
    service_step D S (S\<lparr>sv_run := R\<rparr>)"
| step_answer: "unat j < length (dp_hosts D) \<Longrightarrow> offers q content (sv_out S j) \<Longrightarrow> prefix_of nm q \<Longrightarrow>
    nm \<in> set (cr_pending (sv_run S)) \<Longrightarrow> cr_current (sv_run S) = None \<Longrightarrow>
    reply_numbers (dp_wire D) nm = Inr (i, k) \<Longrightarrow> record_reply i seen (cr_client (sv_run S)) = Inr c \<Longrightarrow>
    service_step D S (S\<lparr>sv_run := (sv_run S)\<lparr>cr_client := c, cr_pending := remove1 nm (cr_pending (sv_run S)), cr_current := Some k\<rparr>,
      sv_answers := sv_answers S @ [(nm, q, content)]\<rparr>)"

inductive_cases service_step_cases: "service_step D S S'"

definition service_reach :: "deployment \<Rightarrow> service \<Rightarrow> bool" where
  "service_reach D S \<longleftrightarrow> (\<exists>S0. service_start D S0 \<and> (service_step D)\<^sup>*\<^sup>* S0 S)"

end
