(* ===== verification/Service_Start.thy ===== *)
theory Service_Start
  imports Service
begin

text \<open>
  How the service comes up: what the start of a node from its command line gives, its filters and
  its first packets included.
\<close>

section \<open>The start\<close>

abbreviation dp_n :: "deployment \<Rightarrow> nat" where
  "dp_n D \<equiv> length (dp_hosts D)"

text \<open>The filters a node sets. The master sets none for messages.\<close>

definition filters_ok :: "externals \<Rightarrow> name \<Rightarrow> string list \<Rightarrow> bool \<Rightarrow> (name \<times> handler) list \<Rightarrow> bool" where
  "filters_ok E pre hs master fs \<longleftrightarrow> (\<forall>(p, h) \<in> set fs. case h of
       On_interest \<Rightarrow> \<not> master \<and> (\<exists>host \<in> set hs. p = pre @ [host])
     | On_interest_log \<Rightarrow> p = pre @ [''log'']
     | On_interest_commit \<Rightarrow> \<exists>t \<le> 1. p = pre @ [''commit'', enc_number E t])"

text \<open>
  The filters a node needs to take part: for writes at the master, for messages elsewhere. The other
  members of the quorum set the filter for writes, too.
\<close>

definition filters_serve :: "externals \<Rightarrow> name \<Rightarrow> string list \<Rightarrow> bool \<Rightarrow> bool \<Rightarrow> node_id \<Rightarrow> (name \<times> handler) list \<Rightarrow> bool" where
  "filters_serve E pre hs master member me fs \<longleftrightarrow>
     (master \<or> member \<longrightarrow> (pre @ [''commit'', enc_number E 0], On_interest_commit) \<in> set fs)
     \<and> (\<not> master \<longrightarrow> (pre @ [hs ! unat me], On_interest) \<in> set fs)"

lemma Commo_init_named:
  assumes "Commo_init E c = Inr (nd, fs)" and "view_ok (cap_view c)" and "host_count (cap_view c) < 65536"
    and "pre = uri_name E (prefix (cap_view c))" and "hs = map host_name (host_nodes (cap_view c))"
  shows "nd_captain nd = c" "node_named pre hs nd" "log_counter nd = 0" "filters_ok E pre hs (if_master (cap_view c)) fs"
    "filters_serve E pre hs (if_master (cap_view c)) (if_quorum (cap_view c)) (whoami (cap_view c)) fs"
proof -
  let ?v = "cap_view c"
  have n: "length (host_nodes ?v) = host_count ?v" "unat (whoami ?v) < host_count ?v" "length hs = host_count ?v"
    using assms(2,5) by (simp_all add: view_ok_def whoami_def)
  have "map (\<lambda>j. pre @ [host_name (host_nodes ?v ! j)]) [0..<length (host_nodes ?v)] = map (\<lambda>h. pre @ [h]) hs"
    unfolding assms(5) by (rule nth_equalityI) simp_all
  then have names: "consumer_names_from E ?v 0 (nodes_size ?v) = Inr (map (\<lambda>h. pre @ [h]) hs)"
    using consumer_names_from_result [of 0 "nodes_size ?v" ?v E] n(1) assms(3,4) by (simp add: nodes_size_def)
  let ?names = "map (\<lambda>h. pre @ [h]) hs"
  define self where "self = (if if_master ?v then [] else ?names ! unat (whoami ?v))"
  have self: "if_master ?v \<or> self \<in> set ?names"
    using n(2,3) by (simp add: self_def)
  have fs: "fs = interest_filters E ?v self (pre @ [''log'']) (pre @ [''commit''])"
      and nd: "nd = \<lparr>nd_captain = c, consumer_names = ?names, log_name = pre @ [''log''],
        commit_name = pre @ [''commit''], log_counter = 0, quorum_locked = False\<rparr>"
    using assms(1) names n by (simp_all add: Commo_init_def Let_def assms(4) [symmetric] vec_at_def self_def split: if_splits)
  then show "nd_captain nd = c" "node_named pre hs nd" "log_counter nd = 0"
    by (simp_all add: node_named_def)
  show "filters_ok E pre hs (if_master ?v) fs"
    using self unfolding fs filters_ok_def interest_filters_def Let_def by (auto intro: exI [of _ "0 :: nat"] exI [of _ "1 :: nat"])
  show "filters_serve E pre hs (if_master ?v) (if_quorum ?v) (whoami ?v) fs"
    using n(2,3) by (simp add: filters_serve_def fs interest_filters_def Let_def self_def)
qed

lemma node_args_read:
  assumes "deployment_ok D"
  shows "naxos_main (dp_wire D) (dp_mode D) (dp_load D) (dp_append D) (node_args D k) =
     res_bind (NaxosD_init (dp_wire D) (dp_mode D) (dp_load D) (dp_append D) k (dp_nodes D) (dp_window D) (dp_local D))
       (\<lambda>(nd, filters, cmds). let (nd', effs) = NaxosD_start (dp_wire D) (dp_log_size D) nd in Inr (Some (nd', filters, cmds, effs)))"
proof -
  have "unat k < 65536"
    using unsigned_less [of k] by simp
  then have k: "unat k < 2 ^ 64" by simp
  then have "stoul (decimal (unat k)) = Inr (of_nat (unat k))"
    by (rule stoul_decimal)
  moreover have "ucast (of_nat (unat k) :: 64 word) = k"
    using k by (simp add: unsigned_of_nat take_bit_nat_eq_self)
  moreover have "stoi (to_string_int i) = Inr i" if "i \<in> {dp_nodes D, dp_window D, dp_local D, dp_log_size D}" for i
    using assms that by (intro stoi_to_string) (auto simp: deployment_ok_def fits_int_def)
  ultimately show ?thesis
    by (simp add: naxos_main_def node_args_def)
qed

text \<open>Everything the start of node \<open>k\<close> gives.\<close>

definition started :: "deployment \<Rightarrow> node_id \<Rightarrow> node \<Rightarrow> (name \<times> handler) list \<Rightarrow> effect list \<Rightarrow> view \<Rightarrow> bool" where
  "started D k nd fs effs v \<longleftrightarrow> nd_captain nd = new_captain v (dp_window D) (uri_name (dp_wire D) [])
     \<and> view_ok v \<and> host_count v = dp_n D \<and> quorums v = nodes_upto 0 (quorum_of_size (dp_n D))
     \<and> q_size v = of_nat (quorum_of_size (dp_n D)) \<and> node_id v = k \<and> master_id v = 0
     \<and> node_named (dp_prefix D) (dp_hosts D) nd \<and> filters_ok (dp_wire D) (dp_prefix D) (dp_hosts D) (k = 0) fs
     \<and> filters_serve (dp_wire D) (dp_prefix D) (dp_hosts D) (k = 0) (if_quorum v) k fs \<and> log_counter nd < 2 ^ 64
     \<and> (\<forall>e \<in> set effs. \<exists>j < 2 ^ 64. e = Log_interest (dp_prefix D @ [''log'', enc_number (dp_wire D) j]) 20000)"

lemma node_starts_up:
  assumes D: "deployment_ok D" and k: "unat k < dp_n D"
    and run: "naxos_main (dp_wire D) (dp_mode D) (dp_load D) (dp_append D) (node_args D k) = Inr (Some (nd, fs, cmds, effs))"
  shows "\<exists>v. started D k nd fs effs v"
proof -
  let ?E = "dp_wire D" and ?cf = "naxos_config_file (dp_nodes D) (dp_local D)"
  obtain nd0 fs0 cmds0 where r0: "NaxosD_init ?E (dp_mode D) (dp_load D) (dp_append D) k (dp_nodes D) (dp_window D) (dp_local D) = Inr (nd0, fs0, cmds0)"
    using run unfolding node_args_read [OF D] by (auto simp: res_bind_Inr_iff)
  have start0: "NaxosD_start ?E (dp_log_size D) nd0 = (nd, effs)" and same: "fs0 = fs" "cmds0 = cmds"
    using run unfolding node_args_read [OF D] r0 by (cases "NaxosD_start ?E (dp_log_size D) nd0"; simp)+
  have r: "NaxosD_init ?E (dp_mode D) (dp_load D) (dp_append D) k (dp_nodes D) (dp_window D) (dp_local D) = Inr (nd0, fs, cmds)"
      "NaxosD_start ?E (dp_log_size D) nd0 = (nd, effs)"
    using r0 start0 same by simp_all
  then obtain v where v: "View_init (dp_mode D) (dp_load D) (dp_append D) k ?cf = Inr (v, cmds)"
      and commo: "Commo_init ?E (new_captain v (dp_window D) (uri_name ?E [])) = Inr (nd0, fs)"
    by (auto simp: NaxosD_init_def res_bind_Inr_iff)
  have n: "dp_n D = length (cfg_host (dp_config D))" "dp_n D < 65536"
    using D by (simp_all add: dp_hosts_def deployment_ok_def)
  have cf: "dp_config D = (if ?cf = [] then dp_load D ''config/localhost-1.yaml'' else dp_load D ?cf)"
    using naxos_config_file_nonempty by (simp add: dp_config_def)
  have "quorum_of_size (dp_n D) \<le> dp_n D"
    using k by (intro quorum_of_size_bounds) linarith
  then have min: "min (dp_n D) (quorum_of_size (dp_n D)) = quorum_of_size (dp_n D)" by simp
  have init: "quorums v = nodes_upto 0 (min (dp_n D) (quorum_of_size (dp_n D)))
      \<and> n_quorums v = nodes_upto (quorum_of_size (dp_n D)) (dp_n D)
      \<and> q_size v = of_nat (quorum_of_size (dp_n D)) \<and> host_count v = dp_n D
      \<and> host_nodes v = cfg_host (dp_config D) \<and> prefix v = cfg_prefix (dp_config D)
      \<and> node_id v = (if ?cf = [] \<or> dp_n D \<le> unat k then 0 else k)
      \<and> master_id v = (case cfg_lease (dp_config D) of None \<Rightarrow> 0 | Some l \<Rightarrow> of_int (lease_master_id l))"
    by (rule View_init_cases [OF v cf n]) (intro conjI)
  have view: "host_count v = dp_n D" "host_nodes v = cfg_host (dp_config D)" "prefix v = ''/ndn/thu/naxos''"
    "node_id v = k" "master_id v = 0"
    using init naxos_config_file_nonempty D k by (auto simp: deployment_ok_def split: option.splits)
  have "view_ok v"
    using init view k n(1) [symmetric] n(2) by (intro view_ok_constructed [of v "dp_n D"]) (simp_all add: min)
  note view = this view
  let ?c = "new_captain v (dp_window D) (uri_name ?E []) :: name captain"
  have c: "cap_view ?c = v"
    by (simp add: new_captain_def)
  have named: "nd_captain nd0 = ?c" "node_named (dp_prefix D) (dp_hosts D) nd0" "log_counter nd0 = 0"
    "filters_ok ?E (dp_prefix D) (dp_hosts D) (if_master (cap_view ?c)) fs" "filters_serve ?E (dp_prefix D) (dp_hosts D) (if_master (cap_view ?c)) (if_quorum (cap_view ?c)) (whoami (cap_view ?c)) fs"
    by (rule Commo_init_named [OF commo]; use view c n in \<open>simp add: dp_prefix_def dp_hosts_def\<close>)+
  have "if_master (cap_view ?c) = (k = 0)" "whoami (cap_view ?c) = k"
    using view c by (auto simp: if_master_def whoami_def)
  then have serve: "filters_serve ?E (dp_prefix D) (dp_hosts D) (k = 0) (if_quorum v) k fs" "filters_ok ?E (dp_prefix D) (dp_hosts D) (k = 0) fs"
    using named(4,5) c by simp_all
  have start: "nd = nd0 \<and> effs = [] \<or> nd = nd0\<lparr>log_counter := nat (dp_log_size D)\<rparr>
      \<and> effs = map (\<lambda>i. Log_interest (log_name nd0 @ [enc_number ?E i]) 20000) [1..<Suc (nat (dp_log_size D))]"
    using r(2) named(3) by (auto simp: NaxosD_start_def consume_log_window split: if_splits)
  then have cap: "nd_captain nd = ?c" "node_named (dp_prefix D) (dp_hosts D) nd"
    using named by (auto simp: node_named_def)
  have "dp_log_size D < 2 ^ 31"
    using D by (simp add: deployment_ok_def fits_int_def)
  then have log: "log_counter nd < 2 ^ 64" "\<forall>i \<in> set [1..<Suc (nat (dp_log_size D))]. i < 2 ^ 64"
    using start named(3) by auto
  have "\<forall>e \<in> set effs. \<exists>j < 2 ^ 64. e = Log_interest (dp_prefix D @ [''log'', enc_number ?E j]) 20000"
  proof
    fix e
    assume "e \<in> set effs"
    then obtain i where "i \<in> set [1..<Suc (nat (dp_log_size D))]" "e = Log_interest (log_name nd0 @ [enc_number ?E i]) 20000"
      using start by (auto simp del: upt_Suc)
    then show "\<exists>j < 2 ^ 64. e = Log_interest (dp_prefix D @ [''log'', enc_number ?E j]) 20000"
      using log(2) named(2) by (intro exI [of _ i]) (simp add: node_named_def del: upt_Suc)
  qed
  then show ?thesis
    using cap view init min serve log(1) by (intro exI [of _ v]) (simp add: started_def)
qed

lemma start_node:
  assumes D: "deployment_ok D" and k: "unat k < dp_n D"
    and run: "naxos_main (dp_wire D) (dp_mode D) (dp_load D) (dp_append D) (node_args D k) = Inr (Some (nd, fs, cmds, effs))"
  shows "node_fit (dp_prefix D) (dp_hosts D) (\<lambda>_. None) Q nd" "if_master (nd_view nd) \<longleftrightarrow> k = 0" "master_id (nd_view nd) = 0"
    "filters_ok (dp_wire D) (dp_prefix D) (dp_hosts D) (k = 0) fs"
    "\<forall>e \<in> set effs. effect_owned (dp_wire D) (dp_prefix D) (dp_hosts D) (\<lambda>_. None) (nd_captain nd) e"
proof -
  obtain v where v: "started D k nd fs effs v"
    using node_starts_up [OF D k run] by blast
  let ?c = "new_captain v (dp_window D) (uri_name (dp_wire D) []) :: name captain"
  have c: "nd_captain nd = ?c" "cap_view ?c = v" "view_ok v"
    using v by (simp_all add: started_def new_captain_def)
  then have "captain_ok ?c"
    by (intro captain_ok_new)
  then show "node_fit (dp_prefix D) (dp_hosts D) (\<lambda>_. None) Q nd"
    using v c node_owned_new by (simp add: node_fit_def node_ok_def node_named_def started_def)
  show "if_master (nd_view nd) \<longleftrightarrow> k = 0" "master_id (nd_view nd) = 0"
    using v c by (simp_all add: if_master_def started_def)
  show "filters_ok (dp_wire D) (dp_prefix D) (dp_hosts D) (k = 0) fs"
    using v by (simp add: started_def)
  show "\<forall>e \<in> set effs. effect_owned (dp_wire D) (dp_prefix D) (dp_hosts D) (\<lambda>_. None) (nd_captain nd) e"
    using v by (fastforce simp: started_def)
qed

end
