(* ===== verification/Service_Inv.thy ===== *)
theory Service_Inv
  imports Service_Start
begin

text \<open>
  The invariant of the whole service: every node is in order with the owners of the slots, every
  packet under way is in order with them, and the owners are requests of the client.
\<close>

section \<open>The client\<close>

lemma client_pending_step:
  "client_step E R R' \<Longrightarrow> set (cr_pending R) \<subseteq> set (cr_sent R) \<Longrightarrow> set (cr_pending R') \<subseteq> set (cr_sent R')
    \<and> set (cr_sent R) \<subseteq> set (cr_sent R')"
  using set_remove1_subset [of _ "cr_pending R"]
  by (elim client_step_cases) (simp_all, blast+)

lemma client_pending:
  assumes "client_reach E mode c R"
  shows "set (cr_pending R) \<subseteq> set (cr_sent R)"
  using assms by (induction rule: rtranclp_induct) (use client_pending_step in \<open>auto simp: client_start_def\<close>)

lemma client_part:
  assumes "client_reach E mode (new_client pre win rat node) R"
  shows "cl_prefix (cr_client R) = pre @ [''commit'']" "\<forall>nm \<in> set (cr_sent R). request_shape E pre nm"
proof -
  have inv: "numbered E R" and pre: "cl_prefix (cr_client R) = pre @ [''commit'']"
    using client_reach_inv [OF assms] by (auto simp: client_frame_def client_start_def new_client_def recover_setup_def)
  show "cl_prefix (cr_client R) = pre @ [''commit'']" by (rule pre)
  show "\<forall>nm \<in> set (cr_sent R). request_shape E pre nm"
  proof
    fix nm
    assume "nm \<in> set (cr_sent R)"
    then obtain k where k: "k < length (cr_sent R)" "nm = cr_sent R ! k"
      by (auto simp: in_set_conv_nth)
    then obtain t i where at: "nm = request_name E (cr_client R) t i k" "t \<le> 1"
      using inv by (auto simp: numbered_def)
    have "int_to_number i < 2 ^ 64"
      using unsigned_less [of "of_int i :: 64 word"] by (simp add: int_to_number_def)
    moreover have "k < 2 ^ 64"
      using k(1) inv by (simp add: numbered_def starts_size_def)
    ultimately show "request_shape E pre nm"
      using at unfolding request_shape_def request_name_def pre
      by (intro exI [of _ t] exI [of _ "int_to_number i"] exI [of _ k] exI [of _ "value_text k i"]) simp
  qed
qed

section \<open>The invariant\<close>

abbreviation requests :: "deployment \<Rightarrow> service \<Rightarrow> (prop_value \<times> name) set" where
  "requests D S \<equiv> requested (dp_wire D) (set (cr_sent (sv_run S)))"

text \<open>What a node has given out: packets in order, or that it waits.\<close>

abbreviation packet_owned :: "deployment \<Rightarrow> name owners \<Rightarrow> service \<Rightarrow> node_id \<Rightarrow> effect \<Rightarrow> bool" where
  "packet_owned D A S k e \<equiv> e = Wait_for_commit \<or> effect_owned (dp_wire D) (dp_prefix D) (dp_hosts D) A (nd_captain (sv_nodes S k)) e"

definition node_inv :: "deployment \<Rightarrow> name owners \<Rightarrow> service \<Rightarrow> node_id \<Rightarrow> bool" where
  "node_inv D A S k \<longleftrightarrow> node_fit (dp_prefix D) (dp_hosts D) A (requests D S) (sv_nodes S k)
     \<and> (if_master (nd_view (sv_nodes S k)) \<longleftrightarrow> k = 0) \<and> master_id (nd_view (sv_nodes S k)) = 0
     \<and> filters_ok (dp_wire D) (dp_prefix D) (dp_hosts D) (k = 0) (sv_filters S k)
     \<and> (\<forall>e \<in> set (sv_out S k). packet_owned D A S k e)"

definition answers_inv :: "deployment \<Rightarrow> name owners \<Rightarrow> service \<Rightarrow> bool" where
  "answers_inv D A S \<longleftrightarrow> (\<forall>(nm, q, content) \<in> set (sv_answers S). nm \<in> set (cr_sent (sv_run S)) \<and> prefix_of nm q
     \<and> (\<exists>j. unat j < dp_n D \<and> data_owned (dp_wire D) (dp_prefix D) (dp_hosts D) A (nd_captain (sv_nodes S j)) q content))"

definition service_inv :: "deployment \<Rightarrow> name owners \<Rightarrow> service \<Rightarrow> bool" where
  "service_inv D A S \<longleftrightarrow> (\<forall>k. unat k < dp_n D \<longrightarrow> node_inv D A S k) \<and> answers_inv D A S
     \<and> client_reach (dp_wire D) (dp_mode D) (new_client (dp_prefix D) (dp_client_window D) (dp_ratio D) (dp_read_node D)) (sv_run S)
     \<and> ran A \<subseteq> requests D S \<and> dom A \<subseteq> {..<2 ^ 64}"

lemma service_inv_start:
  assumes "deployment_ok D" and "service_start D S"
  shows "service_inv D (\<lambda>_. None) S"
proof -
  have "node_inv D (\<lambda>_. None) S k" if k: "unat k < dp_n D" for k
  proof -
    obtain cmds where "naxos_main (dp_wire D) (dp_mode D) (dp_load D) (dp_append D) (node_args D k)
        = Inr (Some (sv_nodes S k, sv_filters S k, cmds, sv_out S k))"
      using assms(2) k by (auto simp: service_start_def)
    from start_node [OF assms(1) k this] show ?thesis
      by (simp add: node_inv_def)
  qed
  moreover have "client_main (dp_wire D) (dp_mode D) (dp_uri D) (client_args D)
      = Inr (Some (Client_init (dp_wire D) (dp_mode D) (dp_uri D) (dp_prefix D) (dp_client_window D) (dp_ratio D) (dp_read_node D)))"
    unfolding client_args_def dp_prefix_def using assms(1)
    by (intro client_main_starts) (simp add: deployment_ok_def fits_int_def)
  then have "sv_run S = client_start (dp_mode D) (new_client (dp_prefix D) (dp_client_window D) (dp_ratio D) (dp_read_node D))"
    using assms(2) by (auto simp: service_start_def Client_init_def Let_def)
  ultimately show ?thesis
    using assms(2) by (simp add: service_inv_def answers_inv_def service_start_def)
qed

text \<open>What the invariant says of the owners: slots below \<open>2 ^ 64\<close>, values of write requests.\<close>

lemma service_owners:
  assumes "service_inv D A S"
  shows "owners_ok (dp_prefix D) A" "\<forall>(v, nm) \<in> requests D S. pv_cmd v = None"
    "\<forall>nm \<in> set (cr_sent (sv_run S)). request_shape (dp_wire D) (dp_prefix D) nm"
proof -
  show shapes: "\<forall>nm \<in> set (cr_sent (sv_run S)). request_shape (dp_wire D) (dp_prefix D) nm"
    using assms client_part(2) by (auto simp: service_inv_def)
  show "\<forall>(v, nm) \<in> requests D S. pv_cmd v = None"
    by (auto simp: requested_def)
  have owned: "s < 2 ^ 64 \<and> (v, nm) \<in> requests D S" if "A s = Some (v, nm)" for s v nm
    using that assms unfolding service_inv_def by (meson domI lessThan_iff ranI subsetD)
  have "\<exists>rest. nm = dp_prefix D @ [''commit''] @ rest \<and> length rest = 4" if "(v, nm) \<in> requests D S" for v nm
    using that shapes by (fastforce simp: requested_def request_shape_def)
  then show "owners_ok (dp_prefix D) A"
    using owned unfolding owners_ok_def requested_def by fastforce
qed

section \<open>What a node does\<close>

text \<open>The kind of a name decides the handler.\<close>

lemma handler_for:
  assumes "filters_ok E pre hs master fs" and "h \<in> set (handlers_of fs nm)" and "wire_ok E hs" and "nm = pre @ x # xs"
  shows "x \<in> set hs \<Longrightarrow> h = On_interest \<and> \<not> master" "x = ''log'' \<Longrightarrow> h = On_interest_log" "x = ''commit'' \<Longrightarrow> h = On_interest_commit"
proof -
  obtain p where p: "(p, h) \<in> set fs" "take (length p) nm = p"
    using assms(2) by (auto simp: handlers_of_def)
  have "case h of On_interest \<Rightarrow> x \<in> set hs \<and> \<not> master | On_interest_log \<Rightarrow> x = ''log'' | On_interest_commit \<Rightarrow> x = ''commit''"
    using bspec [OF assms(1) [unfolded filters_ok_def] p(1)] p(2) by (cases h) (auto simp: assms(4))
  then show "x \<in> set hs \<Longrightarrow> h = On_interest \<and> \<not> master" "x = ''log'' \<Longrightarrow> h = On_interest_log" "x = ''commit'' \<Longrightarrow> h = On_interest_commit"
    using assms(3) by (cases h; simp add: wire_ok_def)+
qed

text \<open>The client's routes lead write requests to node 0.\<close>

lemma routed_write:
  assumes "dp_mode D = Mode_default" and "number_codec_ok (dp_wire D)" and "cl_prefix c = pre @ [''commit'']"
    and "request_shape (dp_wire D) pre nm" and "get_number (dp_wire D) nm 4 = Inr 0" and "routed D c nm k"
  shows "k = 0"
proof -
  let ?E = "dp_wire D"
  obtain t i n val where nm: "t \<le> 1" "i < 2 ^ 64" "n < 2 ^ 64"
      "nm = pre @ [''commit'', enc_number ?E t, enc_number ?E i, enc_number ?E n, val]"
    using assms(4) by (auto simp: request_shape_def)
  have "t < 2 ^ 64"
    using nm(1) by simp
  then have "t = 0"
    using request_shape_parts(4) [OF assms(2) nm(4) _ nm(2,3)] assms(5) by simp
  moreover have "enc_number ?E 1 \<noteq> enc_number ?E 0"
  proof
    assume "enc_number ?E 1 = enc_number ?E 0"
    then have "dec_number ?E (enc_number ?E 1) = dec_number ?E (enc_number ?E 0)" by simp
    then show False
      using assms(2) by (simp add: number_codec_ok_def)
  qed
  ultimately have "int (unat k) = 0"
    using assms(6) by (auto simp: routed_def assms(1,3) client_routes_def prefix_of_def nm(4))
  then show ?thesis
    by (simp add: unsigned_eq_0_iff)
qed

lemma asks_packet:
  "asks nm effs \<longleftrightarrow> (\<exists>life. Interest nm life \<in> set effs)"
  "asks_log nm effs \<longleftrightarrow> (\<exists>life. Log_interest nm life \<in> set effs)"
  "offers q content effs \<longleftrightarrow> (\<exists>fresh. Data_packet q content fresh \<in> set effs)"
  unfolding asks_def asks_log_def offers_def by (auto split: effect.split_asm) (force+)?

text \<open>The packets under way, by their kinds.\<close>

lemma asked_node:
  assumes "service_inv D A S" and "unat k < dp_n D" and "asks nm (sv_out S k)"
  shows "\<exists>h m. h \<in> set (dp_hosts D) \<and> nm = dp_prefix D @ [h, encode_msg (dp_wire D) m] \<and> (msg_owned A m \<or> (\<exists>r. m = Commit r))
    \<and> msg_ok (dp_n D) m"
proof -
  obtain life where "Interest nm life \<in> set (sv_out S k)"
    using assms(3) by (auto simp: asks_packet)
  then have "packet_owned D A S k (Interest nm life)"
    using assms(1,2) unfolding service_inv_def node_inv_def by blast
  then obtain h m where "h \<in> set (dp_hosts D)" "nm = dp_prefix D @ [h, encode_msg (dp_wire D) m]" "msg_ok (dp_n D) m"
      "msg_owned A m \<or> (\<exists>r. m = Commit r)"
    by (auto simp: own_msg_def)
  then show ?thesis
    by blast
qed

lemma asked_log:
  assumes "service_inv D A S" and "unat k < dp_n D" and "asks_log nm (sv_out S k)"
  shows "\<exists>j < 2 ^ 64. nm = dp_prefix D @ [''log'', enc_number (dp_wire D) j]"
proof -
  obtain life where "Log_interest nm life \<in> set (sv_out S k)"
    using assms(3) by (auto simp: asks_packet)
  then have "packet_owned D A S k (Log_interest nm life)"
    using assms(1,2) unfolding service_inv_def node_inv_def by blast
  then show ?thesis by simp
qed

lemma offers_owned:
  assumes "service_inv D A S" and "unat j < dp_n D" and "offers q content (sv_out S j)"
  shows "data_owned (dp_wire D) (dp_prefix D) (dp_hosts D) A (nd_captain (sv_nodes S j)) q content"
proof -
  obtain fresh where "Data_packet q content fresh \<in> set (sv_out S j)"
    using assms(3) by (auto simp: asks_packet)
  then have "packet_owned D A S j (Data_packet q content fresh)"
    using assms(1,2) unfolding service_inv_def node_inv_def by blast
  then show ?thesis by simp
qed

abbreviation goes_on :: "deployment \<Rightarrow> name owners \<Rightarrow> service \<Rightarrow> node \<Rightarrow> node \<Rightarrow> effect list \<Rightarrow> name owners \<Rightarrow> bool" where
  "goes_on D A S \<equiv> node_goes (dp_wire D) (dp_prefix D) (dp_hosts D) A (requests D S)"

lemma client_asked:
  assumes D: "deployment_ok D" and inv: "service_inv D A S" and can: "service_can D (Client_asks k nm h) S"
  shows "h = On_interest_commit" "request_shape (dp_wire D) (dp_prefix D) nm" "node_inv D A S k"
proof -
  have wire: "wire_ok (dp_wire D) (dp_hosts D)"
    using D by (simp add: deployment_ok_def)
  have k: "unat k < dp_n D" "nm \<in> set (cr_sent (sv_run S))" "h \<in> set (handlers_of (sv_filters S k) nm)"
    using can by simp_all
  show node: "node_inv D A S k"
    using inv k(1) by (simp add: service_inv_def)
  show shape: "request_shape (dp_wire D) (dp_prefix D) nm"
    using service_owners(3) [OF inv] k(2) by blast
  show "h = On_interest_commit"
    using handler_for(3) [OF _ k(3) wire] shape node by (auto simp: request_shape_def node_inv_def)
qed

text \<open>A write at a node other than the master, and what a step gives out in general.\<close>

abbreviation waits :: "deployment \<Rightarrow> service_event \<Rightarrow> effect list" where
  "waits D e \<equiv> (if write_elsewhere D e then [Wait_for_commit] else [])"

lemma request_elsewhere:
  assumes D: "deployment_ok D" and inv: "service_inv D A S" and can: "service_can D (Client_asks k nm h) S"
    and "k \<noteq> 0" and "get_number (dp_wire D) nm 4 = Inr 0"
  shows "\<exists>nd e. face_calls (dp_wire D) (dp_mode D) h nm (sv_nodes S k) = Some (Inr (nd, [e, Wait_for_commit]))
    \<and> goes_on D A S (sv_nodes S k) nd [e] A"
proof -
  note asked = client_asked [OF D inv can]
  have "\<not> if_master (nd_view (sv_nodes S k))" "unat (master_id (nd_view (sv_nodes S k))) < dp_n D"
    "node_fit (dp_prefix D) (dp_hosts D) A (requests D S) (sv_nodes S k)"
    using asked(3) D assms(4) by (simp_all add: node_inv_def deployment_ok_def)
  moreover have "number_codec_ok (dp_wire D)" "dp_mode D \<noteq> Mode_recover"
    using D by (simp_all add: deployment_ok_def wire_ok_def)
  ultimately show ?thesis
    using onInterestCommit_elsewhere [OF _ _ _ _ _ asked(2) assms(5)] asked(1) by (simp add: face_calls_def)
qed

lemma request_goes:
  assumes D: "deployment_ok D" and inv: "service_inv D A S" and can: "service_can D (Client_asks k nm h) S"
    and run: "face_calls (dp_wire D) (dp_mode D) h nm (sv_nodes S k) = Some (Inr (nd, effs))"
  shows "\<exists>A' es. goes_on D A S (sv_nodes S k) nd es A' \<and> effs = es @ waits D (Client_asks k nm h)"
proof (cases "write_elsewhere D (Client_asks k nm h)")
  case True
  then obtain nd' e where "face_calls (dp_wire D) (dp_mode D) h nm (sv_nodes S k) = Some (Inr (nd', [e, Wait_for_commit]))"
      "goes_on D A S (sv_nodes S k) nd' [e] A"
    using request_elsewhere [OF D inv can] by (auto simp: write_elsewhere_def)
  then show ?thesis
    using run True by (intro exI [of _ A] exI [of _ "[e]"]) simp
next
  case False
  note asked = client_asked [OF D inv can]
  have run': "onInterestCommit (dp_wire D) (dp_mode D) nm (sv_nodes S k) = Some (Inr (nd, effs))"
    using run asked(1) by (simp add: face_calls_def)
  have "wire_ok (dp_wire D) (dp_hosts D)" "nm \<in> set (cr_sent (sv_run S))"
    using D can by (simp_all add: deployment_ok_def)
  moreover have "get_number (dp_wire D) nm 4 = Inr 0 \<Longrightarrow> if_master (nd_view (sv_nodes S k))"
    using False asked(3) by (simp add: write_elsewhere_def node_inv_def)
  moreover have "node_fit (dp_prefix D) (dp_hosts D) A (requests D S) (sv_nodes S k)"
    using asked(3) by (simp add: node_inv_def)
  ultimately show ?thesis
    using onInterestCommit_owned [OF run' _ service_owners(1) [OF inv] _ asked(2)] False by auto
qed

lemma event_goes:
  assumes D: "deployment_ok D" and inv: "service_inv D A S" and can: "service_can D e S"
    and run: "event_runs D e (sv_nodes S (event_node e)) = Some (Inr (nd, effs))"
    and counter: "\<forall>j k nm q content. e = Log_answers j k nm q content \<longrightarrow> log_counter nd < 2 ^ 64"
  shows "\<exists>A' es. goes_on D A S (sv_nodes S (event_node e)) nd es A' \<and> effs = es @ waits D e"
proof -
  let ?E = "dp_wire D" and ?pre = "dp_prefix D" and ?hs = "dp_hosts D"
  have wire: "wire_ok ?E ?hs"
    using D by (simp add: deployment_ok_def)
  note owners = service_owners(1,2) [OF inv]
  have node: "node_inv D A S k" if "unat k < dp_n D" for k
    using inv that by (simp add: service_inv_def)
  have quiet: ?thesis if "\<exists>A'. goes_on D A S (sv_nodes S (event_node e)) nd effs A'" "\<not> write_elsewhere D e"
    using that by simp
  have out: "packet_owned D A S k x" if "unat k < dp_n D" "x \<in> set (sv_out S k)" for k x
    using node [OF that(1)] that(2) by (simp add: node_inv_def)
  have fit: "node_fit ?pre ?hs A (requests D S) (sv_nodes S k)" "filters_ok ?E ?pre ?hs (k = 0) (sv_filters S k)"
      "\<not> if_master (nd_view (sv_nodes S k)) \<longleftrightarrow> k \<noteq> 0" if "unat k < dp_n D" for k
    using node [OF that] by (simp_all add: node_inv_def)
  note host = asked_node [OF inv] and log = asked_log [OF inv] and data = offers_owned [OF inv]
  show ?thesis
  proof (cases e)
    case (Client_asks k nm h)
    then show ?thesis
      using request_goes [OF D inv, of k nm h nd effs] can run by simp
  next
    case (Node_asks j k nm h)
    then have at: "unat j < dp_n D" "unat k < dp_n D" "asks nm (sv_out S j) \<or> asks_log nm (sv_out S j)"
        "h \<in> set (handlers_of (sv_filters S k) nm)"
        "face_calls ?E (dp_mode D) h nm (sv_nodes S k) = Some (Inr (nd, effs))"
      using can run by simp_all
    from at(3) have "\<exists>A'. goes_on D A S (sv_nodes S k) nd effs A'"
    proof
      assume "asks nm (sv_out S j)"
      then obtain x m where nm: "x \<in> set ?hs" "nm = ?pre @ [x, encode_msg ?E m]" "msg_owned A m \<or> (\<exists>r. m = Commit r)"
          "msg_ok (length ?hs) m"
        using host [OF at(1)] by blast
      have h: "h = On_interest" "k \<noteq> 0"
        using handler_for(1) [OF fit(2) [OF at(2)] at(4) wire nm(2,1)] by simp_all
      then have run': "onInterest ?E nm (sv_nodes S k) = Some (Inr (nd, effs))"
        using at(5) by (simp add: face_calls_def)
      from nm(3) show ?thesis
      proof
        assume "msg_owned A m"
        from onInterest_owned [OF run' fit(1) [OF at(2)] owners wire nm(2,1) this nm(4)] show ?thesis .
      next
        assume "\<exists>r. m = Commit r"
        then obtain r where "m = Commit r" ..
        then have "nm = ?pre @ [x, encode_msg ?E (Commit r)]"
          using nm(2) by simp
        from onInterest_forwarded [OF fit(1) [OF at(2)] _ wire this] show ?thesis
          using run' h(2) fit(3) [OF at(2)] by auto
      qed
    next
      assume "asks_log nm (sv_out S j)"
      then obtain i where nm: "i < 2 ^ 64" "nm = ?pre @ [''log'', enc_number ?E i]"
        using log [OF at(1)] by blast
      have "h = On_interest_log"
        using handler_for(2) [OF fit(2) [OF at(2)] at(4) wire nm(2) refl] .
      then show ?thesis
        using at(5) onInterestLog_owned [OF _ fit(1) [OF at(2)] wire nm(2,1)]
        by (auto simp: face_calls_def res_bind_Inr_iff)
    qed
    then show ?thesis
      by (intro quiet) (simp_all add: Node_asks write_elsewhere_def)
  next
    case (Node_answers j k nm q content)
    then have at: "unat j < dp_n D" "unat k < dp_n D" "asks nm (sv_out S k)" "offers q content (sv_out S j)" "take (length nm) q = nm"
        "onData ?E nm content (sv_nodes S k) = Some (Inr (nd, effs))"
      using can run unfolding service_can.simps event_runs.simps Node_answers prefix_of_def by simp_all
    obtain x m where nm: "x \<in> set ?hs" "nm = ?pre @ [x, encode_msg ?E m]"
      using host [OF at(2,3)] by blast
    show ?thesis
      using onData_owned [OF at(6) fit(1) [OF at(2)] owners wire nm(2,1) data [OF at(1,4)] at(5)]
      by (intro quiet) (simp_all add: Node_answers write_elsewhere_def)
  next
    case (Log_answers j k nm q content)
    then have at: "unat j < dp_n D" "unat k < dp_n D" "asks_log nm (sv_out S k)" "offers q content (sv_out S j)" "take (length nm) q = nm"
        "onDataLog ?E q content (sv_nodes S k) = Some (Inr (nd, effs))"
      using can run by (simp_all add: prefix_of_def)
    obtain i where nm: "nm = ?pre @ [''log'', enc_number ?E i]"
      using log [OF at(2,3)] by blast
    show ?thesis
      using onDataLog_owned [OF at(6) fit(1) [OF at(2)] owners wire nm data [OF at(1,4)] at(5)] counter
      by (intro quiet) (simp_all add: Log_answers write_elsewhere_def)
  next
    case (Node_nacked k nm)
    then have "unat k < dp_n D" "nd = sv_nodes S k" "effs = []"
      using can run D by (simp_all add: onNack_def deployment_ok_def)
    then show ?thesis
      using node_goes_refl [OF fit(1)] by (intro quiet) (auto simp: Node_nacked write_elsewhere_def)
  next
    case (Own_task k m)
    then have at: "unat k < dp_n D" "Schedule_self m \<in> set (sv_out S k)" "handle_myself ?E m (sv_nodes S k) = Some (Inr (nd, effs))"
      using can run by simp_all
    then have "own_msg (me_of (nd_captain (sv_nodes S k))) A m" "msg_ok (length ?hs) m"
      using out [OF at(1,2)] by simp_all
    from handle_myself_owned [OF at(3) fit(1) [OF at(1)] owners this] show ?thesis
      by (intro quiet) (simp_all add: Own_task write_elsewhere_def)
  next
    case (Node_stops k)
    then have "unat k < dp_n D" "nd = (sv_nodes S k)\<lparr>nd_captain := crash (nd_captain (sv_nodes S k))\<rparr>" "effs = []"
      using can run by simp_all
    then show ?thesis
      using crash_owned [OF fit(1)] by (intro quiet) (auto simp: Node_stops write_elsewhere_def)
  qed
qed

section \<open>Every step keeps the invariant\<close>

lemma node_fit_mono:
  "node_fit pre hs A Q nd \<Longrightarrow> Q \<subseteq> Q' \<Longrightarrow> node_fit pre hs A Q' nd"
  "node_fit pre hs A Q nd \<Longrightarrow> A \<subseteq>\<^sub>m A' \<Longrightarrow> \<not> if_master (nd_view nd) \<Longrightarrow> node_fit pre hs A' Q nd"
  unfolding node_fit_def using node_owned_mono by blast+

lemma requested_mono: "N \<subseteq> N' \<Longrightarrow> requested E N \<subseteq> requested E N'"
  by (auto simp: requested_def)

lemma node_did_inv:
  assumes D: "deployment_ok D" and inv: "service_inv D A S" and k: "unat k < dp_n D"
    and goes: "goes_on D A S (sv_nodes S k) nd es A'" and effs: "set effs \<subseteq> insert Wait_for_commit (set es)" and fits: "counters_fit D (node_did_now k nd effs S)"
  shows "service_inv D A' (node_did_now k nd effs S)"
proof -
  let ?S = "node_did_now k nd effs S"
  note new = goes [unfolded node_goes_def]
  have old: "node_inv D A S j" if "unat j < dp_n D" for j
    using inv that by (simp add: service_inv_def)
  have master: "if_master (nd_view (sv_nodes S k)) \<longleftrightarrow> k = 0"
    using old [OF k] by (simp add: node_inv_def)
  have ext: "extends (nd_captain (sv_nodes S j)) (nd_captain (sv_nodes ?S j))"
      "nd_view (sv_nodes ?S j) = nd_view (sv_nodes S j)" for j
    using new by (simp_all add: node_did_now_def extends_refl)
  have nodes: "node_inv D A' ?S j" if j: "unat j < dp_n D" for j
  proof -
    have "\<forall>e \<in> set (sv_out S j). packet_owned D A' ?S j e"
      using old [OF j] new effect_owned_mono [OF _ _ ext(1) ext(2)] unfolding node_inv_def by blast
    moreover have "node_fit (dp_prefix D) (dp_hosts D) A' (requests D S) (sv_nodes ?S j)"
    proof (cases "j = k")
      case True
      then show ?thesis
        using new by (simp add: node_did_now_def)
    next
      case False
      then have "A' = A \<or> \<not> if_master (nd_view (sv_nodes S j))"
        using new master old [OF j] by (auto simp: node_inv_def)
      then show ?thesis
        using False old [OF j] new node_fit_mono(2) by (auto simp: node_inv_def node_did_now_def)
    qed
    ultimately show ?thesis
      using old [OF j] new effs ext(2) [of j] by (auto simp: node_inv_def node_did_now_def)
  qed
  have "unat (0 :: node_id) < dp_n D"
    using D by (simp add: deployment_ok_def)
  from nodes [OF this] have "node_owned A' (requests D S) (nd_captain (sv_nodes ?S 0))" "if_master (nd_view (sv_nodes ?S 0))"
    by (simp_all add: node_inv_def node_fit_def node_did_now_def)
  then have "dom A' = {0<..max_slot (nd_captain (sv_nodes ?S 0))}"
    by (simp add: node_owned_def)
  moreover have "max_slot (nd_captain (sv_nodes ?S 0)) < 2 ^ 64"
    using fits by (simp add: counters_fit_def)
  ultimately have "dom A' \<subseteq> {..<2 ^ 64}" by auto
  moreover have "answers_inv D A' ?S"
    unfolding answers_inv_def
  proof clarify
    fix nm q content
    assume "(nm, q, content) \<in> set (sv_answers ?S)"
    then have "(nm, q, content) \<in> set (sv_answers S)"
      by (simp add: node_did_now_def)
    then obtain j where "nm \<in> set (cr_sent (sv_run S))" "prefix_of nm q" "unat j < dp_n D"
        "data_owned (dp_wire D) (dp_prefix D) (dp_hosts D) A (nd_captain (sv_nodes S j)) q content"
      using inv unfolding service_inv_def answers_inv_def by blast
    moreover have "A \<subseteq>\<^sub>m A'"
      using new by blast
    ultimately have "data_owned (dp_wire D) (dp_prefix D) (dp_hosts D) A' (nd_captain (sv_nodes ?S j)) q content"
      using data_owned_mono [OF _ _ ext(1) ext(2)] by blast
    then show "nm \<in> set (cr_sent (sv_run ?S)) \<and> prefix_of nm q
        \<and> (\<exists>j. unat j < dp_n D \<and> data_owned (dp_wire D) (dp_prefix D) (dp_hosts D) A' (nd_captain (sv_nodes ?S j)) q content)"
      using \<open>nm \<in> _\<close> \<open>prefix_of nm q\<close> \<open>unat j < _\<close> by (auto simp: node_did_now_def)
  qed
  moreover have "ran A' \<subseteq> requests D S"
    using inv new by (auto simp: service_inv_def)
  ultimately show ?thesis
    using inv nodes by (simp add: service_inv_def node_did_now_def)
qed

lemma service_pending:
  assumes "service_inv D A S"
  shows "set (cr_pending (sv_run S)) \<subseteq> set (cr_sent (sv_run S))"
  using assms unfolding service_inv_def by (intro client_pending) blast

text \<open>A step of the client, which may bring it a new answer.\<close>

lemma client_did_inv:
  assumes inv: "service_inv D A S" and step: "client_step (dp_wire D) (sv_run S) R"
    and answers: "\<forall>(nm, q, content) \<in> set new. nm \<in> set (cr_sent (sv_run S)) \<and> prefix_of nm q
      \<and> (\<exists>j. unat j < dp_n D \<and> data_owned (dp_wire D) (dp_prefix D) (dp_hosts D) A (nd_captain (sv_nodes S j)) q content)"
  shows "service_inv D A (S\<lparr>sv_run := R, sv_answers := sv_answers S @ new\<rparr>)"
proof -
  have sent: "set (cr_sent (sv_run S)) \<subseteq> set (cr_sent R)"
    using client_pending_step [OF step service_pending [OF inv]] by simp
  note more = requested_mono [OF sent, of "dp_wire D"]
  have "node_inv D A (S\<lparr>sv_run := R, sv_answers := sv_answers S @ new\<rparr>) k" if "unat k < dp_n D" for k
    using inv that node_fit_mono(1) [OF _ more] by (auto simp: service_inv_def node_inv_def)
  moreover have "answers_inv D A (S\<lparr>sv_run := R, sv_answers := sv_answers S @ new\<rparr>)"
    using inv answers sent unfolding service_inv_def answers_inv_def by fastforce
  ultimately show ?thesis
    using inv step more unfolding service_inv_def by (auto intro: rtranclp.rtrancl_into_rtrancl)
qed

lemma service_step_inv:
  assumes D: "deployment_ok D" and inv: "service_inv D A S" and step: "service_step D S S'"
  shows "\<exists>A'. A \<subseteq>\<^sub>m A' \<and> service_inv D A' S'"
  using step
proof (cases rule: service_step.cases)
  case (step_node e nd effs)
  have k: "unat (event_node e) < dp_n D"
    using step_node(2) by (cases e) simp_all
  have counter: "log_counter nd < 2 ^ 64"
    using step_node(4) k by (auto simp: counters_fit_def node_did_now_def)
  obtain A' es where A': "goes_on D A S (sv_nodes S (event_node e)) nd es A'" "effs = es @ waits D e"
    using event_goes [OF D inv step_node(2,3)] counter by blast
  from A'(1) have "A \<subseteq>\<^sub>m A'"
    by (simp add: node_goes_def)
  moreover have "set effs \<subseteq> insert Wait_for_commit (set es)"
    using A'(2) by auto
  ultimately show ?thesis
    using node_did_inv [OF D inv k A'(1) _ step_node(4)] step_node(1) by blast
next
  case (step_client R)
  then show ?thesis
    using client_did_inv [OF inv step_client(2), of "[]"] by (intro exI [of _ A]) simp
next
  case (step_answer j q content nm i k seen c)
  let ?R = "(sv_run S)\<lparr>cr_client := c, cr_pending := remove1 nm (cr_pending (sv_run S)), cr_current := Some k\<rparr>"
  have "client_step (dp_wire D) (sv_run S) ?R"
    using step_answer by (intro client_step.step_reply)
  moreover have "nm \<in> set (cr_sent (sv_run S))"
    using step_answer(5) service_pending [OF inv] by blast
  ultimately have "service_inv D A (S\<lparr>sv_run := ?R, sv_answers := sv_answers S @ [(nm, q, content)]\<rparr>)"
    using offers_owned [OF inv step_answer(2,3)] step_answer(2,4) by (intro client_did_inv [OF inv]) auto
  then show ?thesis
    unfolding step_answer(1) by (intro exI [of _ A]) simp
qed

lemma service_steps_inv:
  assumes "(service_step D)\<^sup>*\<^sup>* S S'" and "deployment_ok D" and "service_inv D A S"
  shows "\<exists>A'. A \<subseteq>\<^sub>m A' \<and> service_inv D A' S'"
  using assms(1)
proof (induction rule: rtranclp_induct)
  case base
  show ?case using assms(3) by (intro exI [of _ A]) simp
next
  case (step S1 S2)
  then show ?case
    using service_step_inv [OF assms(2)] map_le_trans by blast
qed

lemma service_reach_inv: "service_reach D S \<Longrightarrow> deployment_ok D \<Longrightarrow> \<exists>A. service_inv D A S"
  unfolding service_reach_def using service_inv_start service_steps_inv by blast

end
