(* ===== verification/Service_Props.thy ===== *)
theory Service_Props
  imports Service_Inv
begin

text \<open>
  What follows from the invariant of the service: no handler fails on a packet that can reach it,
  and the data packets that answer a request are the ones the client expects.
\<close>

section \<open>No handler fails\<close>

lemma host_message_runs:
  assumes "service_inv D A S" and "unat k < dp_n D" and "msg_ok (dp_n D) m"
  shows "\<exists>nd effs. run_captain E (sv_nodes S k) (handle_msg m nm (nd_captain (sv_nodes S k))) = Some (Inr (nd, effs))"
proof -
  have "node_ok (sv_nodes S k)" "host_count (nd_view (sv_nodes S k)) = dp_n D"
    using assms(1,2) by (simp_all add: service_inv_def node_inv_def node_fit_def)
  then show ?thesis
    using handle_msg_runs [of "sv_nodes S k" m E nm] assms(3) by auto
qed

lemma log_request_runs:
  assumes "node_ok nd" and "number_codec_ok E" and "j < 2 ^ 64"
  shows "\<exists>effs. onInterestLog E (pre @ [''log'', enc_number E j]) nd = Inr effs"
proof -
  have "get_number E (pre @ [''log'', enc_number E j]) 1 = Inr j"
    using assms(2,3) by (simp add: get_number_def name_get_def nth_append number_codec_ok_def)
  moreover have "\<exists>ov. get_chosen_value_at j (nd_captain nd) = Inr ov"
    using assms(1) by (auto simp: node_ok_def captain_ok_def get_chosen_value_at_def log_ok_def vec_at_def)
  ultimately show ?thesis
    by (auto simp: onInterestLog_def)
qed

lemma log_data_runs:
  assumes ok: "node_ok nd" and "number_codec_ok E" and "s < 2 ^ 64" and "i < 2 ^ 64"
  shows "\<exists>nd' effs. onDataLog E (pre @ [''log'', enc_number E s, enc_number E i]) content nd = Some (Inr (nd', effs))
    \<and> Blocked_forever \<notin> set effs \<and> Wait_for_commit \<notin> set effs"
proof -
  let ?nm = "pre @ [''log'', enc_number E s, enc_number E i]" and ?c = "nd_captain nd"
  let ?v = "\<lparr>pv_id = of_nat i, pv_data = content, pv_cmd = None, pv_integrity = None\<rparr>"
  have nums: "res_bind (get_number E ?nm 2) (\<lambda>s. res_bind (get_number E ?nm 1) (\<lambda>i. Inr (s, i))) = Inr (s, i)"
    using assms(2-4) by (simp add: get_number_def name_get_def number_codec_ok_def nth_append)
  have ok': "captain_ok ?c" "log_ok ?c"
    using ok by (simp_all add: node_ok_def captain_ok_def)
  obtain c' calls where r: "add_chosen_value s ?v ?c = Inr (c', calls)"
    using add_chosen_value_keeps [OF ok'(1), of s ?v] by (auto simp: keeps_def)
  have "\<forall>call \<in> set calls. is_callback call"
    using add_chosen_value_callback [OF ok'(2) r] by blast
  from callbacks_run [OF this] have "run_captain E nd (add_chosen_value s ?v ?c) = Some (Inr (nd\<lparr>nd_captain := c'\<rparr>, map Callback calls))"
    by (simp add: run_captain_def r)
  moreover have "\<forall>e \<in> set (snd (consume_log_next E nd1)). \<exists>nm life. e = Log_interest nm life" for nd1
    by (simp add: consume_log_next_def Let_def)
  then have "Blocked_forever \<notin> set (snd (consume_log_next E nd1))" "Wait_for_commit \<notin> set (snd (consume_log_next E nd1))" for nd1
    by blast+
  note quiet = this [of "nd\<lparr>nd_captain := c'\<rparr>"]
  moreover obtain nd2 e2 where "consume_log_next E (nd\<lparr>nd_captain := c'\<rparr>) = (nd2, e2)"
    by fastforce
  ultimately show ?thesis
    unfolding onDataLog_def nums by auto
qed

text \<open>An answer from the log.\<close>

lemma log_answer_runs:
  assumes D: "deployment_ok D" and inv: "service_inv D A S" and can: "service_can D (Log_answers j k nm q content) S"
  shows "\<exists>nd effs. onDataLog (dp_wire D) q content (sv_nodes S k) = Some (Inr (nd, effs))
    \<and> Blocked_forever \<notin> set effs \<and> Wait_for_commit \<notin> set effs"
proof -
  let ?E = "dp_wire D" and ?pre = "dp_prefix D"
  have wire: "wire_ok ?E (dp_hosts D)" "number_codec_ok ?E"
    using D by (simp_all add: deployment_ok_def wire_ok_def)
  note owners = service_owners(1) [OF inv]
  have at: "unat j < dp_n D" "unat k < dp_n D" "asks_log nm (sv_out S k)" "offers q content (sv_out S j)" "take (length nm) q = nm"
    using can by (auto simp: prefix_of_def)
  obtain i where nm: "nm = ?pre @ [''log'', enc_number ?E i]"
    using asked_log [OF inv at(2,3)] by blast
  obtain s v nm' where q: "A s = Some (v, nm')" "q = ?pre @ [''log'', enc_number ?E s, enc_number ?E (unat (pv_id v))]"
    using data_for_log [OF offers_owned [OF inv at(1,4)] at(5) nm wire(1) owners] by blast
  have "s < 2 ^ 64" "unat (pv_id v) < 2 ^ 64"
    using owners q(1) unsigned_less [of "pv_id v"] by (auto simp: owners_ok_def)
  moreover have "node_ok (sv_nodes S k)"
    using inv at(2) by (simp add: service_inv_def node_inv_def node_fit_def)
  ultimately show ?thesis
    using log_data_runs [OF _ wire(2), of "sv_nodes S k" s _ ?pre content] unfolding q(2) by blast
qed

lemma request_runs:
  assumes D: "deployment_ok D" and inv: "service_inv D A S" and can: "service_can D (Client_asks k nm h) S"
  shows "\<exists>nd effs. face_calls (dp_wire D) (dp_mode D) h nm (sv_nodes S k) = Some (Inr (nd, effs))"
proof -
  let ?E = "dp_wire D" and ?pre = "dp_prefix D"
  have wire: "wire_ok ?E (dp_hosts D)" "number_codec_ok ?E"
    using D by (simp_all add: deployment_ok_def wire_ok_def)
  note asked = client_asked [OF D inv can]
  obtain t i n val where nm: "t \<le> 1" "i < 2 ^ 64" "n < 2 ^ 64"
      "nm = ?pre @ [''commit'', enc_number ?E t, enc_number ?E i, enc_number ?E n, val]"
    using asked(2) by (auto simp: request_shape_def)
  consider (elsewhere) "k \<noteq> 0" "get_number ?E nm 4 = Inr 0" | (master) "get_number ?E nm 4 = Inr 0 \<Longrightarrow> k = 0"
    by blast
  then show ?thesis
  proof cases
    case elsewhere
    then show ?thesis
      using request_elsewhere [OF D inv can] by blast
  next
    case master
    show ?thesis
    proof (cases "t = 0")
    case True
    then have zero: "nm = ?pre @ [''commit'', enc_number ?E 0, enc_number ?E i, enc_number ?E n, val]"
      using nm(4) by simp
    have "get_number ?E nm 4 = Inr 0"
      using request_shape_parts(4) [OF wire(2) zero _ nm(2,3)] by simp
    then have "if_master (nd_view (sv_nodes S k))" "node_ok (sv_nodes S k)"
      using asked(3) master unfolding node_inv_def node_fit_def by blast+
    then show ?thesis
      using commit_runs [of "sv_nodes S k" "dp_mode D" "comp_uri ?E val" nm ?E] asked(1)
      by (auto simp: face_calls_def onInterestCommit_write [OF wire(2) zero nm(2,3)])
  next
    case False
    then have "nm = ?pre @ [''commit'', enc_number ?E 1, enc_number ?E i, enc_number ?E n, val]"
      using nm(1,4) by (simp add: le_Suc_eq)
    then show ?thesis
      using asked(1) onInterestCommit_read [OF wire(2) _ nm(2,3)] by (simp add: face_calls_def)
    qed
  qed
qed

lemma event_runs_on:
  assumes D: "deployment_ok D" and inv: "service_inv D A S" and can: "service_can D e S"
  shows "\<exists>nd effs. event_runs D e (sv_nodes S (event_node e)) = Some (Inr (nd, effs))"
proof -
  let ?E = "dp_wire D" and ?pre = "dp_prefix D" and ?hs = "dp_hosts D"
  have wire: "wire_ok ?E ?hs" "number_codec_ok ?E"
    using D by (simp_all add: deployment_ok_def wire_ok_def)
  have node: "node_ok (sv_nodes S k)" "filters_ok ?E ?pre ?hs (k = 0) (sv_filters S k)" if "unat k < dp_n D" for k
    using inv that by (simp_all add: service_inv_def node_inv_def node_fit_def)
  note host = asked_node [OF inv] and log = asked_log [OF inv] and data = offers_owned [OF inv]
  note owners = service_owners(1) [OF inv]
  show ?thesis
  proof (cases e)
    case (Client_asks k nm h)
    then show ?thesis
      using request_runs [OF D inv] can by simp
  next
    case (Node_asks j k nm h)
    then have at: "unat j < dp_n D" "unat k < dp_n D" "asks nm (sv_out S j) \<or> asks_log nm (sv_out S j)"
        "h \<in> set (handlers_of (sv_filters S k) nm)"
      using can by simp_all
    from at(3) show ?thesis
    proof
      assume "asks nm (sv_out S j)"
      then obtain x m where nm: "x \<in> set ?hs" "nm = ?pre @ [x, encode_msg ?E m]" "msg_owned A m \<or> (\<exists>r. m = Commit r)" "msg_ok (dp_n D) m"
        using host [OF at(1)] by blast
      have "parse_as ?E (type_of_msg m) (serialize ?E m) = m"
        using nm(3) wire_msg [OF wire(1)] by blast
      note parses = deal_encoded [OF this]
      have "onInterest ?E nm (sv_nodes S k) = run_captain ?E (sv_nodes S k) (handle_msg m nm (nd_captain (sv_nodes S k)))"
        using parses by (simp add: onInterest_def nm(2) name_get_def nth_append)
      moreover have "h = On_interest"
        using handler_for(1) [OF node(2) [OF at(2)] at(4) wire(1) nm(2,1)] by simp
      ultimately show ?thesis
        using host_message_runs [OF inv at(2) nm(4)] Node_asks by (simp add: face_calls_def)
    next
      assume "asks_log nm (sv_out S j)"
      then obtain i where nm: "i < 2 ^ 64" "nm = ?pre @ [''log'', enc_number ?E i]"
        using log [OF at(1)] by blast
      have "h = On_interest_log"
        using handler_for(2) [OF node(2) [OF at(2)] at(4) wire(1) nm(2) refl] .
      then show ?thesis
        using log_request_runs [OF node(1) [OF at(2)] wire(2) nm(1), of ?pre] Node_asks nm(2) by (auto simp: face_calls_def)
    qed
  next
    case (Node_answers j k nm q content)
    then have at: "unat j < dp_n D" "unat k < dp_n D" "asks nm (sv_out S k)" "offers q content (sv_out S j)" "take (length nm) q = nm"
      using can by (auto simp: prefix_of_def)
    obtain x m where nm: "x \<in> set ?hs" "nm = ?pre @ [x, encode_msg ?E m]"
      using host [OF at(2,3)] by blast
    obtain m where m: "content = encode_msg ?E m" "msg_owned A m" "msg_ok (dp_n D) m"
      using data_for_host [OF data [OF at(1,4)] at(5) nm(2,1) wire(1) owners] by blast
    have "onData ?E nm content (sv_nodes S k) = run_captain ?E (sv_nodes S k) (handle_msg m nm (nd_captain (sv_nodes S k)))"
      using deal_encoded [OF wire_msg(1) [OF wire(1) m(2)]] by (simp add: onData_def m(1))
    then show ?thesis
      using host_message_runs [OF inv at(2) m(3)] Node_answers by simp
  next
    case (Log_answers j k nm q content)
    then show ?thesis
      using log_answer_runs [OF D inv, of j k nm q content] can by auto
  next
    case (Node_nacked k nm)
    then show ?thesis
      using D by (simp add: onNack_def deployment_ok_def)
  next
    case (Own_task k m)
    then have at: "unat k < dp_n D" "Schedule_self m \<in> set (sv_out S k)"
      using can by simp_all
    then have "packet_owned D A S k (Schedule_self m)"
      using inv unfolding service_inv_def node_inv_def by blast
    then have "msg_ok (dp_n D) m" by simp
    then show ?thesis
      using host_message_runs [OF inv at(1)] Own_task by (simp add: handle_myself_def)
  next
    case (Node_stops k)
    then show ?thesis by simp
  qed
qed

text \<open>
  What an event gives out: no handler gets stuck, and only a write away from the master makes the
  node wait.
\<close>

lemma event_waits:
  assumes D: "deployment_ok D" and inv: "service_inv D A S" and can: "service_can D e S"
    and run: "event_runs D e (sv_nodes S (event_node e)) = Some (Inr (nd, effs))"
  shows "Blocked_forever \<notin> set effs \<and> (Wait_for_commit \<in> set effs \<longleftrightarrow> write_elsewhere D e)"
proof (cases "\<exists>j k nm q content. e = Log_answers j k nm q content")
  case True
  then obtain j k nm q content where e: "e = Log_answers j k nm q content"
    by blast
  then show ?thesis
    using log_answer_runs [OF D inv can [unfolded e]] run by (auto simp: write_elsewhere_def)
next
  case False
  then obtain A' es where A': "goes_on D A S (sv_nodes S (event_node e)) nd es A'" "effs = es @ waits D e"
    using event_goes [OF D inv can run] by blast
  then have "\<forall>x \<in> set es. effect_owned (dp_wire D) (dp_prefix D) (dp_hosts D) A' (nd_captain nd) x"
    by (simp add: node_goes_def)
  then have "Blocked_forever \<notin> set es" "Wait_for_commit \<notin> set es"
    by auto
  then show ?thesis
    using A'(2) by simp
qed

lemma reply_recorded:
  assumes D: "deployment_ok D" and inv: "service_inv D A S" and nm: "nm \<in> set (cr_sent (sv_run S))"
  shows "\<exists>i k. reply_numbers (dp_wire D) nm = Inr (i, k) \<and> (\<exists>c. record_reply i seen (cr_client (sv_run S)) = Inr c)"
proof -
  let ?E = "dp_wire D" and ?R = "sv_run S"
  have codec: "number_codec_ok ?E"
    using D by (simp add: deployment_ok_def wire_ok_def)
  have reach: "client_reach ?E (dp_mode D) (new_client (dp_prefix D) (dp_client_window D) (dp_ratio D) (dp_read_node D)) ?R"
    using inv by (simp add: service_inv_def)
  have numbered: "numbered ?E ?R"
    using client_reach_inv [OF reach] by simp
  obtain k where k: "k < length (cr_sent ?R)" "nm = cr_sent ?R ! k"
    using nm by (auto simp: in_set_conv_nth)
  obtain t i where at: "nm = request_name ?E (cr_client ?R) t i k" "t \<le> 1"
    using numbered k by (auto simp: numbered_def)
  have small: "k < starts_size"
    using numbered k(1) by (simp add: numbered_def)
  then have "t < 2 ^ 64" "k < 2 ^ 64"
    using at(2) by (simp_all add: starts_size_def)
  note parts = request_parts(2-4) [OF codec this, of "cr_client ?R" i]
  have "number_to_int k = int k"
    using small by (simp add: number_to_int_def starts_size_def signed_of_nat signed_take_bit_int_eq_self)
  then show ?thesis
    using small by (simp add: reply_numbers_def at(1) parts record_reply_def)
qed

section \<open>Answers\<close>

lemma data_for_request:
  assumes "data_owned E pre hs A c q content" and "prefix_of nm q" and shape: "request_shape E pre nm"
    and wire: "wire_ok E hs" and owners: "owners_ok pre A" and ran: "ran A \<subseteq> requested E N"
  shows "get_number E nm 4 = Inr 0 \<Longrightarrow> \<exists>s v. A s = Some (v, nm) \<and> q = nm @ [enc_number E s] \<and> if_master (cap_view c) \<and> chosen_at c s = Some v"
    "get_number E nm 4 \<noteq> Inr 0 \<Longrightarrow> q = nm \<and> content = ''Need to change here''"
proof -
  obtain t i n val where nm: "t \<le> 1" "i < 2 ^ 64" "n < 2 ^ 64"
      "nm = pre @ [''commit'', enc_number E t, enc_number E i, enc_number E n, val]"
    using shape by (auto simp: request_shape_def)
  have codec: "number_codec_ok E"
    using wire by (simp add: wire_ok_def)
  have t: "t < 2 ^ 64" using nm(1) by simp
  have type: "get_number E nm 4 = Inr t"
    using request_shape_parts(4) [OF codec nm(4) t nm(2,3)] .
  obtain rest where q: "q = nm @ rest"
    using assms(2) unfolding prefix_of_def by (metis append_take_drop_id)
  have "\<not> host_packet pre hs q" "\<forall>x. q \<noteq> pre @ [''log'', x, y]" for y
    by (auto simp: host_packet_def q nm(4))
  then consider (slot) s v nm' where "A s = Some (v, nm')" "q = nm' @ [enc_number E s]" "if_master (cap_view c)" "chosen_at c s = Some v"
    | (read) u rest where "q = pre @ [''commit'', u] @ rest" "length rest = 3" "dec_number E u \<noteq> Some 0" "content = ''Need to change here''"
    using assms(1) unfolding data_owned_def by blast
  then have "(\<exists>s v. A s = Some (v, nm) \<and> q = nm @ [enc_number E s] \<and> if_master (cap_view c) \<and> chosen_at c s = Some v \<and> t = 0)
    \<or> (q = nm \<and> content = ''Need to change here'' \<and> t \<noteq> 0)"
  proof cases
    case slot
    have "(v, nm') \<in> requested E N"
      using ran slot(1) by (meson ranI subsetD)
    then have type0: "get_number E nm' 4 = Inr 0" by (simp add: requested_def)
    obtain rest' where "nm' = pre @ [''commit''] @ rest'" "length rest' = 4"
      using owners slot(1) unfolding owners_ok_def by blast
    then have "length nm' = length nm" by (simp add: nm(4))
    then have "nm' = nm"
      using q slot(2) by simp
    then show ?thesis
      using slot type0 type by auto
  next
    case read
    have "length q = length nm"
      using read(1,2) by (simp add: nm(4))
    then have "q = nm" using q by simp
    then have "u = enc_number E t"
      using read(1) by (simp add: nm(4))
    then show ?thesis
      using read codec t \<open>q = nm\<close> by (auto simp: number_codec_ok_def)
  qed
  then show "get_number E nm 4 = Inr 0 \<Longrightarrow> \<exists>s v. A s = Some (v, nm) \<and> q = nm @ [enc_number E s] \<and> if_master (cap_view c) \<and> chosen_at c s = Some v"
    "get_number E nm 4 \<noteq> Inr 0 \<Longrightarrow> q = nm \<and> content = ''Need to change here''"
    using type by auto
qed

text \<open>What every node holds for a slot is the slot's value.\<close>

lemma chosen_owned:
  assumes "service_inv D A S" and "unat k < dp_n D" and "chosen_at (nd_captain (sv_nodes S k)) s = Some v"
  shows "\<exists>nm. A s = Some (v, nm) \<and> (v, nm) \<in> requests D S"
proof -
  have "captain_owned A (nd_captain (sv_nodes S k))"
    using assms(1,2) by (simp add: service_inv_def node_inv_def node_fit_def node_owned_def)
  then have "in_slot A s (Some v)"
    using assms(3) unfolding captain_owned_def by metis
  then obtain nm where "A s = Some (v, nm)"
    by auto
  moreover have "ran A \<subseteq> requests D S"
    using assms(1) by (simp add: service_inv_def)
  ultimately show ?thesis
    by (meson ranI subsetD)
qed

text \<open>An answered write: its slot is the request's, and chosen at the master.\<close>

lemma answered_write:
  assumes D: "deployment_ok D" and inv: "service_inv D A S" and "(nm, q, content) \<in> set (sv_answers S)"
    and "get_number (dp_wire D) nm 4 = Inr 0"
  shows "\<exists>s v. A s = Some (v, nm) \<and> q = nm @ [enc_number (dp_wire D) s] \<and> chosen_at (nd_captain (sv_nodes S 0)) s = Some v"
proof -
  obtain j where j: "nm \<in> set (cr_sent (sv_run S))" "prefix_of nm q" "unat j < dp_n D"
      "data_owned (dp_wire D) (dp_prefix D) (dp_hosts D) A (nd_captain (sv_nodes S j)) q content"
    using inv assms(3) unfolding service_inv_def answers_inv_def by blast
  have shape: "request_shape (dp_wire D) (dp_prefix D) nm"
    using service_owners(3) [OF inv] j(1) by blast
  have wire: "wire_ok (dp_wire D) (dp_hosts D)" and ran: "ran A \<subseteq> requests D S"
    using D inv by (simp_all add: deployment_ok_def service_inv_def)
  obtain s v where at: "A s = Some (v, nm)" "q = nm @ [enc_number (dp_wire D) s]" "if_master (nd_view (sv_nodes S j))"
      "chosen_at (nd_captain (sv_nodes S j)) s = Some v"
    using data_for_request(1) [OF j(4,2) shape wire service_owners(1) [OF inv] ran assms(4)] by blast
  have "j = 0"
    using inv j(3) at(3) by (simp add: service_inv_def node_inv_def)
  then show ?thesis
    using at by blast
qed

lemma answered_read:
  assumes D: "deployment_ok D" and inv: "service_inv D A S" and "(nm, q, content) \<in> set (sv_answers S)"
    and "get_number (dp_wire D) nm 4 \<noteq> Inr 0"
  shows "q = nm \<and> content = ''Need to change here''"
proof -
  obtain j where j: "nm \<in> set (cr_sent (sv_run S))" "prefix_of nm q" "unat j < dp_n D"
      "data_owned (dp_wire D) (dp_prefix D) (dp_hosts D) A (nd_captain (sv_nodes S j)) q content"
    using inv assms(3) unfolding service_inv_def answers_inv_def by blast
  have shape: "request_shape (dp_wire D) (dp_prefix D) nm"
    using service_owners(3) [OF inv] j(1) by blast
  have wire: "wire_ok (dp_wire D) (dp_hosts D)" and ran: "ran A \<subseteq> requests D S"
    using D inv by (simp_all add: deployment_ok_def service_inv_def)
  from data_for_request(2) [OF j(4,2) shape wire service_owners(1) [OF inv] ran assms(4)] show ?thesis .
qed

lemma master_slots:
  assumes "deployment_ok D" and "service_inv D A S"
  shows "dom A = {0<..max_slot (nd_captain (sv_nodes S 0))}"
proof -
  have "unat (0 :: node_id) < dp_n D"
    using assms(1) by (simp add: deployment_ok_def)
  then have "node_inv D A S 0"
    using assms(2) by (simp add: service_inv_def)
  then have "node_owned A (requests D S) (nd_captain (sv_nodes S 0))" "if_master (nd_view (sv_nodes S 0))"
    by (simp_all add: node_inv_def node_fit_def)
  then show ?thesis
    by (simp add: node_owned_def)
qed

end
