(* ===== verification/Service_Live.thy ===== *)
theory Service_Live
  imports Service_Props
begin

text \<open>
  The service at work: runs in which the first nodes choose what the client asks for and the client
  gets its answers, one request after the other. They are the witnesses of what holds in every run.
\<close>

section \<open>The nodes\<close>

text \<open>Calls that only have effects, carried out one after the other.\<close>

lemma plain_exec:
  assumes "\<forall>call \<in> set calls. plain (length (consumer_names nd)) call"
  shows "\<exists>new. exec E calls nd effs = Some (Inr (nd, effs @ new))
    \<and> (\<forall>call \<in> set calls. \<exists>es. call_step E call nd = Inr (nd, es, []) \<and> set es \<subseteq> set new)"
  using assms
proof (induction calls arbitrary: effs)
  case Nil
  then show ?case by (simp add: exec.simps)
next
  case (Cons call calls)
  have "plain (length (consumer_names nd)) call"
    using Cons.prems by simp
  then obtain es where es: "call_step E call nd = Inr (nd, es, [])"
    by (cases call) (auto simp: plain_def send_one_msg_def)
  obtain new where new: "exec E calls nd (effs @ es) = Some (Inr (nd, (effs @ es) @ new))"
      "\<forall>call \<in> set calls. \<exists>es. call_step E call nd = Inr (nd, es, []) \<and> set es \<subseteq> set new"
    using Cons.IH [of "effs @ es"] Cons.prems by auto
  have "exec E (call # calls) nd effs = Some (Inr (nd, effs @ es @ new))"
    using es new(1) by (subst exec.simps) simp
  then show ?case
    using es new(2) by (intro exI [of _ "es @ new"]) fastforce
qed

text \<open>The master gets a request: it votes for the value itself and asks the other member.\<close>

lemma master_asks:
  assumes lead: "leading vs (nd_captain nd)" and named: "node_named pre hs nd" and n: "length hs = host_count (nd_view nd)"
    and ok: "node_ok nd" and two: "2 \<le> length hs" and codec: "number_codec_ok E"
    and nm: "nm = pre @ [''commit'', enc_number E 0, enc_number E i, enc_number E k, val]" "i < 2 ^ 64" "k < 2 ^ 64"
  shows "\<exists>c m. onInterestCommit E mode nm nd = Some (Inr (nd\<lparr>nd_captain := c\<rparr>, [Interest (pre @ [hs ! 1, encode_msg E (Accept m)]) 200]))
    \<and> proposing vs (new_value (nd_captain nd) (comp_uri E val)) nm [(0, grant_of 0 (Suc (length vs)))] (Suc (length vs)) c
    \<and> request_for vs (new_value (nd_captain nd) (comp_uri E val)) m"
proof -
  let ?v = "new_value (nd_captain nd) (comp_uri E val)" and ?s = "Suc (length vs)"
  obtain a m where a: "commit mode (comp_uri E val) nm (nd_captain nd) = Inr (a, [Broadcast (Accept m)])"
      "proposing vs ?v nm [] (length vs) a" "request_for vs ?v m"
    using leading_commit [OF lead] by blast
  obtain b where b: "handle_msg (Accept m) (dumName a) a = Inr (b, [Send_self (Ack_accept (grant_of 0 ?s))])"
      "proposing vs ?v nm [] ?s b"
    using master_votes [OF a(2,3)] by blast
  obtain d where d: "handle_msg (Ack_accept (grant_of 0 ?s)) (dumName b) b = Inr (d, [])"
      "proposing vs ?v nm [(0, grant_of 0 ?s)] ?s d"
    using master_counts_own [OF b(2)] by blast
  have "keeps (nd_captain nd) (Inr (a, [Broadcast (Accept m)]))"
    using commit_keeps_master [of "nd_captain nd" mode "comp_uri E val" nm] a(1) lead ok
    by (simp add: node_ok_def leading_def leader_def)
  then have size: "nodes_size (cap_view a) \<noteq> 1"
    using n two by (simp add: keeps_def captain_ok_def view_ok_def nodes_size_def)
  have "quorums (cap_view a) = [0, 1]" "whoami (cap_view a) = 0"
    using a(2) by (simp_all add: proposing_def leader_def)
  then have calls: "broadcast_calls (Accept m) (cap_view a) = [Send_self (Accept m), Send_to (Accept m) 1]"
    by (simp add: broadcast_calls_def)
  have "vec_at (consumer_names nd) 1 = Inr (pre @ [hs ! 1])"
    using named two by (simp add: node_named_def vec_at_def)
  then have sent: "send_one_msg E (Accept m) 1 (nd\<lparr>nd_captain := d\<rparr>) = Inr (Interest (pre @ [hs ! 1, encode_msg E (Accept m)]) 200)"
    by (simp add: send_one_msg_def consume_def)
  have "exec E [Broadcast (Accept m)] (nd\<lparr>nd_captain := a\<rparr>) []
      = Some (Inr (nd\<lparr>nd_captain := d\<rparr>, [Interest (pre @ [hs ! 1, encode_msg E (Accept m)]) 200]))"
    using size b(1) d(1) sent
    by (simp add: exec.simps [of E "[Broadcast (Accept m)]"] exec.simps [of E "Send_self m # r" for m r]
        exec.simps [of E "[Send_to (Accept m) 1]"] exec.simps [of E "[]"] with_captain_def calls)
  then have "onInterestCommit E mode nm nd = Some (Inr (nd\<lparr>nd_captain := d\<rparr>, [Interest (pre @ [hs ! 1, encode_msg E (Accept m)]) 200]))"
    using onInterestCommit_write [OF codec nm] a(1) by (simp add: run_captain_def)
  then show ?thesis
    using d(2) a(3) by blast
qed

text \<open>The other member votes and answers.\<close>

lemma member_answers:
  assumes follow: "following vs (nd_captain nd)" and "request_for vs v m" and "\<forall>u \<in> set vs. pv_cmd u = None"
    and "node_ok nd" and "parse_as E ACCEPT (serialize E (Accept m)) = Accept m"
    and nm: "nm = pre @ [h, encode_msg E (Accept m)]"
  shows "\<exists>c effs. onInterest E nm nd = Some (Inr (nd\<lparr>nd_captain := c\<rparr>, effs)) \<and> following (vs @ [v]) c
    \<and> (\<exists>fresh. Data_packet nm (encode_msg E (Ack_accept (grant_of 1 (Suc (length vs))))) fresh \<in> set effs)"
proof -
  let ?ack = "Ack_accept (grant_of 1 (Suc (length vs)))"
  obtain c calls where c: "handle_msg (Accept m) nm (nd_captain nd) = Inr (c, calls)" "following (vs @ [v]) c"
      "Reply_to ?ack 0 nm \<in> set calls"
    using follower_votes [OF follow assms(2,3), of nm] by blast
  have me: "me_of (nd_captain nd) = 1" "hdr_node (acc_header m) = 0" "work (nd_captain nd)"
    using follow assms(2) by (simp_all add: following_def request_for_def)
  have "handle_accept m nm (nd_captain nd) = Inr (c, calls)"
    using c(1) me(3) by (simp add: handle_msg_def)
  moreover have "log_ok (nd_captain nd)"
    using assms(4) by (simp add: node_ok_def captain_ok_def)
  moreover have "\<not> from_myself (acc_header m) (nd_captain nd)"
    using me by (simp add: from_myself_def sender_def)
  ultimately have "\<forall>call \<in> set calls. plain (length (consumer_names (nd\<lparr>nd_captain := c\<rparr>))) call"
    using handle_accept_calls by fastforce
  then obtain new where new: "exec E calls (nd\<lparr>nd_captain := c\<rparr>) [] = Some (Inr (nd\<lparr>nd_captain := c\<rparr>, new))"
      "\<forall>call \<in> set calls. \<exists>es. call_step E call (nd\<lparr>nd_captain := c\<rparr>) = Inr (nd\<lparr>nd_captain := c\<rparr>, es, []) \<and> set es \<subseteq> set new"
    using plain_exec [of calls "nd\<lparr>nd_captain := c\<rparr>" E "[]"] by auto
  have "onInterest E nm nd = run_captain E nd (handle_msg (Accept m) nm (nd_captain nd))"
    using deal_encoded [of E "Accept m"] assms(5) by (simp add: onInterest_def nm name_get_def nth_append)
  then have "onInterest E nm nd = Some (Inr (nd\<lparr>nd_captain := c\<rparr>, new))"
    using c(1) new(1) by (simp add: run_captain_def)
  moreover have "\<exists>fresh. Data_packet nm (encode_msg E ?ack) fresh \<in> set new"
    using bspec [OF new(2) c(3)] by (auto simp: reply_one_msg_def produce_def)
  ultimately show ?thesis
    using c(2) by blast
qed

text \<open>With this second vote the master has chosen the value, and tells the client the slot.\<close>

lemma master_informs:
  assumes busy: "proposing vs v name [(0, grant_of 0 (Suc (length vs)))] (Suc (length vs)) (nd_captain nd)"
    and "pv_cmd v = None" and ok: "node_ok nd" and two: "2 \<le> host_count (nd_view nd)"
    and "parse_as E ACCEPTED (serialize E (Ack_accept (grant_of 1 (Suc (length vs))))) = Ack_accept (grant_of 1 (Suc (length vs)))"
  shows "\<exists>c effs. onData E nm (encode_msg E (Ack_accept (grant_of 1 (Suc (length vs))))) nd = Some (Inr (nd\<lparr>nd_captain := c\<rparr>, effs))
    \<and> leading (vs @ [v]) c \<and> (\<exists>content fresh. Data_packet (name @ [enc_number E (Suc (length vs))]) content fresh \<in> set effs)"
proof -
  let ?ack = "grant_of 1 (Suc (length vs))" and ?s = "Suc (length vs)"
  obtain c calls where c: "handle_msg (Ack_accept ?ack) nm (nd_captain nd) = Inr (c, calls)" "leading (vs @ [v]) c"
      "packets_of 0 c calls = []" "filter is_inform calls = [Inform_client ?s 1 name]"
    using master_decides [OF busy assms(2)] by blast
  have cap: "captain_ok (nd_captain nd)" "work (nd_captain nd)"
    using ok busy by (simp_all add: node_ok_def proposing_def leader_def)
  have "handle_accepted ?ack nm (nd_captain nd) = Inr (c, calls)"
    using c(1) cap(2) by (simp add: handle_msg_def)
  then obtain ps tl where split: "calls = ps @ tl" "\<forall>call \<in> set ps. plain (host_count (cap_view c)) call"
      "tl = [] \<or> (\<exists>m. tl = [Broadcast m])"
    using handle_accepted_opening [OF cap(1)] unfolding opens_one_def by blast
  have "quorums (cap_view c) = [0, 1]"
    using c(2) by (simp add: leading_def leader_def)
  then have "tl = []"
    using c(3) split(1,3) by auto
  moreover have "msg_ok (host_count (cap_view (nd_captain nd))) (Ack_accept ?ack)"
    using two by (simp add: msg_ok_def grant_of_def)
  then have "host_count (cap_view c) = length (consumer_names nd)"
    using handle_msg_keeps_rel [OF cap(1), of "Ack_accept ?ack" nm] ok unfolding c(1) by (simp add: keeps_def node_ok_def)
  ultimately have "\<forall>call \<in> set calls. plain (length (consumer_names (nd\<lparr>nd_captain := c\<rparr>))) call"
    using split by simp
  moreover have "Inform_client ?s 1 name \<in> set (filter is_inform calls)"
    unfolding c(4) by simp
  then have inform: "Inform_client ?s 1 name \<in> set calls"
    by simp
  ultimately obtain new where new: "exec E calls (nd\<lparr>nd_captain := c\<rparr>) [] = Some (Inr (nd\<lparr>nd_captain := c\<rparr>, new))"
      "\<forall>call \<in> set calls. \<exists>es. call_step E call (nd\<lparr>nd_captain := c\<rparr>) = Inr (nd\<lparr>nd_captain := c\<rparr>, es, []) \<and> set es \<subseteq> set new"
    using plain_exec [of calls "nd\<lparr>nd_captain := c\<rparr>" E "[]"] by auto
  have "onData E nm (encode_msg E (Ack_accept ?ack)) nd = run_captain E nd (handle_msg (Ack_accept ?ack) nm (nd_captain nd))"
    using deal_encoded [of E "Ack_accept ?ack"] assms(5) by (simp add: onData_def)
  then have "onData E nm (encode_msg E (Ack_accept ?ack)) nd = Some (Inr (nd\<lparr>nd_captain := c\<rparr>, new))"
    using c(1) new(1) by (simp add: run_captain_def)
  moreover have "\<exists>content fresh. Data_packet (name @ [enc_number E ?s]) content fresh \<in> set new"
    using bspec [OF new(2) inform] by (auto simp: inform_client_def produce_def)
  ultimately show ?thesis
    using c(2) by blast
qed

section \<open>One request\<close>

lemma reach_step: "service_reach D S \<Longrightarrow> service_step D S S' \<Longrightarrow> service_reach D S'"
  unfolding service_reach_def by (meson rtranclp.rtrancl_into_rtrancl)

lemma reach_steps: "service_reach D S \<Longrightarrow> (service_step D)\<^sup>*\<^sup>* S S' \<Longrightarrow> service_reach D S'"
  unfolding service_reach_def by (meson rtranclp_trans)

lemma reach_node:
  assumes "service_reach D S" and "deployment_ok D" and "unat j < dp_n D"
  shows "node_ok (sv_nodes S j)" "node_named (dp_prefix D) (dp_hosts D) (sv_nodes S j)" "host_count (nd_view (sv_nodes S j)) = dp_n D"
proof -
  obtain A where "service_inv D A S"
    using service_reach_inv [OF assms(1,2)] by blast
  then have "node_inv D A S j"
    using assms(3) by (simp add: service_inv_def)
  then show "node_ok (sv_nodes S j)" "node_named (dp_prefix D) (dp_hosts D) (sv_nodes S j)" "host_count (nd_view (sv_nodes S j)) = dp_n D"
    by (simp_all add: node_inv_def node_fit_def)
qed

lemma reach_client_prefix:
  assumes "service_reach D S" and "deployment_ok D"
  shows "cl_prefix (cr_client (sv_run S)) = dp_prefix D @ [''commit'']"
proof -
  obtain A where "service_inv D A S"
    using service_reach_inv [OF assms] by blast
  then show ?thesis
    using client_part(1) by (auto simp: service_inv_def)
qed

text \<open>A write request can reach every member of the quorum, the master first.\<close>

lemma write_can:
  assumes "deployment_ok D" and "service_reach D S" and "nm \<in> set (cr_sent (sv_run S))"
    and "filters_serve (dp_wire D) (dp_prefix D) (dp_hosts D) master True k (sv_filters S k)"
    and "awake S k" and "unat k < dp_n D"
    and "nm = dp_prefix D @ ''commit'' # enc_number (dp_wire D) 0 # rest"
  shows "service_can D (Client_asks k nm On_interest_commit) S"
  using assms by (auto simp: filters_serve_def handlers_of_def intro!: image_eqI)

text \<open>
  Between two rounds: \<open>k\<close> requests are chosen, by the master and, but for the last decision, by the
  other member, and the nodes are ready for the next one.
\<close>

definition nodes_ready :: "deployment \<Rightarrow> nat \<Rightarrow> service \<Rightarrow> bool" where
  "nodes_ready D k S \<longleftrightarrow> (\<exists>vs. length vs = k \<and> (\<forall>u \<in> set vs. pv_cmd u = None)
       \<and> leading vs (nd_captain (sv_nodes S 0)) \<and> following vs (nd_captain (sv_nodes S 1)))
     \<and> (\<forall>j. unat j < dp_n D \<longrightarrow> log_counter (sv_nodes S j) < 2 ^ 64)
     \<and> filters_serve (dp_wire D) (dp_prefix D) (dp_hosts D) True True 0 (sv_filters S 0)
     \<and> filters_serve (dp_wire D) (dp_prefix D) (dp_hosts D) False True 1 (sv_filters S 1)
     \<and> awake S 0 \<and> awake S 1"

lemma node_did_sel [simp]:
  "sv_run (node_did_now k nd effs S) = sv_run S" "sv_answers (node_did_now k nd effs S) = sv_answers S"
  "sv_filters (node_did_now k nd effs S) = sv_filters S"
  "sv_nodes (node_did_now k nd effs S) = (sv_nodes S)(k := nd)" "sv_out (node_did_now k nd effs S) = (sv_out S)(k := sv_out S k @ effs)"
  by (simp_all add: node_did_now_def)

lemma asks_append [simp]:
  "asks nm (es @ fs) \<longleftrightarrow> asks nm es \<or> asks nm fs" "offers q content (es @ fs) \<longleftrightarrow> offers q content es \<or> offers q content fs"
  by (auto simp: asks_packet)

text \<open>What a node does keeps it awake, but for a write at another node than the master.\<close>

lemma stays_awake:
  assumes "deployment_ok D" and "service_reach D S" and "service_can D e S"
    and "event_runs D e (sv_nodes S (event_node e)) = Some (Inr (nd, effs))" and "\<not> write_elsewhere D e"
  shows "Wait_for_commit \<notin> set effs"
proof -
  obtain A where "service_inv D A S"
    using service_reach_inv [OF assms(2,1)] by blast
  from event_waits [OF assms(1) this assms(3,4)] show ?thesis
    using assms(5) by simp
qed

lemma node_round:
  assumes D: "deployment_ok D" and reach: "service_reach D S" and ready: "nodes_ready D k S" and two: "2 \<le> dp_n D"
    and small: "Suc k < 2 ^ 64" and sent: "nm \<in> set (cr_sent (sv_run S))"
    and nm: "nm = dp_prefix D @ [''commit'', enc_number (dp_wire D) 0, enc_number (dp_wire D) i, enc_number (dp_wire D) n, val]"
    and nums: "i < 2 ^ 64" "n < 2 ^ 64"
  shows "\<exists>S'. (service_step D)\<^sup>*\<^sup>* S S' \<and> nodes_ready D (Suc k) S' \<and> sv_run S' = sv_run S \<and> sv_answers S' = sv_answers S
    \<and> (\<exists>content. offers (nm @ [enc_number (dp_wire D) (Suc k)]) content (sv_out S' 0))"
proof -
  let ?E = "dp_wire D" and ?pre = "dp_prefix D" and ?hs = "dp_hosts D"
  have wire: "wire_ok ?E ?hs" "number_codec_ok ?E" and mode: "dp_mode D = Mode_default"
    using D by (simp_all add: deployment_ok_def wire_ok_def)
  have ids: "unat (0 :: node_id) < dp_n D" "unat (1 :: node_id) < dp_n D"
    using two unfolding unsigned_0 unsigned_1 by linarith+
  obtain vs where vs: "length vs = k" "\<forall>u \<in> set vs. pv_cmd u = None"
      "leading vs (nd_captain (sv_nodes S 0))" "following vs (nd_captain (sv_nodes S 1))"
    using ready by (auto simp: nodes_ready_def)
  have counters: "\<forall>j. unat j < dp_n D \<longrightarrow> log_counter (sv_nodes S j) < 2 ^ 64"
    and filters: "(?pre @ [''commit'', enc_number ?E 0], On_interest_commit) \<in> set (sv_filters S 0)"
      "(?pre @ [?hs ! 1], On_interest) \<in> set (sv_filters S 1)"
    using ready by (simp_all add: nodes_ready_def filters_serve_def)
  have awake: "awake S 0" "awake S 1"
    using ready by (simp_all add: nodes_ready_def)
  let ?v = "new_value (nd_captain (sv_nodes S 0)) (comp_uri ?E val)" and ?s = "Suc (length vs)"
  obtain c0 m where first: "onInterestCommit ?E (dp_mode D) nm (sv_nodes S 0)
        = Some (Inr ((sv_nodes S 0)\<lparr>nd_captain := c0\<rparr>, [Interest (?pre @ [?hs ! 1, encode_msg ?E (Accept m)]) 200]))"
      and c0: "proposing vs ?v nm [(0, grant_of 0 ?s)] ?s c0" and m: "request_for vs ?v m"
    using master_asks [OF vs(3) reach_node(2) [OF reach D ids(1)] _ reach_node(1) [OF reach D ids(1)] two wire(2) nm nums, of "dp_mode D"]
      reach_node(3) [OF reach D ids(1)] by auto
  define nd0 where "nd0 = (sv_nodes S 0)\<lparr>nd_captain := c0\<rparr>"
  define ask where "ask = ?pre @ [?hs ! 1, encode_msg ?E (Accept m)]"
  define S1 where "S1 = node_did_now 0 nd0 [Interest ask 200] S"
  have fits1: "counters_fit D S1"
    using counters c0 vs(1) small by (simp add: counters_fit_def S1_def nd0_def proposing_def)
  have "service_can D (Client_asks 0 nm On_interest_commit) S"
    using ready ids(1) by (intro write_can [OF D reach sent, of True]) (simp_all add: nodes_ready_def nm)
  from service_step.step_node [OF this, of nd0 "[Interest ask 200]"] have step1: "service_step D S S1"
    using first fits1 by (simp add: face_calls_def S1_def nd0_def ask_def)
  have reach1: "service_reach D S1"
    using reach_step [OF reach step1] .
  have S1_nodes: "sv_nodes S1 0 = nd0" "sv_nodes S1 1 = sv_nodes S 1"
    by (simp_all add: S1_def)
  obtain c1 effs1 where second: "onInterest ?E ask (sv_nodes S1 1) = Some (Inr ((sv_nodes S1 1)\<lparr>nd_captain := c1\<rparr>, effs1))"
      and c1: "following (vs @ [?v]) c1"
      and answer: "\<exists>fresh. Data_packet ask (encode_msg ?E (Ack_accept (grant_of 1 ?s))) fresh \<in> set effs1"
    using member_answers [of vs "sv_nodes S1 1" ?v m ?E ask ?pre "?hs ! 1"] vs(2,4) m reach_node(1) [OF reach1 D ids(2)] wire(1)
    by (auto simp: S1_nodes wire_ok_def ask_def)
  define nd1 where "nd1 = (sv_nodes S1 1)\<lparr>nd_captain := c1\<rparr>"
  define S2 where "S2 = node_did_now 1 nd1 effs1 S1"
  have fits2: "counters_fit D S2"
    using fits1 by (simp add: counters_fit_def S2_def nd1_def)
  have can2: "service_can D (Node_asks 0 1 ask On_interest) S1"
    using ids filters(2) awake by (auto simp: handlers_of_def S1_def ask_def asks_packet awake_def intro!: image_eqI)
  have quiet2: "Wait_for_commit \<notin> set effs1"
    by (rule stays_awake [OF D reach1 can2]) (use second in \<open>auto simp: face_calls_def write_elsewhere_def\<close>)
  from service_step.step_node [OF can2, of nd1 effs1] have step2: "service_step D S1 S2"
    using second fits2 by (simp add: face_calls_def S2_def nd1_def)
  have reach2: "service_reach D S2"
    using reach_step [OF reach1 step2] .
  have S2_nodes: "sv_nodes S2 0 = nd0" "sv_nodes S2 1 = nd1"
    by (simp_all add: S2_def S1_nodes)
  obtain c2 effs2 where third: "onData ?E ask (encode_msg ?E (Ack_accept (grant_of 1 ?s))) nd0 = Some (Inr (nd0\<lparr>nd_captain := c2\<rparr>, effs2))"
      and c2: "leading (vs @ [?v]) c2"
      and told: "\<exists>content fresh. Data_packet (nm @ [enc_number ?E ?s]) content fresh \<in> set effs2"
    using master_informs [of vs ?v nm nd0 ?E ask] c0 reach_node(1,3) [OF reach2 D ids(1)] two wire(1)
    by (auto simp: S2_nodes nd0_def new_value_def wire_ok_def)
  define S3 where "S3 = node_did_now 0 (nd0\<lparr>nd_captain := c2\<rparr>) effs2 S2"
  have "log_counter nd0 < 2 ^ 64"
    using spec [OF counters, of 0] ids(1) by (simp add: nd0_def)
  then have fits3: "counters_fit D S3"
    using fits2 c2 vs(1) small by (simp add: counters_fit_def S3_def leading_def S2_nodes)
  have can3: "service_can D (Node_answers 1 0 ask ask (encode_msg ?E (Ack_accept (grant_of 1 ?s)))) S2"
    using ids answer awake by (auto simp: S2_def S1_def asks_packet prefix_of_def awake_def)
  have quiet3: "Wait_for_commit \<notin> set effs2"
    by (rule stays_awake [OF D reach2 can3]) (use third in \<open>auto simp: S2_nodes write_elsewhere_def\<close>)
  from service_step.step_node [OF can3, of "nd0\<lparr>nd_captain := c2\<rparr>" effs2] have step3: "service_step D S2 S3"
    using third fits3 by (simp add: S3_def S2_nodes)
  have "(service_step D)\<^sup>*\<^sup>* S S3"
    using step1 step2 step3 by (meson rtranclp.rtrancl_into_rtrancl rtranclp.rtrancl_refl)
  moreover have "nodes_ready D (Suc k) S3"
    unfolding nodes_ready_def
  proof (intro conjI)
    show "\<exists>vs. length vs = Suc k \<and> (\<forall>u \<in> set vs. pv_cmd u = None)
       \<and> leading vs (nd_captain (sv_nodes S3 0)) \<and> following vs (nd_captain (sv_nodes S3 1))"
      using vs(1,2) c1 c2 by (intro exI [of _ "vs @ [?v]"]) (simp add: S3_def S2_nodes nd1_def new_value_def)
  qed (use ready fits3 quiet2 quiet3 in \<open>simp_all add: nodes_ready_def counters_fit_def S3_def S2_def S1_def awake_def\<close>)
  moreover have "\<exists>content. offers (nm @ [enc_number ?E (Suc k)]) content (sv_out S3 0)"
    using told vs(1) by (auto simp: S3_def asks_packet)
  ultimately show ?thesis
    by (intro exI [of _ S3]) (simp add: S3_def S2_def S1_def)
qed

text \<open>The client: one request under way, all others answered, in the slots of their order.\<close>

definition client_ready :: "deployment \<Rightarrow> nat \<Rightarrow> service \<Rightarrow> bool" where
  "client_ready D k S \<longleftrightarrow> (let R = sv_run S; c = cr_client R in
     100 \<le> ratio c \<and> write_or_read c = 0 \<and> \<not> finished c \<and> \<not> recording c \<and> commit_counter c = Suc k
     \<and> length (cr_sent R) = Suc k \<and> (\<exists>i. cr_sent R ! k = request_name (dp_wire D) c 0 i k)
     \<and> cr_pending R = [cr_sent R ! k] \<and> cr_current R = None
     \<and> map (\<lambda>(nm, q, content). (nm, q)) (sv_answers S)
        = map (\<lambda>j. (cr_sent R ! j, cr_sent R ! j @ [enc_number (dp_wire D) (Suc j)])) [0..<k])"

lemma client_round:
  assumes D: "deployment_ok D" and ready: "client_ready D k S" and small: "Suc k < starts_size"
    and told: "offers (cr_sent (sv_run S) ! k @ [enc_number (dp_wire D) (Suc k)]) content (sv_out S 0)"
  shows "\<exists>S'. (service_step D)\<^sup>*\<^sup>* S S' \<and> client_ready D (Suc k) S' \<and> sv_nodes S' = sv_nodes S
    \<and> sv_filters S' = sv_filters S \<and> sv_out S' = sv_out S"
proof -
  let ?E = "dp_wire D" and ?R = "sv_run S" and ?c = "cr_client (sv_run S)"
  let ?nm = "cr_sent (sv_run S) ! k"
  have codec: "number_codec_ok ?E"
    using D by (simp add: deployment_ok_def wire_ok_def)
  have c: "100 \<le> ratio ?c" "write_or_read ?c = 0" "\<not> finished ?c" "\<not> recording ?c" "commit_counter ?c = Suc k"
    and R: "length (cr_sent ?R) = Suc k" "cr_pending ?R = [?nm]" "cr_current ?R = None"
    and answers: "map (\<lambda>(nm, q, content). (nm, q)) (sv_answers S) = map (\<lambda>j. (cr_sent ?R ! j, cr_sent ?R ! j @ [enc_number ?E (Suc j)])) [0..<k]"
    using ready by (simp_all add: client_ready_def Let_def)
  obtain i where nm: "?nm = request_name ?E ?c 0 i k"
    using ready by (auto simp: client_ready_def Let_def)
  have "(0 :: nat) < 2 ^ 64" "k < 2 ^ 64"
    using small by (simp_all add: starts_size_def)
  note parts = request_parts(2-4) [OF codec this, of ?c i]
  obtain a b where reply: "reply_numbers ?E ?nm = Inr (a, b)"
    by (auto simp: reply_numbers_def nm parts)
  have kept: "record_reply a 0 ?c = Inr ?c"
    using c(4) by (simp add: record_reply_def)
  let ?q = "?nm @ [enc_number ?E (Suc k)]"
  let ?R1 = "?R\<lparr>cr_client := ?c, cr_pending := remove1 ?nm (cr_pending ?R), cr_current := Some b\<rparr>"
  let ?S1 = "S\<lparr>sv_run := ?R1, sv_answers := sv_answers S @ [(?nm, ?q, content)]\<rparr>"
  have "unat (0 :: node_id) < length (dp_hosts D)"
    using D by (simp add: deployment_ok_def)
  then have step1: "service_step D S ?S1"
    using R(2,3) told by (intro service_step.step_answer [OF _ _ _ _ _ reply kept, of 0]) (simp_all add: prefix_of_def)
  let ?nm2 = "request_name ?E ?c 0 b (Suc k)"
  let ?c2 = "?c\<lparr>commit_counter := Suc (Suc k), rand_counter := rand_after ?c 0, starts := (starts ?c)(Suc k := 0)\<rparr>"
  have "type_after ?c 0 = 0"
    using c(1,2) by (simp add: type_after_def mixed_def)
  then have "next_request ?E b 0 0 ?c = Inr (?c2, [?nm2])"
    using c(3,5) small by (simp add: next_request_eq)
  then have "client_step ?E ?R1 (?R1\<lparr>cr_client := ?c2, cr_current := None, cr_sent := cr_sent ?R1 @ [?nm2],
      cr_pending := cr_pending ?R1 @ [?nm2], cr_retired := cr_retired ?R1 + (if [?nm2] = [] then 1 else 0)\<rparr>)"
    by (intro client_step.step_next [of _ b]) simp_all
  then have step2: "service_step D ?S1 (?S1\<lparr>sv_run := ?R1\<lparr>cr_client := ?c2, cr_current := None, cr_sent := cr_sent ?R @ [?nm2],
      cr_pending := [?nm2]\<rparr>\<rparr>)" (is "service_step D _ ?S2")
    using R(2) by (intro service_step.step_client) simp_all
  have "map (\<lambda>j. ((cr_sent ?R @ [?nm2]) ! j, (cr_sent ?R @ [?nm2]) ! j @ [enc_number ?E (Suc j)])) [0..<Suc k]
      = map (\<lambda>j. (cr_sent ?R ! j, cr_sent ?R ! j @ [enc_number ?E (Suc j)])) [0..<k] @ [(?nm, ?q)]"
    using R(1) by (simp add: nth_append)
  then have "client_ready D (Suc k) ?S2"
    using c(1-4) R(1) answers request_name_cong [of ?c2 ?c ?E] by (auto simp: client_ready_def Let_def nth_append)
  then show ?thesis
    using step1 step2 by (intro exI [of _ ?S2]) (auto intro: rtranclp.rtrancl_into_rtrancl)
qed

section \<open>From the start\<close>

lemma service_starts:
  assumes D: "deployment_ok D"
  shows "\<exists>S. service_start D S"
proof -
  have "\<exists>nd fs cmds effs. naxos_main (dp_wire D) (dp_mode D) (dp_load D) (dp_append D) (node_args D k)
      = Inr (Some (nd, fs, cmds, effs))" if k: "unat k < dp_n D" for k
  proof -
    have "length (cfg_host (dp_load D (naxos_config_file (dp_nodes D) (dp_local D)))) = dp_n D" "dp_n D < 65536"
      using D by (simp_all add: dp_hosts_def dp_config_def deployment_ok_def)
    from node_starts [where load = "dp_load D" and E = "dp_wire D" and mode = "dp_mode D" and append_path = "dp_append D"
        and win = "dp_window D", OF this k]
    obtain nd fs cmds where "NaxosD_init (dp_wire D) (dp_mode D) (dp_load D) (dp_append D) k (dp_nodes D) (dp_window D) (dp_local D)
        = Inr (nd, fs, cmds)"
      by blast
    then show ?thesis
      unfolding node_args_read [OF D] by (cases "NaxosD_start (dp_wire D) (dp_log_size D) nd") simp
  qed
  then obtain ndf fsf cmdf efff where nodes: "\<And>k. unat k < dp_n D \<Longrightarrow>
      naxos_main (dp_wire D) (dp_mode D) (dp_load D) (dp_append D) (node_args D k) = Inr (Some (ndf k, fsf k, cmdf k, efff k))"
    by metis
  let ?c = "Client_init (dp_wire D) (dp_mode D) (dp_uri D) (dp_prefix D) (dp_client_window D) (dp_ratio D) (dp_read_node D)"
  have "client_main (dp_wire D) (dp_mode D) (dp_uri D) (client_args D) = Inr (Some ?c)"
    unfolding client_args_def dp_prefix_def using D
    by (intro client_main_starts) (simp add: deployment_ok_def fits_int_def)
  then have "service_start D \<lparr>sv_nodes = ndf, sv_filters = fsf, sv_out = efff, sv_run = client_start (dp_mode D) (fst ?c), sv_answers = []\<rparr>"
    using nodes by (auto simp: service_start_def intro!: exI [of _ "fst ?c"] exI [of _ "snd ?c"])
  then show ?thesis by blast
qed

lemma start_ready:
  assumes D: "deployment_ok D" and start: "service_start D S" and size: "dp_n D \<in> {2, 3}" and win: "0 < dp_window D"
  shows "nodes_ready D 0 S"
proof -
  have up: "\<exists>v. started D k (sv_nodes S k) (sv_filters S k) (sv_out S k) v" if "unat k < dp_n D" for k
    using start that node_starts_up [OF D that] by (auto simp: service_start_def)
  have ids: "unat (0 :: node_id) < dp_n D" "unat (1 :: node_id) < dp_n D"
    using size unfolding unsigned_0 unsigned_1 by auto
  obtain v0 v1 where v: "started D 0 (sv_nodes S 0) (sv_filters S 0) (sv_out S 0) v0" "started D 1 (sv_nodes S 1) (sv_filters S 1) (sv_out S 1) v1"
    using up [OF ids(1)] up [OF ids(2)] by blast
  have "quorum_of_size (dp_n D) = 2"
    using size by (auto simp: quorum_of_size_def)
  then have q: "nodes_upto 0 (quorum_of_size (dp_n D)) = [0, 1]" "(of_nat (quorum_of_size (dp_n D)) :: node_id) = 2"
    by (simp_all add: nodes_upto_def numeral_2_eq_2)
  have "dp_window D < 2 ^ 63"
    using D by (simp add: deployment_ok_def fits_int_def)
  note open_window = window_positive [OF win this]
  have "leading [] (nd_captain (sv_nodes S 0))"
    using v(1) fresh_start [of v0] open_window q
    by (simp add: leading_def leader_def log_is_def started_def) (simp add: new_captain_def if_master_def whoami_def)
  moreover have "following [] (nd_captain (sv_nodes S 1))"
    using v(2) fresh_start [of v1]
    by (simp add: following_def log_is_def started_def) (simp add: new_captain_def whoami_def)
  moreover have "\<forall>j. unat j < dp_n D \<longrightarrow> log_counter (sv_nodes S j) < 2 ^ 64"
    using up by (auto simp: started_def)
  moreover have "if_quorum v0" "if_quorum v1"
    using v q by (simp_all add: started_def if_quorum_def set_find_def)
  then have "filters_serve (dp_wire D) (dp_prefix D) (dp_hosts D) True True 0 (sv_filters S 0)"
      "filters_serve (dp_wire D) (dp_prefix D) (dp_hosts D) False True 1 (sv_filters S 1)"
    using v by (simp_all add: started_def)
  moreover have "awake S 0" "awake S 1"
    using v by (auto simp: started_def awake_def)
  ultimately show ?thesis
    by (auto simp: nodes_ready_def intro!: exI [of _ "[]"])
qed

lemma first_ready:
  assumes D: "deployment_ok D" and start: "service_start D S" and win: "0 < dp_client_window D" and writes: "100 \<le> dp_ratio D"
  shows "\<exists>S'. service_step D S S' \<and> client_ready D 0 S' \<and> sv_nodes S' = sv_nodes S
    \<and> sv_filters S' = sv_filters S \<and> sv_out S' = sv_out S"
proof -
  let ?c = "new_client (dp_prefix D) (dp_client_window D) (dp_ratio D) (dp_read_node D)" and ?E = "dp_wire D"
  have "client_main (dp_wire D) (dp_mode D) (dp_uri D) (client_args D)
      = Inr (Some (Client_init (dp_wire D) (dp_mode D) (dp_uri D) (dp_prefix D) (dp_client_window D) (dp_ratio D) (dp_read_node D)))"
    unfolding client_args_def dp_prefix_def using D
    by (intro client_main_starts) (simp add: deployment_ok_def fits_int_def)
  then have run: "sv_run S = client_start (dp_mode D) ?c" "sv_answers S = []"
    using start by (auto simp: service_start_def Client_init_def Let_def)
  have R: "cr_client (sv_run S) = ?c" "cr_issued (sv_run S) = 0" "cr_sent (sv_run S) = []" "cr_pending (sv_run S) = []" "cr_current (sv_run S) = None"
    using D by (simp_all add: run client_start_def deployment_ok_def)
  let ?nm = "request_name ?E ?c 0 0 0"
  let ?c1 = "?c\<lparr>commit_counter := Suc 0, rand_counter := rand_after ?c 0, starts := (starts ?c)(0 := 0)\<rparr>"
  let ?R1 = "(sv_run S)\<lparr>cr_client := ?c1, cr_issued := 1, cr_sent := [?nm], cr_pending := [?nm]\<rparr>"
  have "type_after ?c 0 = 0"
    using writes by (simp add: type_after_def mixed_def new_client_def)
  moreover have counter: "commit_counter ?c = 0" "(0 :: nat) < starts_size"
    by (simp_all add: new_client_def starts_size_def)
  ultimately have "first_request ?E (int (cr_issued (sv_run S))) 0 0 (cr_client (sv_run S)) = Inr (?c1, ?nm)"
    by (simp add: first_request_eq R)
  moreover have "int (cr_issued (sv_run S)) < com_win (cr_client (sv_run S))"
    using win by (simp add: R) (simp add: new_client_def)
  ultimately have "client_step ?E (sv_run S) ?R1"
    using client_step.step_first [of "sv_run S" ?E 0 0 ?c1 ?nm] by (simp add: R)
  then have "service_step D S (S\<lparr>sv_run := ?R1\<rparr>)"
    by (intro service_step.step_client) (simp_all add: R)
  moreover have "client_ready D 0 (S\<lparr>sv_run := ?R1\<rparr>)"
    using writes R run(2) request_name_cong [of ?c1 ?c ?E] by (auto simp: client_ready_def Let_def) (simp_all add: new_client_def)
  ultimately show ?thesis
    by (intro exI [of _ "S\<lparr>sv_run := ?R1\<rparr>"]) simp
qed

lemma nodes_ready_cong:
  "nodes_ready D k S \<Longrightarrow> sv_nodes S' = sv_nodes S \<Longrightarrow> sv_filters S' = sv_filters S \<Longrightarrow> sv_out S' = sv_out S
     \<Longrightarrow> nodes_ready D k S'"
  by (simp add: nodes_ready_def awake_def)

lemma client_ready_cong:
  "client_ready D k S \<Longrightarrow> sv_run S' = sv_run S \<Longrightarrow> sv_answers S' = sv_answers S \<Longrightarrow> client_ready D k S'"
  by (simp add: client_ready_def)

text \<open>One more request.\<close>

lemma service_round:
  assumes D: "deployment_ok D" and reach: "service_reach D S" and nodes: "nodes_ready D k S" and client: "client_ready D k S"
    and two: "2 \<le> dp_n D" and small: "Suc k < starts_size"
  shows "\<exists>S'. (service_step D)\<^sup>*\<^sup>* S S' \<and> nodes_ready D (Suc k) S' \<and> client_ready D (Suc k) S'"
proof -
  let ?nm = "cr_sent (sv_run S) ! k"
  obtain i where nm: "?nm = request_name (dp_wire D) (cr_client (sv_run S)) 0 i k" "k < length (cr_sent (sv_run S))"
    using client by (auto simp: client_ready_def Let_def)
  have shape: "?nm = dp_prefix D @ [''commit'', enc_number (dp_wire D) 0, enc_number (dp_wire D) (int_to_number i), enc_number (dp_wire D) k, value_text k i]"
    unfolding nm(1) request_name_def reach_client_prefix [OF reach D] by simp
  have nums: "int_to_number i < 2 ^ 64" "k < 2 ^ 64" "Suc k < 2 ^ 64"
    using unsigned_less [of "of_int i :: 64 word"] small by (simp_all add: int_to_number_def starts_size_def)
  have "?nm \<in> set (cr_sent (sv_run S))"
    using nm(2) by simp
  from node_round [OF D reach nodes two nums(3) this shape nums(1,2)]
  obtain S1 content where S1: "(service_step D)\<^sup>*\<^sup>* S S1" "nodes_ready D (Suc k) S1" "sv_run S1 = sv_run S" "sv_answers S1 = sv_answers S"
      "offers (?nm @ [enc_number (dp_wire D) (Suc k)]) content (sv_out S1 0)"
    by blast
  obtain S2 where "(service_step D)\<^sup>*\<^sup>* S1 S2" "client_ready D (Suc k) S2" "sv_nodes S2 = sv_nodes S1" "sv_filters S2 = sv_filters S1"
      "sv_out S2 = sv_out S1"
    using client_round [OF D client_ready_cong [OF client S1(3,4)] small, of content] S1(3,5) by auto
  then show ?thesis
    using S1(1,2) nodes_ready_cong by (meson rtranclp_trans)
qed

lemma service_rounds:
  assumes D: "deployment_ok D" and "dp_n D \<in> {2, 3}" and "0 < dp_window D" and "0 < dp_client_window D" and "100 \<le> dp_ratio D"
    and "k < starts_size"
  shows "\<exists>S. service_reach D S \<and> nodes_ready D k S \<and> client_ready D k S"
  using assms(6)
proof (induction k)
  case 0
  obtain S0 where S0: "service_start D S0"
    using service_starts [OF D] by blast
  obtain S where S: "service_step D S0 S" "client_ready D 0 S" "sv_nodes S = sv_nodes S0" "sv_filters S = sv_filters S0"
      "sv_out S = sv_out S0"
    using first_ready [OF D S0 assms(4,5)] by blast
  then show ?case
    using S0 nodes_ready_cong [OF start_ready [OF D S0 assms(2,3)] S(3-5)] by (auto simp: service_reach_def)
next
  case (Suc k)
  then obtain S where "service_reach D S" "nodes_ready D k S" "client_ready D k S"
    by auto
  then show ?case
    using service_round [OF D _ _ _ _ Suc.prems] assms(2) reach_steps by (metis insert_iff numeral_2_eq_2 numeral_3_eq_3 le_SucI order_refl singletonD)
qed

end
