(* ===== verification/Text_Wire.thy ===== *)
theory Text_Wire
  imports Main_Programs
begin

text \<open>
  A wire on which whole runs can be computed: messages are written as lists of decimal numbers,
  each ended by a comma. It meets what the theorems ask of the serialization, so the witnesses can
  run all programs together.
\<close>

section \<open>Lists of numbers as text\<close>

definition numbers_text :: "nat list \<Rightarrow> string" where
  "numbers_text ns = concat (map (\<lambda>n. decimal n @ '','') ns)"

function text_numbers :: "string \<Rightarrow> nat list" where
  "text_numbers s = (if s = [] then []
     else undecimal (takeWhile is_digit s) # text_numbers (drop 1 (dropWhile is_digit s)))"
  by pat_completeness auto

termination
proof (relation "measure length")
  fix s :: string
  assume "s \<noteq> []"
  then have "0 < length s" by simp
  then show "(drop 1 (dropWhile is_digit s), s) \<in> measure length"
    using length_dropWhile_le [of is_digit s] unfolding in_measure length_drop by linarith
qed simp

declare text_numbers.simps [simp del]

lemma text_numbers_text: "text_numbers (numbers_text ns) = ns"
proof (induction ns)
  case Nil
  then show ?case by (simp add: numbers_text_def text_numbers.simps)
next
  case (Cons n ns)
  have "\<not> is_digit (CHR '','')"
    by (simp add: is_digit_def)
  then have "takeWhile is_digit (decimal n @ '','' @ t) = decimal n" "dropWhile is_digit (decimal n @ '','' @ t) = '','' @ t" for t
    using decimal_digits [of n] by (simp_all add: takeWhile_append2 dropWhile_append2)
  then have "text_numbers (decimal n @ '','' @ t) = n # text_numbers t" for t
    by (subst text_numbers.simps) (simp add: undecimal_decimal)
  then show ?case
    using Cons by (simp add: numbers_text_def)
qed

section \<open>Fields\<close>

text \<open>Each field is written in front of the rest and taken off it again.\<close>

definition put_word :: "'a::len word \<Rightarrow> nat list \<Rightarrow> nat list" where
  "put_word w r = unat w # r"

definition get_word :: "nat list \<Rightarrow> 'a::len word \<times> nat list" where
  "get_word r = (of_nat (hd r), tl r)"

definition put_bool :: "bool \<Rightarrow> nat list \<Rightarrow> nat list" where
  "put_bool b r = (if b then 1 else 0) # r"

definition get_bool :: "nat list \<Rightarrow> bool \<times> nat list" where
  "get_bool r = (hd r = 1, tl r)"

definition put_string :: "string \<Rightarrow> nat list \<Rightarrow> nat list" where
  "put_string s r = length s # map of_char s @ r"

definition get_string :: "nat list \<Rightarrow> string \<times> nat list" where
  "get_string r = (map char_of (take (hd r) (tl r)), drop (hd r) (tl r))"

definition put_option :: "('a \<Rightarrow> nat list \<Rightarrow> nat list) \<Rightarrow> 'a option \<Rightarrow> nat list \<Rightarrow> nat list" where
  "put_option put x r = (case x of None \<Rightarrow> 0 # r | Some y \<Rightarrow> 1 # put y r)"

definition get_option :: "(nat list \<Rightarrow> 'a \<times> nat list) \<Rightarrow> nat list \<Rightarrow> 'a option \<times> nat list" where
  "get_option get r = (if hd r = 0 then (None, tl r) else let (y, r') = get (tl r) in (Some y, r'))"

fun cmd_code :: "cmd_type \<Rightarrow> nat" where
  "cmd_code SET_MASTER = 0"
| "cmd_code REPLY_DECIDE = 1"
| "cmd_code REPLY_TEACH = 2"
| "cmd_code SET_QUORUM = 3"

definition code_cmd :: "nat \<Rightarrow> cmd_type" where
  "code_cmd n = (if n = 0 then SET_MASTER else if n = 1 then REPLY_DECIDE else if n = 2 then REPLY_TEACH else SET_QUORUM)"

definition put_cmd :: "cmd_type \<Rightarrow> nat list \<Rightarrow> nat list" where
  "put_cmd c r = cmd_code c # r"

definition get_cmd :: "nat list \<Rightarrow> cmd_type \<times> nat list" where
  "get_cmd r = (code_cmd (hd r), tl r)"

definition put_header :: "msg_header \<Rightarrow> nat list \<Rightarrow> nat list" where
  "put_header h r = msg_type_code (hdr_type h) # put_word (hdr_node h) (hdr_slot h # r)"

definition get_header :: "nat list \<Rightarrow> msg_header \<times> nat list" where
  "get_header r = (let t = the (msg_type_of_code (int (hd r))); (n, r1) = get_word (tl r)
     in (\<lparr>hdr_type = t, hdr_node = n, hdr_slot = hd r1\<rparr>, tl r1))"

definition put_prop_value :: "prop_value \<Rightarrow> nat list \<Rightarrow> nat list" where
  "put_prop_value v r = put_word (pv_id v) (put_string (pv_data v) (put_option put_cmd (pv_cmd v) (put_option put_bool (pv_integrity v) r)))"

definition get_prop_value :: "nat list \<Rightarrow> prop_value \<times> nat list" where
  "get_prop_value r = (let (i, r1) = get_word r; (d, r2) = get_string r1; (c, r3) = get_option get_cmd r2; (b, r4) = get_option get_bool r3
     in (\<lparr>pv_id = i, pv_data = d, pv_cmd = c, pv_integrity = b\<rparr>, r4))"

lemma put_get_fields [simp]:
  "get_word (put_word w r) = (w, r)" "get_bool (put_bool b r) = (b, r)" "get_string (put_string s r) = (s, r)"
  "get_cmd (put_cmd c r) = (c, r)" "get_header (put_header h r) = (h, r)"
  by (cases c; simp_all add: put_word_def get_word_def put_bool_def get_bool_def put_string_def get_string_def
      put_cmd_def get_cmd_def code_cmd_def put_header_def get_header_def comp_def)+

lemma put_get_option [simp]:
  "(\<And>y r. get (put y r) = (y, r)) \<Longrightarrow> get_option get (put_option put x r) = (x, r)"
  by (simp add: get_option_def put_option_def split: option.splits)

lemma put_get_prop_value [simp]: "get_prop_value (put_prop_value v r) = (v, r)"
  by (simp add: put_prop_value_def get_prop_value_def)

section \<open>Messages\<close>

fun msg_numbers :: "msg \<Rightarrow> nat list" where
  "msg_numbers (Prepare m) = put_header (pre_header m) (put_word (pre_ballot m) [])"
| "msg_numbers (Ack_prepare m) = put_header (ackp_header m) (put_word (ackp_ballot m) (put_bool (ackp_reply m)
     (put_word (ackp_max_ballot m) (put_option put_prop_value (ackp_max_value m) []))))"
| "msg_numbers (Accept m) = put_header (acc_header m) (put_word (acc_ballot m) (put_prop_value (acc_value m)
     (put_option (#) (acc_last_slot m) (put_option put_word (acc_last_value m) []))))"
| "msg_numbers (Ack_accept m) = put_header (acka_header m) (put_word (acka_ballot m) (put_bool (acka_reply m) []))"
| "msg_numbers (Commit m) = put_header (com_header m) (put_prop_value (com_value m) [])"
| "msg_numbers m = []"

definition get_number_field :: "nat list \<Rightarrow> nat \<times> nat list" where
  "get_number_field r = (hd r, tl r)"

definition numbers_msg :: "msg_type \<Rightarrow> nat list \<Rightarrow> msg" where
  "numbers_msg t r0 = (let (h, r) = get_header r0 in case t of
       PREPARE \<Rightarrow> let (b, r) = get_word r in Prepare \<lparr>pre_header = h, pre_ballot = b\<rparr>
     | PROMISE \<Rightarrow> let (b, r) = get_word r; (y, r) = get_bool r; (mb, r) = get_word r; (mv, r) = get_option get_prop_value r
         in Ack_prepare \<lparr>ackp_header = h, ackp_ballot = b, ackp_reply = y, ackp_max_ballot = mb, ackp_max_value = mv\<rparr>
     | ACCEPT \<Rightarrow> let (b, r) = get_word r; (v, r) = get_prop_value r; (ls, r) = get_option get_number_field r; (lv, r) = get_option get_word r
         in Accept \<lparr>acc_header = h, acc_ballot = b, acc_value = v, acc_last_slot = ls, acc_last_value = lv\<rparr>
     | ACCEPTED \<Rightarrow> let (b, r) = get_word r; (y, r) = get_bool r in Ack_accept \<lparr>acka_header = h, acka_ballot = b, acka_reply = y\<rparr>
     | COMMIT \<Rightarrow> let (v, r) = get_prop_value r in Commit \<lparr>com_header = h, com_value = v\<rparr>
     | _ \<Rightarrow> learn_1)"

lemma put_get_number_option [simp]: "get_option get_number_field (put_option (#) x r) = (x, r)"
  by (simp add: get_number_field_def)

lemma numbers_msg_numbers:
  assumes "type_of_msg m \<in> {PREPARE, PROMISE, ACCEPT, ACCEPTED, COMMIT}"
  shows "numbers_msg (type_of_msg m) (msg_numbers m) = m"
  using assms by (cases m) (simp_all add: numbers_msg_def)

definition text_wire :: externals where
  "text_wire = \<lparr>uri_name = (\<lambda>s. [s]), enc_number = decimal, dec_number = (\<lambda>s. Some (undecimal s)), comp_uri = (\<lambda>s. s),
     serialize = (\<lambda>m. numbers_text (msg_numbers m)), parse_as = (\<lambda>t s. numbers_msg t (text_numbers s))\<rparr>"

lemma text_wire_roundtrip:
  "type_of_msg m \<in> {PREPARE, PROMISE, ACCEPT, ACCEPTED, COMMIT} \<Longrightarrow> parse_as text_wire (type_of_msg m) (serialize text_wire m) = m"
  "number_codec_ok text_wire"
  using numbers_msg_numbers by (simp_all add: text_wire_def text_numbers_text number_codec_ok_def undecimal_decimal)

end
