(* ===== verification/Service_Promises.thy ===== *)
theory Service_Promises
  imports Service_Live Text_Wire
begin

text \<open>
  What the service promises its client, whatever the network does: no packet makes a program fail,
  all logs agree and hold what the client asked for, every answer to a write names the slot that
  holds the value, and the slots follow the order of the requests.
\<close>

section \<open>Two nodes\<close>

text \<open>A deployment on which the programs are run.\<close>

definition pair_config :: config where
  "pair_config = \<lparr>cfg_prefix = ''/ndn/thu/naxos'',
     cfg_host = [\<lparr>host_name = ''node0'', host_addr = ''localhost''\<rparr>, \<lparr>host_name = ''node1'', host_addr = ''localhost''\<rparr>],
     cfg_lease = Some \<lparr>lease_master_id = 0, lease_period = 1000, lease_length = 100000\<rparr>, cfg_db = None\<rparr>"

definition pair_deployment :: deployment where
  "pair_deployment = \<lparr>dp_wire = text_wire, dp_mode = Mode_default, dp_load = (\<lambda>_. pair_config), dp_append = slash_append,
     dp_uri = concat, dp_nodes = 2, dp_window = 1, dp_local = 0, dp_log_size = 0,
     dp_client_window = 1, dp_ratio = 100, dp_read_node = 1\<rparr>"

lemma pair_hosts: "dp_hosts pair_deployment = [''node0'', ''node1'']"
  by (simp add: dp_hosts_def dp_config_def pair_deployment_def pair_config_def)

lemma text_wire_ok: "''log'' \<notin> set hs \<Longrightarrow> ''commit'' \<notin> set hs \<Longrightarrow> wire_ok text_wire hs"
  using text_wire_roundtrip unfolding wire_ok_def by blast

lemma pair_ok: "deployment_ok pair_deployment"
proof -
  have "wire_ok text_wire [''node0'', ''node1'']"
    by (rule text_wire_ok) simp_all
  then show ?thesis
    by (simp add: deployment_ok_def pair_hosts) (simp add: pair_deployment_def dp_config_def pair_config_def fits_int_def)
qed

lemma pair_rounds:
  assumes "k < starts_size"
  shows "\<exists>S. service_reach pair_deployment S \<and> nodes_ready pair_deployment k S \<and> client_ready pair_deployment k S"
  using assms by (intro service_rounds [OF pair_ok]) (simp_all add: pair_hosts, simp_all add: pair_deployment_def)

lemma ready_answers:
  assumes "client_ready D k S" and "j < k"
  shows "\<exists>content. (cr_sent (sv_run S) ! j, cr_sent (sv_run S) ! j @ [enc_number (dp_wire D) (Suc j)], content) \<in> set (sv_answers S)"
proof -
  have "set (map (\<lambda>(nm, q, content). (nm, q)) (sv_answers S))
      = set (map (\<lambda>j. (cr_sent (sv_run S) ! j, cr_sent (sv_run S) ! j @ [enc_number (dp_wire D) (Suc j)])) [0..<k])"
    using assms(1) by (simp only: client_ready_def Let_def)
  moreover have "(cr_sent (sv_run S) ! j, cr_sent (sv_run S) ! j @ [enc_number (dp_wire D) (Suc j)])
      \<in> set (map (\<lambda>j. (cr_sent (sv_run S) ! j, cr_sent (sv_run S) ! j @ [enc_number (dp_wire D) (Suc j)])) [0..<k])"
    using assms(2) by simp
  ultimately show ?thesis
    by force
qed

lemma answered_is_write:
  assumes "deployment_ok D" and "service_reach D S" and "(nm, nm @ [x], content) \<in> set (sv_answers S)"
  shows "get_number (dp_wire D) nm 4 = Inr 0"
proof (rule ccontr)
  assume "get_number (dp_wire D) nm 4 \<noteq> Inr 0"
  moreover obtain A where "service_inv D A S"
    using service_reach_inv [OF assms(2,1)] by blast
  ultimately show False
    using answered_read [OF assms(1) _ assms(3)] by auto
qed

lemma sent_number:
  assumes "service_reach D S" and "deployment_ok D" and "j < length (cr_sent (sv_run S))"
  shows "get_number (dp_wire D) (cr_sent (sv_run S) ! j) 2 = Inr j"
proof -
  obtain A where "service_inv D A S"
    using service_reach_inv [OF assms(1,2)] by blast
  then have "numbered (dp_wire D) (sv_run S)"
    using client_reach_inv by (auto simp: service_inv_def)
  then obtain t i where at: "cr_sent (sv_run S) ! j = request_name (dp_wire D) (cr_client (sv_run S)) t i j" "t \<le> 1" "j < starts_size"
    using assms(3) unfolding numbered_def by (meson less_le_trans)
  have "number_codec_ok (dp_wire D)" "t < 2 ^ 64" "j < 2 ^ 64"
    using assms(2) at(2,3) by (simp_all add: deployment_ok_def wire_ok_def starts_size_def)
  from request_parts(2) [OF this] show ?thesis
    by (simp add: at(1))
qed

section \<open>The theorems\<close>

text \<open>
  C4. No packet makes a program of the service fail, and only one kind stops a node: whatever the
  network has done before, every interest, data packet and task that can reach a node is handled to
  the end without an exception. The handler gives the thread back, except for a write request at a
  node that is not the master, for which the thread waits in \<^verbatim>\<open>commit\<close>; the client's own routes never
  lead a write there, but any other member of the quorum has a filter for it. And every reply to a
  pending request is recorded by the client.
\<close>

theorem service_runs_on:
  assumes "deployment_ok D" and "service_reach D S"
  shows "(\<forall>e. service_can D e S \<longrightarrow> (\<exists>nd effs. event_runs D e (sv_nodes S (event_node e)) = Some (Inr (nd, effs))
        \<and> Blocked_forever \<notin> set effs
        \<and> (Wait_for_commit \<in> set effs \<longleftrightarrow> (\<exists>k nm h. e = Client_asks k nm h \<and> k \<noteq> 0 \<and> get_number (dp_wire D) nm 4 = Inr 0))))
    \<and> (\<forall>nm \<in> set (cr_sent (sv_run S)). \<forall>k. routed D (cr_client (sv_run S)) nm k \<longrightarrow> get_number (dp_wire D) nm 4 = Inr 0 \<longrightarrow> k = 0)
    \<and> (\<forall>nm \<in> set (cr_pending (sv_run S)). \<exists>i k c. reply_numbers (dp_wire D) nm = Inr (i, k)
        \<and> record_reply i seen (cr_client (sv_run S)) = Inr c)"
proof -
  obtain A where inv: "service_inv D A S"
    using service_reach_inv assms by blast
  have elsewhere: "write_elsewhere D e \<longleftrightarrow> (\<exists>k nm h. e = Client_asks k nm h \<and> k \<noteq> 0 \<and> get_number (dp_wire D) nm 4 = Inr 0)" for e
    by (cases e) (auto simp: write_elsewhere_def)
  have "\<exists>nd effs. event_runs D e (sv_nodes S (event_node e)) = Some (Inr (nd, effs)) \<and> Blocked_forever \<notin> set effs
      \<and> (Wait_for_commit \<in> set effs \<longleftrightarrow> (\<exists>k nm h. e = Client_asks k nm h \<and> k \<noteq> 0 \<and> get_number (dp_wire D) nm 4 = Inr 0))"
    if "service_can D e S" for e
    using event_runs_on [OF assms(1) inv that] event_waits [OF assms(1) inv that] unfolding elsewhere by blast
  moreover have "k = 0" if "nm \<in> set (cr_sent (sv_run S))" "routed D (cr_client (sv_run S)) nm k" "get_number (dp_wire D) nm 4 = Inr 0" for nm k
    using routed_write [OF _ _ reach_client_prefix [OF assms(2,1)] _ that(3,2)] service_owners(3) [OF inv] that(1) assms(1)
    by (simp add: deployment_ok_def wire_ok_def)
  moreover have "\<exists>i k c. reply_numbers (dp_wire D) nm = Inr (i, k) \<and> record_reply i seen (cr_client (sv_run S)) = Inr c"
    if "nm \<in> set (cr_pending (sv_run S))" for nm
    using reply_recorded [OF assms(1) inv] service_pending [OF inv] that by blast
  ultimately show ?thesis
    by (intro conjI ballI allI impI) simp_all
qed

theorem service_runs_on_witness:
  "\<exists>S nm nd0 effs0 nd1 effs1. service_reach pair_deployment S \<and> nm \<in> set (cr_pending (sv_run S))
    \<and> event_runs pair_deployment (Client_asks 0 nm On_interest_commit) (sv_nodes S 0) = Some (Inr (nd0, effs0)) \<and> Wait_for_commit \<notin> set effs0
    \<and> event_runs pair_deployment (Client_asks 1 nm On_interest_commit) (sv_nodes S 1) = Some (Inr (nd1, effs1)) \<and> Wait_for_commit \<in> set effs1
    \<and> (\<exists>i k c. reply_numbers text_wire nm = Inr (i, k) \<and> record_reply i 7 (cr_client (sv_run S)) = Inr c)"
proof -
  let ?D = pair_deployment
  obtain S where S: "service_reach ?D S" "nodes_ready ?D 1 S" "client_ready ?D 1 S"
    using pair_rounds [of 1] by (auto simp: starts_size_def)
  let ?nm = "cr_sent (sv_run S) ! 1"
  have nm: "?nm \<in> set (cr_pending (sv_run S))" "?nm \<in> set (cr_sent (sv_run S))"
    using S(3) by (simp_all add: client_ready_def Let_def)
  obtain i where at: "?nm = request_name (dp_wire ?D) (cr_client (sv_run S)) 0 i 1"
    using S(3) by (auto simp: client_ready_def Let_def)
  have codec: "number_codec_ok (dp_wire ?D)"
    using pair_ok by (simp add: deployment_ok_def wire_ok_def)
  have shape: "?nm = dp_prefix ?D @ ''commit'' # enc_number (dp_wire ?D) 0 # drop (length (dp_prefix ?D) + 2) ?nm"
    unfolding at request_name_def reach_client_prefix [OF S(1) pair_ok] by simp
  have "(0 :: nat) < 2 ^ 64" "(1 :: nat) < 2 ^ 64"
    by simp_all
  then have zero: "get_number (dp_wire ?D) ?nm 4 = Inr 0"
    unfolding at by (rule request_parts(4) [OF codec])
  have can: "service_can ?D (Client_asks 0 ?nm On_interest_commit) S" "service_can ?D (Client_asks 1 ?nm On_interest_commit) S"
    using write_can [OF pair_ok S(1) nm(2) _ _ _ shape, of True 0] write_can [OF pair_ok S(1) nm(2) _ _ _ shape, of False 1] S(2)
    unfolding nodes_ready_def by (simp_all add: pair_hosts)
  note runs = service_runs_on [OF pair_ok S(1), of 7]
  obtain nd0 effs0 where "event_runs ?D (Client_asks 0 ?nm On_interest_commit) (sv_nodes S 0) = Some (Inr (nd0, effs0))" "Wait_for_commit \<notin> set effs0"
    using mp [OF spec [OF conjunct1 [OF runs]] can(1)] by auto
  moreover obtain nd1 effs1 where "event_runs ?D (Client_asks 1 ?nm On_interest_commit) (sv_nodes S 1) = Some (Inr (nd1, effs1))" "Wait_for_commit \<in> set effs1"
    using mp [OF spec [OF conjunct1 [OF runs]] can(2)] zero by auto
  moreover have "\<exists>i k c. reply_numbers text_wire ?nm = Inr (i, k) \<and> record_reply i 7 (cr_client (sv_run S)) = Inr c"
    using bspec [OF conjunct2 [OF conjunct2 [OF runs]] nm(1)] by (simp add: pair_deployment_def)
  ultimately show ?thesis
    using S(1) nm(1) by blast
qed

text \<open>
  C3. The logs of the service agree, with all programs and the network together: what one node has
  chosen for a slot, no node has chosen otherwise, and it is the text of a write request the
  client has sent.
\<close>

theorem service_logs_agree:
  assumes "deployment_ok D" and "service_reach D S" and "unat j < length (dp_hosts D)"
    and "chosen_at (nd_captain (sv_nodes S j)) s = Some v"
  shows "(\<forall>k w. unat k < length (dp_hosts D) \<longrightarrow> chosen_at (nd_captain (sv_nodes S k)) s = Some w \<longrightarrow> w = v)
    \<and> (\<exists>nm \<in> set (cr_sent (sv_run S)). get_number (dp_wire D) nm 4 = Inr 0 \<and> pv_data v = comp_uri (dp_wire D) (last nm))"
proof -
  obtain A where inv: "service_inv D A S"
    using service_reach_inv assms(1,2) by blast
  obtain nm where nm: "A s = Some (v, nm)" "(v, nm) \<in> requests D S"
    using chosen_owned [OF inv assms(3,4)] by blast
  have "w = v" if "unat k < dp_n D" "chosen_at (nd_captain (sv_nodes S k)) s = Some w" for k w
    using chosen_owned [OF inv that] nm(1) by auto
  then show ?thesis
    using nm(2) by (auto simp: requested_def)
qed

theorem service_logs_agree_witness:
  "\<exists>S v. service_reach pair_deployment S \<and> chosen_at (nd_captain (sv_nodes S 1)) 1 = Some v
    \<and> chosen_at (nd_captain (sv_nodes S 0)) 1 = Some v
    \<and> (\<exists>nm \<in> set (cr_sent (sv_run S)). pv_data v = last nm)"
proof -
  obtain S where S: "service_reach pair_deployment S" "nodes_ready pair_deployment 2 S"
    using pair_rounds [of 2] by (auto simp: starts_size_def)
  obtain vs where vs: "length vs = 2" "leading vs (nd_captain (sv_nodes S 0))" "following vs (nd_captain (sv_nodes S 1))"
    using S(2) by (auto simp: nodes_ready_def)
  obtain v w where two: "vs = [v, w]"
    using vs(1) by (auto simp: numeral_2_eq_2 length_Suc_conv)
  have at: "chosen_at (nd_captain (sv_nodes S 1)) 1 = Some v" "chosen_at (nd_captain (sv_nodes S 0)) 1 = Some v"
    using vs(2,3) by (simp_all add: leading_def following_def log_is_def chosen_at_def two)
  have "unat (1 :: node_id) < length (dp_hosts pair_deployment)"
    by (simp add: pair_hosts)
  from service_logs_agree [OF pair_ok S(1) this at(1)] show ?thesis
    using S(1) at by (auto simp: pair_deployment_def text_wire_def)
qed

text \<open>
  C1. What an answer tells the client: the answer to a write names a slot, the master has chosen
  the text of this very request for it, and no node has another value there; the answer to a read
  is the fixed text, under the name of the request.
\<close>

theorem service_answers:
  assumes "deployment_ok D" and "service_reach D S" and "(nm, q, content) \<in> set (sv_answers S)"
  shows "nm \<in> set (cr_sent (sv_run S))
    \<and> (if get_number (dp_wire D) nm 4 = Inr 0
       then \<exists>s v. q = nm @ [enc_number (dp_wire D) s] \<and> chosen_at (nd_captain (sv_nodes S 0)) s = Some v
         \<and> pv_data v = comp_uri (dp_wire D) (last nm)
         \<and> (\<forall>k w. unat k < length (dp_hosts D) \<longrightarrow> chosen_at (nd_captain (sv_nodes S k)) s = Some w \<longrightarrow> w = v)
       else q = nm \<and> content = ''Need to change here'')"
proof -
  obtain A where inv: "service_inv D A S"
    using service_reach_inv assms(1,2) by blast
  have sent: "nm \<in> set (cr_sent (sv_run S))"
    using inv assms(3) unfolding service_inv_def answers_inv_def by blast
  show ?thesis
  proof (cases "get_number (dp_wire D) nm 4 = Inr 0")
    case True
    obtain s v where at: "A s = Some (v, nm)" "q = nm @ [enc_number (dp_wire D) s]" "chosen_at (nd_captain (sv_nodes S 0)) s = Some v"
      using answered_write [OF assms(1) inv assms(3) True] by blast
    have "(v, nm) \<in> requests D S"
      using inv at(1) unfolding service_inv_def by (meson ranI subsetD)
    then have "pv_data v = comp_uri (dp_wire D) (last nm)"
      by (simp add: requested_def)
    moreover have "w = v" if "unat k < dp_n D" "chosen_at (nd_captain (sv_nodes S k)) s = Some w" for k w
      using chosen_owned [OF inv that] at(1) by auto
    ultimately show ?thesis
      using sent True at by auto
  next
    case False
    then show ?thesis
      using sent answered_read [OF assms(1) inv assms(3)] by simp
  qed
qed

theorem service_answers_witness:
  "\<exists>S nm content v. service_reach pair_deployment S \<and> (nm, nm @ [''1''], content) \<in> set (sv_answers S)
    \<and> chosen_at (nd_captain (sv_nodes S 0)) 1 = Some v \<and> pv_data v = last nm"
proof -
  obtain S where S: "service_reach pair_deployment S" "client_ready pair_deployment 2 S"
    using pair_rounds [of 2] by (auto simp: starts_size_def)
  let ?nm = "cr_sent (sv_run S) ! 0"
  obtain content where one: "(?nm, ?nm @ [decimal 1], content) \<in> set (sv_answers S)"
    using ready_answers [OF S(2), of 0] by (auto simp: pair_deployment_def text_wire_def)
  have "decimal 1 = ''1''"
    by code_simp
  moreover from service_answers [OF pair_ok S(1) one]
  obtain s v where "?nm @ [decimal 1] = ?nm @ [decimal s]" "chosen_at (nd_captain (sv_nodes S 0)) s = Some v" "pv_data v = last ?nm"
    by (auto simp: pair_deployment_def text_wire_def split: if_splits)
  ultimately show ?thesis
    using S(1) one decimal_inj by (intro exI [of _ S] exI [of _ ?nm] exI [of _ content] exI [of _ v]) auto
qed

text \<open>
  C2. The slots are in the order the client can see: two write requests never get the same slot,
  and a request that is sent only after another one is answered gets a later slot.
\<close>

theorem service_order:
  assumes "deployment_ok D" and "service_reach D S" and "(service_step D)\<^sup>*\<^sup>* S S'"
    and "(nm1, q1, content1) \<in> set (sv_answers S)" and "get_number (dp_wire D) nm1 4 = Inr 0"
    and "(nm2, q2, content2) \<in> set (sv_answers S')" and "get_number (dp_wire D) nm2 4 = Inr 0"
  shows "\<exists>s1 s2. q1 = nm1 @ [enc_number (dp_wire D) s1] \<and> q2 = nm2 @ [enc_number (dp_wire D) s2]
    \<and> (nm1 \<noteq> nm2 \<longrightarrow> s1 \<noteq> s2) \<and> (nm2 \<notin> set (cr_sent (sv_run S)) \<longrightarrow> s1 < s2)"
proof -
  obtain A where inv: "service_inv D A S"
    using service_reach_inv assms(1,2) by blast
  obtain A' where A': "A \<subseteq>\<^sub>m A'" "service_inv D A' S'"
    using service_steps_inv [OF assms(3,1) inv] by blast
  obtain s1 v1 where one: "A s1 = Some (v1, nm1)" "q1 = nm1 @ [enc_number (dp_wire D) s1]"
    using answered_write [OF assms(1) inv assms(4,5)] by blast
  obtain s2 v2 where two: "A' s2 = Some (v2, nm2)" "q2 = nm2 @ [enc_number (dp_wire D) s2]"
    using answered_write [OF assms(1) A'(2) assms(6,7)] by blast
  have "nm1 = nm2" if "s1 = s2"
    using map_le_Some [OF A'(1) one(1)] two(1) that by simp
  moreover have "s1 < s2" if "nm2 \<notin> set (cr_sent (sv_run S))"
  proof (rule ccontr)
    assume "\<not> s1 < s2"
    moreover have "s1 \<in> dom A" "s2 \<in> dom A'"
      using one(1) two(1) by blast+
    ultimately have "s2 \<in> dom A"
      unfolding master_slots [OF assms(1) inv] master_slots [OF assms(1) A'(2)] by auto
    then obtain x where "A s2 = Some x"
      by blast
    then have "A s2 = Some (v2, nm2)"
      using map_le_Some [OF A'(1)] two(1) by fastforce
    then have "(v2, nm2) \<in> requests D S"
      using inv unfolding service_inv_def by (meson ranI subsetD)
    then show False
      using that by (simp add: requested_def)
  qed
  ultimately show ?thesis
    using one(2) two(2) by blast
qed

theorem service_order_witness:
  "\<exists>S S' nm1 q1 content1 nm2 q2 content2 s1 s2. service_reach pair_deployment S \<and> (service_step pair_deployment)\<^sup>*\<^sup>* S S'
    \<and> (nm1, q1, content1) \<in> set (sv_answers S) \<and> (nm2, q2, content2) \<in> set (sv_answers S')
    \<and> q1 = nm1 @ [decimal s1] \<and> q2 = nm2 @ [decimal s2] \<and> s1 < s2"
proof -
  let ?D = pair_deployment
  obtain S where S: "service_reach ?D S" "nodes_ready ?D 1 S" "client_ready ?D 1 S"
    using pair_rounds [of 1] by (auto simp: starts_size_def)
  have two: "2 \<le> dp_n ?D"
    by (simp add: pair_hosts)
  obtain S1 where S1: "(service_step ?D)\<^sup>*\<^sup>* S S1" "nodes_ready ?D 2 S1" "client_ready ?D 2 S1"
    using service_round [OF pair_ok S two] by (auto simp: starts_size_def numeral_2_eq_2)
  obtain S2 where S2: "(service_step ?D)\<^sup>*\<^sup>* S1 S2" "nodes_ready ?D 3 S2" "client_ready ?D 3 S2"
    using service_round [OF pair_ok reach_steps [OF S(1) S1(1)] S1(2,3) two] by (auto simp: starts_size_def numeral_3_eq_3 numeral_2_eq_2)
  have steps: "(service_step ?D)\<^sup>*\<^sup>* S S2"
    using S1(1) S2(1) by (rule rtranclp_trans)
  let ?nm1 = "cr_sent (sv_run S) ! 0" and ?nm2 = "cr_sent (sv_run S2) ! 2"
  obtain content1 content2 where answers: "(?nm1, ?nm1 @ [decimal 1], content1) \<in> set (sv_answers S)"
      "(?nm2, ?nm2 @ [decimal 3], content2) \<in> set (sv_answers S2)"
    using ready_answers [OF S(3), of 0] ready_answers [OF S2(3), of 2] by (auto simp: pair_deployment_def text_wire_def)
  have "get_number (dp_wire ?D) ?nm1 4 = Inr 0" "get_number (dp_wire ?D) ?nm2 4 = Inr 0"
    using answered_is_write pair_ok S(1) reach_steps [OF S(1) steps] answers by blast+
  from service_order [OF pair_ok S(1) steps answers(1) this(1) answers(2) this(2)]
  have "?nm2 \<notin> set (cr_sent (sv_run S)) \<longrightarrow> (1 :: nat) < 3 \<and> (\<exists>s1 s2. ?nm1 @ [decimal 1] = ?nm1 @ [decimal s1]
      \<and> ?nm2 @ [decimal 3] = ?nm2 @ [decimal s2] \<and> s1 < s2)"
    by (auto simp: pair_deployment_def text_wire_def)
  moreover have "?nm2 \<notin> set (cr_sent (sv_run S))"
  proof
    assume "?nm2 \<in> set (cr_sent (sv_run S))"
    then obtain j where j: "j < length (cr_sent (sv_run S))" "?nm2 = cr_sent (sv_run S) ! j"
      by (auto simp: in_set_conv_nth)
    have "get_number (dp_wire ?D) ?nm2 2 = Inr j"
      using sent_number [OF S(1) pair_ok j(1)] j(2) by simp
    moreover have "2 < length (cr_sent (sv_run S2))" "length (cr_sent (sv_run S)) = 2"
      using S(3) S2(3) by (simp_all add: client_ready_def Let_def)
    ultimately show False
      using sent_number [OF reach_steps [OF S(1) steps] pair_ok, of 2] j(1) by simp
  qed
  ultimately show ?thesis
    using S(1) steps answers by blast
qed

end
