(* ===== verification/Service_Pipeline.thy ===== *)
theory Service_Pipeline
  imports Service_Promises Pipeline
begin

text \<open>
  The service at full load: the master and the other member of its quorum, from their command
  lines, joined by links that keep their order and lose nothing. Requests come in at any time, the
  packets on the two links are delivered in any order relative to each other and to the requests.
  With three hosts the third one follows the log on its own and takes no part in this.
\<close>

section \<open>Two nodes and their links\<close>












section \<open>What the calls give out\<close>




section \<open>The invariant\<close>








section \<open>Runs\<close>








section \<open>Deliveries\<close>








section \<open>The theorem\<close>







end
